(* ===== verification/Prelude.thy ===== *)
theory Prelude
  imports Main "HOL-Library.Word"
begin

text \<open>
  Shared vocabulary of the development: the C integer types at their widths, the byte order of
  a machine as a flag, bit counting on natural numbers, the case splits that turn a statement
  about a bit index into finitely many ground instances, and the running of a state-passing
  generator for a number of steps.  Every component theory imports this one.
\<close>

unbundle bit_operations_syntax

section \<open>C integer types\<close>

type_synonym u8 = "8 word"
type_synonym u16 = "16 word"
type_synonym u32 = "32 word"
type_synonym i32 = "32 word"
type_synonym u64 = "64 word"
type_synonym u128 = "128 word"

named_theorems bytes_simps \<open>byte order conversions\<close>

lemma unat_less_width [simp]:
  "unat (a::u8) < 256" "unat (b::u16) < 65536" "unat (c::u32) < 4294967296"
  "unat (d::u64) < 18446744073709551616"
  using unsigned_less [of a, where ?'a = nat] unsigned_less [of b, where ?'a = nat]
    unsigned_less [of c, where ?'a = nat] unsigned_less [of d, where ?'a = nat]
  by simp_all

lemma take_bit_unat_width [simp]:
  "take_bit 8 (unat (a::u8)) = unat a" "take_bit 16 (unat (b::u16)) = unat b"
  "take_bit 32 (unat (c::u32)) = unat c" "take_bit 64 (unat (d::u64)) = unat d"
  by (simp_all add: take_bit_nat_eq_self)

section \<open>Case splits on bit positions\<close>

lemma less_4_cases:
  "(n::nat) < 4 \<Longrightarrow>
     n = 3 \<or> n = 2 \<or> n = 1 \<or> n = 0"
  by linarith

lemma less_8_cases:
  "(n::nat) < 8 \<Longrightarrow>
     n = 7 \<or> n = 6 \<or> n = 5 \<or> n = 4 \<or> n = 3 \<or> n = 2 \<or> n = 1 \<or> n = 0"
  by linarith

lemma less_16_cases:
  "(n::nat) < 16 \<Longrightarrow>
     n = 15 \<or> n = 14 \<or> n = 13 \<or> n = 12 \<or> n = 11 \<or> n = 10 \<or> n = 9 \<or> n = 8 \<or>
     n = 7 \<or> n = 6 \<or> n = 5 \<or> n = 4 \<or> n = 3 \<or> n = 2 \<or> n = 1 \<or> n = 0"
  by (auto simp: less_Suc_eq numeral_eq_Suc)

lemma less_32_cases:
  "(n::nat) < 32 \<Longrightarrow>
     n = 31 \<or> n = 30 \<or> n = 29 \<or> n = 28 \<or> n = 27 \<or> n = 26 \<or> n = 25 \<or> n = 24 \<or>
     n = 23 \<or> n = 22 \<or> n = 21 \<or> n = 20 \<or> n = 19 \<or> n = 18 \<or> n = 17 \<or> n = 16 \<or>
     n = 15 \<or> n = 14 \<or> n = 13 \<or> n = 12 \<or> n = 11 \<or> n = 10 \<or> n = 9 \<or> n = 8 \<or>
     n = 7 \<or> n = 6 \<or> n = 5 \<or> n = 4 \<or> n = 3 \<or> n = 2 \<or> n = 1 \<or> n = 0"
  by (auto simp: less_Suc_eq numeral_eq_Suc)

lemma less_64_cases:
  "(n::nat) < 64 \<Longrightarrow>
     n = 63 \<or> n = 62 \<or> n = 61 \<or> n = 60 \<or> n = 59 \<or> n = 58 \<or> n = 57 \<or> n = 56 \<or>
     n = 55 \<or> n = 54 \<or> n = 53 \<or> n = 52 \<or> n = 51 \<or> n = 50 \<or> n = 49 \<or> n = 48 \<or>
     n = 47 \<or> n = 46 \<or> n = 45 \<or> n = 44 \<or> n = 43 \<or> n = 42 \<or> n = 41 \<or> n = 40 \<or>
     n = 39 \<or> n = 38 \<or> n = 37 \<or> n = 36 \<or> n = 35 \<or> n = 34 \<or> n = 33 \<or> n = 32 \<or>
     n = 31 \<or> n = 30 \<or> n = 29 \<or> n = 28 \<or> n = 27 \<or> n = 26 \<or> n = 25 \<or> n = 24 \<or>
     n = 23 \<or> n = 22 \<or> n = 21 \<or> n = 20 \<or> n = 19 \<or> n = 18 \<or> n = 17 \<or> n = 16 \<or>
     n = 15 \<or> n = 14 \<or> n = 13 \<or> n = 12 \<or> n = 11 \<or> n = 10 \<or> n = 9 \<or> n = 8 \<or>
     n = 7 \<or> n = 6 \<or> n = 5 \<or> n = 4 \<or> n = 3 \<or> n = 2 \<or> n = 1 \<or> n = 0"
  by (auto simp: less_Suc_eq numeral_eq_Suc)

section \<open>Counting bits\<close>

text \<open>
  The number of one bits of a natural number, by halving.  It is the reference against which
  the population counts of the code are proved.
\<close>

fun bitcount :: "nat \<Rightarrow> nat" where
  "bitcount n = (if n = 0 then 0 else n mod 2 + bitcount (n div 2))"

declare bitcount.simps [simp del]

lemma bitcount_0 [simp]: "bitcount 0 = 0"
  by (simp add: bitcount.simps)

lemma bitcount_rec: "bitcount n = n mod 2 + bitcount (n div 2)"
  by (cases "n = 0") (simp_all add: bitcount.simps [of n])

lemma bitcount_double [simp]: "bitcount (2 * n) = bitcount n"
  by (subst bitcount_rec) simp

lemma bitcount_double_Suc [simp]: "bitcount (Suc (2 * n)) = Suc (bitcount n)"
  by (subst bitcount_rec) simp

lemma bitcount_add_shifted:
  "a < 2 ^ k \<Longrightarrow> bitcount (a + 2 ^ k * b) = bitcount a + bitcount b"
proof (induction k arbitrary: a)
  case 0
  then show ?case by simp
next
  case (Suc k)
  have half: "(a + 2 ^ Suc k * b) div 2 = a div 2 + 2 ^ k * b"
    by (simp add: mult.assoc)
  have low: "(a + 2 ^ Suc k * b) mod 2 = a mod 2"
    by (simp add: mult.assoc)
  have "a div 2 < 2 ^ k" using Suc.prems by simp
  then have "bitcount (a div 2 + 2 ^ k * b) = bitcount (a div 2) + bitcount b"
    by (rule Suc.IH)
  then show ?case
    using bitcount_rec [of "a + 2 ^ Suc k * b"] bitcount_rec [of a] half low by simp
qed

lemma bit_nat_less: "bit (m::nat) i \<Longrightarrow> i < m"
proof -
  assume "bit m i"
  then have "m div 2 ^ i \<noteq> 0" by (auto simp: bit_iff_odd intro: ccontr)
  then have "2 ^ i \<le> m" by (metis div_less not_le)
  then show "i < m" using less_exp [of i] by linarith
qed

lemma finite_bits_nat [simp]: "finite {i. bit (m::nat) i}"
  by (rule finite_subset [of _ "{..<m}"]) (auto dest: bit_nat_less)

lemma bitcount_eq_card: "bitcount n = card {i. bit n i}"
proof (induction n rule: bitcount.induct)
  case (1 n)
  show ?case
  proof (cases "n = 0")
    case True
    then show ?thesis by simp
  next
    case False
    let ?S = "{i. bit (n div 2) i}"
    have split: "{i. bit n i} = (if odd n then {0} else {}) \<union> Suc ` ?S"
    proof (rule set_eqI)
      fix i
      show "i \<in> {i. bit n i} \<longleftrightarrow> i \<in> (if odd n then {0} else {}) \<union> Suc ` ?S"
        by (cases i) (auto simp: bit_0 bit_Suc)
    qed
    have "card (Suc ` ?S) = card ?S" by (rule card_image) simp
    moreover have "card {i. bit n i} = (if odd n then 1 else 0) + card (Suc ` ?S)"
      unfolding split by (subst card_Un_disjoint) auto
    ultimately have "card {i. bit n i} = n mod 2 + card ?S"
      by (cases "odd n") (simp_all add: odd_iff_mod_2_eq_one)
    then show ?thesis using 1 [OF False] bitcount_rec [of n] by simp
  qed
qed

section \<open>Byte order\<close>

text \<open>
  A machine is little or big endian; the flag is an argument of the definitions that load or
  store a multi-byte integer through memory.  \<open>bytes_of32\<close> lists the bytes of a 32-bit value
  from the least significant one up.
\<close>

definition bytes_of32 :: "u32 \<Rightarrow> u8 list" where
  "bytes_of32 v = map (\<lambda>i. ucast (drop_bit (8 * i) v)) [0, 1, 2, 3]"

definition bytes_of64 :: "u64 \<Rightarrow> u8 list" where
  "bytes_of64 v = map (\<lambda>i. ucast (drop_bit (8 * i) v)) [0, 1, 2, 3, 4, 5, 6, 7]"

definition u32_of_bytes :: "u8 list \<Rightarrow> u32" where
  "u32_of_bytes bs = foldr (\<lambda>b acc. push_bit 8 acc OR ucast b) bs 0"

definition u64_of_bytes :: "u8 list \<Rightarrow> u64" where
  "u64_of_bytes bs = foldr (\<lambda>b acc. push_bit 8 acc OR ucast b) bs 0"

definition store32 :: "bool \<Rightarrow> u32 \<Rightarrow> u8 list" where
  "store32 little v = (if little then bytes_of32 v else rev (bytes_of32 v))"

definition load32 :: "bool \<Rightarrow> u8 list \<Rightarrow> u32" where
  "load32 little bs = u32_of_bytes (if little then bs else rev bs)"

definition load64 :: "bool \<Rightarrow> u8 list \<Rightarrow> u64" where
  "load64 little bs = u64_of_bytes (if little then bs else rev bs)"

lemma length_bytes_of32 [simp]: "length (bytes_of32 v) = 4"
  by (simp add: bytes_of32_def)

lemma length_bytes_of64 [simp]: "length (bytes_of64 v) = 8"
  by (simp add: bytes_of64_def)

lemma length_store32 [simp]: "length (store32 little v) = 4"
  by (simp add: store32_def)

section \<open>Generators in state-passing style\<close>

text \<open>
  \<open>draws step n s\<close> runs a generator \<open>n\<close> times and collects what it returns, in order, with the
  state it ends in.
\<close>

fun draws :: "('s \<Rightarrow> 'a \<times> 's) \<Rightarrow> nat \<Rightarrow> 's \<Rightarrow> 'a list \<times> 's" where
  "draws step 0 s = ([], s)"
| "draws step (Suc n) s =
     (let (v, s1) = step s; (vs, s2) = draws step n s1 in (v # vs, s2))"

lemma length_draws [simp]: "length (fst (draws step n s)) = n"
  by (induction n arbitrary: s) (simp_all add: Let_def case_prod_beta)

lemma draws_add:
  "draws step (m + n) s =
     (let (vs, s1) = draws step m s; (ws, s2) = draws step n s1 in (vs @ ws, s2))"
  by (induction m arbitrary: s) (simp_all add: Let_def split: prod.splits)

lemma draws_invariant:
  assumes "\<And>s. I s \<Longrightarrow> I (snd (step s))" and "I s"
  shows "I (snd (draws step n s))"
  using assms(2)
proof (induction n arbitrary: s)
  case 0
  then show ?case by simp
next
  case (Suc n)
  have "I (snd (step s))" using Suc.prems assms(1) by simp
  then have "I (snd (draws step n (snd (step s))))" by (rule Suc.IH)
  then show ?case by (simp add: Let_def case_prod_beta)
qed

lemma length_fst_draws:
  "draws step n s = (vs, s') \<Longrightarrow> length vs = n"
  by (metis fst_conv length_draws)

lemma snd_draws_add: "snd (draws step (m + n) s) = snd (draws step n (snd (draws step m s)))"
  by (simp add: draws_add Let_def case_prod_beta)

lemma snd_draws_Suc: "snd (draws step (Suc n) s) = snd (draws step n (snd (step s)))"
  by (simp add: Let_def case_prod_beta)

section \<open>Exit codes\<close>

text \<open>The exit codes of the C library and of stress-ng.h, as the stressors return them.\<close>

definition EXIT_SUCCESS :: int where "EXIT_SUCCESS = 0"
definition EXIT_FAILURE :: int where "EXIT_FAILURE = 1"
definition EXIT_NOT_SUCCESS :: int where "EXIT_NOT_SUCCESS = 2"
definition EXIT_NO_RESOURCE :: int where "EXIT_NO_RESOURCE = 3"
definition EXIT_NOT_IMPLEMENTED :: int where "EXIT_NOT_IMPLEMENTED = 4"
definition EXIT_SIGNALED :: int where "EXIT_SIGNALED = 5"
definition EXIT_BY_SYS_EXIT :: int where "EXIT_BY_SYS_EXIT = 6"
definition EXIT_METRICS_UNTRUSTWORTHY :: int where "EXIT_METRICS_UNTRUSTWORTHY = 7"

text \<open>What waitpid tells of a child: it exited by itself, or a signal ended it.\<close>

datatype wait_status = Exited int | Signaled int

lemma exit_codes_differ [simp]: "EXIT_SUCCESS \<noteq> EXIT_FAILURE" "EXIT_FAILURE \<noteq> EXIT_SUCCESS"
  by (simp_all add: EXIT_SUCCESS_def EXIT_FAILURE_def)

end
