(* ===== verification/Bitops.thy ===== *)
theory Bitops
  imports Prelude
begin

text \<open>
  The inline bit operations of core-bitops.h.  Where the header picks a compiler builtin when
  one is available and portable C otherwise, the definitions model the portable C, with every
  intermediate assignment kept.  The lemmas say what each operation computes: the reversals
  move bit \<open>i\<close> to position \<open>width - 1 - i\<close>, the population counts agree with counting the
  one bits, the parity is the count modulo two, and the round-up is the least power of two not
  below the argument.
\<close>

section \<open>Definitions\<close>

text \<open>
  One step of a reversal, the C expression \<open>((x & hi) >> s) | ((x & lo) << s)\<close>.
\<close>

definition swap_fields :: "nat \<Rightarrow> 'a::len word \<Rightarrow> 'a word \<Rightarrow> 'a word \<Rightarrow> 'a word" where
  "swap_fields s hi lo x = drop_bit s (x AND hi) OR push_bit s (x AND lo)"

definition stress_bitops_reverse64 :: "u64 \<Rightarrow> u64" where
  "stress_bitops_reverse64 x0 =
     (let x1 = swap_fields 1 0xaaaaaaaaaaaaaaaa 0x5555555555555555 x0;
          x2 = swap_fields 2 0xcccccccccccccccc 0x3333333333333333 x1;
          x3 = swap_fields 4 0xf0f0f0f0f0f0f0f0 0x0f0f0f0f0f0f0f0f x2;
          x4 = swap_fields 8 0xff00ff00ff00ff00 0x00ff00ff00ff00ff x3;
          x5 = swap_fields 16 0xffff0000ffff0000 0x0000ffff0000ffff x4
      in drop_bit 32 x5 OR push_bit 32 x5)"

definition stress_bitops_reverse32 :: "u32 \<Rightarrow> u32" where
  "stress_bitops_reverse32 x0 =
     (let x1 = swap_fields 1 0xaaaaaaaa 0x55555555 x0;
          x2 = swap_fields 2 0xcccccccc 0x33333333 x1;
          x3 = swap_fields 4 0xf0f0f0f0 0x0f0f0f0f x2;
          x4 = swap_fields 8 0xff00ff00 0x00ff00ff x3
      in swap_fields 16 0xffff0000 0x0000ffff x4)"

definition stress_bitops_reverse16 :: "u16 \<Rightarrow> u16" where
  "stress_bitops_reverse16 x0 =
     (let x1 = swap_fields 1 0xaaaa 0x5555 x0;
          x2 = swap_fields 2 0xcccc 0x3333 x1;
          x3 = swap_fields 4 0xf0f0 0x0f0f x2
      in swap_fields 8 0xff00 0x00ff x3)"

definition stress_bitops_reverse8 :: "u8 \<Rightarrow> u8" where
  "stress_bitops_reverse8 x0 =
     (let x1 = swap_fields 1 0xaa 0x55 x0;
          x2 = swap_fields 2 0xcc 0x33 x1
      in swap_fields 4 0xf0 0x0f x2)"

definition stress_bitops_swap32 :: "u32 \<Rightarrow> u32" where
  "stress_bitops_swap32 val =
     (drop_bit 24 val AND 0x000000ff) OR (push_bit 8 val AND 0x00ff0000) OR
     (drop_bit 8 val AND 0x0000ff00) OR (push_bit 24 val AND 0xff000000)"

text \<open>
  The loop of \<open>stress_bitops_bitreverse32\<close>: \<open>v\<close> is shifted right until it is zero, \<open>r\<close>
  collects its bits, \<open>s\<close> counts the shifts still to do.  The final shift by \<open>s\<close> follows.
\<close>

function bitreverse32_loop :: "u32 \<Rightarrow> u32 \<Rightarrow> u32 \<Rightarrow> u32" where
  "bitreverse32_loop r v s =
     (if v = 0 then push_bit (unat s) r
      else bitreverse32_loop (push_bit 1 r OR (v AND 1)) (drop_bit 1 v) (s - 1))"
  by pat_completeness auto
termination
  by (relation "measure (\<lambda>(r, v, s). unat v)")
    (auto simp: drop_bit_eq_div unat_div unat_gt_0)

definition stress_bitops_bitreverse32 :: "u32 \<Rightarrow> u32" where
  "stress_bitops_bitreverse32 val = bitreverse32_loop val (drop_bit 1 val) (4 * 8 - 1)"

text \<open>Kernighan's loop: clear the lowest set bit until none is left.\<close>

lemma word_and_pred_less: "v \<noteq> 0 \<Longrightarrow> v AND (v - 1) < v" for v :: "'a::len word"
  using measure_unat [of v] word_and_le1 [of v "v - 1"]
  by (simp add: word_less_nat_alt word_le_nat_alt)

function kernighan_loop :: "'a::len word \<Rightarrow> 'a word \<Rightarrow> 'a word" where
  "kernighan_loop v j = (if v = 0 then j else kernighan_loop (v AND (v - 1)) (j + 1))"
  by pat_completeness auto
termination
  by (relation "measure (\<lambda>(v, j). unat v)")
    (auto simp flip: word_less_nat_alt intro: word_and_pred_less)

declare bitreverse32_loop.simps [simp del] kernighan_loop.simps [simp del]

definition stress_bitops_popcount64 :: "u64 \<Rightarrow> u32" where
  "stress_bitops_popcount64 val = ucast (kernighan_loop val 0)"

definition stress_bitops_popcount32 :: "u32 \<Rightarrow> u32" where
  "stress_bitops_popcount32 val = kernighan_loop val 0"

definition stress_bitops_parity32 :: "u32 \<Rightarrow> u32" where
  "stress_bitops_parity32 val =
     (let v1 = val XOR drop_bit 16 val;
          v2 = v1 XOR drop_bit 8 v1;
          v3 = v2 XOR drop_bit 4 v2;
          v4 = v3 AND 0xf
      in drop_bit (unat v4) 0x6996 AND 1)"

text \<open>
  The cascade \<open>v |= v >> 1; v |= v >> 2; ... v |= v >> 16\<close> that copies the top one bit into
  every lower position.
\<close>

definition or_shifts32 :: "u32 \<Rightarrow> u32" where
  "or_shifts32 v0 =
     (let v1 = v0 OR drop_bit 1 v0;
          v2 = v1 OR drop_bit 2 v1;
          v3 = v2 OR drop_bit 4 v2;
          v4 = v3 OR drop_bit 8 v3
      in v4 OR drop_bit 16 v4)"

definition stress_bitops_nextpwr2 :: "u32 \<Rightarrow> u32" where
  "stress_bitops_nextpwr2 val = or_shifts32 (val - 1) + 1"

section \<open>Bit reversal\<close>

definition alternating_masks :: "nat \<Rightarrow> 'a::len word \<Rightarrow> 'a word \<Rightarrow> bool" where
  "alternating_masks s hi lo \<longleftrightarrow> (2 * s) dvd LENGTH('a) \<and>
     (\<forall>i \<in> set [0..<LENGTH('a)]. bit hi i = (s \<le> i mod (2 * s)) \<and> bit lo i = (i mod (2 * s) < s))"

lemma block_end:
  assumes "n mod (2 * s) < s" and "(2 * s) dvd len" and "n < len"
  shows "n + s < (len::nat)" 
proof -
  from assms(2) obtain k where k: "len = 2 * s * k" ..
  have "n div (2 * s) < k" using assms(3) k by (simp add: less_mult_imp_div_less mult.commute)
  then have "2 * s * (n div (2 * s)) + 2 * s \<le> len" using k
    by (metis Suc_leI mult_Suc_right mult_le_mono2 add.commute)
  moreover have "n = 2 * s * (n div (2 * s)) + n mod (2 * s)" by simp
  ultimately show ?thesis using assms(1) by linarith
qed

lemma bit_swap_fields:
  fixes x :: "'a::len word"
  assumes m: "alternating_masks s hi lo" and n: "n < LENGTH('a)"
  shows "bit (swap_fields s hi lo x) n = bit x (if n mod (2 * s) < s then n + s else n - s)"
proof (cases "n mod (2 * s) < s")
  case True
  have ns: "n + s < LENGTH('a)" using True m n by (intro block_end) (auto simp: alternating_masks_def)
  have "(n + s) mod (2 * s) = n mod (2 * s) + s" using True
    by (metis mod_add_left_eq mod_less mult_2 add_less_cancel_right)
  then have "bit hi (n + s)" using m ns by (simp add: alternating_masks_def)
  moreover have "\<not> (s \<le> n \<and> bit lo (n - s))"
  proof
    assume a: "s \<le> n \<and> bit lo (n - s)"
    then have "(n - s) mod (2 * s) < s" using m n by (auto simp: alternating_masks_def)
    then have "(n - s + s) mod (2 * s) = (n - s) mod (2 * s) + s"
      by (metis mod_add_left_eq mod_less mult_2 add_less_cancel_right)
    then show False using a True by simp
  qed
  ultimately show ?thesis using True ns n
    by (auto simp: swap_fields_def bit_simps ac_simps)
next
  case False
  let ?r = "n mod (2 * s)"
  have pos: "0 < s" using m n by (cases s) (auto simp: alternating_masks_def)
  have r2: "?r < 2 * s" using pos by simp
  have n_eq: "n = ?r + 2 * s * (n div (2 * s))" by simp
  have sn: "s \<le> n" using False n_eq by linarith
  have "n - s = (?r - s) + 2 * s * (n div (2 * s))" using False n_eq by linarith
  then have low: "(n - s) mod (2 * s) = ?r - s" using r2
    by (metis mod_less mod_mult_self2 less_imp_diff_less)
  have high: "(n + s) mod (2 * s) = ?r - s"
    using low sn mod_add_self2 [of "n - s" "2 * s"] by (simp add: add.commute)
  have "bit lo (n - s)" using m n low r2 False
    by (simp add: alternating_masks_def less_imp_diff_less)
  moreover have "\<not> bit hi (n + s)"
  proof (cases "n + s < LENGTH('a)")
    case True
    then show ?thesis using m high r2 False by (simp add: alternating_masks_def)
  next
    case False
    then show ?thesis by (simp add: bit_word.rep_eq)
  qed
  ultimately show ?thesis using False sn n
    by (auto simp: swap_fields_def bit_simps ac_simps)
qed

text \<open>
  A reversal step with such masks moves every bit to the other half of its block; all the steps
  together complement the position.
\<close>

lemma masks8:
  shows "alternating_masks (Suc 0) (0xaa::u8) 0x55"
    and "alternating_masks 2 (0xcc::u8) 0x33"
    and "alternating_masks 4 (0xf0::u8) 0x0f"
  unfolding alternating_masks_def by code_simp+

lemma masks16:
  shows "alternating_masks (Suc 0) (0xaaaa::u16) 0x5555"
    and "alternating_masks 2 (0xcccc::u16) 0x3333"
    and "alternating_masks 4 (0xf0f0::u16) 0x0f0f"
    and "alternating_masks 8 (0xff00::u16) 0x00ff"
  unfolding alternating_masks_def by code_simp+

lemma masks32:
  shows "alternating_masks (Suc 0) (0xaaaaaaaa::u32) 0x55555555"
    and "alternating_masks 2 (0xcccccccc::u32) 0x33333333"
    and "alternating_masks 4 (0xf0f0f0f0::u32) 0x0f0f0f0f"
    and "alternating_masks 8 (0xff00ff00::u32) 0x00ff00ff"
    and "alternating_masks 16 (0xffff0000::u32) 0x0000ffff"
  unfolding alternating_masks_def by code_simp+

lemma masks64:
  shows "alternating_masks (Suc 0) (0xaaaaaaaaaaaaaaaa::u64) 0x5555555555555555"
    and "alternating_masks 2 (0xcccccccccccccccc::u64) 0x3333333333333333"
    and "alternating_masks 4 (0xf0f0f0f0f0f0f0f0::u64) 0x0f0f0f0f0f0f0f0f"
    and "alternating_masks 8 (0xff00ff00ff00ff00::u64) 0x00ff00ff00ff00ff"
    and "alternating_masks 16 (0xffff0000ffff0000::u64) 0x0000ffff0000ffff"
  unfolding alternating_masks_def by code_simp+

lemma swap_halves64:
  "n < 64 \<Longrightarrow> bit (drop_bit 32 (x::u64) OR push_bit 32 x) n = bit x (if n < 32 then n + 32 else n - 32)"
  by (auto simp: bit_simps ac_simps dest: bit_imp_le_length)

lemma reverse8_bit:
  assumes "n < 8"
  shows "bit (stress_bitops_reverse8 x) n = bit x (7 - n)"
  using less_8_cases [OF assms]
  by (elim disjE; simp add: stress_bitops_reverse8_def Let_def masks8 [THEN bit_swap_fields];
      simp add: numeral_2_eq_2 numeral_3_eq_3)

lemma reverse16_bit:
  assumes "n < 16"
  shows "bit (stress_bitops_reverse16 x) n = bit x (15 - n)"
  using less_16_cases [OF assms]
  by (elim disjE; simp add: stress_bitops_reverse16_def Let_def masks16 [THEN bit_swap_fields];
      simp add: numeral_2_eq_2 numeral_3_eq_3)

lemma reverse32_bit:
  assumes "n < 32"
  shows "bit (stress_bitops_reverse32 x) n = bit x (31 - n)"
  using less_32_cases [OF assms]
  by (elim disjE; simp add: stress_bitops_reverse32_def Let_def masks32 [THEN bit_swap_fields];
      simp add: numeral_2_eq_2 numeral_3_eq_3)

lemma reverse64_bit:
  assumes "n < 64"
  shows "bit (stress_bitops_reverse64 x) n = bit x (63 - n)"
  using less_64_cases [OF assms]
  by (elim disjE; simp add: stress_bitops_reverse64_def Let_def swap_halves64 masks64 [THEN bit_swap_fields];
      simp add: numeral_2_eq_2 numeral_3_eq_3)

lemmas reverse_bits = reverse8_bit reverse16_bit reverse32_bit reverse64_bit

section \<open>Bytes and bit-by-bit reversal\<close>

lemma swap32_bytes: "bytes_of32 (stress_bitops_swap32 v) = rev (bytes_of32 v)"
proof -
  have "ucast (drop_bit (8 * i) (stress_bitops_swap32 v)) = (ucast (drop_bit (8 * (3 - i)) v) :: u8)"
    if "i < 4" for i
  proof (rule bit_word_eqI)
    fix n
    assume "n < LENGTH(8)"
    then have "n < 8" by simp
    show "bit (ucast (drop_bit (8 * i) (stress_bitops_swap32 v)) :: u8) n =
        bit (ucast (drop_bit (8 * (3 - i)) v) :: u8) n"
      using less_4_cases [OF that] less_8_cases [OF \<open>n < 8\<close>]
      unfolding stress_bitops_swap32_def bit_simps
      by (elim disjE; simp; simp add: numeral_2_eq_2 numeral_3_eq_3)
  qed
  from this [of 0] this [of 1] this [of 2] this [of 3] show ?thesis
    by (simp add: bytes_of32_def)
qed

section \<open>Population counts and parity\<close>

lemma bitcount_and_pred: "0 < n \<Longrightarrow> Suc (bitcount (n AND (n - 1))) = bitcount (n::nat)"
proof (induction n rule: less_induct)
  case (less n)
  show ?case
  proof (cases "even n")
    case True
    then obtain m where m: "n = 2 * m" by blast
    with less.prems have "0 < m" "m < n" by auto
    then have IH: "Suc (bitcount (m AND (m - 1))) = bitcount m" by (intro less.IH)
    have "(2 * m - 1) div 2 = m - 1" using \<open>0 < m\<close> by linarith
    then have "n AND (n - 1) = 2 * (m AND (m - 1))"
      using m by (subst and_rec) simp
    then show ?thesis using IH m by simp
  next
    case False
    then obtain m where m: "n = Suc (2 * m)" using oddE by fastforce
    have "n AND (n - 1) = 2 * m" using m by (subst and_rec) auto
    then show ?thesis using m by simp
  qed
qed

lemma kernighan_loop_correct:
  "kernighan_loop v j = j + of_nat (bitcount (unat v))" for v :: "'a::len word"
proof (induction v j rule: kernighan_loop.induct)
  case (1 v j)
  show ?case
  proof (cases "v = 0")
    case True
    then show ?thesis by (subst kernighan_loop.simps) simp
  next
    case False
    then have pos: "0 < unat v" by (simp add: unat_gt_0)
    have "unat (v AND (v - 1)) = unat v AND (unat v - 1)"
      using False by (simp add: unsigned_and_eq unat_minus_one)
    then have "Suc (bitcount (unat (v AND (v - 1)))) = bitcount (unat v)"
      using bitcount_and_pred [OF pos] by simp
    then have "(of_nat (bitcount (unat v)) :: 'a word) = 1 + of_nat (bitcount (unat (v AND (v - 1))))"
      by (metis of_nat_Suc)
    with 1 [OF False] False show ?thesis by (simp add: kernighan_loop.simps [of v j])
  qed
qed

lemma bitcount_le: "n < 2 ^ k \<Longrightarrow> bitcount n \<le> k"
proof (induction k arbitrary: n)
  case 0
  then show ?case by simp
next
  case (Suc k)
  then have "bitcount (n div 2) \<le> k" by simp
  then show ?case using bitcount_rec [of n] by linarith
qed

lemma bitcount_unat_le: "bitcount (unat w) \<le> LENGTH('a)" for w :: "'a::len word"
  by (rule bitcount_le) simp

lemma popcount32_correct: "unat (stress_bitops_popcount32 v) = bitcount (unat v)"
proof -
  have "bitcount (unat v) \<le> 32" using bitcount_unat_le [of v] by simp
  then show ?thesis
    by (simp add: stress_bitops_popcount32_def kernighan_loop_correct unat_of_nat)
qed

lemma popcount64_correct: "unat (stress_bitops_popcount64 v) = bitcount (unat v)"
proof -
  have "bitcount (unat v) \<le> 64" using bitcount_unat_le [of v] by simp
  then show ?thesis
    by (simp add: stress_bitops_popcount64_def kernighan_loop_correct unat_of_nat unsigned_ucast_eq
        take_bit_nat_eq_self)
qed

lemma odd_bitcount_xor:
  "odd (bitcount (a XOR b)) \<longleftrightarrow> (odd (bitcount a) \<noteq> odd (bitcount (b::nat)))"
proof (induction a arbitrary: b rule: less_induct)
  case (less a)
  show ?case
  proof (cases "a = 0")
    case True
    then show ?thesis by simp
  next
    case False
    then have IH: "odd (bitcount (a div 2 XOR b div 2)) \<longleftrightarrow>
        (odd (bitcount (a div 2)) \<noteq> odd (bitcount (b div 2)))"
      by (intro less.IH) simp
    have "a XOR b = of_bool (odd a \<noteq> odd b) + 2 * (a div 2 XOR b div 2)"
      by (rule xor_rec)
    then have "odd (bitcount (a XOR b)) \<longleftrightarrow>
        ((odd a \<noteq> odd b) \<noteq> odd (bitcount (a div 2 XOR b div 2)))"
      by (cases "odd a \<noteq> odd b") auto
    moreover have "odd (bitcount n) \<longleftrightarrow> (odd n \<noteq> odd (bitcount (n div 2)))" for n
      using bitcount_rec [of n] by presburger
    ultimately show ?thesis using IH by blast
  qed
qed

lemma odd_bitcount_fold:
  "odd (bitcount (take_bit (2 * k) n)) = odd (bitcount (take_bit k (n XOR drop_bit k (n::nat))))"
proof -
  have "take_bit (2 * k) n = take_bit k n + 2 ^ k * take_bit k (drop_bit k n)"
    by (simp add: take_bit_eq_mod drop_bit_eq_div mult_2 power_add mod_mult2_eq)
  then have "bitcount (take_bit (2 * k) n) = bitcount (take_bit k n) + bitcount (take_bit k (drop_bit k n))"
    by (simp add: bitcount_add_shifted)
  then show ?thesis by (simp add: odd_bitcount_xor)
qed

lemma parity_nibble: "n < 16 \<Longrightarrow> drop_bit n (0x6996 :: u32) AND 1 = of_bool (odd (bitcount n))"
  by (drule less_16_cases; elim disjE; simp; simp add: bitcount.simps)

lemma parity32_correct: "stress_bitops_parity32 v = of_bool (odd (bitcount (unat v)))"
proof -
  define v1 where "v1 = v XOR drop_bit 16 v"
  define v2 where "v2 = v1 XOR drop_bit 8 v1"
  define v3 where "v3 = v2 XOR drop_bit 4 v2"
  have fold: "unat (x XOR drop_bit k x) = unat x XOR drop_bit k (unat x)" for x :: u32 and k
    by (simp add: unsigned_xor_eq unsigned_drop_bit_eq)
  have "odd (bitcount (unat v)) = odd (bitcount (take_bit (2 * 16) (unat v)))"
    by (simp add: take_bit_nat_eq_self)
  also have "\<dots> = odd (bitcount (take_bit (2 * 8) (unat v1)))"
    by (subst odd_bitcount_fold) (simp add: v1_def fold)
  also have "\<dots> = odd (bitcount (take_bit (2 * 4) (unat v2)))"
    by (subst odd_bitcount_fold) (simp add: v2_def fold)
  also have "\<dots> = odd (bitcount (take_bit 4 (unat v3)))"
    by (subst odd_bitcount_fold) (simp add: v3_def fold)
  finally have par: "odd (bitcount (unat v)) = odd (bitcount (take_bit 4 (unat v3)))" .
  have "unat (v3 AND 0xf) = take_bit 4 (unat v3)"
    by (simp add: unsigned_and_eq take_bit_eq_mask mask_eq_exp_minus_1)
  moreover have "take_bit 4 (unat v3) < 16"
    using take_bit_nat_less_exp [of 4 "unat v3"] by simp
  moreover have "stress_bitops_parity32 v = drop_bit (unat (v3 AND 0xf)) 0x6996 AND 1"
    by (simp only: stress_bitops_parity32_def Let_def v1_def v2_def v3_def)
  ultimately show ?thesis
    using parity_nibble [of "take_bit 4 (unat v3)"] par by simp
qed

section \<open>Smearing and rounding up to a power of two\<close>

text \<open>After each step of the cascade, bit \<open>n\<close> tells whether a window of bits above holds a one.\<close>

lemma or_shift_window:
  fixes y :: "'a::len word"
  assumes "\<And>n. bit y n \<longleftrightarrow> (\<exists>m. n \<le> m \<and> m < n + k \<and> bit x m)"
  shows "bit (y OR drop_bit k y) n \<longleftrightarrow> (\<exists>m. n \<le> m \<and> m < n + 2 * k \<and> bit x m)"
proof -
  have "bit (y OR drop_bit k y) n \<longleftrightarrow> bit y n \<or> bit y (k + n)" by (simp add: bit_simps)
  also have "\<dots> \<longleftrightarrow> (\<exists>m. n \<le> m \<and> m < n + 2 * k \<and> bit x m)" (is "?l \<longleftrightarrow> ?r")
  proof
    assume ?l
    then obtain m where "bit x m" and "n \<le> m \<and> m < n + k \<or> k + n \<le> m \<and> m < k + n + k"
      unfolding assms by blast
    then have "n \<le> m \<and> m < n + 2 * k \<and> bit x m" by linarith
    then show ?r by blast
  next
    assume ?r
    then obtain m where m: "n \<le> m" "m < n + 2 * k" "bit x m" by blast
    then show ?l unfolding assms
      by (cases "m < n + k") (auto intro: exI [of _ m])
  qed
  finally show ?thesis .
qed

lemma or_shifts32_bit: "bit (or_shifts32 v) n \<longleftrightarrow> (\<exists>m \<ge> n. bit v m)"
proof -
  define v1 where "v1 = v OR drop_bit 1 v"
  define v2 where "v2 = v1 OR drop_bit 2 v1"
  define v3 where "v3 = v2 OR drop_bit 4 v2"
  define v4 where "v4 = v3 OR drop_bit 8 v3"
  have b0: "bit v i \<longleftrightarrow> (\<exists>m. i \<le> m \<and> m < i + 1 \<and> bit v m)" for i
    by (auto simp: less_Suc_eq_le intro: exI [of _ i] dest: le_antisym)
  have b1: "bit v1 i \<longleftrightarrow> (\<exists>m. i \<le> m \<and> m < i + 2 \<and> bit v m)" for i
    using or_shift_window [OF b0, of i] by (simp add: v1_def)
  have b2: "bit v2 i \<longleftrightarrow> (\<exists>m. i \<le> m \<and> m < i + 4 \<and> bit v m)" for i
    using or_shift_window [OF b1, of i] by (simp add: v2_def)
  have b3: "bit v3 i \<longleftrightarrow> (\<exists>m. i \<le> m \<and> m < i + 8 \<and> bit v m)" for i
    using or_shift_window [OF b2, of i] by (simp add: v3_def)
  have b4: "bit v4 i \<longleftrightarrow> (\<exists>m. i \<le> m \<and> m < i + 16 \<and> bit v m)" for i
    using or_shift_window [OF b3, of i] by (simp add: v4_def)
  have "or_shifts32 v = v4 OR drop_bit 16 v4"
    by (simp only: or_shifts32_def Let_def v1_def v2_def v3_def v4_def)
  then have "bit (or_shifts32 v) n \<longleftrightarrow> (\<exists>m. n \<le> m \<and> m < n + 32 \<and> bit v m)"
    using or_shift_window [OF b4, of n] by simp
  also have "\<dots> \<longleftrightarrow> (\<exists>m \<ge> n. bit v m)"
    using bit_imp_le_length [of v] by force
  finally show ?thesis .
qed

lemma bit_unat_iff: "bit (unat w) n \<longleftrightarrow> bit w n" for w :: "'a::len word"
  by (simp add: bit_unsigned_iff)

lemma bit_of_interval:
  assumes "2 ^ t \<le> n" and "n < 2 ^ Suc t"
  shows "bit (n::nat) t" and "bit n m \<Longrightarrow> m \<le> t"
proof -
  have "n div 2 ^ t = 1" using assms by (simp add: div_nat_eqI)
  then show "bit n t" by (simp add: bit_iff_odd)
  show "m \<le> t" if "bit n m"
  proof (rule ccontr)
    assume "\<not> m \<le> t"
    then have "(2::nat) ^ Suc t \<le> 2 ^ m" by (intro power_increasing) auto
    then have "n div 2 ^ m = 0" using assms(2) by simp
    then show False using that by (simp add: bit_iff_odd)
  qed
qed

lemma or_shifts32_mask:
  assumes "2 ^ t \<le> unat v" and "unat v < 2 ^ Suc t"
  shows "or_shifts32 v = mask (Suc t)"
proof (rule bit_word_eqI)
  fix n
  assume n: "n < LENGTH(32)"
  have "(\<exists>m \<ge> n. bit v m) \<longleftrightarrow> n \<le> t"
    using bit_of_interval [OF assms] by (auto simp: bit_unat_iff intro: le_trans)
  then show "bit (or_shifts32 v) n = bit (mask (Suc t) :: u32) n"
    using n by (auto simp: or_shifts32_bit bit_mask_iff less_Suc_eq_le)
qed

lemma or_shifts32_0 [simp]: "or_shifts32 0 = 0"
  by (simp add: or_shifts32_def)

lemma interval_exists: "0 < n \<Longrightarrow> \<exists>t. 2 ^ t \<le> n \<and> n < 2 ^ Suc t" for n :: nat
  using ex_power_ivl1 [of 2 n] by auto

text \<open>
  Rounding up: the least power of two not below the argument, and zero where that power does
  not fit 32 bits or the argument is zero.
\<close>

lemma nextpwr2_fits:
  assumes "0 < unat v" and "unat v \<le> 2 ^ 31"
  shows "\<exists>k \<le> 31. unat (stress_bitops_nextpwr2 v) = 2 ^ k \<and> unat v \<le> 2 ^ k \<and>
           (\<forall>j. unat v \<le> 2 ^ j \<longrightarrow> k \<le> j)"
proof (cases "unat v = 1")
  case True
  then have "v = 1" by (simp add: word_unat_eq_iff)
  then show ?thesis by (intro exI [of _ 0]) (simp add: stress_bitops_nextpwr2_def)
next
  case False
  have pred: "unat (v - 1) = unat v - 1" using assms by (intro unat_minus_one) auto
  with assms False have "0 < unat (v - 1)" by simp
  then obtain t where t: "2 ^ t \<le> unat (v - 1)" "unat (v - 1) < 2 ^ Suc t"
    using interval_exists by blast
  have "t < 31"
  proof (rule ccontr)
    assume "\<not> t < 31"
    then have "(2::nat) ^ 31 \<le> 2 ^ t" by (intro power_increasing) auto
    then show False using t pred assms by linarith
  qed
  have "unat (stress_bitops_nextpwr2 v) = 2 ^ Suc t"
  proof -
    have "stress_bitops_nextpwr2 v = 2 ^ Suc t"
      using or_shifts32_mask [OF t] by (simp add: stress_bitops_nextpwr2_def mask_eq_exp_minus_1)
    then have "stress_bitops_nextpwr2 v = of_nat (2 ^ Suc t)" by simp
    moreover have "(2::nat) ^ Suc t < 2 ^ 32" using \<open>t < 31\<close> by (intro power_strict_increasing) auto
    ultimately show ?thesis by (simp only: unat_of_nat) (simp add: take_bit_nat_eq_self)
  qed
  moreover have "unat v \<le> 2 ^ Suc t" using t pred by linarith
  moreover have "Suc t \<le> j" if "unat v \<le> 2 ^ j" for j
  proof -
    have "(2::nat) ^ t < 2 ^ j" using that t pred assms by linarith
    then show ?thesis by (simp add: power_strict_increasing_iff)
  qed
  ultimately show ?thesis using \<open>t < 31\<close> by (intro exI [of _ "Suc t"]) auto
qed

lemma nextpwr2_wraps:
  assumes "unat v = 0 \<or> 2 ^ 31 < unat v"
  shows "stress_bitops_nextpwr2 v = 0"
proof (cases "v = 0")
  case True
  have "or_shifts32 (- 1) = - 1"
    by (rule bit_word_eqI) (auto simp: or_shifts32_bit)
  with True show ?thesis by (simp add: stress_bitops_nextpwr2_def)
next
  case False
  then have "2 ^ 31 < unat v" using assms by (simp add: unat_eq_0)
  moreover have "unat (v - 1) = unat v - 1" using False by (rule unat_minus_one)
  moreover have "unat v - Suc 0 < 4294967296" using unat_less_width(3) [of v] by linarith
  ultimately have "or_shifts32 (v - 1) = mask (Suc 31)"
    by (intro or_shifts32_mask) auto
  then show ?thesis by (simp add: stress_bitops_nextpwr2_def mask_eq_exp_minus_1)
qed

lemma bitreverse32_loop_bit:
  assumes "i \<le> 31" and "s = of_nat (31 - i)" and "v = drop_bit (Suc i) val"
    and "\<And>j. j \<le> i \<Longrightarrow> bit r j = bit val (i - j)" and "n < 32"
  shows "bit (bitreverse32_loop r v s) n = bit val (31 - n)"
  using assms
proof (induction r v s arbitrary: i rule: bitreverse32_loop.induct)
  case (1 r v s)
  show ?case
  proof (cases "v = 0")
    case True
    have high: "\<not> bit val m" if "i < m" for m
    proof -
      have "bit v (m - Suc i) = bit val m" using that 1(4) by (simp add: bit_simps)
      then show ?thesis using True by simp
    qed
    have s: "unat s = 31 - i" using 1(3) by (simp add: unat_of_nat take_bit_nat_eq_self)
    have "bit (push_bit (unat s) r) n = bit val (31 - n)"
    proof (cases "31 - i \<le> n")
      case True
      then have "bit r (n - (31 - i)) = bit val (i - (n - (31 - i)))"
        using 1(2,6) by (intro 1(5)) linarith
      moreover have "i - (n - (31 - i)) = 31 - n" using True 1(2,6) by linarith
      ultimately show ?thesis using True 1(6) s by (simp add: bit_simps)
    next
      case False
      then have "\<not> bit val (31 - n)" using 1(2,6) by (intro high) linarith
      then show ?thesis using False s by (simp add: bit_simps)
    qed
    then show ?thesis using True by (subst bitreverse32_loop.simps) simp
  next
    case False
    have "i < 31"
    proof (rule ccontr)
      assume "\<not> i < 31"
      then have "v = 0" using 1(2,4) by (intro bit_word_eqI) (auto simp: bit_simps dest: bit_imp_le_length)
      then show False using False by simp
    qed
    have "bit (bitreverse32_loop (push_bit 1 r OR (v AND 1)) (drop_bit 1 v) (s - 1)) n = bit val (31 - n)"
    proof (rule 1(1) [OF False, where i = "Suc i"])
      show "s - 1 = of_nat (31 - Suc i)"
        using \<open>i < 31\<close> 1(3) by (simp add: of_nat_diff)
      show "drop_bit 1 v = drop_bit (Suc (Suc i)) val" using 1(4) by simp
      show "bit (push_bit 1 r OR (v AND 1)) j = bit val (Suc i - j)" if "j \<le> Suc i" for j
        using that \<open>i < 31\<close> 1(4) 1(5) [of "j - 1"] unfolding bit_simps bit_1_iff
        by (cases j) (auto simp: bit_drop_bit_eq)
    qed (use \<open>i < 31\<close> 1(6) in auto)
    then show ?thesis using False by (simp add: bitreverse32_loop.simps [of r v s])
  qed
qed

lemma bitreverse32_bit:
  assumes "n < 32"
  shows "bit (stress_bitops_bitreverse32 val) n = bit val (31 - n)"
  unfolding stress_bitops_bitreverse32_def
  by (rule bitreverse32_loop_bit [where i = 0]) (use assms in simp_all)

section \<open>Properties\<close>

text \<open>
  Each branch-free reversal is the library's word reversal at its width, so reversing twice
  gives the argument back, and the bit-by-bit loop computes the same function as the
  mask-and-shift routine.
\<close>

theorem bitops_reversals:
  "stress_bitops_reverse64 x = word_reverse x
   \<and> stress_bitops_reverse32 y = word_reverse y
   \<and> stress_bitops_reverse16 z = word_reverse z
   \<and> stress_bitops_reverse8 b = word_reverse b
   \<and> stress_bitops_bitreverse32 y = stress_bitops_reverse32 y
   \<and> stress_bitops_reverse32 (stress_bitops_bitreverse32 y) = y
   \<and> bytes_of32 (stress_bitops_swap32 y) = rev (bytes_of32 y)"
proof -
  have r32: "stress_bitops_reverse32 y = word_reverse y" for y
    by (rule bit_word_eqI) (simp add: bit_word_reverse_iff reverse32_bit)
  have "stress_bitops_reverse64 x = word_reverse x"
    by (rule bit_word_eqI) (simp add: bit_word_reverse_iff reverse64_bit)
  moreover have "stress_bitops_reverse16 z = word_reverse z"
    by (rule bit_word_eqI) (simp add: bit_word_reverse_iff reverse16_bit)
  moreover have "stress_bitops_reverse8 b = word_reverse b"
    by (rule bit_word_eqI) (simp add: bit_word_reverse_iff reverse8_bit)
  moreover have "stress_bitops_bitreverse32 y = word_reverse y"
    by (rule bit_word_eqI) (simp add: bit_word_reverse_iff bitreverse32_bit)
  ultimately show ?thesis by (simp add: r32 swap32_bytes)
qed

text \<open>
  The clear-lowest-bit loops return the number of one bits at either width, and the
  table-word parity check returns whether that number is odd.
\<close>

theorem bitops_counts:
  "unat (stress_bitops_popcount32 v) = card {n. bit v n}
   \<and> unat (stress_bitops_popcount64 w) = card {n. bit w n}
   \<and> stress_bitops_parity32 v = stress_bitops_popcount32 v AND 1"
proof -
  have "stress_bitops_popcount32 v AND 1 = of_bool (odd (bitcount (unat v)))"
    by (simp add: word_unat_eq_iff popcount32_correct and_one_eq unat_mod_distrib odd_iff_mod_2_eq_one)
  then show ?thesis
    by (simp add: popcount32_correct popcount64_correct bitcount_eq_card bit_unat_iff parity32_correct)
qed

text \<open>
  Stress_bitops_nextpwr2 returns the least power of two that is not below its argument for
  arguments from 1 to 2^31; for zero and above 2^31, where no 32-bit power of two exists, the
  arithmetic wraps and it returns zero.
\<close>

theorem bitops_nextpwr2:
  "stress_bitops_nextpwr2 v =
     (if v = 0 \<or> 2 ^ 31 < unat v then 0 else of_nat (2 ^ (LEAST k. unat v \<le> 2 ^ k)))"
proof (cases "v = 0 \<or> 2 ^ 31 < unat v")
  case True
  then have "unat v = 0 \<or> 2 ^ 31 < unat v" by auto
  from nextpwr2_wraps [OF this] show ?thesis using True by simp
next
  case False
  then have "0 < unat v" "unat v \<le> 2 ^ 31" by (auto simp: unat_gt_0)
  then obtain k where k: "k \<le> 31" "unat (stress_bitops_nextpwr2 v) = 2 ^ k" "unat v \<le> 2 ^ k"
      "\<forall>j. unat v \<le> 2 ^ j \<longrightarrow> k \<le> j"
    using nextpwr2_fits by blast
  have "(LEAST k. unat v \<le> 2 ^ k) = k" by (rule Least_equality) (use k in auto)
  moreover have "stress_bitops_nextpwr2 v = of_nat (2 ^ k)"
    by (simp only: flip: k(2)) simp
  ultimately show ?thesis using False by simp
qed

end
