(* ===== verification/Mwc.thy ===== *)
theory Mwc
  imports Bitops
begin

text \<open>
  The random number generator of core-mwc.c: two 16-bit-lag multiply-with-carry generators
  \<open>z\<close> and \<open>w\<close> whose outputs are combined, and the buffers that hand a 32-bit word out in
  halves, bytes or single bits.  The file-static \<open>mwc\<close> is a record passed from call to call.
  The modulo functions are the multiply-high versions that core-mwc.h selects with
  HAVE_FAST_MODULO_REDUCTION; the rejection loops of core-mwc.c are not compiled then.
\<close>

section \<open>The generator state\<close>

record mwc =
  mwc_w :: u32
  mwc_z :: u32
  mwc_n16 :: u32
  mwc_saved16 :: u32
  mwc_n8 :: u32
  mwc_saved8 :: u32
  mwc_n1 :: u32
  mwc_saved1 :: u32

definition STRESS_MWC_SEED_W :: u32 where "STRESS_MWC_SEED_W = 521288629"
definition STRESS_MWC_SEED_Z :: u32 where "STRESS_MWC_SEED_Z = 362436069"

definition mwc_initial :: mwc where
  "mwc_initial = \<lparr>mwc_w = STRESS_MWC_SEED_W, mwc_z = STRESS_MWC_SEED_Z, mwc_n16 = 0,
     mwc_saved16 = 0, mwc_n8 = 0, mwc_saved8 = 0, mwc_n1 = 0, mwc_saved1 = 0\<rparr>"

definition mwc_flush :: "mwc \<Rightarrow> mwc" where
  "mwc_flush m = m\<lparr>mwc_n16 := 0, mwc_n8 := 0, mwc_n1 := 0,
     mwc_saved16 := 0, mwc_saved8 := 0, mwc_saved1 := 0\<rparr>"

definition stress_mwc_seed_set :: "u32 \<Rightarrow> u32 \<Rightarrow> mwc \<Rightarrow> mwc" where
  "stress_mwc_seed_set w z m = mwc_flush (m\<lparr>mwc_w := w, mwc_z := z\<rparr>)"

definition stress_mwc_seed_get :: "mwc \<Rightarrow> u32 \<times> u32" where
  "stress_mwc_seed_get m = (mwc_w m, mwc_z m)"

definition stress_mwc_seed_default :: "mwc \<Rightarrow> mwc" where
  "stress_mwc_seed_default = stress_mwc_seed_set STRESS_MWC_SEED_W STRESS_MWC_SEED_Z"

section \<open>Drawing words\<close>

definition stress_mwc32 :: "mwc \<Rightarrow> u32 \<times> mwc" where
  "stress_mwc32 m =
     (let z = 36969 * (mwc_z m AND 65535) + drop_bit 16 (mwc_z m);
          w = 18000 * (mwc_w m AND 65535) + drop_bit 16 (mwc_w m)
      in (push_bit 16 (z AND 0xffff) + w, m\<lparr>mwc_z := z, mwc_w := w\<rparr>))"

text \<open>
  The two calls in \<open>stress_mwc64\<close> and \<open>stress_mwc128\<close> are unsequenced in C; the left operand
  is evaluated first here, as the compilers the project builds with do.
\<close>

definition stress_mwc64 :: "mwc \<Rightarrow> u64 \<times> mwc" where
  "stress_mwc64 m =
     (let (hi, m1) = stress_mwc32 m; (lo, m2) = stress_mwc32 m1
      in (push_bit 32 (ucast hi) OR ucast lo, m2))"

definition stress_mwc128 :: "mwc \<Rightarrow> u128 \<times> mwc" where
  "stress_mwc128 m =
     (let (hi, m1) = stress_mwc64 m; (lo, m2) = stress_mwc64 m1
      in (push_bit 64 (ucast hi) OR ucast lo, m2))"

definition stress_mwc16 :: "mwc \<Rightarrow> u16 \<times> mwc" where
  "stress_mwc16 m =
     (let m' = (if mwc_n16 m \<noteq> 0
                then m\<lparr>mwc_n16 := mwc_n16 m - 1, mwc_saved16 := drop_bit 16 (mwc_saved16 m)\<rparr>
                else let (v, m1) = stress_mwc32 m in m1\<lparr>mwc_n16 := 1, mwc_saved16 := v\<rparr>)
      in (ucast (mwc_saved16 m' AND 0xffff), m'))"

definition stress_mwc8 :: "mwc \<Rightarrow> u8 \<times> mwc" where
  "stress_mwc8 m =
     (let m' = (if mwc_n8 m \<noteq> 0
                then m\<lparr>mwc_n8 := mwc_n8 m - 1, mwc_saved8 := drop_bit 8 (mwc_saved8 m)\<rparr>
                else let (v, m1) = stress_mwc32 m in m1\<lparr>mwc_n8 := 3, mwc_saved8 := v\<rparr>)
      in (ucast (mwc_saved8 m' AND 0xff), m'))"

definition stress_mwc1 :: "mwc \<Rightarrow> u8 \<times> mwc" where
  "stress_mwc1 m =
     (let m' = (if mwc_n1 m \<noteq> 0
                then m\<lparr>mwc_n1 := mwc_n1 m - 1, mwc_saved1 := drop_bit 1 (mwc_saved1 m)\<rparr>
                else let (v, m1) = stress_mwc32 m in m1\<lparr>mwc_n1 := 31, mwc_saved1 := v\<rparr>)
      in (ucast (mwc_saved1 m' AND 0x1), m'))"

section \<open>Drawing below a bound\<close>

definition stress_mwc8modn :: "u8 \<Rightarrow> mwc \<Rightarrow> u8 \<times> mwc" where
  "stress_mwc8modn mx m =
     (let (v, m') = stress_mwc8 m in (ucast (drop_bit 8 ((ucast v :: u32) * ucast mx)), m'))"

definition stress_mwc16modn :: "u16 \<Rightarrow> mwc \<Rightarrow> u16 \<times> mwc" where
  "stress_mwc16modn mx m =
     (let (v, m') = stress_mwc16 m in (ucast (drop_bit 16 ((ucast v :: u32) * ucast mx)), m'))"

definition stress_mwc32modn :: "u32 \<Rightarrow> mwc \<Rightarrow> u32 \<times> mwc" where
  "stress_mwc32modn mx m =
     (let (v, m') = stress_mwc32 m in (ucast (drop_bit 32 ((ucast v :: u64) * ucast mx)), m'))"

definition stress_mwc64modn :: "u64 \<Rightarrow> mwc \<Rightarrow> u64 \<times> mwc" where
  "stress_mwc64modn mx m =
     (let (v, m') = stress_mwc64 m in (ucast (drop_bit 64 ((ucast v :: u128) * ucast mx)), m'))"

text \<open>\<open>size_t\<close> is 64 bits wide on the machines the project targets, so SIZE_MAX exceeds 32 bits.\<close>

definition stress_mwcsizemodn :: "u64 \<Rightarrow> mwc \<Rightarrow> u64 \<times> mwc" where
  "stress_mwcsizemodn mx m = stress_mwc64modn mx m"

section \<open>Filling buffers\<close>

definition stress_rndbuf :: "nat \<Rightarrow> mwc \<Rightarrow> u8 list \<times> mwc" where
  "stress_rndbuf len m = draws stress_mwc8 len m"

text \<open>The base64url alphabet of \<open>stress_rndstr\<close>.\<close>

definition rndstr_alphabet :: string where
  "rndstr_alphabet = ''ABCDEFGHIJKLMNOPQRSTUVWXYZabcdefghijklmnopqrstuvwxyz0123456789-_''"

text \<open>
  One step of the loop of \<open>stress_rndstr\<close>: a character from the low six bits of \<open>r\<close>, and a
  fresh word when only the two marker bits are left.
\<close>

fun rndstr_loop :: "nat \<Rightarrow> u32 \<Rightarrow> mwc \<Rightarrow> string \<times> mwc" where
  "rndstr_loop 0 r m = ([], m)"
| "rndstr_loop (Suc k) r m =
     (let c = rndstr_alphabet ! unat (r AND 0x3F);
          r1 = drop_bit 6 r;
          (r2, m1) = (if r1 = 0x3 then let (v, m') = stress_mwc32 m in (v OR 0xc0000000, m')
                      else (r1, m));
          (cs, m2) = rndstr_loop k r2 m1
      in (c # cs, m2))"

text \<open>The bytes written to the buffer: nothing for length zero, else a NUL-terminated string.\<close>

definition stress_rndstr :: "nat \<Rightarrow> mwc \<Rightarrow> string \<times> mwc" where
  "stress_rndstr len m =
     (if len = 0 then ([], m)
      else let (v, m1) = stress_mwc32 m;
               (cs, m2) = rndstr_loop (len - 1) (v OR 0xc0000000) m1
           in (cs @ [CHR 0x00], m2))"

text \<open>
  \<open>stress_uint8rnd4\<close> fills \<open>len\<close> bytes from the address \<open>data\<close>: single bytes up to a multiple
  of four, then aligned 32-bit words, then single bytes.  The words are stored in the
  machine's byte order after a swap on a big endian machine.
\<close>

function uint8rnd4_head :: "nat \<Rightarrow> nat \<Rightarrow> mwc \<Rightarrow> u8 list \<times> nat \<times> mwc" where
  "uint8rnd4_head ptr8 ptr8end m =
     (if ptr8 mod 4 \<noteq> 0 \<and> ptr8 < ptr8end
      then let (b, m1) = stress_mwc8 m; (bs, p, m2) = uint8rnd4_head (ptr8 + 1) ptr8end m1
           in (b # bs, p, m2)
      else ([], ptr8, m))"
  by pat_completeness auto
termination
  by (relation "measure (\<lambda>(p, e, m). e - p)") auto

function uint8rnd4_words :: "bool \<Rightarrow> nat \<Rightarrow> nat \<Rightarrow> mwc \<Rightarrow> u8 list \<times> nat \<times> mwc" where
  "uint8rnd4_words little ptr32 ptr32end m =
     (if ptr32 < ptr32end
      then let (v, m1) = stress_mwc32 m;
               (bs, p, m2) = uint8rnd4_words little (ptr32 + 4) ptr32end m1
           in (store32 little (if little then v else stress_bitops_swap32 v) @ bs, p, m2)
      else ([], ptr32, m))"
  by pat_completeness auto
termination
  by (relation "measure (\<lambda>(little, p, e, m). e - p)") auto

declare uint8rnd4_head.simps [simp del] uint8rnd4_words.simps [simp del]

definition stress_uint8rnd4 :: "bool \<Rightarrow> nat \<Rightarrow> nat \<Rightarrow> mwc \<Rightarrow> u8 list \<times> mwc" where
  "stress_uint8rnd4 little data len m =
     (if data = 0 then ([], m)
      else let ptr8end = data + len;
               (head, ptr32, m1) = uint8rnd4_head data ptr8end m;
               (words, ptr8, m2) = uint8rnd4_words little ptr32 (ptr8end div 4 * 4) m1;
               (tail, m3) = draws stress_mwc8 (ptr8end - ptr8) m2
           in (head @ words @ tail, m3))"

section \<open>The multiply-with-carry recurrence\<close>

text \<open>
  One lag of a multiply-with-carry register: the low half times the multiplier plus the carry
  held in the high half.
\<close>

definition mwc_lag :: "nat \<Rightarrow> nat \<Rightarrow> nat" where
  "mwc_lag a v = a * (v mod 65536) + v div 65536"

lemma unat_mwc_lag:
  assumes "a < 65535"
  shows "unat (of_nat a * (v AND 65535) + drop_bit 16 v :: u32) = mwc_lag a (unat v)"
proof -
  have "(65535::u32) = mask 16" by (simp add: mask_eq_exp_minus_1)
  then have "v AND 65535 = take_bit 16 v" by (simp only: take_bit_eq_mask)
  then have "unat (v AND 65535) = take_bit 16 (unat v)" by (simp only: unsigned_take_bit_eq)
  then have low: "unat (v AND 65535) = unat v mod 65536" by (simp add: take_bit_eq_mod)
  have high: "unat (drop_bit 16 v) = unat v div 65536"
    by (simp only: unsigned_drop_bit_eq) (simp add: drop_bit_eq_div)
  have "unat v < 4294967296" by simp
  then have "unat v div 65536 < 65536" by linarith
  moreover have "a * (unat v mod 65536) \<le> 65534 * 65535"
    using assms by (intro mult_le_mono) auto
  ultimately have small: "a * (unat v mod 65536) + unat v div 65536 < 2 ^ 32" by simp
  have "(of_nat a * (v AND 65535) + drop_bit 16 v :: u32)
      = of_nat (a * unat (v AND 65535) + unat (drop_bit 16 v))"
    by simp
  then show ?thesis
    unfolding mwc_lag_def using small
    by (simp only: low high unat_of_nat) (simp add: take_bit_nat_eq_self)
qed

lemma mwc_lag_lehmer: "65536 * mwc_lag a v = (65536 * a - 1) * (v mod 65536) + v" if "0 < a"
proof -
  have "65536 * mwc_lag a v = 65536 * a * (v mod 65536) + 65536 * (v div 65536)"
    by (simp add: mwc_lag_def algebra_simps)
  also have "65536 * (v div 65536) = v - v mod 65536" by (simp add: minus_mod_eq_mult_div)
  also have "65536 * a * (v mod 65536) = (65536 * a - 1) * (v mod 65536) + v mod 65536"
    using that by (cases a) (simp_all add: algebra_simps)
  finally show ?thesis by simp
qed

lemma mwc_lag_mod: "0 < a \<Longrightarrow> (65536 * mwc_lag a v) mod (65536 * a - 1) = v mod (65536 * a - 1)"
  by (simp add: mwc_lag_lehmer)

lemma mwc_lag_bound:
  assumes "v < 65536 * a" "0 < a"
  shows "mwc_lag a v < 65536 * a"
proof -
  have "v div 65536 < a" using assms by (simp add: less_mult_imp_div_less mult.commute)
  moreover have "a * (v mod 65536) \<le> a * 65535" by (intro mult_le_mono) auto
  ultimately show ?thesis unfolding mwc_lag_def by linarith
qed

lemma mwc_lag_alive:
  assumes "0 < a" "v mod (65536 * a - 1) \<noteq> 0"
  shows "mwc_lag a v mod (65536 * a - 1) \<noteq> 0"
proof
  assume "mwc_lag a v mod (65536 * a - 1) = 0"
  then have "(65536 * mwc_lag a v) mod (65536 * a - 1) = 0" by (simp add: mod_eq_0_iff_dvd)
  with assms mwc_lag_mod [of a v] show False by simp
qed

lemma mwc_lag_inj:
  assumes "0 < a" "u < 65536 * a - 1" "v < 65536 * a - 1" "mwc_lag a u = mwc_lag a v"
  shows "u = v"
  using mwc_lag_mod [of a u] mwc_lag_mod [of a v] assms by simp

definition mwc_alive :: "nat \<Rightarrow> u32 \<Rightarrow> bool" where
  "mwc_alive a v \<longleftrightarrow> unat v mod (65536 * a - 1) \<noteq> 0"

definition mwc_core :: "mwc \<Rightarrow> u32 \<times> u32" where
  "mwc_core m = (mwc_w m, mwc_z m)"

locale word_source =
  fixes next_word :: "'s \<Rightarrow> u32 \<times> 's"
    and reg_w :: "'s \<Rightarrow> u32"
    and reg_z :: "'s \<Rightarrow> u32"
  assumes next_z: "reg_z (snd (next_word s)) = 36969 * (reg_z s AND 65535) + drop_bit 16 (reg_z s)"
    and next_w: "reg_w (snd (next_word s)) = 18000 * (reg_w s AND 65535) + drop_bit 16 (reg_w s)"
    and word_value: "fst (next_word s) =
      push_bit 16 (reg_z (snd (next_word s)) AND 0xffff) + reg_w (snd (next_word s))"
begin

lemma unat_next_z: "unat (reg_z (snd (next_word s))) = mwc_lag 36969 (unat (reg_z s))"
  using unat_mwc_lag [of 36969 "reg_z s"] by (simp add: next_z)

lemma unat_next_w: "unat (reg_w (snd (next_word s))) = mwc_lag 18000 (unat (reg_w s))"
  using unat_mwc_lag [of 18000 "reg_w s"] by (simp add: next_w)

lemma lehmer_z: "(65536 ^ n * unat (reg_z (snd (draws next_word n s)))) mod 2422800383
    = unat (reg_z s) mod 2422800383"
proof (induction n arbitrary: s)
  case 0
  then show ?case by simp
next
  case (Suc n)
  have "65536 ^ Suc n * unat (reg_z (snd (draws next_word (Suc n) s))) mod 2422800383
      = 65536 * (65536 ^ n * unat (reg_z (snd (draws next_word n (snd (next_word s)))))
          mod 2422800383) mod 2422800383"
    by (simp add: Let_def case_prod_beta mod_mult_right_eq mult.assoc)
  also have "\<dots> = 65536 * unat (reg_z (snd (next_word s))) mod 2422800383"
    by (simp only: Suc.IH mod_mult_right_eq)
  also have "\<dots> = unat (reg_z s) mod 2422800383"
    using mwc_lag_mod [of 36969 "unat (reg_z s)"] by (simp add: unat_next_z)
  finally show ?case .
qed

lemma lehmer_w: "(65536 ^ n * unat (reg_w (snd (draws next_word n s)))) mod 1179647999
    = unat (reg_w s) mod 1179647999"
proof (induction n arbitrary: s)
  case 0
  then show ?case by simp
next
  case (Suc n)
  have "65536 ^ Suc n * unat (reg_w (snd (draws next_word (Suc n) s))) mod 1179647999
      = 65536 * (65536 ^ n * unat (reg_w (snd (draws next_word n (snd (next_word s)))))
          mod 1179647999) mod 1179647999"
    by (simp add: Let_def case_prod_beta mod_mult_right_eq mult.assoc)
  also have "\<dots> = 65536 * unat (reg_w (snd (next_word s))) mod 1179647999"
    by (simp only: Suc.IH mod_mult_right_eq)
  also have "\<dots> = unat (reg_w s) mod 1179647999"
    using mwc_lag_mod [of 18000 "unat (reg_w s)"] by (simp add: unat_next_w)
  finally show ?case .
qed

lemma alive_draws:
  assumes "mwc_alive 36969 (reg_z s)" "mwc_alive 18000 (reg_w s)"
  shows "mwc_alive 36969 (reg_z (snd (draws next_word n s)))
       \<and> mwc_alive 18000 (reg_w (snd (draws next_word n s)))"
proof (rule draws_invariant [where I = "\<lambda>s. mwc_alive 36969 (reg_z s) \<and> mwc_alive 18000 (reg_w s)"])
  fix s
  assume *: "mwc_alive 36969 (reg_z s) \<and> mwc_alive 18000 (reg_w s)"
  show "mwc_alive 36969 (reg_z (snd (next_word s))) \<and> mwc_alive 18000 (reg_w (snd (next_word s)))"
    using mwc_lag_alive [of 36969 "unat (reg_z s)"] mwc_lag_alive [of 18000 "unat (reg_w s)"] *
    unfolding mwc_alive_def unat_next_z unat_next_w by simp
next
  show "mwc_alive 36969 (reg_z s) \<and> mwc_alive 18000 (reg_w s)" using assms ..
qed

lemma same_registers:
  assumes "reg_w s = reg_w t" "reg_z s = reg_z t"
  shows "fst (draws next_word n s) = fst (draws next_word n t)
    \<and> reg_w (snd (draws next_word n s)) = reg_w (snd (draws next_word n t))
    \<and> reg_z (snd (draws next_word n s)) = reg_z (snd (draws next_word n t))"
  using assms
proof (induction n arbitrary: s t)
  case 0
  then show ?case by simp
next
  case (Suc n)
  have w: "reg_w (snd (next_word s)) = reg_w (snd (next_word t))"
    and z: "reg_z (snd (next_word s)) = reg_z (snd (next_word t))"
    using Suc.prems by (simp_all add: next_w next_z)
  then have "fst (next_word s) = fst (next_word t)" by (simp add: word_value)
  with Suc.IH [OF w z] show ?case by (simp add: Let_def case_prod_beta)
qed

end

interpretation mwcs: word_source stress_mwc32 mwc_w mwc_z
  by unfold_locales (simp_all add: stress_mwc32_def Let_def)

section \<open>Buffered words\<close>

definition split_word :: "(u32 \<Rightarrow> 'a) \<Rightarrow> nat \<Rightarrow> nat \<Rightarrow> u32 \<Rightarrow> 'a list" where
  "split_word piece width pieces v = map (\<lambda>i. piece (drop_bit (width * i) v)) [0..<pieces]"

text \<open>
  The contract shared by the functions that hand out a buffered word in pieces: a call with an
  empty buffer draws a word and keeps \<open>pieces - 1\<close> pieces back, any other call shifts the saved
  word by one piece.
\<close>

locale word_buffer =
  fixes get :: "mwc \<Rightarrow> 'a \<times> mwc"
    and cnt :: "mwc \<Rightarrow> u32"
    and saved :: "mwc \<Rightarrow> u32"
    and piece :: "u32 \<Rightarrow> 'a"
    and width :: nat
    and pieces :: nat
  assumes pieces_pos: "0 < pieces" and pieces_small: "pieces \<le> 32"
    and get_value: "fst (get m) = piece (saved (snd (get m)))"
    and refill: "cnt m = 0 \<Longrightarrow> cnt (snd (get m)) = of_nat (pieces - 1)
      \<and> saved (snd (get m)) = fst (stress_mwc32 m)
      \<and> mwc_w (snd (get m)) = mwc_w (snd (stress_mwc32 m))
      \<and> mwc_z (snd (get m)) = mwc_z (snd (stress_mwc32 m))"
    and shift: "cnt m \<noteq> 0 \<Longrightarrow> cnt (snd (get m)) = cnt m - 1
      \<and> saved (snd (get m)) = drop_bit width (saved m)
      \<and> mwc_w (snd (get m)) = mwc_w m \<and> mwc_z (snd (get m)) = mwc_z m"
begin

lemma count_bound: "unat (cnt m) < pieces \<Longrightarrow> unat (cnt (snd (get m))) < pieces"
proof (cases "cnt m = 0")
  case True
  have "unat (of_nat (pieces - 1) :: u32) = pieces - 1"
    using pieces_small by (simp only: unat_of_nat) (simp add: take_bit_nat_eq_self)
  then show ?thesis using True refill [of m] pieces_pos by simp
next
  case False
  then have "unat (cnt m - 1) = unat (cnt m) - 1" by (rule unat_minus_one)
  then show "unat (cnt m) < pieces \<Longrightarrow> ?thesis" using False shift [of m] by simp
qed

lemma drain:
  assumes "cnt m = of_nat k" "k < pieces"
  shows "fst (draws get k m) = map (\<lambda>i. piece (drop_bit (width * Suc i) (saved m))) [0..<k]
    \<and> cnt (snd (draws get k m)) = 0
    \<and> mwc_w (snd (draws get k m)) = mwc_w m \<and> mwc_z (snd (draws get k m)) = mwc_z m"
  using assms
proof (induction k arbitrary: m)
  case 0
  then show ?case by simp
next
  case (Suc k)
  have "unat (of_nat (Suc k) :: u32) = Suc k"
    using Suc.prems pieces_small by (simp only: unat_of_nat) (simp add: take_bit_nat_eq_self)
  then have nz: "cnt m \<noteq> 0" using Suc.prems by auto
  note sh = shift [OF nz]
  have "cnt (snd (get m)) = of_nat k" using Suc.prems sh by simp
  then have IH: "fst (draws get k (snd (get m)))
      = map (\<lambda>i. piece (drop_bit (width * Suc i) (saved (snd (get m))))) [0..<k]
    \<and> cnt (snd (draws get k (snd (get m)))) = 0
    \<and> mwc_w (snd (draws get k (snd (get m)))) = mwc_w (snd (get m))
    \<and> mwc_z (snd (draws get k (snd (get m)))) = mwc_z (snd (get m))"
    using Suc.IH [of "snd (get m)"] Suc.prems by simp
  have "drop_bit (width * Suc i) (drop_bit width (saved m)) = drop_bit (width * Suc (Suc i)) (saved m)" for i
    by (simp add: ac_simps)
  then show ?case
    using IH sh get_value [of m]
    by (simp add: Let_def case_prod_beta upt_conv_Cons map_Suc_upt [symmetric] del: upt_Suc)
qed

lemma one_word:
  assumes "cnt m = 0"
  shows "fst (draws get pieces m) = split_word piece width pieces (fst (stress_mwc32 m))
    \<and> cnt (snd (draws get pieces m)) = 0
    \<and> mwc_w (snd (draws get pieces m)) = mwc_w (snd (stress_mwc32 m))
    \<and> mwc_z (snd (draws get pieces m)) = mwc_z (snd (stress_mwc32 m))"
proof -
  obtain k where k: "pieces = Suc k" using pieces_pos by (cases pieces) auto
  note rf = refill [OF assms]
  have "cnt (snd (get m)) = of_nat k" using rf k by simp
  from drain [OF this] k rf get_value [of m] show ?thesis
    by (simp add: split_word_def Let_def case_prod_beta upt_conv_Cons map_Suc_upt [symmetric] del: upt_Suc)
qed

lemma word_stream:
  assumes "cnt m = 0"
  shows "fst (draws get (pieces * n) m) = concat (map (split_word piece width pieces) (fst (draws stress_mwc32 n m)))
    \<and> cnt (snd (draws get (pieces * n) m)) = 0
    \<and> mwc_w (snd (draws get (pieces * n) m)) = mwc_w (snd (draws stress_mwc32 n m))
    \<and> mwc_z (snd (draws get (pieces * n) m)) = mwc_z (snd (draws stress_mwc32 n m))"
  using assms
proof (induction n arbitrary: m)
  case 0
  then show ?case by simp
next
  case (Suc n)
  let ?m = "snd (draws get pieces m)"
  note one = one_word [OF Suc.prems]
  have same: "fst (draws stress_mwc32 n ?m) = fst (draws stress_mwc32 n (snd (stress_mwc32 m)))
    \<and> mwc_w (snd (draws stress_mwc32 n ?m)) = mwc_w (snd (draws stress_mwc32 n (snd (stress_mwc32 m))))
    \<and> mwc_z (snd (draws stress_mwc32 n ?m)) = mwc_z (snd (draws stress_mwc32 n (snd (stress_mwc32 m))))"
    using one by (intro mwcs.same_registers) auto
  have "cnt ?m = 0" using one by simp
  note IH = Suc.IH [OF this]
  show ?case
    using one same IH draws_add [of get pieces "pieces * n" m]
    by (simp add: Let_def case_prod_beta)
qed

lemma prefix_stream:
  assumes "cnt m = 0" "len \<le> pieces * n"
  shows "fst (draws get len m) = take len (concat (map (split_word piece width pieces) (fst (draws stress_mwc32 n m))))"
proof -
  have "fst (draws get (pieces * n) m)
      = fst (draws get len m) @ fst (draws get (pieces * n - len) (snd (draws get len m)))"
    using draws_add [of get len "pieces * n - len" m] assms(2) by (simp add: Let_def case_prod_beta)
  then show ?thesis using word_stream [OF assms(1), of n]
    by (metis append_eq_conv_conj length_draws)
qed

end

interpretation mwc8: word_buffer stress_mwc8 mwc_n8 mwc_saved8 "\<lambda>v. ucast (v AND 0xff)" 8 4
  by unfold_locales (simp_all add: stress_mwc8_def stress_mwc32_def Let_def)

interpretation mwc16: word_buffer stress_mwc16 mwc_n16 mwc_saved16 "\<lambda>v. ucast (v AND 0xffff)" 16 2
  by unfold_locales (simp_all add: stress_mwc16_def stress_mwc32_def Let_def)

interpretation mwc1: word_buffer stress_mwc1 mwc_n1 mwc_saved1 "\<lambda>v. ucast (v AND 0x1)" 1 32
  by unfold_locales (simp_all add: stress_mwc1_def stress_mwc32_def Let_def)

lemma ucast_mask8: "(ucast (w AND 0xff) :: u8) = ucast (w :: u32)"
proof -
  have "(255::u32) = mask 8" by (simp add: mask_eq_exp_minus_1)
  then have "w AND 0xff = take_bit 8 w" by (simp only: take_bit_eq_mask)
  then show ?thesis by (simp only:) (intro bit_word_eqI, simp add: bit_simps)
qed

lemma split_word8: "split_word (\<lambda>v. ucast (v AND 0xff)) 8 4 v = bytes_of32 v"
  unfolding split_word_def ucast_mask8 by (simp add: bytes_of32_def upt_rec)

section \<open>Multiply-high reduction\<close>

lemma mulhi_less:
  assumes "0 < (x::nat)" "v < 2 ^ n"
  shows "(v * x) div 2 ^ n < x"
proof -
  have "v * x < 2 ^ n * x" using assms by simp
  then show ?thesis by (simp add: less_mult_imp_div_less mult.commute)
qed

lemma unat_mulhi:
  fixes v x :: "'n::len word"
  assumes len: "2 * LENGTH('n) \<le> LENGTH('d::len)"
  shows "unat (ucast (drop_bit LENGTH('n) ((ucast v :: 'd word) * ucast x)) :: 'n word)
    = (unat v * unat x) div 2 ^ LENGTH('n)"
proof -
  let ?k = "LENGTH('n)"
  have v: "unat v < 2 ^ ?k" and x: "unat x < 2 ^ ?k" by (rule unsigned_less)+
  have wide: "LENGTH('n) \<le> LENGTH('d)" using len by simp
  have "unat v * unat x < 2 ^ ?k * 2 ^ ?k" using v x by (intro mult_strict_mono') auto
  then have "unat v * unat x < 2 ^ (2 * LENGTH('n))" by (simp add: power_add mult_2)
  also have "\<dots> \<le> 2 ^ LENGTH('d)" using len by (intro power_increasing) auto
  finally have prod: "unat v * unat x < 2 ^ LENGTH('d)" .
  have up: "unat (ucast w :: 'd word) = unat w" for w :: "'n word"
  proof -
    have "unat w < 2 ^ ?k" by (rule unsigned_less)
    also have "\<dots> \<le> 2 ^ LENGTH('d)" using wide by (intro power_increasing) auto
    finally show ?thesis by (simp add: unsigned_ucast_eq take_bit_nat_eq_self)
  qed
  have "unat ((ucast v :: 'd word) * ucast x) = unat v * unat x"
    using prod by (simp add: unat_word_ariths up)
  then have *: "unat (drop_bit ?k ((ucast v :: 'd word) * ucast x)) = (unat v * unat x) div 2 ^ ?k"
    using prod by (simp only: unsigned_drop_bit_eq) (simp add: take_bit_nat_eq_self drop_bit_eq_div)
  have "(unat v * unat x) div 2 ^ ?k < 2 ^ ?k"
    using \<open>unat v * unat x < 2 ^ ?k * 2 ^ ?k\<close> by (simp add: less_mult_imp_div_less)
  then show ?thesis by (simp add: unsigned_ucast_eq * take_bit_nat_eq_self)
qed

lemma unat_mulhi_less:
  fixes v x :: "'n::len word"
  assumes "2 * LENGTH('n) \<le> LENGTH('d::len)" "0 < x"
  shows "(ucast (drop_bit LENGTH('n) ((ucast v :: 'd word) * ucast x)) :: 'n word) < x"
proof -
  have "0 < unat x" using assms(2) by (simp add: unat_gt_0 word_neq_0_conv)
  then show ?thesis
    unfolding word_less_nat_alt unat_mulhi [OF assms(1)]
    by (rule mulhi_less) (rule unsigned_less)
qed

lemma mwc8modn_less: "0 < mx \<Longrightarrow> fst (stress_mwc8modn mx m) < mx"
  using unat_mulhi_less [where ?'n = 8 and ?'d = 32, of mx "fst (stress_mwc8 m)"]
  by (simp add: stress_mwc8modn_def Let_def case_prod_beta)

lemma mwc16modn_less: "0 < mx \<Longrightarrow> fst (stress_mwc16modn mx m) < mx"
  using unat_mulhi_less [where ?'n = 16 and ?'d = 32, of mx "fst (stress_mwc16 m)"]
  by (simp add: stress_mwc16modn_def Let_def case_prod_beta)

lemma mwc32modn_less: "0 < mx \<Longrightarrow> fst (stress_mwc32modn mx m) < mx"
  using unat_mulhi_less [where ?'n = 32 and ?'d = 64, of mx "fst (stress_mwc32 m)"]
  by (simp add: stress_mwc32modn_def Let_def case_prod_beta)

lemma mwc64modn_less: "0 < mx \<Longrightarrow> fst (stress_mwc64modn mx m) < mx"
  using unat_mulhi_less [where ?'n = 64 and ?'d = 128, of mx "fst (stress_mwc64 m)"]
  by (simp add: stress_mwc64modn_def Let_def case_prod_beta)

section \<open>Random strings and buffers\<close>

text \<open>The characters one word yields: six bits each, five to a word.\<close>

definition rndstr_chars :: "u32 \<Rightarrow> string" where
  "rndstr_chars v = map (\<lambda>i. rndstr_alphabet ! unat (drop_bit (6 * i) v AND 0x3F)) [0..<5]"

lemma length_rndstr_chars [simp]: "length (rndstr_chars v) = 5"
  by (simp add: rndstr_chars_def)

lemma length_rndstr_alphabet: "length rndstr_alphabet = 64"
  by (simp add: rndstr_alphabet_def)

lemma rndstr_loop_length [simp]: "length (fst (rndstr_loop k r m)) = k"
  by (induction k arbitrary: r m) (simp_all add: Let_def case_prod_beta)

text \<open>The two top bits mark how much of a word is left: they reach the bottom after five steps.\<close>

lemma unat_drop_bit_u32: "unat (drop_bit k (r::u32)) = unat r div 2 ^ k"
  by (simp only: unsigned_drop_bit_eq) (simp add: drop_bit_eq_div)

lemma rndstr_marker:
  "drop_bit 6 (v OR 0xc0000000) \<noteq> (3::u32)" "drop_bit 12 (v OR 0xc0000000) \<noteq> (3::u32)"
  "drop_bit 18 (v OR 0xc0000000) \<noteq> (3::u32)" "drop_bit 24 (v OR 0xc0000000) \<noteq> (3::u32)"
  "drop_bit 30 (v OR 0xc0000000) = (3::u32)"
proof -
  let ?r = "v OR 0xc0000000 :: u32"
  have "0xc0000000 \<le> ?r" by (rule le_word_or1)
  then have low: "3221225472 \<le> unat ?r" by (simp add: word_le_nat_alt)
  have high: "unat ?r < 4294967296" by (rule unat_less_width)
  note arith = word_unat_eq_iff unat_drop_bit_u32
  show "drop_bit 6 ?r \<noteq> 3" "drop_bit 12 ?r \<noteq> 3" "drop_bit 18 ?r \<noteq> 3" "drop_bit 24 ?r \<noteq> 3"
    unfolding arith using low by (simp_all del: drop_bit_or)
  show "drop_bit 30 ?r = 3"
    unfolding arith using low high by (simp del: unat_less_width drop_bit_or)
qed

lemma rndstr_char_marked:
  "i < 5 \<Longrightarrow> drop_bit (6 * i) (v OR 0xc0000000) AND 0x3F = drop_bit (6 * i) (v::u32) AND 0x3F"
proof (rule bit_word_eqI)
  fix n
  assume "i < 5" "n < LENGTH(32)"
  have mask6: "bit (63::u32) n \<longleftrightarrow> n < 6"
    using \<open>n < LENGTH(32)\<close> bit_mask_iff [where ?'a = u32, of 6 n] by (simp add: mask_eq_exp_minus_1)
  have "\<not> bit (0xc0000000::u32) (6 * i + n)" if "n < 6"
  proof -
    have "6 * i + n < 30" using that \<open>i < 5\<close> by linarith
    moreover have "\<forall>k \<in> set [0..<30]. \<not> bit (0xc0000000::u32) k" by code_simp
    ultimately show ?thesis by simp
  qed
  then show "bit (drop_bit (6 * i) (v OR 0xc0000000) AND 0x3F) n = bit (drop_bit (6 * i) v AND 0x3F) n"
    unfolding bit_and_iff mask6 bit_drop_bit_eq comp_def bit_or_iff by blast
qed

lemma rndstr_loop_five:
  "rndstr_loop (Suc (Suc (Suc (Suc (Suc k))))) (v OR 0xc0000000) m =
     (let (u, m1) = stress_mwc32 m; (cs, m2) = rndstr_loop k (u OR 0xc0000000) m1
      in (rndstr_chars v @ cs, m2))"
  using rndstr_char_marked [of 0 v] rndstr_char_marked [of 1 v] rndstr_char_marked [of 2 v]
    rndstr_char_marked [of 3 v] rndstr_char_marked [of 4 v] rndstr_marker [of v]
  by (simp add: Let_def case_prod_beta rndstr_chars_def upt_rec del: drop_bit_or)

lemma rndstr_loop_few:
  assumes "k < 5"
  shows "rndstr_loop k (v OR 0xc0000000) m = (take k (rndstr_chars v), m)"
proof -
  have "k = 0 \<or> k = 1 \<or> k = 2 \<or> k = 3 \<or> k = 4" using assms by linarith
  then show ?thesis
    using rndstr_char_marked [of 0 v] rndstr_char_marked [of 1 v] rndstr_char_marked [of 2 v]
      rndstr_char_marked [of 3 v] rndstr_marker [of v]
    by (elim disjE)
      (simp_all add: Let_def case_prod_beta rndstr_chars_def upt_rec numeral_eq_Suc del: drop_bit_or)
qed

lemma rndstr_loop_words:
  "rndstr_loop k (v OR 0xc0000000) m =
     (take k (concat (map rndstr_chars (v # fst (draws stress_mwc32 (k div 5) m)))),
      snd (draws stress_mwc32 (k div 5) m))"
proof (induction k arbitrary: v m rule: less_induct)
  case (less k)
  show ?case
  proof (cases "k < 5")
    case True
    then show ?thesis by (simp add: rndstr_loop_few)
  next
    case False
    then obtain k' where k: "k = Suc (Suc (Suc (Suc (Suc k'))))"
      by (intro that [of "k - 5"]) simp
    have "k div 5 = Suc (k' div 5)" by (simp add: k)
    then show ?thesis
      using less [of k' "fst (stress_mwc32 m)" "snd (stress_mwc32 m)"]
      by (simp add: k rndstr_loop_five Let_def case_prod_beta del: rndstr_loop.simps)
  qed
qed


lemma uint8rnd4_words_run:
  assumes "ptr32end = ptr32 + 4 * n"
  shows "uint8rnd4_words little ptr32 ptr32end m =
    (concat (map bytes_of32 (fst (draws stress_mwc32 n m))), ptr32end, snd (draws stress_mwc32 n m))"
  using assms
proof (induction n arbitrary: ptr32 m)
  case 0
  then show ?case by (simp add: uint8rnd4_words.simps [of little ptr32])
next
  case (Suc n)
  have "store32 little (if little then v else stress_bitops_swap32 v) = bytes_of32 v" for v
    by (simp add: store32_def swap32_bytes)
  then show ?case
    using Suc.IH [of "ptr32 + 4"] Suc.prems
    by (subst uint8rnd4_words.simps) (simp add: Let_def case_prod_beta)
qed

lemma uint8rnd4_words_none:
  "ptr32end \<le> ptr32 \<Longrightarrow> uint8rnd4_words little ptr32 ptr32end m = ([], ptr32, m)"
  by (subst uint8rnd4_words.simps) simp

lemma uint8rnd4_head_run:
  assumes "ptr8 + n \<le> ptr8end" and "\<forall>i<n. (ptr8 + i) mod 4 \<noteq> 0"
    and "(ptr8 + n) mod 4 = 0 \<or> ptr8 + n = ptr8end"
  shows "uint8rnd4_head ptr8 ptr8end m =
    (fst (draws stress_mwc8 n m), ptr8 + n, snd (draws stress_mwc8 n m))"
  using assms
proof (induction n arbitrary: ptr8 m)
  case 0
  then show ?case by (subst uint8rnd4_head.simps) auto
next
  case (Suc n)
  have "ptr8 mod 4 \<noteq> 0" using Suc.prems(2) by (metis add.right_neutral zero_less_Suc)
  moreover have "ptr8 < ptr8end" using Suc.prems(1) by simp
  moreover have "\<forall>i<n. (ptr8 + 1 + i) mod 4 \<noteq> 0"
    using Suc.prems(2) by (metis Suc_less_eq add.assoc plus_1_eq_Suc)
  ultimately show ?case
    using Suc.IH [of "ptr8 + 1" "snd (stress_mwc8 m)"] Suc.prems
    by (subst uint8rnd4_head.simps) (simp add: Let_def case_prod_beta)
qed

text \<open>How many bytes lie before, in and after the aligned words of a buffer.\<close>

definition rnd4_head_count :: "nat \<Rightarrow> nat \<Rightarrow> nat" where
  "rnd4_head_count data len = min ((4 - data mod 4) mod 4) len"

definition rnd4_word_count :: "nat \<Rightarrow> nat \<Rightarrow> nat" where
  "rnd4_word_count data len = (len - rnd4_head_count data len) div 4"

definition rnd4_tail_count :: "nat \<Rightarrow> nat \<Rightarrow> nat" where
  "rnd4_tail_count data len = len - rnd4_head_count data len - 4 * rnd4_word_count data len"

lemma align_up:
  "(data + (4 - data mod 4) mod 4) mod 4 = (0::nat)"
  "i < (4 - data mod 4) mod 4 \<Longrightarrow> (data + i) mod 4 \<noteq> (0::nat)"
proof -
  have r: "data mod 4 = 0 \<or> data mod 4 = 1 \<or> data mod 4 = 2 \<or> data mod 4 = 3" by linarith
  then show "(data + (4 - data mod 4) mod 4) mod 4 = 0"
    by (elim disjE; simp; presburger)
  show "(data + i) mod 4 \<noteq> 0" if "i < (4 - data mod 4) mod 4"
    using r that by (elim disjE; simp; presburger)
qed

lemma uint8rnd4_head_count:
  "uint8rnd4_head data (data + len) m =
    (fst (draws stress_mwc8 (rnd4_head_count data len) m), data + rnd4_head_count data len,
     snd (draws stress_mwc8 (rnd4_head_count data len) m))"
proof (rule uint8rnd4_head_run)
  let ?n = "rnd4_head_count data len"
  show "data + ?n \<le> data + len" by (simp add: rnd4_head_count_def)
  show "\<forall>i<?n. (data + i) mod 4 \<noteq> 0"
    by (simp add: rnd4_head_count_def align_up)
  show "(data + ?n) mod 4 = 0 \<or> data + ?n = data + len"
    by (cases "(4 - data mod 4) mod 4 \<le> len")
      (simp_all add: rnd4_head_count_def align_up(1) min_def)
qed

lemma uint8rnd4_regions:
  assumes "data \<noteq> 0"
  shows "stress_uint8rnd4 little data len m =
    (let (h, m1) = draws stress_mwc8 (rnd4_head_count data len) m;
         (ws, m2) = draws stress_mwc32 (rnd4_word_count data len) m1;
         (t, m3) = draws stress_mwc8 (rnd4_tail_count data len) m2
     in (h @ concat (map bytes_of32 ws) @ t, m3))"
proof -
  let ?h = "rnd4_head_count data len" and ?w = "rnd4_word_count data len"
  let ?m1 = "snd (draws stress_mwc8 ?h m)"
  have words: "uint8rnd4_words little (data + ?h) ((data + len) div 4 * 4) ?m1 =
      (concat (map bytes_of32 (fst (draws stress_mwc32 ?w ?m1))), data + ?h + 4 * ?w,
       snd (draws stress_mwc32 ?w ?m1))"
  proof (cases "(data + ?h) mod 4 = 0")
    case True
    then obtain q where q: "data + ?h = 4 * q" by (auto simp: mod_eq_0_iff_dvd)
    have "?h \<le> len" by (simp add: rnd4_head_count_def)
    then have "data + len = 4 * q + (len - ?h)" using q by linarith
    then have "(data + len) div 4 * 4 = data + ?h + 4 * ?w"
      by (simp add: rnd4_word_count_def q)
    then show ?thesis by (simp add: uint8rnd4_words_run [of _ _ ?w])
  next
    case False
    have "?h = len"
      using False align_up(1) [of data] by (auto simp: rnd4_head_count_def min_def split: if_splits)
    then have "?w = 0" by (simp add: rnd4_word_count_def)
    then show ?thesis using \<open>?h = len\<close> by (simp add: uint8rnd4_words_none)
  qed
  have "data + len - (data + ?h + 4 * ?w) = rnd4_tail_count data len"
    by (simp add: rnd4_tail_count_def)
  then show ?thesis
    using assms words uint8rnd4_head_count [of data len m]
    by (simp add: stress_uint8rnd4_def Let_def case_prod_beta)
qed

lemma rndstr_chars_alphabet: "set (rndstr_chars v) \<subseteq> set rndstr_alphabet"
proof
  fix c
  assume "c \<in> set (rndstr_chars v)"
  then obtain i where c: "c = rndstr_alphabet ! unat (drop_bit (6 * i) v AND 0x3F)"
    by (auto simp: rndstr_chars_def)
  have "drop_bit (6 * i) v AND 0x3F \<le> 0x3F" by (rule word_and_le1)
  then have "unat (drop_bit (6 * i) v AND 0x3F) \<le> 63" by (simp add: word_le_nat_alt)
  then show "c \<in> set rndstr_alphabet"
    using c by (simp add: length_rndstr_alphabet)
qed

lemma length_concat_bytes [simp]: "length (concat (map bytes_of32 ws)) = 4 * length ws"
  by (induction ws) simp_all

section \<open>Properties\<close>

text \<open>
  C33: after any number of words the two registers are the seeds divided by a power of 2^16
  modulo 36969 * 2^16 - 1 and 18000 * 2^16 - 1: the 32-bit arithmetic of stress_mwc32 never
  wraps, so the pair is the Lehmer generator it is meant to be.
\<close>

theorem mwc_lehmer:
  "(65536 ^ n * unat (mwc_z (snd (draws stress_mwc32 n m)))) mod 2422800383
      = unat (mwc_z m) mod 2422800383
   \<and> (65536 ^ n * unat (mwc_w (snd (draws stress_mwc32 n m)))) mod 1179647999
      = unat (mwc_w m) mod 1179647999"
  using mwcs.lehmer_z mwcs.lehmer_w by simp

text \<open>
  A generator seeded off the multiples of the two moduli never reaches one: in particular
  neither register ever becomes zero, whatever number of words has been drawn.
\<close>

theorem mwc_never_stuck:
  assumes "mwc_alive 36969 (mwc_z m)" "mwc_alive 18000 (mwc_w m)"
  shows "mwc_alive 36969 (mwc_z (snd (draws stress_mwc32 n m)))
    \<and> mwc_alive 18000 (mwc_w (snd (draws stress_mwc32 n m)))
    \<and> mwc_z (snd (draws stress_mwc32 n m)) \<noteq> 0 \<and> mwc_w (snd (draws stress_mwc32 n m)) \<noteq> 0"
proof -
  note alive = mwcs.alive_draws [OF assms, of n]
  then show ?thesis by (auto simp: mwc_alive_def)
qed

theorem mwc_never_stuck_witness:
  "mwc_z (snd (draws stress_mwc32 1000 mwc_initial)) \<noteq> 0"
  using mwc_never_stuck [of mwc_initial 1000]
  by (simp add: mwc_alive_def mwc_initial_def STRESS_MWC_SEED_W_def STRESS_MWC_SEED_Z_def)

text \<open>
  The bytes, half words and bits handed out after a reseed are the bytes, halves and bits of
  the successive 32-bit words, low end first, none skipped and none repeated.
\<close>

theorem mwc_buffers_stream:
  "fst (draws stress_mwc8 len (stress_mwc_seed_set w z m)) =
     take len (concat (map bytes_of32
       (fst (draws stress_mwc32 ((len + 3) div 4) (stress_mwc_seed_set w z m)))))
   \<and> fst (draws stress_mwc16 len (stress_mwc_seed_set w z m)) =
     take len (concat (map (split_word (\<lambda>v. ucast (v AND 0xffff)) 16 2)
       (fst (draws stress_mwc32 ((len + 1) div 2) (stress_mwc_seed_set w z m)))))
   \<and> fst (draws stress_mwc1 len (stress_mwc_seed_set w z m)) =
     take len (concat (map (split_word (\<lambda>v. ucast (v AND 0x1)) 1 32)
       (fst (draws stress_mwc32 ((len + 31) div 32) (stress_mwc_seed_set w z m)))))"
proof -
  let ?m = "stress_mwc_seed_set w z m"
  have n8: "mwc_n8 ?m = 0" and n16: "mwc_n16 ?m = 0" and n1: "mwc_n1 ?m = 0"
    by (simp_all add: stress_mwc_seed_set_def mwc_flush_def)
  have words: "split_word (\<lambda>v. ucast (v AND 0xff)) 8 4 = bytes_of32"
    by (rule ext) (rule split_word8)
  show ?thesis
    using mwc8.prefix_stream [OF n8, of len "(len + 3) div 4"]
      mwc16.prefix_stream [OF n16, of len "(len + 1) div 2"]
      mwc1.prefix_stream [OF n1, of len "(len + 31) div 32"]
    by (simp add: words)
qed

text \<open>
  The bounded draws are the high half of the product of a draw and the bound, so they are
  always below the bound (and zero for the bound zero).
\<close>

theorem mwc_modn_bounds:
  "(mx8 = 0 \<and> fst (stress_mwc8modn mx8 m) = 0 \<or> fst (stress_mwc8modn mx8 m) < mx8)
   \<and> (mx16 = 0 \<and> fst (stress_mwc16modn mx16 m) = 0 \<or> fst (stress_mwc16modn mx16 m) < mx16)
   \<and> (mx32 = 0 \<and> fst (stress_mwc32modn mx32 m) = 0 \<or> fst (stress_mwc32modn mx32 m) < mx32)
   \<and> (mx64 = 0 \<and> fst (stress_mwcsizemodn mx64 m) = 0 \<or> fst (stress_mwcsizemodn mx64 m) < mx64)"
proof -
  have zero: "fst (stress_mwc8modn 0 m) = 0" "fst (stress_mwc16modn 0 m) = 0"
    "fst (stress_mwc32modn 0 m) = 0" "fst (stress_mwc64modn 0 m) = 0"
    by (simp_all add: stress_mwc8modn_def stress_mwc16modn_def stress_mwc32modn_def
        stress_mwc64modn_def Let_def case_prod_beta)
  show ?thesis
    using mwc8modn_less [of mx8 m] mwc16modn_less [of mx16 m] mwc32modn_less [of mx32 m]
      mwc64modn_less [of mx64 m] zero
    by (cases "mx8 = 0"; cases "mx16 = 0"; cases "mx32 = 0"; cases "mx64 = 0")
      (simp_all add: stress_mwcsizemodn_def word_gt_0)
qed

text \<open>
  Stress_rndstr writes exactly the buffer's length: characters of the base64url alphabet,
  five from each 32-bit word by six bits from the low end, then the terminating NUL.
\<close>

theorem rndstr_string:
  "stress_rndstr (Suc k) m =
     (take k (concat (map rndstr_chars (fst (draws stress_mwc32 (Suc (k div 5)) m)))) @ [CHR 0x00],
      snd (draws stress_mwc32 (Suc (k div 5)) m))
   \<and> length (fst (stress_rndstr (Suc k) m)) = Suc k
   \<and> set (butlast (fst (stress_rndstr (Suc k) m))) \<subseteq> set rndstr_alphabet"
proof -
  let ?ws = "fst (draws stress_mwc32 (Suc (k div 5)) m)"
  have run: "stress_rndstr (Suc k) m =
     (take k (concat (map rndstr_chars ?ws)) @ [CHR 0x00], snd (draws stress_mwc32 (Suc (k div 5)) m))"
    using rndstr_loop_words [of k "fst (stress_mwc32 m)" "snd (stress_mwc32 m)"]
    by (simp add: stress_rndstr_def Let_def case_prod_beta)
  have "length (fst (stress_rndstr (Suc k) m)) = Suc k"
    by (simp add: stress_rndstr_def Let_def case_prod_beta)
  moreover have "set (take k (concat (map rndstr_chars ?ws))) \<subseteq> set rndstr_alphabet"
    using set_take_subset [of k "concat (map rndstr_chars ?ws)"] rndstr_chars_alphabet by fastforce
  ultimately show ?thesis using run by (simp add: butlast_append)
qed

text \<open>
  Stress_uint8rnd4 fills exactly the buffer, whatever its alignment: single bytes up to a
  four byte boundary, then whole words, then single bytes, and the bytes are the same on a
  little and on a big endian machine.
\<close>

theorem uint8rnd4_fill:
  "stress_uint8rnd4 little (Suc d) len m =
    (let (h, m1) = draws stress_mwc8 (rnd4_head_count (Suc d) len) m;
         (ws, m2) = draws stress_mwc32 (rnd4_word_count (Suc d) len) m1;
         (t, m3) = draws stress_mwc8 (rnd4_tail_count (Suc d) len) m2
     in (h @ concat (map bytes_of32 ws) @ t, m3))
   \<and> length (fst (stress_uint8rnd4 little (Suc d) len m)) = len
   \<and> stress_uint8rnd4 True (Suc d) len m = stress_uint8rnd4 False (Suc d) len m"
proof -
  have total: "rnd4_head_count (Suc d) len + 4 * rnd4_word_count (Suc d) len
      + rnd4_tail_count (Suc d) len = len"
  proof -
    have "rnd4_head_count (Suc d) len \<le> len" by (simp add: rnd4_head_count_def)
    moreover have "4 * rnd4_word_count (Suc d) len \<le> len - rnd4_head_count (Suc d) len"
      by (simp add: rnd4_word_count_def)
    ultimately show ?thesis by (simp add: rnd4_tail_count_def)
  qed
  note regions = uint8rnd4_regions [of "Suc d" _ len m]
  have "length (fst (stress_uint8rnd4 little (Suc d) len m)) = len"
    using total
    by (simp add: regions Let_def case_prod_beta algebra_simps)
  then show ?thesis by (simp add: regions)
qed

end
