(* ===== verification/Bitgen.thy ===== *)
theory Bitgen
  imports Mwc
begin

text \<open>
  The bit-pattern generator of core-bitgen.c and core-bitgen.h: a handle with its own pair of
  multiply-with-carry registers, a window that walks over the bit positions of a word, a cursor
  into a dictionary of boundary values and a mode counter.  The handle is a record threaded
  through the operations; the three calibration globals are a record that the operations read.
\<close>

section \<open>Handle, dictionary and calibration\<close>

record stress_bitgen =
  bg_w :: u32
  bg_z :: u32
  band_lo :: u32
  band_width :: u32
  band_step :: u32
  band_count :: u32
  bg_density :: u32
  edge_idx :: u32
  bg_mix :: u32

definition bitgen_edge_dict :: "u64 list" where
  "bitgen_edge_dict = [
     0x0000000000000000, 0x0000000000000001, 0x0000000000000002, 0x0000000000000003,
     0x7fffffffffffffff, 0x8000000000000000, 0x8000000000000001, 0xfffffffffffffffe,
     0xffffffffffffffff, 0x00000000000000ff, 0x0000000000000100, 0x0000000000000101,
     0x000000000000ffff, 0x0000000000010000, 0x0000000000010001, 0x00000000ffffffff,
     0x0000000100000000, 0x0000000100000001, 0x0000ffffffffffff, 0x0001000000000000,
     0x0001000000000001, 0x00ffffffffffffff, 0x0100000000000000, 0x0100000000000001,
     0x7fefffffffffffff, 0x0010000000000000, 0x0000000000000001, 0x7ff0000000000000,
     0x7ff8000000000000, 0x7feffffffffffffe, 0x0010000000000001, 0x4197d78400000000,
     0x4197d783ffffffff, 0x4340000000000000, 0x433fffffffffffff, 0x47efffffe0000000,
     0x36a0000000000000, 0x00ff00ff00ff00ff, 0xff00ff00ff00ff00, 0x0f0f0f0f0f0f0f0f,
     0xf0f0f0f0f0f0f0f0, 0x00000000ffffffff, 0x0000000000000400, 0x0000000000000800,
     0x0000000000001000, 0x0000000000010000, 0x0000000000100000, 0x0000000001000000,
     0x0000000010000000, 0x0000000100000000, 0x0000001000000000, 0x0000010000000000,
     0x0000100000000000, 0x0001000000000000, 0x0010000000000000, 0x0100000000000000,
     0x1000000000000000]"

definition EDGE_DICT_SIZE :: u32 where
  "EDGE_DICT_SIZE = of_nat (length bitgen_edge_dict)"

definition density_ones :: "u32 list" where
  "density_ones = [0, 1, 2, 3, 4]"

record bitgen_knobs =
  band_width_min :: u32
  band_width_max :: u32
  density_mask :: u32

definition bitgen_default_knobs :: bitgen_knobs where
  "bitgen_default_knobs = \<lparr>band_width_min = 6, band_width_max = 20, density_mask = 0x1f\<rparr>"

section \<open>The private word source\<close>

definition bg_mwc32 :: "stress_bitgen \<Rightarrow> u32 \<times> stress_bitgen" where
  "bg_mwc32 bg =
     (let z = 36969 * (bg_z bg AND 65535) + drop_bit 16 (bg_z bg);
          w = 18000 * (bg_w bg AND 65535) + drop_bit 16 (bg_w bg)
      in (push_bit 16 (z AND 0xffff) + w, bg\<lparr>bg_z := z, bg_w := w\<rparr>))"

definition bg_mwc64 :: "stress_bitgen \<Rightarrow> u64 \<times> stress_bitgen" where
  "bg_mwc64 bg =
     (let (hi, bg1) = bg_mwc32 bg; (lo, bg2) = bg_mwc32 bg1
      in (push_bit 32 (ucast hi) OR ucast lo, bg2))"

interpretation bgs: word_source bg_mwc32 bg_w bg_z
  by unfold_locales (simp_all add: bg_mwc32_def Let_def)

definition band_width_roll :: "bitgen_knobs \<Rightarrow> stress_bitgen \<Rightarrow> u32 \<times> stress_bitgen" where
  "band_width_roll k bg =
     (let span = band_width_max k - band_width_min k + 1; (r, bg1) = bg_mwc32 bg
      in (band_width_min k + r mod span, bg1))"

definition density_allowed :: "bitgen_knobs \<Rightarrow> nat list" where
  "density_allowed k = filter (\<lambda>i. density_mask k AND push_bit i 1 \<noteq> 0) [0, 1, 2, 3, 4]"

definition density_roll :: "bitgen_knobs \<Rightarrow> stress_bitgen \<Rightarrow> u32 \<times> stress_bitgen" where
  "density_roll k bg =
     (let allowed = density_allowed k; n = length allowed; (r, bg1) = bg_mwc32 bg
      in if n = 0 then (r mod (4 + 1), bg1)
         else (of_nat (allowed ! unat (r mod of_nat n)), bg1))"

section \<open>Seeding\<close>

definition stress_bitgen_seed :: "bitgen_knobs \<Rightarrow> u64 \<Rightarrow> stress_bitgen \<Rightarrow> stress_bitgen" where
  "stress_bitgen_seed k seed bg =
     (let bg = bg\<lparr>bg_w := ucast (seed AND 0xffffffff), bg_z := ucast (drop_bit 32 seed)\<rparr>;
          bg = (if bg_w bg = 0 \<and> bg_z bg = 0 then bg\<lparr>bg_w := 0x13572468\<rparr> else bg);
          (_, bg) = bg_mwc64 bg;
          (_, bg) = bg_mwc64 bg;
          (r, bg) = bg_mwc32 bg; bg = bg\<lparr>band_lo := r AND 63\<rparr>;
          (r, bg) = band_width_roll k bg; bg = bg\<lparr>band_width := r\<rparr>;
          (r, bg) = bg_mwc32 bg; bg = bg\<lparr>band_step := 1 + r mod 7, band_count := 0\<rparr>;
          (r, bg) = density_roll k bg; bg = bg\<lparr>bg_density := r\<rparr>;
          (r, bg) = bg_mwc32 bg; bg = bg\<lparr>edge_idx := r mod EDGE_DICT_SIZE\<rparr>;
          (r, bg) = bg_mwc32 bg
      in bg\<lparr>bg_mix := r\<rparr>)"

definition stress_bitgen_init :: "bitgen_knobs \<Rightarrow> stress_bitgen \<Rightarrow> mwc \<Rightarrow> stress_bitgen \<times> mwc" where
  "stress_bitgen_init k bg m = (let (seed, m1) = stress_mwc64 m in (stress_bitgen_seed k seed bg, m1))"

section \<open>The walking window\<close>

text \<open>Whether the next bit of the window is set, by the density of the handle.\<close>

definition band_bit :: "stress_bitgen \<Rightarrow> bool \<times> stress_bitgen" where
  "band_bit bg =
     (let d = density_ones ! unat (bg_density bg)
      in if d = 4 then (True, bg)
         else if d = 1 then let (r, bg1) = bg_mwc32 bg in (r AND 3 = 0, bg1)
         else if d = 2 then let (r, bg1) = bg_mwc32 bg in (r AND 1 = 0, bg1)
         else if d = 3 then let (r, bg1) = bg_mwc32 bg in (r AND 3 \<noteq> 0, bg1)
         else (False, bg))"

text \<open>The loop over the window: \<open>k\<close> bits still to go, the next one at index \<open>i\<close>.\<close>

fun band_loop :: "nat \<Rightarrow> nat \<Rightarrow> u64 \<Rightarrow> stress_bitgen \<Rightarrow> u64 \<times> stress_bitgen" where
  "band_loop 0 i band bg = (band, bg)"
| "band_loop (Suc k) i band bg =
     (let (b, bg1) = band_bit bg
      in band_loop k (Suc i) (if b then band OR push_bit i 1 else band) bg1)"

text \<open>Placing the band in the word \<open>v\<close>: bit \<open>i\<close> of the band goes to position \<open>lo + i\<close>, around the end.\<close>

definition band_place :: "u64 \<Rightarrow> u64 \<Rightarrow> u32 \<Rightarrow> u32 \<Rightarrow> u64" where
  "band_place v band lo width =
     (let mask = (if width \<ge> 64 then NOT 0 else push_bit (unat width) 1 - 1);
          shifted = (if lo + width > 64
                     then push_bit (unat lo) band OR drop_bit (unat (64 - lo)) band
                     else push_bit (unat lo) band);
          v = v AND NOT (push_bit (unat lo) mask);
          v = (if lo + width > 64 then v AND NOT (drop_bit (unat (64 - lo)) mask) else v)
      in v OR shifted)"

definition band_advance :: "bitgen_knobs \<Rightarrow> stress_bitgen \<Rightarrow> stress_bitgen" where
  "band_advance k bg =
     (let bg = bg\<lparr>band_count := band_count bg + 1\<rparr>
      in if band_count bg \<ge> band_step bg
         then let bg = bg\<lparr>band_count := 0, band_lo := (band_lo bg + 1) AND 63\<rparr>
              in if band_lo bg = 0
                 then let (r, bg) = band_width_roll k bg; bg = bg\<lparr>band_width := r\<rparr>;
                          (r, bg) = density_roll k bg; bg = bg\<lparr>bg_density := r\<rparr>;
                          (r, bg) = bg_mwc32 bg
                      in bg\<lparr>band_step := 1 + r mod 7\<rparr>
                 else bg
         else bg)"

definition band_fill :: "bitgen_knobs \<Rightarrow> stress_bitgen \<Rightarrow> u64 \<times> stress_bitgen" where
  "band_fill k bg =
     (let (v, bg1) = bg_mwc64 bg;
          (band, bg2) = band_loop (unat (band_width bg1)) 0 0 bg1
      in (band_place v band (band_lo bg2) (band_width bg2), band_advance k bg2))"

definition stress_bitgen_bandwalk64 :: "bitgen_knobs \<Rightarrow> stress_bitgen \<Rightarrow> u64 \<times> stress_bitgen" where
  "stress_bitgen_bandwalk64 k bg = band_fill k bg"

definition stress_bitgen_bandwalk32 :: "bitgen_knobs \<Rightarrow> stress_bitgen \<Rightarrow> u32 \<times> stress_bitgen" where
  "stress_bitgen_bandwalk32 k bg = (let (v, bg1) = band_fill k bg in (ucast (drop_bit 32 v), bg1))"

section \<open>Boundary values\<close>

definition stress_bitgen_edge64 :: "stress_bitgen \<Rightarrow> u64 \<times> stress_bitgen" where
  "stress_bitgen_edge64 bg =
     (let v = bitgen_edge_dict ! unat (edge_idx bg);
          bg = bg\<lparr>edge_idx := edge_idx bg + 1\<rparr>;
          bg = (if edge_idx bg \<ge> EDGE_DICT_SIZE then bg\<lparr>edge_idx := 0\<rparr> else bg);
          (r, bg) = bg_mwc32 bg;
          delta = 1 + ucast (r AND 3)
      in (if r AND 4 \<noteq> 0 then v + delta else v - delta, bg))"

section \<open>Floating-point encodings\<close>

definition fp64_exponent :: "u32 \<Rightarrow> u32 \<Rightarrow> u64" where
  "fp64_exponent lo r =
     (if r AND 7 = 0 then 0 else if r AND 7 = 7 then 2047
      else 1 + ucast ((lo * 32 + drop_bit 8 r) mod 2046))"

definition stress_bitgen_fp64_bits :: "bitgen_knobs \<Rightarrow> stress_bitgen \<Rightarrow> u64 \<times> stress_bitgen" where
  "stress_bitgen_fp64_bits k bg =
     (let (v, bg) = band_fill k bg;
          mant = v AND 0x000fffffffffffff;
          (r, bg) = bg_mwc32 bg;
          expn = fp64_exponent (band_lo bg) r
      in (push_bit 32 (ucast (r AND 0x80000000)) OR push_bit 52 expn OR mant, bg))"

definition fp32_exponent :: "u32 \<Rightarrow> u32 \<Rightarrow> u32" where
  "fp32_exponent lo r =
     (if r AND 7 = 0 then 0 else if r AND 7 = 7 then 255
      else 1 + (lo * 4 + drop_bit 10 r) mod 254)"

definition stress_bitgen_fp32_bits :: "bitgen_knobs \<Rightarrow> stress_bitgen \<Rightarrow> u32 \<times> stress_bitgen" where
  "stress_bitgen_fp32_bits k bg =
     (let (v, bg) = stress_bitgen_bandwalk32 k bg;
          mant = v AND 0x007fffff;
          (r, bg) = bg_mwc32 bg;
          expn = fp32_exponent (band_lo bg) r
      in ((r AND 0x80000000) OR push_bit 23 expn OR mant, bg))"

section \<open>Complements, weights and the mixed stream\<close>

definition stress_bitgen_complement_pair64 ::
    "bitgen_knobs \<Rightarrow> stress_bitgen \<Rightarrow> (u64 \<times> u64) \<times> stress_bitgen" where
  "stress_bitgen_complement_pair64 k bg =
     (let (r, bg) = bg_mwc32 bg;
          (v, bg) = (if r AND 1 \<noteq> 0 then stress_bitgen_edge64 bg else stress_bitgen_bandwalk64 k bg)
      in ((v, NOT v), bg))"

text \<open>
  The two nested loops of \<open>stress_bitgen_hamming64\<close>, one step per draw: a draw of a bit that is
  already set is retried.  The inner loop has no bound in the code, so the draws are counted by
  fuel and \<open>None\<close> says that it did not suffice.
\<close>

fun hamming64_loop :: "nat \<Rightarrow> nat \<Rightarrow> u64 \<Rightarrow> stress_bitgen \<Rightarrow> (u64 \<times> stress_bitgen) option" where
  "hamming64_loop fuel 0 v bg = Some (v, bg)"
| "hamming64_loop 0 (Suc weight) v bg = None"
| "hamming64_loop (Suc fuel) (Suc weight) v bg =
     (let (r, bg1) = bg_mwc32 bg; b = unat (r AND 63)
      in if v AND push_bit b 1 \<noteq> 0 then hamming64_loop fuel (Suc weight) v bg1
         else hamming64_loop fuel weight (v OR push_bit b 1) bg1)"

definition stress_bitgen_hamming64 :: "nat \<Rightarrow> u32 \<Rightarrow> stress_bitgen \<Rightarrow> (u64 \<times> stress_bitgen) option" where
  "stress_bitgen_hamming64 fuel target_weight bg =
     (let weight = target_weight AND 63; weight = (if weight > 32 then 32 else weight)
      in hamming64_loop fuel (unat weight) 0 bg)"

definition stress_bitgen_u64 :: "bitgen_knobs \<Rightarrow> stress_bitgen \<Rightarrow> u64 \<times> stress_bitgen" where
  "stress_bitgen_u64 k bg =
     (let bg = bg\<lparr>bg_mix := bg_mix bg + 1\<rparr>
      in if bg_mix bg mod 3 = 0 then stress_bitgen_bandwalk64 k bg
         else if bg_mix bg mod 3 = 1 then stress_bitgen_edge64 bg
         else let (a, bg) = bg_mwc64 bg; (b, bg) = bg_mwc32 bg in (a XOR ucast b, bg))"

definition stress_bitgen_skip :: "bitgen_knobs \<Rightarrow> nat \<Rightarrow> stress_bitgen \<Rightarrow> stress_bitgen" where
  "stress_bitgen_skip k len bg = snd (draws (stress_bitgen_u64 k) ((len + 7) div 8) bg)"

section \<open>The invariant\<close>

text \<open>The calibration the code assumes: a non-empty width range inside a word.\<close>

definition knobs_ok :: "bitgen_knobs \<Rightarrow> bool" where
  "knobs_ok k \<longleftrightarrow> 1 \<le> band_width_min k \<and> band_width_min k \<le> band_width_max k \<and> band_width_max k \<le> 64"

definition bitgen_ok :: "bitgen_knobs \<Rightarrow> stress_bitgen \<Rightarrow> bool" where
  "bitgen_ok k bg \<longleftrightarrow>
     band_lo bg < 64 \<and> band_width_min k \<le> band_width bg \<and> band_width bg \<le> band_width_max k
     \<and> bg_density bg \<le> 4 \<and> band_step bg \<le> 7 \<and> band_count bg < band_step bg
     \<and> edge_idx bg < EDGE_DICT_SIZE"

lemma knobs_ok_default: "knobs_ok bitgen_default_knobs"
  by (simp add: knobs_ok_def bitgen_default_knobs_def)

text \<open>The fields a draw leaves alone.\<close>

definition bg_cursor :: "stress_bitgen \<Rightarrow> u32 \<times> u32 \<times> u32 \<times> u32 \<times> u32 \<times> u32 \<times> u32" where
  "bg_cursor bg = (band_lo bg, band_width bg, band_step bg, band_count bg, bg_density bg, edge_idx bg, bg_mix bg)"

lemma cursor_simps [simp]:
  "band_lo (snd (bg_mwc32 bg)) = band_lo bg" "band_width (snd (bg_mwc32 bg)) = band_width bg"
  "band_step (snd (bg_mwc32 bg)) = band_step bg" "band_count (snd (bg_mwc32 bg)) = band_count bg"
  "bg_density (snd (bg_mwc32 bg)) = bg_density bg" "edge_idx (snd (bg_mwc32 bg)) = edge_idx bg"
  "bg_mix (snd (bg_mwc32 bg)) = bg_mix bg"
  by (simp_all add: bg_mwc32_def Let_def)

lemma cursor64_simps [simp]:
  "band_lo (snd (bg_mwc64 bg)) = band_lo bg" "band_width (snd (bg_mwc64 bg)) = band_width bg"
  "band_step (snd (bg_mwc64 bg)) = band_step bg" "band_count (snd (bg_mwc64 bg)) = band_count bg"
  "bg_density (snd (bg_mwc64 bg)) = bg_density bg" "edge_idx (snd (bg_mwc64 bg)) = edge_idx bg"
  "bg_mix (snd (bg_mwc64 bg)) = bg_mix bg"
  by (simp_all add: bg_mwc64_def Let_def case_prod_beta)

lemma width_roll_cursor [simp]:
  "snd (band_width_roll k bg) = snd (bg_mwc32 bg)"
  by (simp add: band_width_roll_def Let_def case_prod_beta)

lemma density_roll_cursor [simp]:
  "snd (density_roll k bg) = snd (bg_mwc32 bg)"
  by (simp add: density_roll_def Let_def case_prod_beta)

lemma band_width_roll_range:
  assumes "knobs_ok k"
  shows "band_width_min k \<le> fst (band_width_roll k bg)
    \<and> fst (band_width_roll k bg) \<le> band_width_max k"
proof -
  let ?lo = "band_width_min k" and ?hi = "band_width_max k"
  have le: "unat ?lo \<le> unat ?hi" "unat ?hi \<le> 64" "1 \<le> unat ?lo"
    using assms by (simp_all add: knobs_ok_def word_le_nat_alt)
  have span: "unat (?hi - ?lo + 1) = unat ?hi - unat ?lo + 1"
    using le by (subst unat_add_lem [THEN iffD1]) (simp_all add: unat_sub word_le_nat_alt)
  let ?r = "fst (bg_mwc32 bg) mod (?hi - ?lo + 1)"
  have r: "unat ?r < unat ?hi - unat ?lo + 1"
    by (simp add: unat_mod_distrib span)
  have "unat (?lo + ?r) = unat ?lo + unat ?r"
    using r le by (intro unat_add_lem [THEN iffD1]) simp
  then show ?thesis
    using r le by (simp add: band_width_roll_def Let_def case_prod_beta word_le_nat_alt)
qed

lemma density_allowed_le: "\<forall>i \<in> set (density_allowed k). i \<le> 4"
  by (auto simp: density_allowed_def)

lemma length_density_allowed: "length (density_allowed k) \<le> 5"
  unfolding density_allowed_def by (rule order_trans [OF length_filter_le]) simp

lemma density_roll_range: "fst (density_roll k bg) \<le> 4"
proof (cases "density_allowed k = []")
  case True
  have "unat (fst (bg_mwc32 bg) mod 5) < 5" by (simp add: unat_mod_distrib)
  then show ?thesis using True
    by (simp add: density_roll_def Let_def case_prod_beta word_le_nat_alt)
next
  case False
  let ?n = "length (density_allowed k)"
  have n: "unat (of_nat ?n :: u32) = ?n"
    using length_density_allowed [of k] by (simp add: unat_of_nat take_bit_nat_eq_self)
  have "unat (fst (bg_mwc32 bg) mod of_nat ?n) < ?n"
    using False by (simp add: unat_mod_distrib n)
  then have "density_allowed k ! unat (fst (bg_mwc32 bg) mod of_nat ?n) \<le> 4"
    using density_allowed_le nth_mem by blast
  then show ?thesis using False
    by (simp add: density_roll_def Let_def case_prod_beta word_le_nat_alt unat_of_nat take_bit_nat_eq_self)
qed

lemma band_bit_cursor [simp]:
  "band_lo (snd (band_bit bg)) = band_lo bg" "band_width (snd (band_bit bg)) = band_width bg"
  "band_step (snd (band_bit bg)) = band_step bg" "band_count (snd (band_bit bg)) = band_count bg"
  "bg_density (snd (band_bit bg)) = bg_density bg" "edge_idx (snd (band_bit bg)) = edge_idx bg"
  "bg_mix (snd (band_bit bg)) = bg_mix bg"
  by (simp_all add: band_bit_def Let_def case_prod_beta)

lemma band_loop_cursor [simp]:
  "band_lo (snd (band_loop n i b bg)) = band_lo bg" "band_width (snd (band_loop n i b bg)) = band_width bg"
  "band_step (snd (band_loop n i b bg)) = band_step bg" "band_count (snd (band_loop n i b bg)) = band_count bg"
  "bg_density (snd (band_loop n i b bg)) = bg_density bg" "edge_idx (snd (band_loop n i b bg)) = edge_idx bg"
  "bg_mix (snd (band_loop n i b bg)) = bg_mix bg"
  by (induction n arbitrary: i b bg) (simp_all add: Let_def case_prod_beta)

lemma mask63_less: "(x::u32) AND 63 < 64"
proof -
  have "x AND 63 \<le> 63" by (rule word_and_le1)
  then show ?thesis by (rule order.strict_trans1) simp
qed

lemma step_range: "0 < 1 + (r::u32) mod 7" "1 \<le> 1 + (r::u32) mod 7" "1 + (r::u32) mod 7 \<le> 7"
proof -
  have r: "unat (r mod 7) < 7" by (simp add: unat_mod_distrib)
  have "unat (1 + r mod 7) = 1 + unat (r mod 7)"
    by (subst unat_add_lem [THEN iffD1]) (use r in simp_all)
  then show "0 < 1 + r mod 7" "1 \<le> 1 + r mod 7" "1 + r mod 7 \<le> 7"
    using r by (simp_all add: word_le_nat_alt word_less_nat_alt)
qed

lemma edge_index_range: "(r::u32) mod 57 < 57"
  by (simp add: word_less_nat_alt unat_mod_distrib)

lemma edge_dict_size: "length bitgen_edge_dict = 57" "EDGE_DICT_SIZE = 57"
  by (simp_all add: bitgen_edge_dict_def EDGE_DICT_SIZE_def)

lemma seed_ok: "knobs_ok k \<Longrightarrow> bitgen_ok k (stress_bitgen_seed k seed bg)"
  by (simp add: stress_bitgen_seed_def bitgen_ok_def Let_def case_prod_beta mask63_less
      band_width_roll_range density_roll_range edge_index_range edge_dict_size step_range)


lemma count_step: "(c::u32) < s \<Longrightarrow> s \<le> 7 \<Longrightarrow> unat (c + 1) = unat c + 1"
  by (subst unat_add_lem [THEN iffD1]) (simp_all add: word_less_nat_alt word_le_nat_alt)

lemma advance_ok:
  assumes "knobs_ok k" "bitgen_ok k bg"
  shows "bitgen_ok k (band_advance k bg)"
proof -
  have "0 < band_step bg"
    using assms(2) by (auto simp: bitgen_ok_def word_less_nat_alt)
  then show ?thesis using assms
  by (auto simp: band_advance_def bitgen_ok_def Let_def case_prod_beta mask63_less
      band_width_roll_range density_roll_range step_range not_le)
qed

lemma draw_ok [simp]: "bitgen_ok k (snd (bg_mwc32 bg)) = bitgen_ok k bg"
  by (simp add: bitgen_ok_def)

lemma draw64_ok [simp]: "bitgen_ok k (snd (bg_mwc64 bg)) = bitgen_ok k bg"
  by (simp add: bitgen_ok_def)

lemma band_fill_ok: "knobs_ok k \<Longrightarrow> bitgen_ok k bg \<Longrightarrow> bitgen_ok k (snd (band_fill k bg))"
  by (simp add: band_fill_def Let_def case_prod_beta advance_ok) (rule advance_ok; simp add: bitgen_ok_def)

lemma edge_ok:
  assumes "bitgen_ok k bg"
  shows "bitgen_ok k (snd (stress_bitgen_edge64 bg))"
proof -
  have "edge_idx bg < 57" using assms by (simp add: bitgen_ok_def edge_dict_size)
  then show ?thesis using assms
    by (auto simp: stress_bitgen_edge64_def bitgen_ok_def Let_def case_prod_beta edge_dict_size not_le)
qed

lemma fp_ok:
  assumes "knobs_ok k" "bitgen_ok k bg"
  shows "bitgen_ok k (snd (stress_bitgen_fp64_bits k bg))" "bitgen_ok k (snd (stress_bitgen_fp32_bits k bg))"
  using band_fill_ok [OF assms]
  by (simp_all add: stress_bitgen_fp64_bits_def stress_bitgen_fp32_bits_def stress_bitgen_bandwalk32_def
      Let_def case_prod_beta)

lemma pair_ok:
  assumes "knobs_ok k" "bitgen_ok k bg"
  shows "bitgen_ok k (snd (stress_bitgen_complement_pair64 k bg))"
  using band_fill_ok [OF assms(1)] edge_ok assms(2)
  by (simp add: stress_bitgen_complement_pair64_def stress_bitgen_bandwalk64_def Let_def case_prod_beta)

lemma u64_ok:
  assumes "knobs_ok k" "bitgen_ok k bg"
  shows "bitgen_ok k (snd (stress_bitgen_u64 k bg))"
proof -
  have "bitgen_ok k (bg\<lparr>bg_mix := bg_mix bg + 1\<rparr>)" using assms(2) by (simp add: bitgen_ok_def)
  then show ?thesis
    using band_fill_ok [OF assms(1)] edge_ok
    by (simp add: stress_bitgen_u64_def stress_bitgen_bandwalk64_def Let_def case_prod_beta)
qed

lemma draws_u64_ok:
  assumes "knobs_ok k" "bitgen_ok k bg"
  shows "bitgen_ok k (snd (draws (stress_bitgen_u64 k) n bg))"
  by (rule draws_invariant [where I = "bitgen_ok k"]) (use assms u64_ok in auto)

lemma hamming64_step:
  "hamming64_loop (Suc fuel) (Suc weight) v bg =
     (if v AND push_bit (unat (fst (bg_mwc32 bg) AND 63)) 1 \<noteq> 0
      then hamming64_loop fuel (Suc weight) v (snd (bg_mwc32 bg))
      else hamming64_loop fuel weight (v OR push_bit (unat (fst (bg_mwc32 bg) AND 63)) 1) (snd (bg_mwc32 bg)))"
  by (simp add: Let_def case_prod_beta)

declare hamming64_loop.simps(3) [simp del]

lemma hamming_loop_ok:
  "hamming64_loop fuel n v bg = Some (u, bg') \<Longrightarrow> bitgen_ok k bg \<Longrightarrow> bitgen_ok k bg'"
proof (induction fuel arbitrary: n v bg)
  case 0
  then show ?case by (cases n) simp_all
next
  case (Suc fuel)
  then show ?case
    by (cases n) (auto simp: hamming64_step split: if_splits)
qed

section \<open>What a bandwalk word contains\<close>

text \<open>The position of bit \<open>n\<close> of a word in the window that starts at \<open>lo\<close>.\<close>

definition window_pos :: "nat \<Rightarrow> nat \<Rightarrow> nat" where
  "window_pos lo n = (n + 64 - lo) mod 64"

lemma window_pos_split:
  "n < 64 \<Longrightarrow> lo < 64 \<Longrightarrow> window_pos lo n = (if lo \<le> n then n - lo else n + 64 - lo)"
  by (auto simp: window_pos_def mod_if)

lemma band_mask_bit:
  assumes "1 \<le> unat (width::u32)" "n < 64"
  shows "bit (if width \<ge> 64 then NOT 0 else push_bit (unat width) 1 - 1 :: u64) n \<longleftrightarrow> n < unat width"
proof (cases "width \<ge> 64")
  case True
  then have "64 \<le> unat width" by (simp add: word_le_nat_alt)
  then show ?thesis using True assms by simp
next
  case False
  have "push_bit (unat width) 1 - 1 = (mask (unat width) :: u64)"
    by (simp add: mask_eq_exp_minus_1)
  then show ?thesis using False assms(2) by (simp only: if_False bit_mask_iff) simp
qed

lemma band_place_bit:
  assumes lo: "unat lo < 64" and width: "1 \<le> unat width" "unat width \<le> 64"
    and band: "\<And>i. bit band i \<Longrightarrow> i < unat width" and n: "n < 64"
  shows "bit (band_place v band lo width) n =
    (if window_pos (unat lo) n < unat width then bit band (window_pos (unat lo) n) else bit v n)"
proof -
  let ?l = "unat lo" and ?w = "unat width"
  define m :: u64 where "m = (if width \<ge> 64 then NOT 0 else push_bit (unat width) 1 - 1)"
  have m: "bit m j \<longleftrightarrow> j < ?w \<and> j < 64" for j
    using band_mask_bit [of width j] width by (cases "j < 64") (auto simp: m_def dest: bit_imp_le_length)
  have sum: "unat (lo + width) = ?l + ?w"
    by (subst unat_add_lem [THEN iffD1]) (use lo width in simp_all)
  then have wrap: "lo + width > 64 \<longleftrightarrow> 64 < ?l + ?w" by (simp add: word_less_nat_alt)
  have "lo \<le> 64" using lo by (simp add: word_le_nat_alt)
  then have sub: "unat (64 - lo) = 64 - ?l" by (simp add: unat_sub)
  have res: "bit (band_place v band lo width) n \<longleftrightarrow>
      (bit v n \<and> \<not> (?l \<le> n \<and> bit m (n - ?l)) \<and> \<not> (64 < ?l + ?w \<and> bit m (64 - ?l + n)))
      \<or> (?l \<le> n \<and> bit band (n - ?l)) \<or> (64 < ?l + ?w \<and> bit band (64 - ?l + n))"
    unfolding band_place_def m_def [symmetric] Let_def wrap sub
    using n by (auto simp: bit_simps)
  show ?thesis
  proof (cases "?l \<le> n")
    case True
    then have "\<not> bit band (64 - ?l + n)" using bit_imp_le_length [of band "64 - ?l + n"] by auto
    then show ?thesis
      using True n lo band by (auto simp: res m window_pos_split)
  next
    case False
    then have pos: "window_pos ?l n = 64 - ?l + n" using n lo by (simp add: window_pos_split)
    show ?thesis
      unfolding res m pos using False n lo band [of "64 - ?l + n"] by auto
  qed
qed

lemma band_loop_outside:
  "j < i \<or> i + k \<le> j \<Longrightarrow> bit (fst (band_loop k i b bg)) j = bit b j"
proof (induction k arbitrary: i b bg)
  case 0
  then show ?case by simp
next
  case (Suc k)
  then show ?case by (auto simp: Let_def case_prod_beta bit_simps)
qed

lemma band_bit_full: "density_ones ! unat (bg_density bg) = 4 \<Longrightarrow> band_bit bg = (True, bg)"
  by (simp add: band_bit_def)

lemma band_bit_empty: "density_ones ! unat (bg_density bg) = 0 \<Longrightarrow> band_bit bg = (False, bg)"
  by (simp add: band_bit_def)

lemma density_ones_id: "d \<le> 4 \<Longrightarrow> density_ones ! unat d = d"
proof -
  assume "d \<le> 4"
  then have "unat d < 5" by (simp add: word_le_nat_alt)
  then have "unat d = 0 \<or> unat d = 1 \<or> unat d = 2 \<or> unat d = 3 \<or> unat d = 4" by linarith
  then show ?thesis by (elim disjE) (simp_all add: density_ones_def word_unat_eq_iff)
qed

lemma band_loop_empty: "bg_density bg = 0 \<Longrightarrow> band_loop k i b bg = (b, bg)"
  by (induction k arbitrary: i b) (simp_all add: band_bit_empty density_ones_def)

lemma band_loop_full:
  assumes "bg_density bg = 4" "i \<le> j" "j < i + k" "j < 64"
  shows "bit (fst (band_loop k i b bg)) j"
  using assms
proof (induction k arbitrary: i b)
  case 0
  then show ?case by simp
next
  case (Suc k)
  have full: "band_bit bg = (True, bg)" using Suc.prems by (intro band_bit_full) (simp add: density_ones_def)
  show ?case
  proof (cases "i = j")
    case True
    then show ?thesis using Suc.prems full band_loop_outside [of j "Suc i" k "b OR push_bit i 1" bg]
      by (simp add: Let_def bit_simps)
  next
    case False
    then show ?thesis using Suc full by (simp add: Let_def)
  qed
qed

section \<open>Fields of the floating-point encodings\<close>

lemma fp64_exponent_range:
  "fp64_exponent lo r \<le> 2047"
  "fp64_exponent lo r = 0 \<longleftrightarrow> r AND 7 = 0"
  "fp64_exponent lo r = 2047 \<longleftrightarrow> r AND 7 = 7"
proof -
  let ?x = "(lo * 32 + drop_bit 8 r) mod 2046"
  have x: "unat ?x < 2046" by (simp add: unat_mod_distrib)
  have "unat (ucast ?x :: u64) = unat ?x"
    using x by (simp only: unsigned_ucast_eq) (simp add: take_bit_nat_eq_self)
  then have v: "unat (1 + ucast ?x :: u64) = 1 + unat ?x"
    by (subst unat_add_lem [THEN iffD1]) (use x in simp_all)
  show "fp64_exponent lo r \<le> 2047"
    using v x by (simp add: fp64_exponent_def word_le_nat_alt)
  have "(1 + ucast ?x :: u64) \<noteq> 0" "(1 + ucast ?x :: u64) \<noteq> 2047"
    using v x by (auto simp: word_unat_eq_iff)
  then show "fp64_exponent lo r = 0 \<longleftrightarrow> r AND 7 = 0"
    "fp64_exponent lo r = 2047 \<longleftrightarrow> r AND 7 = 7"
    by (auto simp: fp64_exponent_def)
qed

lemma fp32_exponent_range:
  "fp32_exponent lo r \<le> 255"
  "fp32_exponent lo r = 0 \<longleftrightarrow> r AND 7 = 0"
  "fp32_exponent lo r = 255 \<longleftrightarrow> r AND 7 = 7"
proof -
  let ?x = "(lo * 4 + drop_bit 10 r) mod 254"
  have x: "unat ?x < 254" by (simp add: unat_mod_distrib)
  have v: "unat (1 + ?x) = 1 + unat ?x"
    by (subst unat_add_lem [THEN iffD1]) (use x in simp_all)
  show "fp32_exponent lo r \<le> 255"
    using v x by (simp add: fp32_exponent_def word_le_nat_alt)
  have "1 + ?x \<noteq> 0" "1 + ?x \<noteq> 255"
    using v x by (auto simp: word_unat_eq_iff)
  then show "fp32_exponent lo r = 0 \<longleftrightarrow> r AND 7 = 0"
    "fp32_exponent lo r = 255 \<longleftrightarrow> r AND 7 = 7"
    by (auto simp: fp32_exponent_def)
qed

lemma bits_of_bounded:
  fixes e :: "'a::len word"
  assumes "unat e < 2 ^ k" "k \<le> j"
  shows "\<not> bit e j"
proof
  assume "bit e j"
  then have "bit (unat e) j" by (simp add: bit_unat_iff)
  moreover have "take_bit k (unat e) = unat e" using assms(1) by (simp add: take_bit_nat_eq_self)
  ultimately show False using assms(2) by (metis bit_take_bit_iff not_less)
qed

lemma mask52_bit: "bit (0x000fffffffffffff :: u64) n \<longleftrightarrow> n < 52"
proof -
  have "(0x000fffffffffffff :: u64) = mask 52" by (simp add: mask_eq_exp_minus_1)
  then show ?thesis by (simp only: bit_mask_iff) auto
qed

lemma mask11_bit: "bit (0x7ff :: u64) n \<longleftrightarrow> n < 11"
proof -
  have "(0x7ff :: u64) = mask 11" by (simp add: mask_eq_exp_minus_1)
  then show ?thesis by (simp only: bit_mask_iff) auto
qed

lemma sign_bit32: "bit (0x80000000 :: u32) n \<longleftrightarrow> n = 31"
proof -
  have "(0x80000000 :: u32) = push_bit 31 1" by simp
  then show ?thesis by (simp only: bit_push_bit_iff) (auto simp: bit_1_iff)
qed

lemma mask23_bit: "bit (0x007fffff :: u32) n \<longleftrightarrow> n < 23"
proof -
  have "(0x007fffff :: u32) = mask 23" by (simp add: mask_eq_exp_minus_1)
  then show ?thesis by (simp only: bit_mask_iff) auto
qed

lemma mask8_bit: "bit (0xff :: u32) n \<longleftrightarrow> n < 8"
proof -
  have "(0xff :: u32) = mask 8" by (simp add: mask_eq_exp_minus_1)
  then show ?thesis by (simp only: bit_mask_iff) auto
qed

lemma fp64_fields:
  fixes e v :: u64 and r :: u32
  assumes "e \<le> (2047::u64)"
  defines "x \<equiv> push_bit 32 (ucast (r AND (0x80000000::u32))) OR push_bit 52 e OR (v AND 0x000fffffffffffff)"
  shows "x AND 0x000fffffffffffff = v AND 0x000fffffffffffff"
    "drop_bit 52 x AND 0x7ff = e" "bit x 63 = bit r 31"
proof -
  have "unat e < 2 ^ 11" using assms(1) by (simp add: word_le_nat_alt)
  note e = bits_of_bounded [OF this]
  have e': "n < 11" if "bit e n" for n using e [of n] that by (meson not_less)
  show "x AND 0x000fffffffffffff = v AND 0x000fffffffffffff"
    by (rule bit_word_eqI) (unfold x_def bit_simps mask52_bit sign_bit32, auto)
  show "drop_bit 52 x AND 0x7ff = e"
    by (rule bit_word_eqI) (unfold x_def bit_simps comp_def mask52_bit mask11_bit sign_bit32, auto dest: e')
  show "bit x 63 = bit r 31"
    using e [of 11] by (auto simp: x_def bit_simps mask52_bit sign_bit32)
qed

lemma fp32_fields:
  fixes e v r :: u32
  assumes "e \<le> (255::u32)"
  defines "x \<equiv> (r AND (0x80000000::u32)) OR push_bit 23 e OR (v AND 0x007fffff)"
  shows "x AND 0x007fffff = v AND 0x007fffff"
    "drop_bit 23 x AND 0xff = e" "bit x 31 = bit r 31"
proof -
  have "unat e < 2 ^ 8" using assms(1) by (simp add: word_le_nat_alt)
  note e = bits_of_bounded [OF this]
  have e': "n < 8" if "bit e n" for n using e [of n] that by (meson not_less)
  show "x AND 0x007fffff = v AND 0x007fffff"
    by (rule bit_word_eqI) (unfold x_def bit_simps mask23_bit sign_bit32, auto)
  show "drop_bit 23 x AND 0xff = e"
    by (rule bit_word_eqI) (unfold x_def bit_simps comp_def mask23_bit mask8_bit sign_bit32, auto dest: e')
  show "bit x 31 = bit r 31"
    using e [of 8] by (auto simp: x_def bit_simps mask23_bit sign_bit32)
qed

section \<open>Dictionary sweep and Hamming weight\<close>

lemma edge64_value:
  assumes "bitgen_ok k bg"
  shows "\<exists>d \<in> {1, 2, 3, 4}.
      fst (stress_bitgen_edge64 bg) = bitgen_edge_dict ! unat (edge_idx bg) + d
      \<or> fst (stress_bitgen_edge64 bg) = bitgen_edge_dict ! unat (edge_idx bg) - d"
proof -
  have small: "1 + ucast (r AND 3) \<in> {1, 2, 3, 4 :: u64}" for r :: u32
  proof -
    have "r AND 3 \<le> 3" by (rule word_and_le1)
    then have "unat (r AND 3) \<le> 3" by (simp add: word_le_nat_alt)
    then have "unat (r AND 3) = 0 \<or> unat (r AND 3) = 1 \<or> unat (r AND 3) = 2 \<or> unat (r AND 3) = 3"
      by linarith
    then have "r AND 3 = 0 \<or> r AND 3 = 1 \<or> r AND 3 = 2 \<or> r AND 3 = 3"
      by (simp add: word_unat_eq_iff)
    then show ?thesis by (elim disjE) simp_all
  qed
  show ?thesis
    using small by (auto simp: stress_bitgen_edge64_def Let_def case_prod_beta)
qed

lemma edge64_cursor:
  assumes "bitgen_ok k bg"
  shows "unat (edge_idx (snd (stress_bitgen_edge64 bg))) = (unat (edge_idx bg) + 1) mod 57"
proof -
  have idx: "unat (edge_idx bg) < 57"
    using assms by (simp add: bitgen_ok_def edge_dict_size word_less_nat_alt)
  then have "unat (edge_idx bg + 1) = unat (edge_idx bg) + 1"
    by (subst unat_add_lem [THEN iffD1]) simp_all
  moreover have "(unat (edge_idx bg) + 1) mod 57 = (if 57 \<le> unat (edge_idx bg) + 1 then 0 else unat (edge_idx bg) + 1)"
    using idx by (cases "unat (edge_idx bg) = 56") auto
  ultimately show ?thesis
    by (simp add: stress_bitgen_edge64_def Let_def case_prod_beta edge_dict_size word_le_nat_alt)
qed

lemma edge64_sweep:
  assumes "bitgen_ok k bg" "j < n"
  shows "\<exists>d \<in> {1, 2, 3, 4}.
      fst (draws stress_bitgen_edge64 n bg) ! j = bitgen_edge_dict ! ((unat (edge_idx bg) + j) mod 57) + d
      \<or> fst (draws stress_bitgen_edge64 n bg) ! j = bitgen_edge_dict ! ((unat (edge_idx bg) + j) mod 57) - d"
  using assms
proof (induction n arbitrary: bg j)
  case 0
  then show ?case by simp
next
  case (Suc n)
  have "unat (edge_idx bg) < 57"
    using Suc.prems by (simp add: bitgen_ok_def edge_dict_size word_less_nat_alt)
  show ?case
  proof (cases j)
    case 0
    then show ?thesis
      using edge64_value [OF Suc.prems(1)] \<open>unat (edge_idx bg) < 57\<close> by (simp add: Let_def case_prod_beta)
  next
    case (Suc i)
    have "((unat (edge_idx bg) + 1) mod 57 + i) mod 57 = (unat (edge_idx bg) + Suc i) mod 57"
      by (simp add: mod_simps)
    then show ?thesis
      using Suc.IH [OF edge_ok [OF Suc.prems(1)], of i] Suc.prems(2) edge64_cursor [OF Suc.prems(1)] \<open>j = Suc i\<close>
      by (simp add: Let_def case_prod_beta)
  qed
qed

text \<open>The bit positions a run of draws asks for.\<close>

definition bit_draws :: "nat \<Rightarrow> stress_bitgen \<Rightarrow> nat list" where
  "bit_draws n bg = map (\<lambda>r. unat (r AND 63)) (fst (draws bg_mwc32 n bg))"

lemma bit_draws_Suc:
  "bit_draws (Suc n) bg = unat (fst (bg_mwc32 bg) AND 63) # bit_draws n (snd (bg_mwc32 bg))"
  by (simp add: bit_draws_def Let_def case_prod_beta)

lemma draw_bit_less: "unat (r AND 63 :: u32) < 64"
  using mask63_less [of r] by (simp add: word_less_nat_alt)

lemma set_bit_insert:
  assumes "b < 64"
  shows "{n. bit (v OR push_bit b (1::u64)) n} = insert b {n. bit v n}"
  using assms by (auto simp: bit_simps)

lemma finite_bits_word [simp]: "finite {n. bit (v::'a::len word) n}"
  by (rule finite_subset [of _ "{..<LENGTH('a)}"]) (auto dest: bit_imp_le_length)

lemma hamming64_retry:
  "bit v (unat (fst (bg_mwc32 bg) AND 63)) \<Longrightarrow>
    hamming64_loop (Suc fuel) (Suc w) v bg = hamming64_loop fuel (Suc w) v (snd (bg_mwc32 bg))"
  unfolding hamming64_step by (simp only: bit_iff_and_push_bit_not_eq_0 not_False_eq_True if_True)

lemma hamming64_take:
  "\<not> bit v (unat (fst (bg_mwc32 bg) AND 63)) \<Longrightarrow>
    hamming64_loop (Suc fuel) (Suc w) v bg =
      hamming64_loop fuel w (v OR push_bit (unat (fst (bg_mwc32 bg) AND 63)) 1) (snd (bg_mwc32 bg))"
  unfolding hamming64_step by (simp only: bit_iff_and_push_bit_not_eq_0 if_False)

lemma hamming64_loop_weight:
  assumes "hamming64_loop fuel w v bg = Some (u, bg')"
  shows "card {n. bit u n} = card {n. bit v n} + w \<and> {n. bit v n} \<subseteq> {n. bit u n}"
  using assms
proof (induction fuel arbitrary: w v bg)
  case 0
  then show ?case by (cases w) simp_all
next
  case (Suc fuel)
  show ?case
  proof (cases w)
    case 0
    then show ?thesis using Suc.prems by simp
  next
    case (Suc w')
    let ?b = "unat (fst (bg_mwc32 bg) AND 63)"
    show ?thesis
    proof (cases "bit v ?b")
      case True
      then show ?thesis
        using Suc.IH [of w v "snd (bg_mwc32 bg)"] Suc.prems \<open>w = Suc w'\<close>
        by (simp add: hamming64_retry)
    next
      case False
      then have "hamming64_loop fuel w' (v OR push_bit ?b 1) (snd (bg_mwc32 bg)) = Some (u, bg')"
        using Suc.prems unfolding \<open>w = Suc w'\<close> by (simp only: hamming64_take [OF False])
      from Suc.IH [OF this] show ?thesis
        using False \<open>w = Suc w'\<close> unfolding set_bit_insert [OF draw_bit_less] by (simp add: insert_absorb)
    qed
  qed
qed

lemma hamming64_loop_returns:
  "(hamming64_loop fuel w v bg \<noteq> None) = (w \<le> card (set (bit_draws fuel bg) - {n. bit v n}))"
proof (induction fuel arbitrary: w v bg)
  case 0
  then show ?case by (cases w) (simp_all add: bit_draws_def)
next
  case (Suc fuel)
  show ?case
  proof (cases w)
    case 0
    then show ?thesis by simp
  next
    case (Suc w')
    let ?b = "unat (fst (bg_mwc32 bg) AND 63)" and ?bg = "snd (bg_mwc32 bg)"
    show ?thesis
    proof (cases "bit v ?b")
      case True
      then have "set (bit_draws (Suc fuel) bg) - {n. bit v n} = set (bit_draws fuel ?bg) - {n. bit v n}"
        by (auto simp: bit_draws_Suc)
      then show ?thesis
        using Suc.IH [of w v ?bg] True \<open>w = Suc w'\<close>
        by (simp add: hamming64_retry)
    next
      case False
      let ?S = "set (bit_draws fuel ?bg) - insert ?b {n. bit v n}"
      have "set (bit_draws (Suc fuel) bg) - {n. bit v n} = insert ?b ?S"
        using False by (auto simp: bit_draws_Suc)
      moreover have "card (insert ?b ?S) = Suc (card ?S)" by simp
      moreover have "(hamming64_loop fuel w' (v OR push_bit ?b 1) ?bg \<noteq> None) = (w' \<le> card ?S)"
        using Suc.IH [of w' "v OR push_bit ?b 1" ?bg] unfolding set_bit_insert [OF draw_bit_less] .
      ultimately show ?thesis
        by (simp only: hamming64_take [OF False] \<open>w = Suc w'\<close>) simp
    qed
  qed
qed

section \<open>The window sweep and the zero register\<close>

lemma fill_cursor:
  assumes "knobs_ok k" "bitgen_ok k bg"
  shows "unat (band_count bg) + 1 < unat (band_step bg) \<Longrightarrow>
      band_lo (snd (band_fill k bg)) = band_lo bg
      \<and> unat (band_count (snd (band_fill k bg))) = unat (band_count bg) + 1
      \<and> band_step (snd (band_fill k bg)) = band_step bg"
    and "\<not> unat (band_count bg) + 1 < unat (band_step bg) \<Longrightarrow>
      band_lo (snd (band_fill k bg)) = (band_lo bg + 1) AND 63"
proof -
  have c: "unat (band_count bg + 1) = unat (band_count bg) + 1"
    using assms(2) by (intro count_step [of _ "band_step bg"]) (simp_all add: bitgen_ok_def)
  show "unat (band_count bg) + 1 < unat (band_step bg) \<Longrightarrow>
      band_lo (snd (band_fill k bg)) = band_lo bg
      \<and> unat (band_count (snd (band_fill k bg))) = unat (band_count bg) + 1
      \<and> band_step (snd (band_fill k bg)) = band_step bg"
    using c by (simp add: band_fill_def band_advance_def Let_def case_prod_beta word_le_nat_alt)
  show "\<not> unat (band_count bg) + 1 < unat (band_step bg) \<Longrightarrow>
      band_lo (snd (band_fill k bg)) = (band_lo bg + 1) AND 63"
    using c by (simp add: band_fill_def band_advance_def Let_def case_prod_beta word_le_nat_alt)
qed

lemma draws_fill_ok:
  assumes "knobs_ok k" "bitgen_ok k bg"
  shows "bitgen_ok k (snd (draws (band_fill k) n bg))"
  by (rule draws_invariant [where I = "bitgen_ok k"]) (use assms band_fill_ok in auto)

text \<open>Within seven calls the window moves up by one position.\<close>

lemma window_moves:
  assumes "knobs_ok k" "bitgen_ok k bg"
  shows "\<exists>n \<le> 7. band_lo (snd (draws (band_fill k) n bg)) = (band_lo bg + 1) AND 63"
proof -
  have "\<exists>n \<le> d. band_lo (snd (draws (band_fill k) n bg)) = (band_lo bg + 1) AND 63"
    if "unat (band_step bg) - unat (band_count bg) \<le> d" "bitgen_ok k bg" for d bg
    using that
  proof (induction d arbitrary: bg)
    case 0
    then show ?case by (simp add: bitgen_ok_def word_less_nat_alt)
  next
    case (Suc d)
    note cur = fill_cursor [OF assms(1) Suc.prems(2)]
    show ?case
    proof (cases "unat (band_count bg) + 1 < unat (band_step bg)")
      case True
      then have "unat (band_step (snd (band_fill k bg))) - unat (band_count (snd (band_fill k bg))) \<le> d"
        using Suc.prems(1) cur(1) by simp
      from Suc.IH [OF this band_fill_ok [OF assms(1) Suc.prems(2)]] obtain n
        where "n \<le> d" "band_lo (snd (draws (band_fill k) n (snd (band_fill k bg)))) = (band_lo bg + 1) AND 63"
        using cur(1) [OF True] by auto
      then show ?thesis by (intro exI [of _ "Suc n"]) (simp add: snd_draws_Suc del: draws.simps)
    next
      case False
      then show ?thesis using cur(2) by (intro exI [of _ 1]) (simp add: Let_def case_prod_beta)
    qed
  qed
  moreover have "unat (band_step bg) \<le> 7"
    using assms(2) by (simp add: bitgen_ok_def word_le_nat_alt)
  then have "unat (band_step bg) - unat (band_count bg) \<le> 7" by linarith
  ultimately show ?thesis using assms(2) by blast
qed

lemma and_63: "unat (x AND 63 :: u32) = unat x mod 64"
proof -
  have "(63::u32) = mask 6" by (simp add: mask_eq_exp_minus_1)
  then have "x AND 63 = take_bit 6 x" by (simp only: take_bit_eq_mask)
  then have "unat (x AND 63) = take_bit 6 (unat x)" by (simp only: unsigned_take_bit_eq)
  then show ?thesis by (simp add: take_bit_eq_mod)
qed

lemma window_reaches:
  assumes "knobs_ok k" "bitgen_ok k bg"
  shows "\<exists>n \<le> 7 * d. unat (band_lo (snd (draws (band_fill k) n bg))) = (unat (band_lo bg) + d) mod 64"
proof (induction d)
  case 0
  have "unat (band_lo bg) < 64" using assms(2) by (simp add: bitgen_ok_def word_less_nat_alt)
  then show ?case by (intro exI [of _ 0]) simp
next
  case (Suc d)
  then obtain n where n: "n \<le> 7 * d"
    "unat (band_lo (snd (draws (band_fill k) n bg))) = (unat (band_lo bg) + d) mod 64" by blast
  let ?bg = "snd (draws (band_fill k) n bg)"
  obtain m where m: "m \<le> 7" "band_lo (snd (draws (band_fill k) m ?bg)) = (band_lo ?bg + 1) AND 63"
    using window_moves [OF assms(1) draws_fill_ok [OF assms]] by blast
  have "band_lo ?bg < 64" using draws_fill_ok [OF assms] by (simp add: bitgen_ok_def)
  then have "unat (band_lo ?bg + 1) = unat (band_lo ?bg) + 1"
    by (subst unat_add_lem [THEN iffD1]) (simp_all add: word_less_nat_alt)
  then have "unat (band_lo (snd (draws (band_fill k) (n + m) bg))) = (unat (band_lo bg) + Suc d) mod 64"
    by (simp only: snd_draws_add m and_63) (simp add: n mod_Suc_eq)
  then show ?case using n(1) m(1) by (intro exI [of _ "n + m"]) simp
qed

text \<open>A zero multiply-with-carry register stays zero.\<close>

lemma zero_w_draw: "bg_w bg = 0 \<Longrightarrow> bg_w (snd (bg_mwc32 bg)) = 0"
  by (simp add: bg_mwc32_def Let_def)

lemma zero_w_value:
  assumes "bg_w bg = 0"
  shows "fst (bg_mwc32 bg) AND 0xffff = 0"
proof -
  have "(0xffff::u32) = mask 16" by (simp add: mask_eq_exp_minus_1)
  then have low: "bit (0xffff::u32) n \<longleftrightarrow> n < 16" for n by (simp only: bit_mask_iff) auto
  have x: "fst (bg_mwc32 bg) = push_bit 16 ((36969 * (bg_z bg AND 65535) + drop_bit 16 (bg_z bg)) AND 0xffff)"
    using assms by (simp add: bg_mwc32_def Let_def)
  show ?thesis unfolding x
    by (rule bit_word_eqI) (unfold bit_and_iff bit_push_bit_iff low, auto)
qed

lemma zero_w_draws:
  "bg_w bg = 0 \<Longrightarrow> v \<in> set (fst (draws bg_mwc32 n bg)) \<Longrightarrow> v AND 0xffff = 0"
proof (induction n arbitrary: bg)
  case 0
  then show ?case by simp
next
  case (Suc n)
  then show ?case
    using zero_w_value [of bg] Suc.IH [OF zero_w_draw] by (auto simp: Let_def case_prod_beta)
qed

lemma width_roll_w [simp]: "bg_w (snd (band_width_roll k bg)) = bg_w (snd (bg_mwc32 bg))"
  and density_roll_w [simp]: "bg_w (snd (density_roll k bg)) = bg_w (snd (bg_mwc32 bg))"
  by simp_all

lemma zero_w_draw64: "bg_w bg = 0 \<Longrightarrow> bg_w (snd (bg_mwc64 bg)) = 0"
  by (simp add: bg_mwc64_def Let_def case_prod_beta zero_w_draw)

lemma zero_w_seed:
  assumes "z \<noteq> 0"
  shows "bg_w (stress_bitgen_seed k (push_bit 32 (ucast (z::u32))) bg) = 0"
proof -
  have low: "ucast (push_bit 32 (ucast z :: u64) AND 0xffffffff) = (0::u32)"
  proof (rule bit_word_eqI)
    fix n assume "n < LENGTH(32)"
    then show "bit (ucast (push_bit 32 (ucast z :: u64) AND 0xffffffff) :: u32) n = bit (0::u32) n"
      by (simp add: bit_simps)
  qed
  have high: "ucast (drop_bit 32 (push_bit 32 (ucast z :: u64))) = z"
    by (rule bit_word_eqI) (auto simp: bit_simps)
  show ?thesis
    by (simp add: stress_bitgen_seed_def Let_def case_prod_beta low high assms zero_w_draw zero_w_draw64)
qed

section \<open>Properties\<close>

text \<open>
  C32: under any calibration with 1 <= min <= max <= 64, seeding establishes and every operation
  keeps a well formed handle: window start below 64, window width in the configured range, density
  index at most 4, step at most 7 with the count below it, dictionary cursor inside the dictionary.
\<close>

theorem bitgen_invariant:
  assumes "knobs_ok k" "bitgen_ok k bg"
  shows "bitgen_ok k (stress_bitgen_seed k seed bg0)
    \<and> bitgen_ok k (snd (stress_bitgen_bandwalk64 k bg)) \<and> bitgen_ok k (snd (stress_bitgen_bandwalk32 k bg))
    \<and> bitgen_ok k (snd (stress_bitgen_edge64 bg)) \<and> bitgen_ok k (snd (stress_bitgen_fp64_bits k bg))
    \<and> bitgen_ok k (snd (stress_bitgen_fp32_bits k bg))
    \<and> bitgen_ok k (snd (stress_bitgen_complement_pair64 k bg))
    \<and> bitgen_ok k (snd (stress_bitgen_u64 k bg)) \<and> bitgen_ok k (stress_bitgen_skip k len bg)
    \<and> (case stress_bitgen_hamming64 fuel t bg of None \<Rightarrow> True | Some r \<Rightarrow> bitgen_ok k (snd r))"
proof -
  have "bitgen_ok k (snd r)" if "stress_bitgen_hamming64 fuel t bg = Some r" for r
    using that assms(2) hamming_loop_ok [of fuel _ 0 bg "fst r" "snd r" k]
    by (simp add: stress_bitgen_hamming64_def Let_def)
  then show ?thesis
    using seed_ok [OF assms(1)] band_fill_ok [OF assms] edge_ok [OF assms(2)] fp_ok [OF assms]
      pair_ok [OF assms] u64_ok [OF assms] draws_u64_ok [OF assms]
    by (simp add: stress_bitgen_bandwalk64_def stress_bitgen_bandwalk32_def stress_bitgen_skip_def
        Let_def case_prod_beta split: option.splits)
qed

theorem bitgen_invariant_witness:
  "bitgen_ok bitgen_default_knobs
    (snd (stress_bitgen_u64 bitgen_default_knobs
      \<lparr>bg_w = 1, bg_z = 2, band_lo = 60, band_width = 20, band_step = 1, band_count = 0,
       bg_density = 3, edge_idx = 56, bg_mix = 7\<rparr>))"
  using bitgen_invariant [OF knobs_ok_default,
      of "\<lparr>bg_w = 1, bg_z = 2, band_lo = 60, band_width = 20, band_step = 1, band_count = 0,
          bg_density = 3, edge_idx = 56, bg_mix = 7\<rparr>"]
  by (simp add: bitgen_ok_def bitgen_default_knobs_def edge_dict_size)

text \<open>
  A bandwalk word is the raw random word outside the window, the window wrapping around the
  end of the word; inside it is all zeros at density 0 and all ones at density 4.
\<close>

theorem bandwalk_window:
  assumes "knobs_ok k" "bitgen_ok k bg" "n < 64"
  shows "if window_pos (unat (band_lo bg)) n < unat (band_width bg)
    then (bg_density bg = 0 \<longrightarrow> \<not> bit (fst (stress_bitgen_bandwalk64 k bg)) n)
      \<and> (bg_density bg = 4 \<longrightarrow> bit (fst (stress_bitgen_bandwalk64 k bg)) n)
    else bit (fst (stress_bitgen_bandwalk64 k bg)) n = bit (fst (bg_mwc64 bg)) n"
proof -
  let ?w = "unat (band_width bg)" and ?l = "unat (band_lo bg)" and ?bg1 = "snd (bg_mwc64 bg)"
  let ?band = "fst (band_loop ?w 0 0 ?bg1)"
  have lo: "?l < 64" and w: "1 \<le> ?w" "?w \<le> 64"
    using assms by (auto simp: bitgen_ok_def knobs_ok_def word_le_nat_alt word_less_nat_alt)
  have inside: "i < ?w" if "bit ?band i" for i
    using that band_loop_outside [of i 0 ?w 0 ?bg1] by (cases "i < ?w") auto
  have res: "bit (fst (stress_bitgen_bandwalk64 k bg)) n =
      (if window_pos ?l n < ?w then bit ?band (window_pos ?l n) else bit (fst (bg_mwc64 bg)) n)"
    using band_place_bit [where band = ?band and v = "fst (bg_mwc64 bg)", OF lo w inside assms(3)]
    by (simp add: stress_bitgen_bandwalk64_def band_fill_def Let_def case_prod_beta)
  have "window_pos ?l n < 64" by (simp add: window_pos_def)
  then show ?thesis
    using band_loop_empty [of ?bg1 ?w 0 0] band_loop_full [of ?bg1 0 "window_pos ?l n" ?w 0]
    by (simp add: res)
qed

theorem bandwalk_window_witness:
  "bit (fst (stress_bitgen_bandwalk64 bitgen_default_knobs
      \<lparr>bg_w = 1, bg_z = 2, band_lo = 60, band_width = 20, band_step = 1, band_count = 0,
       bg_density = 4, edge_idx = 0, bg_mix = 0\<rparr>)) 3"
  using bandwalk_window [OF knobs_ok_default,
      of "\<lparr>bg_w = 1, bg_z = 2, band_lo = 60, band_width = 20, band_step = 1, band_count = 0,
          bg_density = 4, edge_idx = 0, bg_mix = 0\<rparr>" 3]
  by (simp add: bitgen_ok_def bitgen_default_knobs_def edge_dict_size window_pos_def)

text \<open>
  The window visits every bit position: from any well formed handle, at most 448 bandwalk
  calls bring its start to any given position.
\<close>

theorem bandwalk_sweeps:
  assumes "knobs_ok k" "bitgen_ok k bg" "p < 64"
  shows "\<exists>n \<le> 448. unat (band_lo (snd (draws (stress_bitgen_bandwalk64 k) n bg))) = p"
proof -
  let ?lo = "unat (band_lo bg)"
  have lo: "?lo < 64" using assms(2) by (simp add: bitgen_ok_def word_less_nat_alt)
  obtain n where n: "n \<le> 7 * ((p + 64 - ?lo) mod 64)"
    "unat (band_lo (snd (draws (band_fill k) n bg))) = (?lo + (p + 64 - ?lo) mod 64) mod 64"
    using window_reaches [OF assms(1,2)] by blast
  have "(?lo + (p + 64 - ?lo) mod 64) mod 64 = p"
    using lo assms(3) by (simp add: mod_add_right_eq)
  moreover have "(p + 64 - ?lo) mod 64 < 64" by simp
  moreover have "stress_bitgen_bandwalk64 k = band_fill k"
    by (rule ext) (simp add: stress_bitgen_bandwalk64_def)
  ultimately show ?thesis using n by (intro exI [of _ n]) simp
qed

theorem bandwalk_sweeps_witness:
  "\<exists>n \<le> 448. unat (band_lo (snd (draws (stress_bitgen_bandwalk64 bitgen_default_knobs) n
      (stress_bitgen_seed bitgen_default_knobs 12345
        \<lparr>bg_w = 0, bg_z = 0, band_lo = 0, band_width = 0, band_step = 0, band_count = 0,
         bg_density = 0, edge_idx = 0, bg_mix = 0\<rparr>)))) = 63"
  by (rule bandwalk_sweeps [OF knobs_ok_default seed_ok [OF knobs_ok_default]]) simp

text \<open>
  Successive boundary values walk through the dictionary in order, around its end, each one
  moved by 1, 2, 3 or 4 up or down; the entry itself is never produced.
\<close>

theorem edge_sweep:
  assumes "bitgen_ok k bg" "j < n"
  shows "(\<exists>d \<in> {1, 2, 3, 4}.
      fst (draws stress_bitgen_edge64 n bg) ! j = bitgen_edge_dict ! ((unat (edge_idx bg) + j) mod 57) + d
      \<or> fst (draws stress_bitgen_edge64 n bg) ! j = bitgen_edge_dict ! ((unat (edge_idx bg) + j) mod 57) - d)
    \<and> fst (draws stress_bitgen_edge64 n bg) ! j \<noteq> bitgen_edge_dict ! ((unat (edge_idx bg) + j) mod 57)"
  using edge64_sweep [OF assms] by auto

theorem edge_sweep_witness:
  "fst (draws stress_bitgen_edge64 3
      \<lparr>bg_w = 1, bg_z = 2, band_lo = 0, band_width = 6, band_step = 1, band_count = 0,
       bg_density = 0, edge_idx = 56, bg_mix = 0\<rparr>) ! 1 \<noteq> 0"
  using edge_sweep [of bitgen_default_knobs
      "\<lparr>bg_w = 1, bg_z = 2, band_lo = 0, band_width = 6, band_step = 1, band_count = 0,
        bg_density = 0, edge_idx = 56, bg_mix = 0\<rparr>" 1 3]
  by (simp add: bitgen_ok_def bitgen_default_knobs_def edge_dict_size bitgen_edge_dict_def del: draws.simps)

text \<open>
  A generated double has the mantissa of the bandwalk word, the sign of the draw's top bit,
  and the exponent field 0 (subnormal), 2047 (infinity or NaN) or one in 1..2046, the first two
  exactly when the draw's low three bits are 0 or 7; the single precision generator likewise
  with 0, 255 and 1..254.
\<close>

theorem fp_encodings:
  "let v = fst (band_fill k bg); bg1 = snd (band_fill k bg); r = fst (bg_mwc32 bg1);
       x = fst (stress_bitgen_fp64_bits k bg); y = fst (stress_bitgen_fp32_bits k bg)
   in x AND 0x000fffffffffffff = v AND 0x000fffffffffffff \<and> bit x 63 = bit r 31
     \<and> drop_bit 52 x AND 0x7ff = fp64_exponent (band_lo bg1) r
     \<and> fp64_exponent (band_lo bg1) r \<le> 2047
     \<and> (fp64_exponent (band_lo bg1) r = 0) = (r AND 7 = 0)
     \<and> (fp64_exponent (band_lo bg1) r = 2047) = (r AND 7 = 7)
     \<and> y AND 0x007fffff = ucast (drop_bit 32 v) AND 0x007fffff \<and> bit y 31 = bit r 31
     \<and> drop_bit 23 y AND 0xff = fp32_exponent (band_lo bg1) r
     \<and> fp32_exponent (band_lo bg1) r \<le> 255
     \<and> (fp32_exponent (band_lo bg1) r = 0) = (r AND 7 = 0)
     \<and> (fp32_exponent (band_lo bg1) r = 255) = (r AND 7 = 7)"
  unfolding Let_def stress_bitgen_fp64_bits_def stress_bitgen_fp32_bits_def stress_bitgen_bandwalk32_def
    case_prod_beta fst_conv snd_conv cursor_simps(1)
  by (intro conjI fp64_exponent_range fp32_exponent_range
      fp64_fields [OF fp64_exponent_range(1)] fp32_fields [OF fp32_exponent_range(1)])

text \<open>
  When stress_bitgen_hamming64 returns, the word has exactly min (target mod 64) 32 one bits;
  and it returns within a number of draws exactly when those draws name that many different bit
  positions.
\<close>

theorem hamming_weight:
  "case stress_bitgen_hamming64 fuel t bg of
     None \<Rightarrow> card (set (bit_draws fuel bg)) < min (unat t mod 64) 32
   | Some (v, bg') \<Rightarrow> card {n. bit v n} = min (unat t mod 64) 32
       \<and> min (unat t mod 64) 32 \<le> card (set (bit_draws fuel bg))"
proof -
  define w where "w = min (unat t mod 64) 32"
  have "unat (if t AND 63 > 32 then 32 else t AND 63) = w"
    by (auto simp: w_def word_less_nat_alt and_63)
  then have run: "stress_bitgen_hamming64 fuel t bg = hamming64_loop fuel w 0 bg"
    by (simp add: stress_bitgen_hamming64_def Let_def)
  have returns: "(hamming64_loop fuel w 0 bg \<noteq> None) = (w \<le> card (set (bit_draws fuel bg)))"
    using hamming64_loop_returns [of fuel w 0 bg] by simp
  show ?thesis
  proof (cases "hamming64_loop fuel w 0 bg")
    case None
    then show ?thesis using returns by (simp add: run flip: w_def)
  next
    case (Some r)
    then show ?thesis using returns hamming64_loop_weight [of fuel w 0 bg "fst r" "snd r"]
      by (simp add: run case_prod_beta flip: w_def)
  qed
qed

text \<open>
  The seeding guards only against both registers being zero: any seed whose low half is zero
  leaves the w register at zero for good, so the low 16 bits of every word drawn are zero and
  stress_bitgen_hamming64 never returns for a weight of two or more.
\<close>

theorem zero_half_seed:
  assumes "z \<noteq> 0"
  shows "(\<forall>v \<in> set (fst (draws bg_mwc32 n (stress_bitgen_seed k (push_bit 32 (ucast (z::u32))) bg))).
      v AND 0xffff = 0)
    \<and> stress_bitgen_hamming64 n 2 (stress_bitgen_seed k (push_bit 32 (ucast z)) bg) = None"
proof -
  let ?bg = "stress_bitgen_seed k (push_bit 32 (ucast z)) bg"
  note low = zero_w_draws [OF zero_w_seed [OF assms]]
  have six: "v AND 63 = 0" if "v AND 0xffff = 0" for v :: u32
  proof -
    have "v AND 63 = (v AND 0xffff) AND 63" by (simp add: and.assoc)
    then show ?thesis using that by simp
  qed
  have "set (bit_draws n ?bg) \<subseteq> {0}"
    using low [of _ n k bg] by (auto simp: bit_draws_def six)
  then have "card (set (bit_draws n ?bg)) \<le> card {0::nat}" by (intro card_mono) simp_all
  then have "\<not> (hamming64_loop n 2 0 ?bg \<noteq> None)"
    by (simp only: hamming64_loop_returns) simp
  then have "hamming64_loop n 2 0 ?bg = None" by blast
  then show ?thesis using low by (simp add: stress_bitgen_hamming64_def Let_def)
qed

theorem zero_half_seed_witness:
  "stress_bitgen_hamming64 100000 2 (stress_bitgen_seed bitgen_default_knobs (push_bit 32 (ucast (7::u32)))
      \<lparr>bg_w = 0, bg_z = 0, band_lo = 0, band_width = 0, band_step = 0, band_count = 0,
       bg_density = 0, edge_idx = 0, bg_mix = 0\<rparr>) = None"
  by (rule zero_half_seed [THEN conjunct2]) simp

end
