(* ===== verification/Addrspace.thy ===== *)
theory Addrspace
  imports Bitgen "HOL-Library.Multiset"
begin

text \<open>
  The address-space stressor of stress-addrspace.c: fill a set of regions with the generator's
  byte stream, verify them against a copy of the generator, over seven recipes that choose the
  regions.  Memory is a function from addresses to bytes; the kernel's and the C library's answers
  (mmap, mincore, malloc, posix_memalign, calloc) are fields of an environment, and so is the fault
  that may change memory between a fill and its verification.  Sizes are natural numbers: they are
  bounded by \<open>max_bytes\<close>, far below 2^64.
\<close>

section \<open>Fill and verify\<close>

type_synonym mem = "nat \<Rightarrow> u8"

text \<open>The inner loops over the bytes of one word: \<open>n\<close> bytes to go, the next one being byte \<open>j\<close>.\<close>

fun fill_bytes :: "mem \<Rightarrow> nat \<Rightarrow> u64 \<Rightarrow> nat \<Rightarrow> nat \<Rightarrow> mem" where
  "fill_bytes m p v j 0 = m"
| "fill_bytes m p v j (Suc n) = fill_bytes (m(p + j := ucast (drop_bit (8 * j) v))) p v (Suc j) n"

fun verify_bytes :: "mem \<Rightarrow> nat \<Rightarrow> u64 \<Rightarrow> nat \<Rightarrow> nat \<Rightarrow> bool" where
  "verify_bytes m p v j 0 = True"
| "verify_bytes m p v j (Suc n) =
     (if m (p + j) \<noteq> ucast (drop_bit (8 * j) v) then False else verify_bytes m p v (Suc j) n)"

text \<open>The outer loops, eight bytes for each word of the generator \<open>gen\<close>.\<close>

function fill_loop :: "('s \<Rightarrow> u64 \<times> 's) \<Rightarrow> 's \<Rightarrow> nat \<Rightarrow> nat \<Rightarrow> nat \<Rightarrow> mem \<Rightarrow> 's \<times> mem" where
  "fill_loop gen s ptr len i m =
     (if i < len
      then let (v, s1) = gen s; n = (if len - i < 8 then len - i else 8)
           in fill_loop gen s1 ptr len (i + 8) (fill_bytes m (ptr + i) v 0 n)
      else (s, m))"
  by pat_completeness auto
termination
  by (relation "measure (\<lambda>(gen, s, ptr, len, i, m). len - i)") auto

function verify_loop :: "('s \<Rightarrow> u64 \<times> 's) \<Rightarrow> 's \<Rightarrow> nat \<Rightarrow> nat \<Rightarrow> nat \<Rightarrow> mem \<Rightarrow> int \<times> 's" where
  "verify_loop gen s ptr len i m =
     (if i < len
      then let (v, s1) = gen s; n = (if len - i < 8 then len - i else 8)
           in if verify_bytes m (ptr + i) v 0 n then verify_loop gen s1 ptr len (i + 8) m
              else (- 1, s1)
      else (0, s))"
  by pat_completeness auto
termination
  by (relation "measure (\<lambda>(gen, s, ptr, len, i, m). len - i)") auto

declare fill_loop.simps [simp del] verify_loop.simps [simp del]

definition fill_pattern ::
    "bitgen_knobs \<Rightarrow> stress_bitgen \<Rightarrow> nat \<Rightarrow> nat \<Rightarrow> mem \<Rightarrow> stress_bitgen \<times> mem" where
  "fill_pattern k bg ptr len m = fill_loop (stress_bitgen_u64 k) bg ptr len 0 m"

definition verify_pattern ::
    "bitgen_knobs \<Rightarrow> stress_bitgen \<Rightarrow> nat \<Rightarrow> nat \<Rightarrow> mem \<Rightarrow> int \<times> stress_bitgen" where
  "verify_pattern k bg ptr len m = verify_loop (stress_bitgen_u64 k) bg ptr len 0 m"

text \<open>
  The loops over the regions of a round: fill them in order; verify them in order while the
  result is zero.
\<close>

fun fill_regions :: "('s \<Rightarrow> nat \<Rightarrow> nat \<Rightarrow> mem \<Rightarrow> 's \<times> mem) \<Rightarrow> (nat \<times> nat) list \<Rightarrow> 's \<Rightarrow> mem \<Rightarrow> 's \<times> mem" where
  "fill_regions fill [] s m = (s, m)"
| "fill_regions fill ((p, n) # rs) s m =
     (let (s1, m1) = fill s p n m in fill_regions fill rs s1 m1)"

fun verify_regions :: "('s \<Rightarrow> nat \<Rightarrow> nat \<Rightarrow> mem \<Rightarrow> int \<times> 's) \<Rightarrow> (nat \<times> nat) list \<Rightarrow> 's \<Rightarrow> mem \<Rightarrow> int" where
  "verify_regions verify [] s m = 0"
| "verify_regions verify ((p, n) # rs) s m =
     (let (ret, s1) = verify s p n m in if ret = 0 then verify_regions verify rs s1 m else ret)"

section \<open>The environment and the stressor's state\<close>

definition STRESS_MB :: nat where "STRESS_MB = 1024 * 1024"
definition ADDRSPACE_VA_WALK_BYTES :: nat where "ADDRSPACE_VA_WALK_BYTES = 256 * STRESS_MB"
definition ADDRSPACE_MIN_RECIPE_BYTES :: nat where "ADDRSPACE_MIN_RECIPE_BYTES = 4 * STRESS_MB"
definition ADDRSPACE_PAGE :: nat where "ADDRSPACE_PAGE = 4096"

definition addrspace_masks :: "u64 list" where
  "addrspace_masks = [0x000000007fffffff, 0x000000ffffffffff, 0x0000ffffffffffff, 0x00ffffffffffffff]"

record aspace_env =
  env_mmap :: "nat \<Rightarrow> u64 \<Rightarrow> nat \<Rightarrow> nat option"    \<comment> \<open>call number, address or 0, size\<close>
  env_mmap_huge :: "nat \<Rightarrow> u64 \<Rightarrow> nat \<Rightarrow> nat option"
  env_unmapped :: "u64 \<Rightarrow> bool"                  \<comment> \<open>mincore fails with ENOMEM\<close>
  env_malloc :: "nat \<Rightarrow> nat option"
  env_memalign :: "nat \<Rightarrow> nat \<Rightarrow> nat option"
  env_calloc_ok :: bool
  env_fault :: "mem \<Rightarrow> mem"

record aspace =
  as_mwc :: mwc
  as_mem :: mem
  as_bogo :: nat

definition stress_bogo_inc :: "aspace \<Rightarrow> aspace" where
  "stress_bogo_inc st = st\<lparr>as_bogo := as_bogo st + 1\<rparr>"

definition fault_strikes :: "aspace_env \<Rightarrow> aspace \<Rightarrow> aspace" where
  "fault_strikes env st = st\<lparr>as_mem := env_fault env (as_mem st)\<rparr>"

text \<open>Drawing from the global generator, with the result as a number.\<close>

definition mwc32modn :: "nat \<Rightarrow> aspace \<Rightarrow> nat \<times> aspace" where
  "mwc32modn mx st = (let (v, m) = stress_mwc32modn (of_nat mx) (as_mwc st) in (unat v, st\<lparr>as_mwc := m\<rparr>))"

definition mwc64modn :: "nat \<Rightarrow> aspace \<Rightarrow> nat \<times> aspace" where
  "mwc64modn mx st = (let (v, m) = stress_mwc64modn (of_nat mx) (as_mwc st) in (unat v, st\<lparr>as_mwc := m\<rparr>))"

definition mwc32 :: "aspace \<Rightarrow> u32 \<times> aspace" where
  "mwc32 st = (let (v, m) = stress_mwc32 (as_mwc st) in (v, st\<lparr>as_mwc := m\<rparr>))"

text \<open>A generator on the stack, seeded from the global stream; seeding sets every field.\<close>

definition bitgen_new :: "bitgen_knobs \<Rightarrow> aspace \<Rightarrow> stress_bitgen \<times> aspace" where
  "bitgen_new k st =
     (let (bg, m) = stress_bitgen_init k
            \<lparr>bg_w = 0, bg_z = 0, band_lo = 0, band_width = 0, band_step = 0, band_count = 0,
             bg_density = 0, edge_idx = 0, bg_mix = 0\<rparr> (as_mwc st)
      in (bg, st\<lparr>as_mwc := m\<rparr>))"

text \<open>Up to 64 tries for an unmapped page-aligned address; 0 stands for NULL.\<close>

fun unmapped_tries :: "aspace_env \<Rightarrow> u64 \<Rightarrow> nat \<Rightarrow> aspace \<Rightarrow> u64 \<times> aspace" where
  "unmapped_tries env msk 0 st = (0, st)"
| "unmapped_tries env msk (Suc n) st =
     (let (v, m) = stress_mwc64 (as_mwc st); st = st\<lparr>as_mwc := m\<rparr>; r = v AND msk AND NOT 0xfff
      in if r = 0 then unmapped_tries env msk n st
         else if env_unmapped env r then (r, st) else unmapped_tries env msk n st)"

definition random_unmapped_addr :: "aspace_env \<Rightarrow> u64 \<Rightarrow> aspace \<Rightarrow> u64 \<times> aspace" where
  "random_unmapped_addr env msk st = unmapped_tries env msk 64 st"

definition map_at :: "aspace_env \<Rightarrow> nat \<Rightarrow> u64 \<Rightarrow> nat \<Rightarrow> nat option" where
  "map_at env call addr sz = env_mmap env call addr sz"

section \<open>The recipes\<close>

definition recipe_huge_random_fixed :: "bitgen_knobs \<Rightarrow> aspace_env \<Rightarrow> nat \<Rightarrow> aspace \<Rightarrow> int \<times> aspace" where
  "recipe_huge_random_fixed k env max_bytes st =
     (let (i, st) = mwc32modn (length addrspace_masks) st;
          span = addrspace_masks ! i;
          (s, st) = mwc32modn 13 st;
          sz = ADDRSPACE_MIN_RECIPE_BYTES * 2 ^ s;
          sz = (if sz > max_bytes then max_bytes else sz);
          (hint, st) = random_unmapped_addr env span st
      in case map_at env 0 hint sz of
           None \<Rightarrow> (0, st)
         | Some p \<Rightarrow>
             (let (bg, st) = bitgen_new k st;
                  (_, m) = fill_pattern k bg p sz (as_mem st);
                  st = stress_bogo_inc (st\<lparr>as_mem := m\<rparr>);
                  st = fault_strikes env st
              in (fst (verify_pattern k bg p sz (as_mem st)), st)))"

definition va_walk_hint :: "nat \<Rightarrow> u32 \<Rightarrow> u64" where
  "va_walk_hint b r = ((ucast r AND 0x00ffffff) OR push_bit b 1) AND NOT 0xfff"

definition recipe_va_bit_walk :: "bitgen_knobs \<Rightarrow> aspace_env \<Rightarrow> nat \<Rightarrow> aspace \<Rightarrow> int \<times> aspace" where
  "recipe_va_bit_walk k env max_bytes st =
     (let sz = (if max_bytes < ADDRSPACE_VA_WALK_BYTES then max_bytes else ADDRSPACE_VA_WALK_BYTES);
          (b, st) = mwc32modn 52 st;
          (r, st) = mwc32 st
      in case map_at env 0 (va_walk_hint b r) sz of
           None \<Rightarrow> (0, st)
         | Some p \<Rightarrow>
             (let (bg, st) = bitgen_new k st;
                  (_, m) = fill_pattern k bg p sz (as_mem st);
                  st = stress_bogo_inc (st\<lparr>as_mem := m\<rparr>);
                  st = fault_strikes env st
              in (fst (verify_pattern k bg p sz (as_mem st)), st)))"

text \<open>The Fisher-Yates loop, from index \<open>i\<close> down to 1.\<close>

fun page_shuffle :: "nat \<Rightarrow> nat list \<Rightarrow> aspace \<Rightarrow> nat list \<times> aspace" where
  "page_shuffle 0 order st = (order, st)"
| "page_shuffle (Suc i) order st =
     (let (j, st) = mwc64modn (Suc i + 1) st;
          t = order ! Suc i
      in page_shuffle i ((order[Suc i := order ! j])[j := t]) st)"

definition recipe_dense_random_offset :: "bitgen_knobs \<Rightarrow> aspace_env \<Rightarrow> nat \<Rightarrow> aspace \<Rightarrow> int \<times> aspace" where
  "recipe_dense_random_offset k env max_bytes st =
     (let sz = (if max_bytes < 256 * STRESS_MB then max_bytes else 256 * STRESS_MB);
          pages = sz div ADDRSPACE_PAGE;
          touch = pages div 4
      in if touch = 0 then (0, st)
         else if \<not> env_calloc_ok env then (0, st)
         else let (order, st) = page_shuffle (pages - 1) [0..<pages] st
              in case map_at env 0 0 sz of
                   None \<Rightarrow> (0, st)
                 | Some p \<Rightarrow>
                     (let (bg, st) = bitgen_new k st;
                          regions = map (\<lambda>q. (p + q * ADDRSPACE_PAGE, ADDRSPACE_PAGE)) (take touch order);
                          (_, m) = fill_regions (fill_pattern k) regions bg (as_mem st);
                          st = stress_bogo_inc (st\<lparr>as_mem := m\<rparr>);
                          st = fault_strikes env st
                      in (verify_regions (verify_pattern k) regions bg (as_mem st), st)))"

definition GUARDED_MAX_HOLES :: nat where "GUARDED_MAX_HOLES = 8"

fun draw_holes :: "nat \<Rightarrow> nat \<Rightarrow> aspace \<Rightarrow> (nat \<times> nat) list \<times> aspace" where
  "draw_holes pages 0 st = ([], st)"
| "draw_holes pages (Suc h) st =
     (let (start, st) = mwc64modn (pages - 1) st;
          (n, st) = mwc64modn 16 st;
          (hs, st) = draw_holes pages h st
      in ((start, 1 + n) # hs, st))"

text \<open>The pages that the mprotect calls make inaccessible, each band cut at the end of the mapping.\<close>

definition protected_pages :: "nat \<Rightarrow> (nat \<times> nat) list \<Rightarrow> nat list" where
  "protected_pages pages holes =
     concat (map (\<lambda>(start, n). let len_pages = (if start + n > pages then pages - start else n)
                               in [start ..< start + len_pages]) holes)"

definition in_hole :: "(nat \<times> nat) list \<Rightarrow> nat \<Rightarrow> bool" where
  "in_hole holes i = list_ex (\<lambda>(start, n). i \<ge> start \<and> i < start + n) holes"

text \<open>
  The verify loop over the pages from \<open>i\<close> on, \<open>n\<close> of them: it also returns the pages it read.
\<close>

fun guarded_verify ::
    "bitgen_knobs \<Rightarrow> (nat \<times> nat) list \<Rightarrow> nat \<Rightarrow> nat \<Rightarrow> nat \<Rightarrow> stress_bitgen \<Rightarrow> mem \<Rightarrow> int \<times> nat list" where
  "guarded_verify k holes p i 0 bg m = (0, [])"
| "guarded_verify k holes p i (Suc n) bg m =
     (if in_hole holes i
      then guarded_verify k holes p (Suc i) n (stress_bitgen_skip k ADDRSPACE_PAGE bg) m
      else let (ret, bg1) = verify_pattern k bg (p + i * ADDRSPACE_PAGE) ADDRSPACE_PAGE m
           in if ret = 0
              then let (ret, pages) = guarded_verify k holes p (Suc i) n bg1 m in (ret, i # pages)
              else (ret, [i]))"

definition recipe_guarded_holes :: "bitgen_knobs \<Rightarrow> aspace_env \<Rightarrow> nat \<Rightarrow> aspace \<Rightarrow> int \<times> aspace" where
  "recipe_guarded_holes k env max_bytes st =
     (let sz = (if max_bytes < 512 * STRESS_MB then max_bytes else 512 * STRESS_MB);
          pages = sz div ADDRSPACE_PAGE;
          (h, st) = mwc32modn GUARDED_MAX_HOLES st;
          holes = 1 + h
      in if pages < holes + 2 then (0, st)
         else case map_at env 0 0 sz of
                None \<Rightarrow> (0, st)
              | Some p \<Rightarrow>
                  (let (bg, st) = bitgen_new k st;
                       (hs, st) = draw_holes pages holes st;
                       (_, m) = fill_pattern k bg p sz (as_mem st);
                       st = stress_bogo_inc (st\<lparr>as_mem := m\<rparr>);
                       st = fault_strikes env st
                   in (fst (guarded_verify k hs p 0 pages bg (as_mem st)), st)))"

definition MALLOC_GIANT_MAX_SLICES :: nat where "MALLOC_GIANT_MAX_SLICES = 32"

text \<open>The slices of \<open>malloc-giant\<close> for a size and a start slice: offset and length.\<close>

definition giant_slices :: "nat \<Rightarrow> nat \<Rightarrow> (nat \<times> nat) list" where
  "giant_slices sz start =
     (let total_slices = sz div (4 * STRESS_MB);
          n_slices = 1 + total_slices div 8;
          n_slices = (if n_slices > MALLOC_GIANT_MAX_SLICES then MALLOC_GIANT_MAX_SLICES else n_slices);
          n_slices = (if start + n_slices > total_slices
                      then let clamped = total_slices - start in (if clamped \<noteq> 0 then clamped else 1)
                      else n_slices)
      in map (\<lambda>i. let slice_off = (start + i) * (4 * STRESS_MB)
                  in (slice_off, if sz - slice_off < 4 * STRESS_MB then sz - slice_off else 4 * STRESS_MB))
           [0..<n_slices])"

definition recipe_malloc_giant :: "bitgen_knobs \<Rightarrow> aspace_env \<Rightarrow> nat \<Rightarrow> aspace \<Rightarrow> int \<times> aspace" where
  "recipe_malloc_giant k env max_bytes st =
     (let (s, st) = mwc32modn 11 st;
          sz = ADDRSPACE_MIN_RECIPE_BYTES * 2 ^ s;
          sz = (if sz > max_bytes then max_bytes else sz);
          (r, st) = mwc32 st;
          (alloc, st) = (if r AND 1 \<noteq> 0
                         then let (a, st) = mwc32modn 9 st in (env_memalign env (2 ^ (12 + a)) sz, st)
                         else (env_malloc env sz, st))
      in case alloc of
           None \<Rightarrow> (0, st)
         | Some p \<Rightarrow>
             (let total_slices = sz div (4 * STRESS_MB);
                  (start, st) = (if total_slices \<noteq> 0 then mwc64modn total_slices st else (0, st));
                  regions = map (\<lambda>(off, len). (p + off, len)) (giant_slices sz start);
                  (bg, st) = bitgen_new k st;
                  (_, m) = fill_regions (fill_pattern k) regions bg (as_mem st);
                  st = stress_bogo_inc (st\<lparr>as_mem := m\<rparr>);
                  st = fault_strikes env st
              in (verify_regions (verify_pattern k) regions bg (as_mem st), st)))"

definition MISALIGN_HUGE_ROUNDS :: nat where "MISALIGN_HUGE_ROUNDS = 256"

text \<open>The offsets of rounds \<open>r\<close> and up, \<open>n\<close> of them; those past the end are marked and skipped.\<close>

fun misalign_offsets :: "nat \<Rightarrow> nat \<Rightarrow> nat \<Rightarrow> nat \<Rightarrow> nat \<Rightarrow> aspace \<Rightarrow> nat list \<times> aspace" where
  "misalign_offsets sz pages base r 0 st = ([], st)"
| "misalign_offsets sz pages base r (Suc n) st =
     (let page = (base + r) mod pages;
          (x, st) = mwc64modn 8 st;
          mis = 1 + 2 * x;
          off = page * ADDRSPACE_PAGE + mis;
          (offs, st) = misalign_offsets sz pages base (Suc r) n st
      in (if off + 64 > sz then offs else off # offs, st))"

text \<open>Fill a 64-byte buffer and copy it out; refill one and compare.\<close>

definition misalign_fill :: "bitgen_knobs \<Rightarrow> stress_bitgen \<Rightarrow> nat \<Rightarrow> nat \<Rightarrow> mem \<Rightarrow> stress_bitgen \<times> mem" where
  "misalign_fill k bg p n m =
     (let (bg1, buf) = fill_pattern k bg 0 n (\<lambda>_. 0)
      in (bg1, \<lambda>a. if p \<le> a \<and> a < p + n then buf (a - p) else m a))"

definition misalign_verify :: "bitgen_knobs \<Rightarrow> stress_bitgen \<Rightarrow> nat \<Rightarrow> nat \<Rightarrow> mem \<Rightarrow> int \<times> stress_bitgen" where
  "misalign_verify k bg p n m =
     (let (bg1, expect) = fill_pattern k bg 0 n (\<lambda>_. 0)
      in (if list_all (\<lambda>b. m (p + b) = expect b) [0..<n] then 0 else - 1, bg1))"

definition recipe_misalign_huge :: "bitgen_knobs \<Rightarrow> aspace_env \<Rightarrow> nat \<Rightarrow> aspace \<Rightarrow> int \<times> aspace" where
  "recipe_misalign_huge k env max_bytes st =
     (let sz = (if max_bytes < 128 * STRESS_MB then max_bytes else 128 * STRESS_MB)
      in if sz < ADDRSPACE_PAGE * 2 then (0, st)
         else case map_at env 0 0 sz of
                None \<Rightarrow> (0, st)
              | Some p \<Rightarrow>
                  (let pages = sz div ADDRSPACE_PAGE;
                       (base, st) = (if pages > MISALIGN_HUGE_ROUNDS
                                     then mwc64modn (pages - MISALIGN_HUGE_ROUNDS) st else (0, st));
                       (offs, st) = misalign_offsets sz pages base 0 MISALIGN_HUGE_ROUNDS st;
                       regions = map (\<lambda>off. (p + off, 64)) offs;
                       (bg, st) = bitgen_new k st;
                       (_, m) = fill_regions (misalign_fill k) regions bg (as_mem st);
                       st = stress_bogo_inc (st\<lparr>as_mem := m\<rparr>);
                       st = fault_strikes env st
                   in (verify_regions (misalign_verify k) regions bg (as_mem st), st)))"

definition MIXED_ORDERS_N :: nat where "MIXED_ORDERS_N = 16"

text \<open>The mapping loop: attempts \<open>i\<close> and up, \<open>n\<close> of them; a failed or too large one is passed over.\<close>

fun mixed_maps :: "aspace_env \<Rightarrow> nat \<Rightarrow> nat \<Rightarrow> nat \<Rightarrow> aspace \<Rightarrow> (nat \<times> nat) list \<times> aspace" where
  "mixed_maps env max_bytes i 0 st = ([], st)"
| "mixed_maps env max_bytes i (Suc n) st =
     (let (r, st) = mwc32 st;
          huge = (r AND 3 = 0);
          sz = (if huge then 2 * STRESS_MB else ADDRSPACE_PAGE);
          (hint, st) = random_unmapped_addr env (if huge then 0x0000ffffffffffff else 0x000000ffffffffff) st
      in if sz > max_bytes then mixed_maps env max_bytes (Suc i) n st
         else let p = (if huge
                       then (case env_mmap_huge env i hint sz of
                               None \<Rightarrow> map_at env i hint sz | Some p \<Rightarrow> Some p)
                       else map_at env i hint sz)
              in (case p of
                    None \<Rightarrow> mixed_maps env max_bytes (Suc i) n st
                  | Some p \<Rightarrow>
                      (let (rs, st) = mixed_maps env max_bytes (Suc i) n st in ((p, sz) # rs, st))))"

definition recipe_mixed_orders :: "bitgen_knobs \<Rightarrow> aspace_env \<Rightarrow> nat \<Rightarrow> aspace \<Rightarrow> int \<times> aspace" where
  "recipe_mixed_orders k env max_bytes st =
     (let (regions, st) = mixed_maps env max_bytes 0 MIXED_ORDERS_N st;
          (bg, st) = bitgen_new k st;
          (_, m) = fill_regions (fill_pattern k) regions bg (as_mem st);
          st = stress_bogo_inc (st\<lparr>as_mem := m\<rparr>);
          st = fault_strikes env st
      in (verify_regions (verify_pattern k) regions bg (as_mem st), st))"

section \<open>The method table and the stressor\<close>

type_synonym recipe = "bitgen_knobs \<Rightarrow> aspace_env \<Rightarrow> nat \<Rightarrow> aspace \<Rightarrow> int \<times> aspace"

definition addrspace_methods :: "(string \<times> recipe option) list" where
  "addrspace_methods =
    [(''all'', None),
     (''huge-random-fixed'', Some recipe_huge_random_fixed),
     (''va-bit-walk'', Some recipe_va_bit_walk),
     (''dense-random-offset'', Some recipe_dense_random_offset),
     (''guarded-holes'', Some recipe_guarded_holes),
     (''malloc-giant'', Some recipe_malloc_giant),
     (''misalign-huge'', Some recipe_misalign_huge),
     (''mixed-orders'', Some recipe_mixed_orders)]"

definition stress_addrspace_method :: "nat \<Rightarrow> string option" where
  "stress_addrspace_method i =
     (if i < length addrspace_methods then Some (fst (addrspace_methods ! i)) else None)"

text \<open>
  The main loop: \<open>n\<close> is how often stress_continue goes on to answer true, and \<open>envs n\<close> is the
  environment of the round with \<open>n\<close> more to come.
\<close>

fun addrspace_loop ::
    "bitgen_knobs \<Rightarrow> (nat \<Rightarrow> aspace_env) \<Rightarrow> nat \<Rightarrow> nat \<Rightarrow> nat \<Rightarrow> nat \<Rightarrow> aspace \<Rightarrow> int \<times> aspace" where
  "addrspace_loop k envs max_bytes method n counter st =
     (let m = (if method = 0 then counter mod (length addrspace_methods - 1) + 1 else method);
          counter = (if method = 0 then counter + 1 else counter);
          (ret, st) = the (snd (addrspace_methods ! m)) k (envs n) max_bytes st
      in if ret < 0 then (EXIT_FAILURE, st)
         else case n of
                0 \<Rightarrow> (EXIT_SUCCESS, st)
              | Suc n' \<Rightarrow> addrspace_loop k envs max_bytes method n' counter st)"

definition addrspace_max_bytes :: "nat option \<Rightarrow> nat \<Rightarrow> nat" where
  "addrspace_max_bytes bytes_setting phys =
     (let max_bytes = (case bytes_setting of None \<Rightarrow> 0 | Some b \<Rightarrow> b);
          max_bytes = (if max_bytes = 0 then phys div 4 else max_bytes)
      in if max_bytes < ADDRSPACE_MIN_RECIPE_BYTES then ADDRSPACE_MIN_RECIPE_BYTES else max_bytes)"

definition stress_addrspace ::
    "bitgen_knobs \<Rightarrow> nat option \<Rightarrow> nat option \<Rightarrow> nat \<Rightarrow> (nat \<Rightarrow> aspace_env) \<Rightarrow> nat \<Rightarrow> aspace \<Rightarrow> int \<times> aspace" where
  "stress_addrspace k bytes_setting method_setting phys envs n st =
     (let max_bytes = addrspace_max_bytes bytes_setting phys;
          method = (case method_setting of None \<Rightarrow> 0 | Some m \<Rightarrow> m);
          method = (if method \<ge> length addrspace_methods then 0 else method)
      in addrspace_loop k envs max_bytes method n 0 st)"

section \<open>The byte stream\<close>

text \<open>The byte at an offset of the stream of a generator, eight bytes to a word, low byte first.\<close>

definition stream_byte :: "('s \<Rightarrow> u64 \<times> 's) \<Rightarrow> 's \<Rightarrow> nat \<Rightarrow> u8" where
  "stream_byte gen s i = ucast (drop_bit (8 * (i mod 8)) (fst (gen (snd (draws gen (i div 8) s)))))"

definition stream_after :: "('s \<Rightarrow> u64 \<times> 's) \<Rightarrow> 's \<Rightarrow> nat \<Rightarrow> 's" where
  "stream_after gen s n = snd (draws gen ((n + 7) div 8) s)"

lemma stream_byte_first: "i < 8 \<Longrightarrow> stream_byte gen s i = ucast (drop_bit (8 * i) (fst (gen s)))"
  by (simp add: stream_byte_def)

lemma stream_byte_next: "stream_byte gen s (8 + i) = stream_byte gen (snd (gen s)) i"
proof -
  have "(8 + i) div 8 = Suc (i div 8)" "(8 + i) mod 8 = i mod 8" by simp_all
  then show ?thesis by (simp only: stream_byte_def snd_draws_Suc)
qed

lemma stream_after_0: "stream_after gen s 0 = s"
  by (simp add: stream_after_def)

lemma stream_after_last: "0 < n \<Longrightarrow> n \<le> 8 \<Longrightarrow> stream_after gen s n = snd (gen s)"
proof -
  assume "0 < n" "n \<le> 8"
  then have "(n + 7) div 8 = Suc 0" by simp
  then show ?thesis by (simp add: stream_after_def Let_def case_prod_beta)
qed

lemma stream_after_next: "stream_after gen s (8 + n) = stream_after gen (snd (gen s)) n"
proof -
  have "(8 + n + 7) div 8 = Suc ((n + 7) div 8)" by simp
  then show ?thesis by (simp only: stream_after_def snd_draws_Suc)
qed

lemma stream_after_words: "stream_after gen s (8 * a + n) = stream_after gen (stream_after gen s (8 * a)) n"
proof -
  have "(8 * a + n + 7) div 8 = a + (n + 7) div 8" "(8 * a + 7) div 8 = a" by simp_all
  then show ?thesis by (simp only: stream_after_def snd_draws_add)
qed

lemma stream_byte_words: "stream_byte gen s (8 * a + i) = stream_byte gen (stream_after gen s (8 * a)) i"
proof -
  have "(8 * a + i) div 8 = a + i div 8" "(8 * a + i) mod 8 = i mod 8" "(8 * a + 7) div 8 = a" by simp_all
  then show ?thesis by (simp only: stream_byte_def stream_after_def snd_draws_add)
qed

lemma fill_bytes_mem:
  "fill_bytes m p v j n = (\<lambda>a. if p + j \<le> a \<and> a < p + j + n then ucast (drop_bit (8 * (a - p)) v) else m a)"
proof (induction n arbitrary: m j)
  case 0
  then show ?case by (auto simp: fun_eq_iff)
next
  case (Suc n)
  show ?case
  proof (rule ext)
    fix a
    show "fill_bytes m p v j (Suc n) a =
      (if p + j \<le> a \<and> a < p + j + Suc n then ucast (drop_bit (8 * (a - p)) v) else m a)"
      by (cases "a = p + j") (auto simp: Suc)
  qed
qed

lemma verify_bytes_iff:
  "verify_bytes m p v j n = (\<forall>i. j \<le> i \<and> i < j + n \<longrightarrow> m (p + i) = ucast (drop_bit (8 * i) v))"
proof (induction n arbitrary: j)
  case 0
  then show ?case by auto
next
  case (Suc n)
  have "(\<forall>i. j \<le> i \<and> i < j + Suc n \<longrightarrow> P i) = (P j \<and> (\<forall>i. Suc j \<le> i \<and> i < Suc j + n \<longrightarrow> P i))" (is "?L = ?R") for P
  proof
    assume ?R
    show ?L
    proof (intro allI impI)
      fix i
      assume "j \<le> i \<and> i < j + Suc n"
      then show "P i" using \<open>?R\<close> by (cases "i = j") auto
    qed
  qed auto
  then show ?case by (simp add: Suc)
qed

lemma fill_loop_run:
  "fill_loop gen s ptr len i m =
    (stream_after gen s (len - i),
     \<lambda>a. if ptr + i \<le> a \<and> a < ptr + len then stream_byte gen s (a - (ptr + i)) else m a)"
proof (induction "len - i" arbitrary: i s m rule: less_induct)
  case less
  show ?case
  proof (cases "i < len")
    case False
    then have "fill_loop gen s ptr len i m = (s, m)" by (subst fill_loop.simps) simp
    moreover have "m = (\<lambda>a. if ptr + i \<le> a \<and> a < ptr + len then stream_byte gen s (a - (ptr + i)) else m a)"
      using False by (auto simp: fun_eq_iff)
    ultimately show ?thesis using False by (simp add: stream_after_0)
  next
    case True
    let ?n = "if len - i < 8 then len - i else 8" and ?v = "fst (gen s)"
    have step: "fill_loop gen s ptr len i m =
        fill_loop gen (snd (gen s)) ptr len (i + 8) (fill_bytes m (ptr + i) ?v 0 ?n)"
      using True by (subst fill_loop.simps) (simp add: Let_def case_prod_beta)
    have IH: "fill_loop gen (snd (gen s)) ptr len (i + 8) m' =
        (stream_after gen (snd (gen s)) (len - (i + 8)),
         \<lambda>a. if ptr + (i + 8) \<le> a \<and> a < ptr + len
             then stream_byte gen (snd (gen s)) (a - (ptr + (i + 8))) else m' a)" for m'
      using True by (intro less) simp
    have st: "stream_after gen (snd (gen s)) (len - (i + 8)) = stream_after gen s (len - i)"
    proof (cases "len - i \<le> 8")
      case True
      then show ?thesis using \<open>i < len\<close> by (simp add: stream_after_0 stream_after_last)
    next
      case False
      then have "len - i = 8 + (len - (i + 8))" by simp
      then show ?thesis by (simp only: stream_after_next)
    qed
    have val: "stream_byte gen s (a - (ptr + i)) = stream_byte gen (snd (gen s)) (a - (ptr + (i + 8)))"
      if "ptr + (i + 8) \<le> a" for a
    proof -
      have "a - (ptr + i) = 8 + (a - (ptr + (i + 8)))" using that by simp
      then show ?thesis by (simp only: stream_byte_next)
    qed
    have first: "stream_byte gen s (a - (ptr + i)) = ucast (drop_bit (8 * (a - (ptr + i))) ?v)"
      if "ptr + i \<le> a" "a < ptr + (i + 8)" for a
      using that by (intro stream_byte_first) simp
    show ?thesis
      unfolding step IH st fill_bytes_mem
      using True val first by (auto simp: fun_eq_iff split: if_splits)
  qed
qed

lemma verify_loop_run:
  "fst (verify_loop gen s ptr len i m) =
      (if \<forall>u. i + u < len \<longrightarrow> m (ptr + i + u) = stream_byte gen s u then 0 else - 1)
   \<and> (fst (verify_loop gen s ptr len i m) = 0 \<longrightarrow>
        snd (verify_loop gen s ptr len i m) = stream_after gen s (len - i))"
proof (induction "len - i" arbitrary: i s rule: less_induct)
  case less
  show ?case
  proof (cases "i < len")
    case False
    then have "verify_loop gen s ptr len i m = (0, s)" by (subst verify_loop.simps) simp
    then show ?thesis using False by (simp add: stream_after_0)
  next
    case True
    let ?n = "if len - i < 8 then len - i else 8" and ?v = "fst (gen s)" and ?s = "snd (gen s)"
    have step: "verify_loop gen s ptr len i m =
        (if verify_bytes m (ptr + i) ?v 0 ?n then verify_loop gen ?s ptr len (i + 8) m else (- 1, ?s))"
      using True by (subst verify_loop.simps) (simp add: Let_def case_prod_beta)
    have st: "stream_after gen ?s (len - (i + 8)) = stream_after gen s (len - i)"
    proof (cases "len - i \<le> 8")
      case True
      then show ?thesis using \<open>i < len\<close> by (simp add: stream_after_0 stream_after_last)
    next
      case False
      then have "len - i = 8 + (len - (i + 8))" by simp
      then show ?thesis by (simp only: stream_after_next)
    qed
    have head: "verify_bytes m (ptr + i) ?v 0 ?n =
        (\<forall>u. u < 8 \<and> i + u < len \<longrightarrow> m (ptr + i + u) = stream_byte gen s u)"
      using True by (auto simp: verify_bytes_iff stream_byte_first)
    have rest: "(\<forall>u. i + 8 + u < len \<longrightarrow> m (ptr + (i + 8) + u) = stream_byte gen ?s u) =
        (\<forall>u. \<not> u < 8 \<and> i + u < len \<longrightarrow> m (ptr + i + u) = stream_byte gen s u)"
      (is "?L = ?R")
    proof
      assume ?L
      show ?R
      proof (intro allI impI)
        fix u
        assume "\<not> u < 8 \<and> i + u < len"
        then obtain q where q: "u = 8 + q" by (metis le_Suc_ex not_less)
        have "ptr + (i + 8) + q = ptr + i + u" "i + 8 + q = i + u" by (simp_all add: q)
        then show "m (ptr + i + u) = stream_byte gen s u"
          using \<open>?L\<close> [rule_format, of q] \<open>\<not> u < 8 \<and> i + u < len\<close>
          by (simp only: q stream_byte_next)
      qed
    next
      assume ?R
      show ?L
      proof (intro allI impI)
        fix q
        assume "i + 8 + q < len"
        then show "m (ptr + (i + 8) + q) = stream_byte gen ?s q"
          using \<open>?R\<close> [rule_format, of "8 + q"] by (simp add: stream_byte_next add.assoc)
      qed
    qed
    have split: "(\<forall>u. i + u < len \<longrightarrow> m (ptr + i + u) = stream_byte gen s u) =
        (verify_bytes m (ptr + i) ?v 0 ?n
         \<and> (\<forall>u. i + 8 + u < len \<longrightarrow> m (ptr + (i + 8) + u) = stream_byte gen ?s u))"
      unfolding head rest by blast
    define B where "B = verify_bytes m (ptr + i) ?v 0 ?n"
    define Q where "Q = (\<forall>u. i + 8 + u < len \<longrightarrow> m (ptr + (i + 8) + u) = stream_byte gen ?s u)"
    have "len - (i + 8) < len - i" using True by simp
    note IH = less [OF this, of ?s, folded Q_def, unfolded st]
    show ?thesis
      unfolding step split B_def [symmetric] Q_def [symmetric] using IH by auto
  qed
qed

section \<open>Regions\<close>

fun covered :: "(nat \<times> nat) list \<Rightarrow> nat \<Rightarrow> bool" where
  "covered [] a = False"
| "covered ((p, n) # rs) a = (p \<le> a \<and> a < p + n \<or> covered rs a)"

fun disjoint_regions :: "(nat \<times> nat) list \<Rightarrow> bool" where
  "disjoint_regions [] = True"
| "disjoint_regions ((p, n) # rs) =
     (list_all (\<lambda>(q, k). p + n \<le> q \<or> q + k \<le> p) rs \<and> disjoint_regions rs)"

lemma disjoint_head:
  "list_all (\<lambda>(q, k). p + n \<le> q \<or> q + k \<le> p) rs \<Longrightarrow> p \<le> a \<Longrightarrow> a < p + n \<Longrightarrow> \<not> covered rs a"
  by (induction rs) auto

text \<open>
  What a recipe relies on: a fill writes its content into exactly its region, a verification
  compares the region with the same content, and both leave the generator in the same state.
\<close>

locale region_pattern =
  fixes fill :: "'s \<Rightarrow> nat \<Rightarrow> nat \<Rightarrow> mem \<Rightarrow> 's \<times> mem"
    and verify :: "'s \<Rightarrow> nat \<Rightarrow> nat \<Rightarrow> mem \<Rightarrow> int \<times> 's"
    and content :: "'s \<Rightarrow> nat \<Rightarrow> u8"
    and after :: "'s \<Rightarrow> nat \<Rightarrow> 's"
  assumes fill_run: "fill s p n m =
      (after s n, \<lambda>a. if p \<le> a \<and> a < p + n then content s (a - p) else m a)"
    and verify_ret: "fst (verify s p n m) = (if \<forall>i<n. m (p + i) = content s i then 0 else - 1)"
    and verify_after: "fst (verify s p n m) = 0 \<Longrightarrow> snd (verify s p n m) = after s n"
begin

lemma fill_outside: "\<not> covered rs a \<Longrightarrow> snd (fill_regions fill rs s m) a = m a"
proof (induction rs arbitrary: s m)
  case Nil
  then show ?case by simp
next
  case (Cons r rs)
  obtain p n where r: "r = (p, n)" by (cases r)
  show ?case using Cons by (auto simp: r fill_run)
qed

lemma verify_detects:
  "disjoint_regions rs \<Longrightarrow> verify_regions verify rs s f =
     (if \<forall>a. covered rs a \<longrightarrow> f a = snd (fill_regions fill rs s m) a then 0 else - 1)"
proof (induction rs arbitrary: s m)
  case Nil
  then show ?case by simp
next
  case (Cons r rs)
  obtain p n where r: "r = (p, n)" by (cases r)
  define m1 where "m1 = (\<lambda>a. if p \<le> a \<and> a < p + n then content s (a - p) else m a)"
  let ?F = "snd (fill_regions fill rs (after s n) m1)"
  have F: "snd (fill_regions fill (r # rs) s m) = ?F" by (simp add: r fill_run m1_def)
  have here: "?F a = content s (a - p)" if "p \<le> a" "a < p + n" for a
    using Cons.prems that fill_outside [of rs a] disjoint_head [of p n rs a]
    by (simp add: r m1_def)
  have head: "(\<forall>i<n. f (p + i) = content s i) = (\<forall>a. p \<le> a \<and> a < p + n \<longrightarrow> f a = ?F a)"
  proof
    assume *: "\<forall>i<n. f (p + i) = content s i"
    show "\<forall>a. p \<le> a \<and> a < p + n \<longrightarrow> f a = ?F a"
    proof (intro allI impI)
      fix a
      assume a: "p \<le> a \<and> a < p + n"
      have pa: "p + (a - p) = a" using a by simp
      have "a - p < n" using a by (simp add: less_diff_conv2)
      then have "f (p + (a - p)) = content s (a - p)" using * by blast
      then show "f a = ?F a" using a here by (simp only: pa)
    qed
  next
    assume *: "\<forall>a. p \<le> a \<and> a < p + n \<longrightarrow> f a = ?F a"
    show "\<forall>i<n. f (p + i) = content s i"
      using * here by simp
  qed
  have IH: "verify_regions verify rs (after s n) f =
      (if \<forall>a. covered rs a \<longrightarrow> f a = ?F a then 0 else - 1)"
    using Cons by (simp add: r)
  have all: "(\<forall>a. covered (r # rs) a \<longrightarrow> f a = ?F a) =
      ((\<forall>i<n. f (p + i) = content s i) \<and> (\<forall>a. covered rs a \<longrightarrow> f a = ?F a))"
    unfolding head by (auto simp: r)
  show ?case unfolding F all
  proof (cases "\<forall>i<n. f (p + i) = content s i")
    case True
    then have "fst (verify s p n f) = 0" by (simp add: verify_ret)
    then have "verify_regions verify (r # rs) s f = verify_regions verify rs (after s n) f"
      using verify_after by (simp add: r Let_def case_prod_beta)
    then show "verify_regions verify (r # rs) s f =
        (if (\<forall>i<n. f (p + i) = content s i) \<and> (\<forall>a. covered rs a \<longrightarrow> f a = ?F a) then 0 else - 1)"
      unfolding IH using True by (elim ssubst) argo
  next
    case False
    then have "fst (verify s p n f) = - 1" by (simp add: verify_ret)
    then have "verify_regions verify (r # rs) s f = - 1" by (simp add: r Let_def case_prod_beta)
    then show "verify_regions verify (r # rs) s f =
        (if (\<forall>i<n. f (p + i) = content s i) \<and> (\<forall>a. covered rs a \<longrightarrow> f a = ?F a) then 0 else - 1)"
      using False by argo
  qed
qed

lemma quiet_round: "disjoint_regions rs \<Longrightarrow> verify_regions verify rs s (snd (fill_regions fill rs s m)) = 0"
  by (simp add: verify_detects [where m = m])

end

interpretation pat: region_pattern "fill_pattern k" "verify_pattern k"
    "stream_byte (stress_bitgen_u64 k)" "stream_after (stress_bitgen_u64 k)" for k
proof
  fix s p n m
  show "fill_pattern k s p n m = (stream_after (stress_bitgen_u64 k) s n,
      \<lambda>a. if p \<le> a \<and> a < p + n then stream_byte (stress_bitgen_u64 k) s (a - p) else m a)"
    unfolding fill_pattern_def fill_loop_run add_0_right diff_zero ..
  show "fst (verify_pattern k s p n m) =
      (if \<forall>i<n. m (p + i) = stream_byte (stress_bitgen_u64 k) s i then 0 else - 1)"
    using verify_loop_run [of "stress_bitgen_u64 k" s p n 0 m] by (simp add: verify_pattern_def)
  show "snd (verify_pattern k s p n m) = stream_after (stress_bitgen_u64 k) s n"
    if "fst (verify_pattern k s p n m) = 0"
    using that verify_loop_run [of "stress_bitgen_u64 k" s p n 0 m] by (simp add: verify_pattern_def)
qed

interpretation mis: region_pattern "misalign_fill k" "misalign_verify k"
    "stream_byte (stress_bitgen_u64 k)" "stream_after (stress_bitgen_u64 k)" for k
  by unfold_locales
    (auto simp: misalign_fill_def misalign_verify_def pat.fill_run list_all_iff fun_eq_iff)

section \<open>The regions of the recipes\<close>

lemma mwc64modn_le: "fst (mwc64modn (Suc n) st) \<le> n"
proof -
  let ?x = "of_nat (Suc n) :: u64"
  let ?v = "fst (stress_mwc64modn ?x (as_mwc st))"
  have x: "unat ?x \<le> Suc n" by (simp only: unat_of_nat) (rule mod_less_eq_dividend)
  have "unat ?v \<le> n"
  proof (cases "?x = 0")
    case True
    then show ?thesis by (simp add: stress_mwc64modn_def Let_def case_prod_beta)
  next
    case False
    then have "?v < ?x" by (intro mwc64modn_less) (simp add: word_gt_0)
    then show ?thesis using x by (simp add: word_less_nat_alt)
  qed
  then show ?thesis by (simp add: mwc64modn_def Let_def case_prod_beta)
qed

lemma mwc64modn_less_nat: "0 < n \<Longrightarrow> fst (mwc64modn n st) < n"
  using mwc64modn_le [of "n - 1" st] by simp

lemma page_shuffle_mset:
  "i < length order \<Longrightarrow> mset (fst (page_shuffle i order st)) = mset order"
proof (induction i arbitrary: order st)
  case 0
  then show ?case by simp
next
  case (Suc i)
  let ?j = "fst (mwc64modn (Suc i + 1) st)"
  have "?j \<le> Suc i" using mwc64modn_le [of "Suc i" st] by simp
  then have "mset ((order[Suc i := order ! ?j])[?j := order ! Suc i]) = mset order"
    using Suc.prems by (intro mset_swap) simp_all
  then show ?case using Suc by (simp add: Let_def case_prod_beta)
qed

lemma shuffled_pages:
  assumes "0 < pages"
  shows "distinct (fst (page_shuffle (pages - 1) [0..<pages] st))"
    "set (fst (page_shuffle (pages - 1) [0..<pages] st)) = {0..<pages}"
proof -
  have m: "mset (fst (page_shuffle (pages - 1) [0..<pages] st)) = mset [0..<pages]"
    using assms by (intro page_shuffle_mset) simp
  show "distinct (fst (page_shuffle (pages - 1) [0..<pages] st))"
    using mset_eq_imp_distinct_iff [OF m] by simp
  show "set (fst (page_shuffle (pages - 1) [0..<pages] st)) = {0..<pages}"
    using mset_eq_setD [OF m] by simp
qed

text \<open>Regions cut from one mapping at distinct multiples of their size are disjoint.\<close>

lemma block_regions_disjoint:
  "distinct qs \<Longrightarrow> disjoint_regions (map (\<lambda>q. (p + q * c, c)) qs)"
proof (induction qs)
  case Nil
  then show ?case by simp
next
  case (Cons q qs)
  have "p + q * c + c \<le> p + x * c \<or> p + x * c + c \<le> p + q * c" if "x \<in> set qs" for x
  proof -
    have "x \<noteq> q" using that Cons.prems by auto
    then have "Suc q \<le> x \<or> Suc x \<le> q" by linarith
    then have "Suc q * c \<le> x * c \<or> Suc x * c \<le> q * c" by (metis mult_le_mono1)
    then show ?thesis by auto
  qed
  then show ?case using Cons by (auto simp: list_all_iff)
qed

lemma giant_slices_shape:
  assumes "4 * STRESS_MB \<le> sz" "start < sz div (4 * STRESS_MB)"
  shows "\<exists>n. 0 < n \<and> start + n \<le> sz div (4 * STRESS_MB) \<and>
    giant_slices sz start = map (\<lambda>i. ((start + i) * (4 * STRESS_MB), 4 * STRESS_MB)) [0..<n]"
proof -
  define t where "t = sz div (4 * STRESS_MB)"
  define n where "n = (let n_slices = 1 + t div 8;
          n_slices = (if n_slices > MALLOC_GIANT_MAX_SLICES then MALLOC_GIANT_MAX_SLICES else n_slices)
      in (if start + n_slices > t
                      then let clamped = t - start in (if clamped \<noteq> 0 then clamped else 1)
                      else n_slices))"
  have n: "0 < n" "start + n \<le> t"
    using assms(2) unfolding t_def [symmetric] by (auto simp: n_def Let_def MALLOC_GIANT_MAX_SLICES_def)
  have "(if sz - (start + i) * (4 * STRESS_MB) < 4 * STRESS_MB then sz - (start + i) * (4 * STRESS_MB)
      else 4 * STRESS_MB) = 4 * STRESS_MB" if "i < n" for i
  proof -
    have "Suc (start + i) \<le> t" using that n by simp
    then have "Suc (start + i) * (4 * STRESS_MB) \<le> t * (4 * STRESS_MB)" by (rule mult_le_mono1)
    also have "\<dots> \<le> sz" by (simp add: t_def)
    finally show ?thesis by simp
  qed
  moreover have "giant_slices sz start = map (\<lambda>i. let slice_off = (start + i) * (4 * STRESS_MB)
                  in (slice_off, if sz - slice_off < 4 * STRESS_MB then sz - slice_off else 4 * STRESS_MB))
           [0..<n]"
    unfolding giant_slices_def n_def t_def Let_def ..
  ultimately have "giant_slices sz start = map (\<lambda>i. ((start + i) * (4 * STRESS_MB), 4 * STRESS_MB)) [0..<n]"
    by (simp add: Let_def)
  then show ?thesis using n t_def by auto
qed

lemma giant_slices_disjoint:
  assumes "4 * STRESS_MB \<le> sz" "start < sz div (4 * STRESS_MB)"
  shows "disjoint_regions (map (\<lambda>(off, len). (p + off, len)) (giant_slices sz start))"
proof -
  obtain n where "giant_slices sz start = map (\<lambda>i. ((start + i) * (4 * STRESS_MB), 4 * STRESS_MB)) [0..<n]"
    using giant_slices_shape [OF assms] by blast
  then have "map (\<lambda>(off, len). (p + off, len)) (giant_slices sz start) =
      map (\<lambda>q. (p + q * (4 * STRESS_MB), 4 * STRESS_MB)) (map (\<lambda>i. start + i) [0..<n])"
    by simp
  then show ?thesis
    by (simp only:) (rule block_regions_disjoint, simp add: distinct_map inj_on_def)
qed

text \<open>The misaligned windows lie in different pages, at an odd offset of at most 15.\<close>

lemma misalign_offsets_bound:
  assumes "off \<in> set (fst (misalign_offsets sz pages base r n st))"
  shows "\<exists>i<n. \<exists>x<8. off = ((base + (r + i)) mod pages) * ADDRSPACE_PAGE + 1 + 2 * x \<and> off + 64 \<le> sz"
  using assms
proof (induction n arbitrary: r st)
  case 0
  then show ?case by simp
next
  case (Suc n)
  let ?x = "fst (mwc64modn 8 st)" and ?st = "snd (mwc64modn 8 st)"
  have x: "?x < 8" by (rule mwc64modn_less_nat) simp
  show ?case
  proof (cases "off \<in> set (fst (misalign_offsets sz pages base (Suc r) n ?st))")
    case True
    then obtain i where "i < n" "\<exists>x<8. off = ((base + (Suc r + i)) mod pages) * ADDRSPACE_PAGE + 1 + 2 * x \<and> off + 64 \<le> sz"
      using Suc.IH by blast
    then show ?thesis by (intro exI [of _ "Suc i"]) simp
  next
    case False
    then have "off = ((base + r) mod pages) * ADDRSPACE_PAGE + 1 + 2 * ?x \<and> off + 64 \<le> sz"
      using Suc.prems by (auto simp: Let_def case_prod_beta split: if_splits)
    then show ?thesis using x by (intro exI [of _ 0]) auto
  qed
qed

lemma misalign_disjoint:
  assumes "base + r + n \<le> pages"
  shows "disjoint_regions (map (\<lambda>off. (p + off, 64)) (fst (misalign_offsets sz pages base r n st)))"
  using assms
proof (induction n arbitrary: r st)
  case 0
  then show ?case by simp
next
  case (Suc n)
  let ?x = "fst (mwc64modn 8 st)" and ?st = "snd (mwc64modn 8 st)"
  let ?rest = "fst (misalign_offsets sz pages base (Suc r) n ?st)"
  let ?off = "((base + r) mod pages) * ADDRSPACE_PAGE + (1 + 2 * ?x)"
  have x: "?x < 8" by (rule mwc64modn_less_nat) simp
  have IH: "disjoint_regions (map (\<lambda>off. (p + off, 64)) ?rest)"
    using Suc.IH [of "Suc r"] Suc.prems by simp
  have "?off + 64 \<le> off" if off: "off \<in> set ?rest" for off
  proof -
    obtain i y where i: "i < n" "off = ((base + (Suc r + i)) mod pages) * ADDRSPACE_PAGE + 1 + 2 * y"
      using misalign_offsets_bound [OF off] by blast
    have "(base + (Suc r + i)) mod pages = base + Suc r + i" "(base + r) mod pages = base + r"
      using i Suc.prems by simp_all
    then show ?thesis using x i by (simp add: ADDRSPACE_PAGE_def)
  qed
  then show ?case
    using IH by (auto simp: Let_def case_prod_beta list_all_iff)
qed

section \<open>Holes\<close>

lemma skip_after: "stress_bitgen_skip k len bg = stream_after (stress_bitgen_u64 k) bg len"
  by (simp add: stress_bitgen_skip_def stream_after_def)

lemma page_words: "ADDRSPACE_PAGE = 8 * 512"
  by (simp add: ADDRSPACE_PAGE_def)

lemma stream_pages:
  "stream_after gen (stream_after gen s (i * ADDRSPACE_PAGE)) ADDRSPACE_PAGE = stream_after gen s (Suc i * ADDRSPACE_PAGE)"
  "stream_byte gen (stream_after gen s (i * ADDRSPACE_PAGE)) b = stream_byte gen s (i * ADDRSPACE_PAGE + b)"
proof -
  have i: "i * ADDRSPACE_PAGE = 8 * (i * 512)" by (simp add: page_words)
  have s: "Suc i * ADDRSPACE_PAGE = 8 * (i * 512) + ADDRSPACE_PAGE" by (simp add: page_words)
  show "stream_after gen (stream_after gen s (i * ADDRSPACE_PAGE)) ADDRSPACE_PAGE = stream_after gen s (Suc i * ADDRSPACE_PAGE)"
    unfolding s unfolding i by (rule stream_after_words [symmetric])
  show "stream_byte gen (stream_after gen s (i * ADDRSPACE_PAGE)) b = stream_byte gen s (i * ADDRSPACE_PAGE + b)"
    unfolding i by (rule stream_byte_words [symmetric])
qed

text \<open>The stream steps over the holes: each page outside them is compared with its own bytes.\<close>

lemma guarded_verify_run:
  "fst (guarded_verify k hs p i n (stream_after (stress_bitgen_u64 k) s (i * ADDRSPACE_PAGE)) m) =
    (if \<forall>q. i \<le> q \<and> q < i + n \<and> \<not> in_hole hs q \<longrightarrow>
        (\<forall>b<ADDRSPACE_PAGE. m (p + q * ADDRSPACE_PAGE + b) = stream_byte (stress_bitgen_u64 k) s (q * ADDRSPACE_PAGE + b))
     then 0 else - 1)"
proof (induction n arbitrary: i)
  case 0
  then show ?case by auto
next
  case (Suc n)
  let ?u = "stress_bitgen_u64 k"
  define P where "P q = (\<forall>b<ADDRSPACE_PAGE. m (p + q * ADDRSPACE_PAGE + b) = stream_byte ?u s (q * ADDRSPACE_PAGE + b))" for q
  have split: "(\<forall>q. i \<le> q \<and> q < i + Suc n \<and> \<not> in_hole hs q \<longrightarrow> P q) =
      ((in_hole hs i \<or> P i) \<and> (\<forall>q. Suc i \<le> q \<and> q < Suc i + n \<and> \<not> in_hole hs q \<longrightarrow> P q))" (is "?L = ?R")
  proof
    assume ?R
    show ?L
    proof (intro allI impI)
      fix q
      assume "i \<le> q \<and> q < i + Suc n \<and> \<not> in_hole hs q"
      then show "P q" using \<open>?R\<close> by (cases "q = i") auto
    qed
  qed auto
  have IH: "fst (guarded_verify k hs p (Suc i) n (stream_after ?u s (Suc i * ADDRSPACE_PAGE)) m) =
      (if \<forall>q. Suc i \<le> q \<and> q < Suc i + n \<and> \<not> in_hole hs q \<longrightarrow> P q then 0 else - 1)"
    using Suc.IH [of "Suc i"] by (simp only: P_def)
  let ?bg = "stream_after ?u s (i * ADDRSPACE_PAGE)"
  have ret: "fst (verify_pattern k ?bg (p + i * ADDRSPACE_PAGE) ADDRSPACE_PAGE m) = (if P i then 0 else - 1)"
    unfolding pat.verify_ret P_def stream_pages(2) by (simp only: add.assoc)
  have after: "P i \<Longrightarrow> snd (verify_pattern k ?bg (p + i * ADDRSPACE_PAGE) ADDRSPACE_PAGE m) =
      stream_after ?u s (Suc i * ADDRSPACE_PAGE)"
    by (subst pat.verify_after) (simp_all only: ret stream_pages(1) if_True)
  show ?case
    unfolding P_def [symmetric] split
  proof (cases "in_hole hs i")
    case True
    then have "guarded_verify k hs p i (Suc n) ?bg m =
        guarded_verify k hs p (Suc i) n (stream_after ?u s (Suc i * ADDRSPACE_PAGE)) m"
      by (simp only: guarded_verify.simps if_True skip_after stream_pages(1))
    then show "fst (guarded_verify k hs p i (Suc n) ?bg m) =
      (if (in_hole hs i \<or> P i) \<and> (\<forall>q. Suc i \<le> q \<and> q < Suc i + n \<and> \<not> in_hole hs q \<longrightarrow> P q) then 0 else - 1)"
      using True IH by argo
  next
    case False
    show "fst (guarded_verify k hs p i (Suc n) ?bg m) =
      (if (in_hole hs i \<or> P i) \<and> (\<forall>q. Suc i \<le> q \<and> q < Suc i + n \<and> \<not> in_hole hs q \<longrightarrow> P q) then 0 else - 1)"
    proof (cases "P i")
      case True
      then have "fst (guarded_verify k hs p i (Suc n) ?bg m) =
          fst (guarded_verify k hs p (Suc i) n (stream_after ?u s (Suc i * ADDRSPACE_PAGE)) m)"
        using False ret after [OF True] by (simp add: Let_def case_prod_beta del: mult_Suc)
      then show ?thesis using True False IH by argo
    next
      case no: False
      then have "fst (guarded_verify k hs p i (Suc n) ?bg m) = - 1"
        using False ret by (simp add: Let_def case_prod_beta)
      then show ?thesis using no False by argo
    qed
  qed
qed

lemma guarded_reads:
  "q \<in> set (snd (guarded_verify k hs p i n bg m)) \<Longrightarrow> q < i + n \<and> \<not> in_hole hs q"
proof (induction n arbitrary: i bg)
  case 0
  then show ?case by simp
next
  case (Suc n)
  note IH = Suc.IH [of "Suc i"]
  show ?case
  proof (cases "in_hole hs i")
    case True
    then show ?thesis using Suc.prems IH by simp
  next
    case False
    then have "q = i \<or> q \<in> set (snd (guarded_verify k hs p (Suc i) n
        (snd (verify_pattern k bg (p + i * ADDRSPACE_PAGE) ADDRSPACE_PAGE m)) m))"
      using Suc.prems by (simp add: Let_def case_prod_beta split: if_splits)
    then show ?thesis using False IH by (elim disjE) fastforce+
  qed
qed

lemma in_hole_Cons: "in_hole ((start, n) # hs) q = (start \<le> q \<and> q < start + n \<or> in_hole hs q)"
  by (simp add: in_hole_def)

lemma protected_pages_iff:
  "q < pages \<Longrightarrow> q \<in> set (protected_pages pages hs) \<longleftrightarrow> in_hole hs q"
proof (induction hs)
  case Nil
  then show ?case by (simp add: protected_pages_def in_hole_def)
next
  case (Cons h hs)
  obtain start n where h: "h = (start, n)" by (cases h)
  have "q \<in> set (protected_pages pages (h # hs)) \<longleftrightarrow>
      start \<le> q \<and> q < start + (if start + n > pages then pages - start else n)
      \<or> q \<in> set (protected_pages pages hs)"
    by (simp add: protected_pages_def h)
  also have "\<dots> \<longleftrightarrow> start \<le> q \<and> q < start + n \<or> in_hole hs q"
    using Cons by auto
  finally show ?case by (simp only: in_hole_Cons h)
qed

lemma as_mem_draws [simp]:
  "as_mem (snd (mwc32modn n st)) = as_mem st" "as_mem (snd (mwc64modn n st)) = as_mem st"
  "as_mem (snd (mwc32 st)) = as_mem st" "as_mem (snd (bitgen_new k st)) = as_mem st"
  by (simp_all add: mwc32modn_def mwc64modn_def mwc32_def bitgen_new_def Let_def case_prod_beta)

lemma as_mem_shuffle [simp]: "as_mem (snd (page_shuffle i order st)) = as_mem st"
  by (induction i arbitrary: order st) (simp_all add: Let_def case_prod_beta)

section \<open>Fault-free rounds\<close>

text \<open>
  What the kernel guarantees of the mappings of one round: two different mmap calls, neither with
  MAP_FIXED alone, never return overlapping ranges.
\<close>

definition mapped :: "aspace_env \<Rightarrow> nat \<Rightarrow> nat \<Rightarrow> nat \<Rightarrow> bool" where
  "mapped env i p sz \<longleftrightarrow> sz \<le> 2 * STRESS_MB \<and>
     (\<exists>h. env_mmap env i h sz = Some p \<or> env_mmap_huge env i h sz = Some p)"

definition mappings_disjoint :: "aspace_env \<Rightarrow> bool" where
  "mappings_disjoint env \<longleftrightarrow>
     (\<forall>i j p q s t. i \<noteq> j \<longrightarrow> mapped env i p s \<longrightarrow> mapped env j q t \<longrightarrow> p + s \<le> q \<or> q + t \<le> p)"

lemma mixed_maps_step:
  obtains (skip) st' where "mixed_maps env mb i (Suc n) st = mixed_maps env mb (Suc i) n st'"
  | (add) p sz st' where "fst (mixed_maps env mb i (Suc n) st) = (p, sz) # fst (mixed_maps env mb (Suc i) n st')"
      "mapped env i p sz"
proof -
  define r where "r = fst (mwc32 st)"
  define st1 where "st1 = snd (mwc32 st)"
  define sz where "sz = (if r AND 3 = 0 then 2 * STRESS_MB else ADDRSPACE_PAGE)"
  define h where "h = random_unmapped_addr env (if r AND 3 = 0 then 0x0000ffffffffffff else 0x000000ffffffffff) st1"
  define p where "p = (if r AND 3 = 0
                       then (case env_mmap_huge env i (fst h) sz of
                               None \<Rightarrow> map_at env i (fst h) sz | Some p \<Rightarrow> Some p)
                       else map_at env i (fst h) sz)"
  have step: "mixed_maps env mb i (Suc n) st =
      (if sz > mb then mixed_maps env mb (Suc i) n (snd h)
       else case p of None \<Rightarrow> mixed_maps env mb (Suc i) n (snd h)
         | Some q \<Rightarrow> ((q, sz) # fst (mixed_maps env mb (Suc i) n (snd h)), snd (mixed_maps env mb (Suc i) n (snd h))))"
    unfolding p_def h_def sz_def st1_def r_def by (simp add: Let_def case_prod_beta)
  have "sz \<le> 2 * STRESS_MB" by (simp add: sz_def STRESS_MB_def ADDRSPACE_PAGE_def)
  show ?thesis
  proof (cases "sz > mb \<or> p = None")
    case True
    then show ?thesis using step by (intro skip [of "snd h"]) auto
  next
    case False
    then obtain q where q: "p = Some q" "\<not> sz > mb" by auto
    have "mapped env i q sz"
      using q(1) \<open>sz \<le> 2 * STRESS_MB\<close>
      by (auto simp: mapped_def p_def map_at_def split: if_splits option.splits)
    moreover have "fst (mixed_maps env mb i (Suc n) st) = (q, sz) # fst (mixed_maps env mb (Suc i) n (snd h))"
      using step q by simp
    ultimately show ?thesis by (intro add)
  qed
qed

lemma mixed_maps_mapped:
  "(p, s) \<in> set (fst (mixed_maps env mb i n st)) \<Longrightarrow> \<exists>j \<ge> i. mapped env j p s"
proof (induction n arbitrary: i st)
  case 0
  then show ?case by simp
next
  case (Suc n)
  show ?case
  proof (rule mixed_maps_step [of env mb i n st])
    fix st'
    assume "mixed_maps env mb i (Suc n) st = mixed_maps env mb (Suc i) n st'"
    then obtain j where "j \<ge> Suc i" "mapped env j p s" using Suc.IH [of "Suc i" st'] Suc.prems by auto
    then show ?thesis by (intro exI [of _ j]) simp
  next
    fix q t st'
    assume *: "fst (mixed_maps env mb i (Suc n) st) = (q, t) # fst (mixed_maps env mb (Suc i) n st')"
      "mapped env i q t"
    show ?thesis
    proof (cases "(p, s) = (q, t)")
      case True
      then show ?thesis using * by auto
    next
      case False
      then obtain j where "j \<ge> Suc i" "mapped env j p s" using Suc.IH [of "Suc i" st'] Suc.prems * by auto
      then show ?thesis by (intro exI [of _ j]) simp
    qed
  qed
qed

lemma mixed_maps_disjoint:
  assumes "mappings_disjoint env"
  shows "disjoint_regions (fst (mixed_maps env mb i n st))"
proof (induction n arbitrary: i st)
  case 0
  then show ?case by simp
next
  case (Suc n)
  show ?case
  proof (rule mixed_maps_step [of env mb i n st])
    fix st'
    assume "mixed_maps env mb i (Suc n) st = mixed_maps env mb (Suc i) n st'"
    then show ?thesis using Suc.IH by simp
  next
    fix q t st'
    assume *: "fst (mixed_maps env mb i (Suc n) st) = (q, t) # fst (mixed_maps env mb (Suc i) n st')"
      "mapped env i q t"
    have "q + t \<le> p \<or> p + s \<le> q" if mem: "(p, s) \<in> set (fst (mixed_maps env mb (Suc i) n st'))" for p s
    proof -
      obtain j where "j \<ge> Suc i" "mapped env j p s" using mixed_maps_mapped [OF mem] by blast
      moreover from this have "i \<noteq> j" by simp
      ultimately show ?thesis using assms *(2) unfolding mappings_disjoint_def by blast
    qed
    then show ?thesis unfolding *(1) using Suc.IH [of "Suc i" st'] by (auto simp: list_all_iff)
  qed
qed

lemma as_mem_tries [simp]: "as_mem (snd (unmapped_tries env msk n st)) = as_mem st"
  by (induction n arbitrary: st) (simp_all add: Let_def case_prod_beta)

lemma as_mem_unmapped [simp]: "as_mem (snd (random_unmapped_addr env msk st)) = as_mem st"
  by (simp add: random_unmapped_addr_def)

lemma quiet_verify: "fst (verify_pattern k bg p n (snd (fill_pattern k bg p n m))) = 0"
  using pat.quiet_round [of "[(p, n)]" k bg m] by (simp add: Let_def case_prod_beta split: if_splits)

lemma quiet_guarded:
  assumes "pages * ADDRSPACE_PAGE \<le> sz"
  shows "fst (guarded_verify k hs p 0 pages bg (snd (fill_pattern k bg p sz m))) = 0"
proof -
  have "snd (fill_pattern k bg p sz m) (p + q * ADDRSPACE_PAGE + b) =
      stream_byte (stress_bitgen_u64 k) bg (q * ADDRSPACE_PAGE + b)"
    if "q < pages" "b < ADDRSPACE_PAGE" for q b
  proof -
    have "Suc q * ADDRSPACE_PAGE \<le> pages * ADDRSPACE_PAGE" using that by (intro mult_le_mono1) simp
    then have "q * ADDRSPACE_PAGE + b < sz" using assms that by simp
    then show ?thesis by (simp add: pat.fill_run add.assoc)
  qed
  then show ?thesis
    using guarded_verify_run [of k hs p 0 pages bg "snd (fill_pattern k bg p sz m)"]
    by (simp add: stream_after_0)
qed

lemmas recipe_run = Let_def case_prod_beta stress_bogo_inc_def fault_strikes_def map_at_def

lemma quiet_huge: "env_fault env = id \<Longrightarrow> fst (recipe_huge_random_fixed k env mb st) = 0"
  by (simp add: recipe_huge_random_fixed_def recipe_run quiet_verify split: option.split)

lemma quiet_va: "env_fault env = id \<Longrightarrow> fst (recipe_va_bit_walk k env mb st) = 0"
  by (simp add: recipe_va_bit_walk_def recipe_run quiet_verify split: option.split)

lemma quiet_dense: "env_fault env = id \<Longrightarrow> fst (recipe_dense_random_offset k env mb st) = 0"
proof -
  assume id: "env_fault env = id"
  have "disjoint_regions (map (\<lambda>q. (p + q * ADDRSPACE_PAGE, ADDRSPACE_PAGE))
      (take t (fst (page_shuffle (pages - 1) [0..<pages] st))))" if "pages div 4 \<noteq> 0" for p t pages
    using that by (intro block_regions_disjoint distinct_take shuffled_pages(1)) simp
  then show ?thesis
    using id by (simp add: recipe_dense_random_offset_def recipe_run pat.quiet_round split: option.split)
qed

lemma quiet_holes: "env_fault env = id \<Longrightarrow> fst (recipe_guarded_holes k env mb st) = 0"
  by (simp add: recipe_guarded_holes_def recipe_run quiet_guarded split: option.split)

lemma quiet_giant:
  assumes "env_fault env = id" "ADDRSPACE_MIN_RECIPE_BYTES \<le> mb"
  shows "fst (recipe_malloc_giant k env mb st) = 0"
proof -
  define s where "s = fst (mwc32modn 11 st)"
  define sz where "sz = (if ADDRSPACE_MIN_RECIPE_BYTES * 2 ^ s > mb then mb else ADDRSPACE_MIN_RECIPE_BYTES * 2 ^ s)"
  have "ADDRSPACE_MIN_RECIPE_BYTES \<le> sz" using assms(2) by (simp add: sz_def)
  then have sz: "4 * STRESS_MB \<le> sz" by (simp add: ADDRSPACE_MIN_RECIPE_BYTES_def)
  then have total: "sz div (4 * STRESS_MB) \<noteq> 0" by (simp add: STRESS_MB_def div_eq_0_iff)
  have slices: "disjoint_regions (map (\<lambda>x. (p + fst x, snd x))
      (giant_slices sz (fst (mwc64modn (sz div (4 * STRESS_MB)) st'))))" for p st'
    using giant_slices_disjoint [OF sz, unfolded case_prod_beta] total by (simp add: mwc64modn_less_nat)
  show ?thesis
    unfolding recipe_malloc_giant_def Let_def case_prod_beta s_def [symmetric] sz_def [symmetric]
    using assms(1) total slices
    by (simp add: recipe_run pat.quiet_round split: option.split)
qed

lemma quiet_misalign:
  assumes "env_fault env = id" "ADDRSPACE_MIN_RECIPE_BYTES \<le> mb"
  shows "fst (recipe_misalign_huge k env mb st) = 0"
proof -
  define sz where "sz = (if mb < 128 * STRESS_MB then mb else 128 * STRESS_MB)"
  define pages where "pages = sz div ADDRSPACE_PAGE"
  have "4 * STRESS_MB \<le> sz" using assms(2) by (simp add: sz_def ADDRSPACE_MIN_RECIPE_BYTES_def)
  then have big: "MISALIGN_HUGE_ROUNDS < pages"
    by (simp add: pages_def MISALIGN_HUGE_ROUNDS_def STRESS_MB_def ADDRSPACE_PAGE_def)
  have "disjoint_regions (map (\<lambda>off. (p + off, 64))
      (fst (misalign_offsets sz pages (fst (mwc64modn (pages - MISALIGN_HUGE_ROUNDS) st)) 0 MISALIGN_HUGE_ROUNDS st')))"
    for p st st'
  proof (rule misalign_disjoint)
    have "fst (mwc64modn (pages - MISALIGN_HUGE_ROUNDS) st) < pages - MISALIGN_HUGE_ROUNDS"
      by (rule mwc64modn_less_nat) (use big in simp)
    then show "fst (mwc64modn (pages - MISALIGN_HUGE_ROUNDS) st) + 0 + MISALIGN_HUGE_ROUNDS \<le> pages"
      by simp
  qed
  then show ?thesis
    unfolding recipe_misalign_huge_def Let_def sz_def [symmetric] pages_def [symmetric]
    using assms(1) big by (simp add: recipe_run mis.quiet_round split: option.split)
qed

lemma quiet_mixed:
  "env_fault env = id \<Longrightarrow> mappings_disjoint env \<Longrightarrow> fst (recipe_mixed_orders k env mb st) = 0"
  by (simp add: recipe_mixed_orders_def recipe_run pat.quiet_round mixed_maps_disjoint)

lemma addrspace_methods_cases:
  assumes "1 \<le> m" "m < 8"
  shows "snd (addrspace_methods ! m) \<in> {Some recipe_huge_random_fixed, Some recipe_va_bit_walk,
    Some recipe_dense_random_offset, Some recipe_guarded_holes, Some recipe_malloc_giant,
    Some recipe_misalign_huge, Some recipe_mixed_orders}"
proof -
  have "m = 7 \<or> m = 6 \<or> m = 5 \<or> m = 4 \<or> m = 3 \<or> m = 2 \<or> m = 1" using assms by linarith
  then show ?thesis by (elim disjE) (simp_all add: addrspace_methods_def)
qed

lemma length_addrspace_methods [simp]: "length addrspace_methods = 8"
  by (simp add: addrspace_methods_def)

lemma quiet_dispatch:
  assumes "1 \<le> m" "m < 8" "env_fault env = id" "mappings_disjoint env" "ADDRSPACE_MIN_RECIPE_BYTES \<le> mb"
  shows "fst (the (snd (addrspace_methods ! m)) k env mb st) = 0"
  using addrspace_methods_cases [OF assms(1,2)] assms(3-)
  by (auto simp: quiet_huge quiet_va quiet_dense quiet_holes quiet_giant quiet_misalign quiet_mixed)

declare addrspace_loop.simps [simp del]

lemma addrspace_loop_quiet:
  assumes "\<And>n. env_fault (envs n) = id" "\<And>n. mappings_disjoint (envs n)"
    "ADDRSPACE_MIN_RECIPE_BYTES \<le> mb" "method < 8"
  shows "fst (addrspace_loop k envs mb method n counter st) = EXIT_SUCCESS"
proof (induction n arbitrary: counter st)
  case (0 counter st)
  have "fst (the (snd (addrspace_methods ! (if method = 0 then counter mod 7 + 1 else method))) k (envs 0) mb st) = 0"
    by (rule quiet_dispatch) (use assms in \<open>auto simp: less_Suc_eq_le\<close>)
  then show ?case by (cases "method = 0"; subst addrspace_loop.simps) (simp_all add: Let_def case_prod_beta)
next
  case (Suc n)
  have "fst (the (snd (addrspace_methods ! (if method = 0 then counter mod 7 + 1 else method))) k (envs (Suc n)) mb st) = 0"
    by (rule quiet_dispatch) (use assms in \<open>auto simp: less_Suc_eq_le\<close>)
  then show ?case using Suc.IH
    by (cases "method = 0"; subst addrspace_loop.simps) (simp_all add: Let_def case_prod_beta)
qed

section \<open>Properties\<close>

text \<open>
  C16: a fill changes exactly its region, and a verification of that region from the same
  generator state returns 0 precisely when every byte of it is still what the fill wrote; any
  other content, whatever changed and wherever, returns -1.
\<close>

theorem fill_verify_region:
  "(snd (fill_pattern k bg p n m) =
      (\<lambda>a. if p \<le> a \<and> a < p + n then stream_byte (stress_bitgen_u64 k) bg (a - p) else m a))
   \<and> (fst (verify_pattern k bg p n f) = 0) =
      ({p..<p + n} \<subseteq> {a. f a = snd (fill_pattern k bg p n m) a})
   \<and> fst (verify_pattern k bg p n f) \<in> {0, - 1}
   \<and> snd (verify_pattern k bg p n (snd (fill_pattern k bg p n m))) = fst (fill_pattern k bg p n m)"
proof -
  have detect: "fst (verify_pattern k bg p n f) =
      (if \<forall>a. covered [(p, n)] a \<longrightarrow> f a = snd (fill_pattern k bg p n m) a then 0 else - 1)" for f
    using pat.verify_detects [of "[(p, n)]" k bg f m]
    by (auto simp: Let_def case_prod_beta split: if_splits)
  then have "fst (verify_pattern k bg p n (snd (fill_pattern k bg p n m))) = 0" by simp
  then have "snd (verify_pattern k bg p n (snd (fill_pattern k bg p n m))) = fst (fill_pattern k bg p n m)"
    by (simp add: pat.verify_after) (simp add: pat.fill_run)
  moreover have "snd (fill_pattern k bg p n m) =
      (\<lambda>a. if p \<le> a \<and> a < p + n then stream_byte (stress_bitgen_u64 k) bg (a - p) else m a)"
    by (simp add: pat.fill_run)
  moreover have "(fst (verify_pattern k bg p n f) = 0) =
      ({p..<p + n} \<subseteq> {a. f a = snd (fill_pattern k bg p n m) a})"
    by (simp add: detect subset_iff)
  moreover have "fst (verify_pattern k bg p n f) \<in> {0, - 1}" by (simp add: detect)
  ultimately show ?thesis by blast
qed

text \<open>
  The dense recipe visits a quarter of the pages, no page twice, all inside the mapping, and
  its result is 0 or -1 according to whether the memory the fault left agrees with what was
  filled on every byte of those pages.
\<close>

theorem dense_random_offset_detects:
  assumes "pages = min max_bytes (256 * STRESS_MB) div ADDRSPACE_PAGE" "4 \<le> pages"
    and "env_calloc_ok env" "env_mmap env 0 0 (min max_bytes (256 * STRESS_MB)) = Some p"
  shows "\<exists>qs m. distinct qs \<and> length qs = pages div 4 \<and> set qs \<subseteq> {0..<pages}
    \<and> as_mem (snd (recipe_dense_random_offset k env max_bytes st)) = env_fault env m
    \<and> fst (recipe_dense_random_offset k env max_bytes st) =
        (if \<forall>a. covered (map (\<lambda>q. (p + q * ADDRSPACE_PAGE, ADDRSPACE_PAGE)) qs) a \<longrightarrow> env_fault env m a = m a
         then 0 else - 1)"
proof -
  let ?sz = "min max_bytes (256 * STRESS_MB)"
  have sz: "(if max_bytes < 256 * STRESS_MB then max_bytes else 256 * STRESS_MB) = ?sz" by simp
  let ?order = "fst (page_shuffle (pages - 1) [0..<pages] st)"
  let ?st1 = "snd (page_shuffle (pages - 1) [0..<pages] st)"
  let ?bg = "fst (bitgen_new k ?st1)"
  let ?qs = "take (pages div 4) ?order"
  let ?rs = "map (\<lambda>q. (p + q * ADDRSPACE_PAGE, ADDRSPACE_PAGE)) ?qs"
  define m where "m = snd (fill_regions (fill_pattern k) ?rs ?bg (as_mem ?st1))"
  have pos: "0 < pages" using assms(2) by simp
  have len: "length ?order = pages"
    using shuffled_pages [OF pos, of st] distinct_card [of ?order] by simp
  have "distinct ?qs" using shuffled_pages(1) [OF pos] by (rule distinct_take)
  then have dis: "disjoint_regions ?rs" by (rule block_regions_disjoint)
  have "pages div 4 \<noteq> 0" using assms(2) by simp
  then have run: "fst (recipe_dense_random_offset k env max_bytes st) =
      verify_regions (verify_pattern k) ?rs ?bg (env_fault env m)"
    and mem: "as_mem (snd (recipe_dense_random_offset k env max_bytes st)) = env_fault env m"
    unfolding recipe_dense_random_offset_def Let_def sz assms(1) [symmetric] map_at_def m_def
    using assms(3,4) by (simp_all add: case_prod_beta stress_bogo_inc_def fault_strikes_def)
  have "set ?qs \<subseteq> {0..<pages}" using set_take_subset shuffled_pages(2) [OF pos] by metis
  moreover have "length ?qs = pages div 4" using len by simp
  moreover have "fst (recipe_dense_random_offset k env max_bytes st) =
      (if \<forall>a. covered ?rs a \<longrightarrow> env_fault env m a = m a then 0 else - 1)"
    unfolding run m_def by (rule pat.verify_detects [OF dis])
  ultimately show ?thesis using \<open>distinct ?qs\<close> mem by blast
qed

text \<open>
  The guarded recipe never reads a page that one of its mprotect calls made inaccessible, and
  the verification stays aligned with the stream across the holes: from the generator state of the
  fill it returns 0 precisely when every page outside the holes is what the fill wrote.
\<close>

theorem guarded_holes_detects:
  assumes "pages * ADDRSPACE_PAGE \<le> sz"
  shows "set (snd (guarded_verify k hs p 0 pages bg f)) \<inter> set (protected_pages pages hs) = {}
    \<and> fst (guarded_verify k hs p 0 pages bg f) =
        (if \<forall>q<pages. q \<in> set (protected_pages pages hs)
            \<or> (\<forall>b<ADDRSPACE_PAGE. f (p + q * ADDRSPACE_PAGE + b)
                  = snd (fill_pattern k bg p sz m) (p + q * ADDRSPACE_PAGE + b))
         then 0 else - 1)"
proof -
  have byte: "snd (fill_pattern k bg p sz m) (p + q * ADDRSPACE_PAGE + b) =
      stream_byte (stress_bitgen_u64 k) bg (q * ADDRSPACE_PAGE + b)"
    if "q < pages" "b < ADDRSPACE_PAGE" for q b
  proof -
    have "Suc q * ADDRSPACE_PAGE \<le> pages * ADDRSPACE_PAGE" using that by (intro mult_le_mono1) simp
    then have "q * ADDRSPACE_PAGE + b < sz" using assms that by simp
    then show ?thesis by (simp add: pat.fill_run add.assoc)
  qed
  have "fst (guarded_verify k hs p 0 pages bg f) =
      (if \<forall>q<pages. in_hole hs q \<or> (\<forall>b<ADDRSPACE_PAGE. f (p + q * ADDRSPACE_PAGE + b)
          = stream_byte (stress_bitgen_u64 k) bg (q * ADDRSPACE_PAGE + b)) then 0 else - 1)"
    using guarded_verify_run [of k hs p 0 pages bg f] by (auto simp: stream_after_0 split: if_splits)
  moreover have "set (snd (guarded_verify k hs p 0 pages bg f)) \<inter> set (protected_pages pages hs) = {}"
    using guarded_reads [of _ k hs p 0 pages bg f] by (auto simp: protected_pages_iff)
  ultimately show ?thesis using byte by (simp add: protected_pages_iff cong: conj_cong)
qed

theorem guarded_holes_detects_witness:
  "set (snd (guarded_verify bitgen_default_knobs [(1, 3)] 0 0 2
      (stress_bitgen_seed bitgen_default_knobs 1
        \<lparr>bg_w = 0, bg_z = 0, band_lo = 0, band_width = 0, band_step = 0, band_count = 0,
         bg_density = 0, edge_idx = 0, bg_mix = 0\<rparr>) (\<lambda>_. 0))) \<inter> {1} = {}"
  using guarded_holes_detects [of 2 8192 bitgen_default_knobs "[(1, 3)]" 0 _ "\<lambda>_. 0"]
  by (simp add: ADDRSPACE_PAGE_def protected_pages_def del: guarded_verify.simps)

text \<open>
  C28: in a fault-free environment whose mappings do not overlap, no recipe ever reports a data
  difference: the stressor ends with EXIT_SUCCESS whatever size and method are set and however
  many rounds it runs.
\<close>

theorem addrspace_no_false_alarm:
  assumes "\<And>n. env_fault (envs n) = id" "\<And>n. mappings_disjoint (envs n)"
  shows "fst (stress_addrspace k bytes_setting method_setting phys envs n st) = EXIT_SUCCESS"
proof -
  have "ADDRSPACE_MIN_RECIPE_BYTES \<le> addrspace_max_bytes bytes_setting phys"
    by (simp add: addrspace_max_bytes_def Let_def)
  then show ?thesis
    unfolding stress_addrspace_def Let_def
    by (intro addrspace_loop_quiet assms) simp_all
qed

definition quiet_env :: aspace_env where
  "quiet_env = \<lparr>env_mmap = \<lambda>i h sz. Some ((i + 1) * (4 * STRESS_MB)), env_mmap_huge = \<lambda>i h sz. None,
     env_unmapped = \<lambda>_. True, env_malloc = \<lambda>_. Some 4096, env_memalign = \<lambda>_ _. None,
     env_calloc_ok = True, env_fault = id\<rparr>"

lemma quiet_env_disjoint: "mappings_disjoint quiet_env"
proof -
  have "p + s \<le> q \<or> q + t \<le> p" if "i \<noteq> j" "mapped quiet_env i p s" "mapped quiet_env j q t" for i j p q s t
  proof -
    have *: "p = (i + 1) * (4 * STRESS_MB)" "q = (j + 1) * (4 * STRESS_MB)" "s \<le> 2 * STRESS_MB" "t \<le> 2 * STRESS_MB"
      using that by (auto simp: mapped_def quiet_env_def)
    have "Suc i \<le> j \<or> Suc j \<le> i" using that(1) by linarith
    then show ?thesis
    proof
      assume "Suc i \<le> j"
      then have "(Suc i + 1) * (4 * STRESS_MB) \<le> q" unfolding * by (intro mult_le_mono1) simp
      then show ?thesis using *(1,3) by simp
    next
      assume "Suc j \<le> i"
      then have "(Suc j + 1) * (4 * STRESS_MB) \<le> p" unfolding * by (intro mult_le_mono1) simp
      then show ?thesis using *(2,4) by simp
    qed
  qed
  then show ?thesis unfolding mappings_disjoint_def by blast
qed

theorem addrspace_no_false_alarm_witness:
  "fst (stress_addrspace bitgen_default_knobs None (Some 3) (2 ^ 30) (\<lambda>_. quiet_env) 5
      \<lparr>as_mwc = mwc_initial, as_mem = \<lambda>_. 0, as_bogo = 0\<rparr>) = EXIT_SUCCESS"
  by (rule addrspace_no_false_alarm [OF _ quiet_env_disjoint]) (simp add: quiet_env_def)

theorem dense_random_offset_detects_witness:
  "\<exists>qs. distinct qs \<and> length qs = 2 \<and> set qs \<subseteq> {0..<8::nat}
    \<and> fst (recipe_dense_random_offset bitgen_default_knobs quiet_env 32768
        \<lparr>as_mwc = mwc_initial, as_mem = \<lambda>_. 0, as_bogo = 0\<rparr>) = 0"
  using dense_random_offset_detects [of 8 32768 quiet_env "4 * STRESS_MB" bitgen_default_knobs
      "\<lparr>as_mwc = mwc_initial, as_mem = \<lambda>_. 0, as_bogo = 0\<rparr>"]
  by (auto simp: STRESS_MB_def ADDRSPACE_PAGE_def quiet_env_def)

text \<open>
  The slices of the giant allocation are whole 4 MB blocks at distinct positions inside the
  allocation, and the round's result is decided by exactly their bytes.
\<close>

theorem malloc_giant_detects:
  assumes "4 * STRESS_MB \<le> sz" "start < sz div (4 * STRESS_MB)"
  shows "giant_slices sz start \<noteq> [] \<and> (\<forall>(off, len) \<in> set (giant_slices sz start). off + len \<le> sz)
    \<and> verify_regions (verify_pattern k) (map (\<lambda>(off, len). (p + off, len)) (giant_slices sz start)) bg f =
      (if \<forall>a. covered (map (\<lambda>(off, len). (p + off, len)) (giant_slices sz start)) a \<longrightarrow>
           f a = snd (fill_regions (fill_pattern k)
                   (map (\<lambda>(off, len). (p + off, len)) (giant_slices sz start)) bg m) a
       then 0 else - 1)"
proof -
  obtain n where n: "0 < n" "start + n \<le> sz div (4 * STRESS_MB)"
    "giant_slices sz start = map (\<lambda>i. ((start + i) * (4 * STRESS_MB), 4 * STRESS_MB)) [0..<n]"
    using giant_slices_shape [OF assms] by blast
  have "(start + i) * (4 * STRESS_MB) + 4 * STRESS_MB \<le> sz" if "i < n" for i
  proof -
    have "Suc (start + i) \<le> sz div (4 * STRESS_MB)" using that n(2) by simp
    then have "Suc (start + i) * (4 * STRESS_MB) \<le> sz div (4 * STRESS_MB) * (4 * STRESS_MB)"
      by (rule mult_le_mono1)
    also have "\<dots> \<le> sz" by simp
    finally show ?thesis by simp
  qed
  then show ?thesis
    using n(1) pat.verify_detects [OF giant_slices_disjoint [OF assms]] by (auto simp: n(3))
qed

theorem malloc_giant_detects_witness:
  "giant_slices (64 * STRESS_MB) 15 \<noteq> []"
  using malloc_giant_detects [of "64 * STRESS_MB" 15] by (simp add: STRESS_MB_def)

text \<open>
  The misaligned windows of a round lie in different pages, so none overlaps another: the
  copied payloads are all verified, and any changed byte of any window is detected.
\<close>

theorem misalign_huge_detects:
  assumes "base + MISALIGN_HUGE_ROUNDS \<le> pages"
  shows "let rs = map (\<lambda>off. (p + off, 64)) (fst (misalign_offsets sz pages base 0 MISALIGN_HUGE_ROUNDS st))
    in disjoint_regions rs
      \<and> verify_regions (misalign_verify k) rs bg f =
        (if \<forall>a. covered rs a \<longrightarrow> f a = snd (fill_regions (misalign_fill k) rs bg m) a then 0 else - 1)"
proof -
  have "disjoint_regions (map (\<lambda>off. (p + off, 64)) (fst (misalign_offsets sz pages base 0 MISALIGN_HUGE_ROUNDS st)))"
    using assms by (intro misalign_disjoint) simp
  then show ?thesis unfolding Let_def by (intro conjI mis.verify_detects)
qed

theorem misalign_huge_detects_witness:
  "disjoint_regions (map (\<lambda>off. (0 + off, 64)) (fst (misalign_offsets (4 * STRESS_MB) 1024 768 0
      MISALIGN_HUGE_ROUNDS \<lparr>as_mwc = mwc_initial, as_mem = \<lambda>_. 0, as_bogo = 0\<rparr>)))"
  by (rule misalign_huge_detects [unfolded Let_def, THEN conjunct1]) (simp add: MISALIGN_HUGE_ROUNDS_def)

text \<open>
  The va-bit-walk address is page aligned and contains the chosen address bit, and no other
  bit above 23, exactly when that bit is 12 or higher; the twelve low bits are drawn but masked off.
\<close>

theorem va_walk_bits:
  "va_walk_hint b r AND 0xfff = 0
   \<and> bit (va_walk_hint b r) b = (12 \<le> b \<and> b < 64)
   \<and> va_walk_hint b r AND NOT 0xffffff = (if b < 24 then 0 else push_bit b 1)"
proof -
  have m12: "bit (0xfff :: u64) n \<longleftrightarrow> n < 12" for n
  proof -
    have "(0xfff :: u64) = mask 12" by (simp add: mask_eq_exp_minus_1)
    then show ?thesis by (simp only: bit_mask_iff) auto
  qed
  have m24: "bit (0xffffff :: u64) n \<longleftrightarrow> n < 24" for n
  proof -
    have "(0xffffff :: u64) = mask 24" by (simp add: mask_eq_exp_minus_1)
    then show ?thesis by (simp only: bit_mask_iff) auto
  qed
  have "va_walk_hint b r AND 0xfff = 0"
    by (rule bit_word_eqI) (unfold va_walk_hint_def bit_simps m12 m24, auto)
  moreover have "bit (va_walk_hint b r) b = (12 \<le> b \<and> b < 64)"
    unfolding va_walk_hint_def bit_simps m12 m24 by auto
  moreover have "va_walk_hint b r AND NOT 0xffffff = (if b < 24 then 0 else push_bit b 1)"
    by (rule bit_word_eqI) (cases "b < 24"; unfold va_walk_hint_def bit_simps m12 m24, auto simp: bit_simps)
  ultimately show ?thesis by blast
qed

end
