(* ===== verification/Setting.thy ===== *)
theory Setting
  imports Prelude
begin

text \<open>
  The option store of core-setting.c: a list of typed settings in the order they were first set,
  each tagged with the stressor item that was current when it was set.  The file-static list is an
  argument; the current item \<open>cur\<close> is \<open>None\<close> before the first stressor option.  Values are the
  bits of the union member that the type selects.
\<close>

section \<open>Types and values\<close>

datatype stress_type_id =
    TYPE_ID_UNDEFINED | TYPE_ID_UINT8 | TYPE_ID_INT8 | TYPE_ID_UINT16 | TYPE_ID_INT16
  | TYPE_ID_UINT32 | TYPE_ID_UINT32_TIME | TYPE_ID_INT32 | TYPE_ID_INT32_TIME | TYPE_ID_INT32_CPU_PERCENT
  | TYPE_ID_UINT64 | TYPE_ID_UINT64_BYTES | TYPE_ID_UINT64_BYTES_FS | TYPE_ID_UINT64_BYTES_FS_PERCENT
  | TYPE_ID_UINT64_BYTES_VM | TYPE_ID_UINT64_TIME | TYPE_ID_INT64
  | TYPE_ID_SIZE_T | TYPE_ID_SIZE_T_BYTES | TYPE_ID_SIZE_T_BYTES_FS | TYPE_ID_SIZE_T_BYTES_FS_PERCENT
  | TYPE_ID_SIZE_T_BYTES_VM | TYPE_ID_SSIZE_T | TYPE_ID_UINT | TYPE_ID_INT | TYPE_ID_INT_DOMAIN
  | TYPE_ID_INT_PORT | TYPE_ID_OFF_T | TYPE_ID_STR | TYPE_ID_BOOL | TYPE_ID_SIZE_T_METHOD | TYPE_ID_CALLBACK

text \<open>The union: nothing yet (zeroed memory), the bits of an integer member, or a string.\<close>

datatype setting_value = Bits u64 | Str string

record stress_setting =
  s_item :: "nat option"
  s_stressor_name :: string
  s_name :: string
  s_type_id :: stress_type_id
  s_global :: bool
  s_value :: setting_value

text \<open>The width of the integer member that a type selects; \<open>None\<close> for the other types.\<close>

fun member_width :: "stress_type_id \<Rightarrow> nat option" where
  "member_width TYPE_ID_UINT8 = Some 8"
| "member_width TYPE_ID_INT8 = Some 8"
| "member_width TYPE_ID_UINT16 = Some 16"
| "member_width TYPE_ID_INT16 = Some 16"
| "member_width TYPE_ID_UINT32 = Some 32"
| "member_width TYPE_ID_UINT32_TIME = Some 32"
| "member_width TYPE_ID_INT32 = Some 32"
| "member_width TYPE_ID_INT32_TIME = Some 32"
| "member_width TYPE_ID_INT32_CPU_PERCENT = Some 32"
| "member_width TYPE_ID_UINT = Some 32"
| "member_width TYPE_ID_INT = Some 32"
| "member_width TYPE_ID_INT_DOMAIN = Some 32"
| "member_width TYPE_ID_INT_PORT = Some 32"
| "member_width TYPE_ID_BOOL = Some 8"
| "member_width TYPE_ID_STR = None"
| "member_width TYPE_ID_UNDEFINED = None"
| "member_width TYPE_ID_CALLBACK = None"
| "member_width _ = Some 64"

section \<open>Setting\<close>

datatype setting_exit = EXIT_NOT_SUCCESS_null | EXIT_NO_RESOURCE_alloc

text \<open>The union after the switch over the type: an integer member, the duplicated string, or unchanged.\<close>

definition store_value :: "stress_type_id \<Rightarrow> setting_value \<Rightarrow> setting_value \<Rightarrow> setting_value" where
  "store_value type_id value old =
     (case member_width type_id of
        Some w \<Rightarrow> (case value of Bits b \<Rightarrow> Bits (take_bit w b) | Str s \<Rightarrow> old)
      | None \<Rightarrow> (if type_id = TYPE_ID_STR then value else old))"

definition setting_matches :: "string \<Rightarrow> string \<Rightarrow> stress_setting \<Rightarrow> bool" where
  "setting_matches stressor_name name s \<longleftrightarrow> s_stressor_name s = stressor_name \<and> s_name s = name"

definition setting_assign ::
    "nat option \<Rightarrow> string \<Rightarrow> string \<Rightarrow> stress_type_id \<Rightarrow> setting_value \<Rightarrow> stress_setting \<Rightarrow> stress_setting" where
  "setting_assign cur stressor_name name type_id value s =
     \<lparr>s_item = cur, s_stressor_name = stressor_name, s_name = name, s_type_id = type_id,
      s_global = (stressor_name = ''global''), s_value = store_value type_id value (s_value s)\<rparr>"

text \<open>Update the first setting with the stressor's and the option's name, if there is one.\<close>

fun setting_update ::
    "nat option \<Rightarrow> string \<Rightarrow> string \<Rightarrow> stress_type_id \<Rightarrow> setting_value \<Rightarrow> stress_setting list \<Rightarrow>
     stress_setting list option" where
  "setting_update cur stressor_name name type_id value [] = None"
| "setting_update cur stressor_name name type_id value (s # ss) =
     (if setting_matches stressor_name name s
      then Some (setting_assign cur stressor_name name type_id value s # ss)
      else map_option (Cons s) (setting_update cur stressor_name name type_id value ss))"

definition setting_zeroed :: stress_setting where
  "setting_zeroed = \<lparr>s_item = None, s_stressor_name = [], s_name = [], s_type_id = TYPE_ID_UNDEFINED,
     s_global = False, s_value = Bits 0\<rparr>"

text \<open>
  \<open>alloc_ok\<close> says whether calloc (for a new setting) or the string duplication succeeds; the
  null-pointer checks are the \<open>None\<close> cases of the name and the value.
\<close>

definition stress_setting_generic_set ::
    "bool \<Rightarrow> nat option \<Rightarrow> string \<Rightarrow> string option \<Rightarrow> stress_type_id \<Rightarrow> setting_value option \<Rightarrow>
     stress_setting list \<Rightarrow> setting_exit + stress_setting list" where
  "stress_setting_generic_set alloc_ok cur stressor_name name type_id value ss =
     (case value of
        None \<Rightarrow> Inl EXIT_NOT_SUCCESS_null
      | Some v \<Rightarrow>
        (case name of
           None \<Rightarrow> Inl EXIT_NOT_SUCCESS_null
         | Some n \<Rightarrow>
           (case setting_update cur stressor_name n type_id v ss of
              None \<Rightarrow>
                (if \<not> alloc_ok then Inl EXIT_NO_RESOURCE_alloc
                 else Inr (ss @ [setting_assign cur stressor_name n type_id v setting_zeroed]))
            | Some ss' \<Rightarrow>
                (if type_id = TYPE_ID_STR \<and> \<not> alloc_ok then Inl EXIT_NO_RESOURCE_alloc else Inr ss'))))"

definition stress_setting_set ::
    "bool \<Rightarrow> nat option \<Rightarrow> string \<Rightarrow> string option \<Rightarrow> stress_type_id \<Rightarrow> setting_value option \<Rightarrow>
     stress_setting list \<Rightarrow> setting_exit + stress_setting list" where
  "stress_setting_set alloc_ok cur stressor_name name type_id value ss =
     stress_setting_generic_set alloc_ok cur stressor_name name type_id value ss"

definition stress_setting_global_set ::
    "bool \<Rightarrow> nat option \<Rightarrow> string option \<Rightarrow> stress_type_id \<Rightarrow> setting_value option \<Rightarrow>
     stress_setting list \<Rightarrow> setting_exit + stress_setting list" where
  "stress_setting_global_set alloc_ok cur name type_id value ss =
     stress_setting_generic_set alloc_ok cur ''global'' name type_id value ss"

definition stress_setting_set_true ::
    "bool \<Rightarrow> nat option \<Rightarrow> string \<Rightarrow> string option \<Rightarrow> stress_setting list \<Rightarrow> setting_exit + stress_setting list" where
  "stress_setting_set_true alloc_ok cur stressor_name name ss =
     stress_setting_set alloc_ok cur stressor_name name TYPE_ID_BOOL (Some (Bits 1)) ss"

definition stress_setting_global_set_true ::
    "bool \<Rightarrow> nat option \<Rightarrow> string option \<Rightarrow> stress_setting list \<Rightarrow> setting_exit + stress_setting list" where
  "stress_setting_global_set_true alloc_ok cur name ss =
     stress_setting_set alloc_ok cur ''global'' name TYPE_ID_BOOL (Some (Bits 1)) ss"

definition stress_setting_free :: "stress_setting list \<Rightarrow> stress_setting list" where
  "stress_setting_free ss = []"

section \<open>Getting\<close>

text \<open>
  What a matching setting writes through the value pointer; \<open>None\<close> when it writes nothing.
  \<open>fs_size\<close> is the size of the file system, for the percentages.
\<close>

definition load_value :: "u64 \<Rightarrow> stress_setting \<Rightarrow> setting_value option" where
  "load_value fs_size s =
     (if s_type_id s = TYPE_ID_UINT64_BYTES_FS_PERCENT \<or> s_type_id s = TYPE_ID_SIZE_T_BYTES_FS_PERCENT
      then (case s_value s of Bits b \<Rightarrow> Some (Bits (b * (fs_size div 100))) | Str _ \<Rightarrow> None)
      else if s_type_id s = TYPE_ID_UNDEFINED \<or> s_type_id s = TYPE_ID_CALLBACK then None
      else Some (s_value s))"

text \<open>
  The scan of the list: \<open>found\<close> once a setting of the current item has been seen; after that a
  setting of another item that is not global ends it.  The result is whether the name was seen and
  what the value pointer holds.
\<close>

fun setting_get_loop ::
    "u64 \<Rightarrow> nat option \<Rightarrow> string \<Rightarrow> stress_setting list \<Rightarrow> bool \<Rightarrow> bool \<times> setting_value option \<Rightarrow>
     bool \<times> setting_value option" where
  "setting_get_loop fs_size cur name [] found (isset, out) = (isset, out)"
| "setting_get_loop fs_size cur name (s # ss) found (isset, out) =
     (let found = (found \<or> s_item s = cur)
      in if found \<and> (s_item s \<noteq> cur \<and> \<not> s_global s) then (isset, out)
         else if s_name s = name
              then setting_get_loop fs_size cur name ss found
                     (True, case load_value fs_size s of None \<Rightarrow> out | Some v \<Rightarrow> Some v)
              else setting_get_loop fs_size cur name ss found (isset, out))"

definition stress_setting_get ::
    "u64 \<Rightarrow> nat option \<Rightarrow> string \<Rightarrow> stress_setting list \<Rightarrow> bool \<times> setting_value option" where
  "stress_setting_get fs_size cur name ss = setting_get_loop fs_size cur name ss False (False, None)"

section \<open>Keys and scans\<close>

definition setting_key :: "stress_setting \<Rightarrow> string \<times> string" where
  "setting_key s = (s_stressor_name s, s_name s)"

lemma setting_assign_key [simp]: "setting_key (setting_assign cur sn n t v s) = (sn, n)"
  by (simp add: setting_key_def setting_assign_def)

lemma setting_matches_key: "setting_matches sn n s = (setting_key s = (sn, n))"
  by (auto simp: setting_matches_def setting_key_def)

text \<open>An update splits the list at the first match and replaces just that setting.\<close>

lemma setting_update_Some:
  "setting_update cur sn n t v ss = Some ss' \<Longrightarrow>
    \<exists>pre s post. ss = pre @ s # post \<and> ss' = pre @ setting_assign cur sn n t v s # post
      \<and> setting_key s = (sn, n) \<and> (\<forall>x \<in> set pre. setting_key x \<noteq> (sn, n))"
proof (induction ss arbitrary: ss')
  case Nil
  then show ?case by simp
next
  case (Cons a ss)
  show ?case
  proof (cases "setting_matches sn n a")
    case True
    then show ?thesis
      using Cons.prems by (intro exI [of _ "[]"] exI [of _ a] exI [of _ ss]) (simp add: setting_matches_key)
  next
    case False
    then obtain rest where rest: "setting_update cur sn n t v ss = Some rest" "ss' = a # rest"
      using Cons.prems by auto
    obtain pre s post where "ss = pre @ s # post" "rest = pre @ setting_assign cur sn n t v s # post"
      "setting_key s = (sn, n)" "\<forall>x \<in> set pre. setting_key x \<noteq> (sn, n)"
      using Cons.IH [OF rest(1)] by blast
    then show ?thesis
      using rest(2) False
      by (intro exI [of _ "a # pre"] exI [of _ s] exI [of _ post]) (simp add: setting_matches_key)
  qed
qed

lemma setting_update_None:
  "setting_update cur sn n t v ss = None \<Longrightarrow> \<forall>x \<in> set ss. setting_key x \<noteq> (sn, n)"
  by (induction ss) (auto simp: setting_matches_key split: if_splits)

lemma setting_update_keys:
  "setting_update cur sn n t v ss = Some ss' \<Longrightarrow> map setting_key ss' = map setting_key ss"
  by (drule setting_update_Some) auto

text \<open>A list in which no foreign setting follows one of the current item.\<close>

fun item_tail :: "nat option \<Rightarrow> stress_setting list \<Rightarrow> bool" where
  "item_tail cur [] = True"
| "item_tail cur (s # ss) =
     (if s_item s = cur then list_all (\<lambda>x. s_item x = cur \<or> s_global x) ss else item_tail cur ss)"

lemma get_loop_other_names:
  "\<forall>x \<in> set ss. s_name x \<noteq> n \<Longrightarrow> setting_get_loop fs cur n ss found r = r"
  by (induction ss arbitrary: found r) (auto simp: Let_def split: if_splits)

text \<open>Settings that do not end the scan are passed through.\<close>

lemma get_loop_pass:
  assumes "item_tail cur (pre @ [s])" "s_item s = cur" "\<forall>x \<in> set pre. s_name x \<noteq> n"
    "found \<longrightarrow> list_all (\<lambda>x. s_item x = cur \<or> s_global x) pre"
  shows "\<exists>found'. setting_get_loop fs cur n (pre @ s # post) found r = setting_get_loop fs cur n (s # post) found' r"
  using assms
proof (induction pre arbitrary: found)
  case Nil
  then show ?case by auto
next
  case (Cons a pre)
  obtain b v where r: "r = (b, v)" by (cases r)
  let ?found = "found \<or> s_item a = cur"
  have go: "setting_get_loop fs cur n ((a # pre) @ s # post) found r =
      setting_get_loop fs cur n (pre @ s # post) ?found r"
    using Cons.prems by (auto simp: r Let_def)
  have tail: "item_tail cur (pre @ [s])"
  proof (cases "s_item a = cur")
    case True
    then have "list_all (\<lambda>x. s_item x = cur \<or> s_global x) (pre @ [s])" using Cons.prems(1) by simp
    then show ?thesis by (induction pre) auto
  next
    case False
    then show ?thesis using Cons.prems(1) by simp
  qed
  have "?found \<longrightarrow> list_all (\<lambda>x. s_item x = cur \<or> s_global x) pre"
    using Cons.prems by auto
  then show ?case using Cons.IH [OF tail Cons.prems(2)] Cons.prems(3) go by auto
qed

lemma get_after_assign:
  assumes "s_item s = cur" "s_name s = n" "\<forall>x \<in> set post. s_name x \<noteq> n"
  shows "setting_get_loop fs cur n (s # post) found (isset, out) =
    (True, case load_value fs s of None \<Rightarrow> out | Some v \<Rightarrow> Some v)"
  using assms by (simp add: Let_def get_loop_other_names)

section \<open>Properties\<close>

text \<open>
  The types by the C type of their variable, independent of the union that stores them: 8 bits, 16
  bits, 32 bits, and no integer at all; the other types have 64 bits.
\<close>

definition byte_types :: "stress_type_id set" where
  "byte_types = {TYPE_ID_UINT8, TYPE_ID_INT8, TYPE_ID_BOOL}"

definition short_types :: "stress_type_id set" where
  "short_types = {TYPE_ID_UINT16, TYPE_ID_INT16}"

definition int_types :: "stress_type_id set" where
  "int_types = {TYPE_ID_UINT32, TYPE_ID_UINT32_TIME, TYPE_ID_INT32, TYPE_ID_INT32_TIME, TYPE_ID_INT32_CPU_PERCENT,
     TYPE_ID_UINT, TYPE_ID_INT, TYPE_ID_INT_DOMAIN, TYPE_ID_INT_PORT}"

definition other_types :: "stress_type_id set" where
  "other_types = {TYPE_ID_STR, TYPE_ID_UNDEFINED, TYPE_ID_CALLBACK}"

definition percent_types :: "stress_type_id set" where
  "percent_types = {TYPE_ID_UINT64_BYTES_FS_PERCENT, TYPE_ID_SIZE_T_BYTES_FS_PERCENT}"

lemmas type_sets = byte_types_def short_types_def int_types_def other_types_def percent_types_def

text \<open>A value of the kind its type stores, and what reading it back gives: its C type's low bits.\<close>

fun value_fits :: "stress_type_id \<Rightarrow> setting_value \<Rightarrow> bool" where
  "value_fits t (Bits b) = (t \<notin> other_types)"
| "value_fits t (Str s) = (t = TYPE_ID_STR)"

fun read_back :: "u64 \<Rightarrow> stress_type_id \<Rightarrow> setting_value \<Rightarrow> setting_value" where
  "read_back fs t (Bits b) =
     Bits (if t \<in> percent_types then b * (fs div 100)
           else if t \<in> byte_types then ucast (ucast b :: u8)
           else if t \<in> short_types then ucast (ucast b :: u16)
           else if t \<in> int_types then ucast (ucast b :: u32) else b)"
| "read_back fs t (Str s) = Str s"

lemma low_bits: "ucast (ucast (b :: u64) :: u8) = take_bit 8 b" "ucast (ucast (b :: u64) :: u16) = take_bit 16 b"
  "ucast (ucast (b :: u64) :: u32) = take_bit 32 b"
  by (auto intro!: bit_word_eqI simp: bit_simps)

text \<open>The union has a member of the width of the C type.\<close>

lemma member_width_fits: "member_width t = Some w \<Longrightarrow> value_fits t (Bits b)"
  by (cases t) (simp_all add: other_types_def)

lemma member_width_read_back:
  assumes "member_width t = Some w" "t \<notin> percent_types"
  shows "read_back fs t (Bits b) = Bits (take_bit w b)"
proof -
  have "take_bit 64 b = b" by (rule bit_word_eqI) (simp add: bit_simps)
  then show ?thesis using assms by (cases t) (auto simp: type_sets low_bits)
qed

lemma load_assign:
  assumes "value_fits t v"
  shows "load_value fs (setting_assign cur sn n t v old) = Some (read_back fs t v)"
proof (cases v)
  case (Bits b)
  have "take_bit 64 b = b" by (rule bit_word_eqI) (simp add: bit_simps)
  then show ?thesis using assms
    by (cases t) (simp_all add: Bits load_value_def setting_assign_def store_value_def type_sets low_bits)
next
  case (Str s)
  then show ?thesis using assms by (simp add: load_value_def setting_assign_def store_value_def)
qed

text \<open>
  C38: every successful set keeps the (stressor, option) pairs of the list distinct, changes no
  setting of another pair, and adds at most one setting, at the end.
\<close>

theorem setting_set_keys:
  assumes "stress_setting_generic_set ok cur sn (Some n) t (Some v) ss = Inr ss'"
    and "distinct (map setting_key ss)"
  shows "distinct (map setting_key ss') \<and> (sn, n) \<in> set (map setting_key ss')
    \<and> filter (\<lambda>s. setting_key s \<noteq> (sn, n)) ss' = filter (\<lambda>s. setting_key s \<noteq> (sn, n)) ss
    \<and> (length ss' = length ss \<or> length ss' = Suc (length ss) \<and> butlast ss' = ss)"
proof (cases "setting_update cur sn n t v ss")
  case None
  then have "ss' = ss @ [setting_assign cur sn n t v setting_zeroed]"
    using assms(1) by (auto simp: stress_setting_generic_set_def split: if_splits)
  then show ?thesis using assms(2) setting_update_None [OF None] by auto
next
  case (Some ss2)
  then have ss': "ss' = ss2"
    using assms(1) by (auto simp: stress_setting_generic_set_def split: if_splits)
  obtain pre s post where *: "ss = pre @ s # post" "ss2 = pre @ setting_assign cur sn n t v s # post"
      "setting_key s = (sn, n)"
    using setting_update_Some [OF Some] by blast
  show ?thesis using assms(2) by (simp add: ss' * setting_update_keys)
qed

theorem setting_set_keys_witness:
  "distinct (map setting_key [setting_assign (Some 1) ''cpu'' ''cpu-load'' TYPE_ID_INT32 (Bits 50) setting_zeroed])"
  using setting_set_keys [of True "Some 1" "''cpu''" "''cpu-load''" TYPE_ID_INT32 "Bits 50" "[]"]
  by (simp add: stress_setting_generic_set_def)

text \<open>An option that has just been set reads back as set.\<close>

lemma set_then_get:
  assumes "stress_setting_set ok cur sn (Some n) t (Some v) ss = Inr ss'"
    and "distinct (map setting_key ss)" "item_tail cur ss" "value_fits t v"
    and "\<forall>s \<in> set ss. s_name s = n \<longrightarrow> s_stressor_name s = sn"
  shows "stress_setting_get fs cur n ss' = (True, Some (read_back fs t v))"
proof -
  have name: "s_name x \<noteq> n" if "x \<in> set ss" "setting_key x \<noteq> (sn, n)" for x
    using assms(5) that by (auto simp: setting_key_def)
  have goal: "stress_setting_get fs cur n (pre @ setting_assign cur sn n t v old # post) = (True, Some (read_back fs t v))"
    if tail: "item_tail cur (pre @ [setting_assign cur sn n t v old])"
      and before: "\<forall>x \<in> set pre. s_name x \<noteq> n" and behind: "\<forall>x \<in> set post. s_name x \<noteq> n" for pre post old
  proof -
    have item: "s_item (setting_assign cur sn n t v old) = cur" "s_name (setting_assign cur sn n t v old) = n"
      by (simp_all add: setting_assign_def)
    obtain found where "stress_setting_get fs cur n (pre @ setting_assign cur sn n t v old # post) =
        setting_get_loop fs cur n (setting_assign cur sn n t v old # post) found (False, None)"
      unfolding stress_setting_get_def
      using get_loop_pass [OF tail item(1) before, of False fs post "(False, None)"] by auto
    then show ?thesis
      using get_after_assign [OF item behind, of fs found False None] load_assign [OF assms(4)] by simp
  qed
  show ?thesis
  proof (cases "setting_update cur sn n t v ss")
    case None
    then have ss': "ss' = ss @ setting_assign cur sn n t v setting_zeroed # []"
      using assms(1) by (auto simp: stress_setting_set_def stress_setting_generic_set_def split: if_splits)
    have "item_tail cur (ss @ [setting_assign cur sn n t v setting_zeroed])"
      using assms(3) by (induction ss) (auto simp: setting_assign_def)
    then show ?thesis unfolding ss' by (rule goal) (use name setting_update_None [OF None] in auto)
  next
    case (Some ss2)
    then have ss': "ss' = ss2"
      using assms(1) by (auto simp: stress_setting_set_def stress_setting_generic_set_def split: if_splits)
    obtain pre s post where *: "ss = pre @ s # post" "ss2 = pre @ setting_assign cur sn n t v s # post"
        "setting_key s = (sn, n)" "\<forall>x \<in> set pre. setting_key x \<noteq> (sn, n)"
      using setting_update_Some [OF Some] by blast
    have "item_tail cur (pre @ [setting_assign cur sn n t v s])"
      using assms(3) unfolding *(1) by (induction pre) (auto simp: setting_assign_def)
    moreover have "\<forall>x \<in> set post. setting_key x \<noteq> (sn, n)"
      using assms(2) *(1,3) by (auto simp: image_iff)
    ultimately show ?thesis unfolding ss' *(2) by (intro goal) (use name *(1,4) in auto)
  qed
qed

text \<open>
  C18: an option that has just been set for the current stressor reads back as set, as a value of the C
  type of its variable: its low 8, 16 or 32 bits or all 64, the percentage applied to the file system
  size, or the string.  This holds if no setting of another stressor, other than a global one, follows
  one of the current stressor in the list, if the list has no two settings of the same stressor and
  name, and if no other stressor has an option of that name; \<open>setting_lost_after_switch\<close> shows that the
  first of these is needed.
\<close>

theorem setting_round_trip:
  assumes "stress_setting_set ok cur sn (Some n) t (Some v) ss = Inr ss'"
    and "distinct (map setting_key ss)" "item_tail cur ss" "value_fits t v"
    and "\<forall>s \<in> set ss. s_name s = n \<longrightarrow> s_stressor_name s = sn"
  shows "stress_setting_get fs cur n ss' = (True, Some (read_back fs t v))"
  using assms by (rule set_then_get)

theorem setting_round_trip_witness:
  "stress_setting_get 0 (Some 1) ''cpu-load''
     [setting_assign (Some 1) ''cpu'' ''cpu-load'' TYPE_ID_INT32 (Bits 0x1234567890) setting_zeroed]
   = (True, Some (Bits 0x34567890))"
proof -
  have "take_bit 32 (0x1234567890 :: u64) = 0x34567890" by simp
  then show ?thesis
    using setting_round_trip [of True "Some 1" "''cpu''" "''cpu-load''" TYPE_ID_INT32 "Bits 0x1234567890" "[]" _ 0]
    by (simp add: stress_setting_set_def stress_setting_generic_set_def type_sets low_bits)
qed

text \<open>
  Without that proviso a setting can be lost: an option given for a stressor after another
  stressor's option has been set is stored, but a lookup for the first stressor never reaches it,
  while the options given before the switch are still found.
\<close>

theorem setting_lost_after_switch:
  assumes "cpu \<noteq> vm" "n1 \<noteq> n2" "n1 \<noteq> n3" "n2 \<noteq> n3" "sn \<noteq> sm" "sm \<noteq> ''global''" "value_fits t1 v1"
  shows "\<exists>s1 s2 s3. stress_setting_set True (Some cpu) sn (Some n1) t1 (Some v1) [] = Inr s1
    \<and> stress_setting_set True (Some vm) sm (Some n2) t2 (Some v2) s1 = Inr s2
    \<and> stress_setting_set True (Some cpu) sn (Some n3) t3 (Some v3) s2 = Inr s3
    \<and> stress_setting_get fs (Some cpu) n1 s3 = (True, Some (read_back fs t1 v1))
    \<and> stress_setting_get fs (Some cpu) n3 s3 = (False, None)"
  using assms load_assign [OF assms(7), of fs "Some cpu" sn n1 setting_zeroed]
  by (auto simp: stress_setting_set_def stress_setting_generic_set_def stress_setting_get_def
      setting_matches_def setting_assign_def Let_def)

theorem setting_lost_after_switch_witness:
  "\<exists>s3. stress_setting_get 0 (Some 0) ''cpu-load'' s3 = (False, None)
     \<and> (\<exists>s2. stress_setting_set True (Some 0) ''cpu'' (Some ''cpu-load'') TYPE_ID_INT32 (Some (Bits 50)) s2 = Inr s3)"
  using setting_lost_after_switch [of 0 1 "''cpu-method''" "''vm-bytes''" "''cpu-load''" "''cpu''" "''vm''"
      TYPE_ID_SIZE_T_METHOD "Bits 3" TYPE_ID_SIZE_T_BYTES_VM "Bits 65536" TYPE_ID_INT32 "Bits 50" 0]
  by (auto simp: type_sets)

section \<open>Typing\<close>

text \<open>The values that a variable of the C type of an option can hold.\<close>

definition type_holds :: "stress_type_id \<Rightarrow> setting_value \<Rightarrow> bool" where
  "type_holds t v \<longleftrightarrow>
     (case v of
        Bits b \<Rightarrow> t \<noteq> TYPE_ID_STR \<and> (t \<in> byte_types \<longrightarrow> unat b < 256) \<and> (t \<in> short_types \<longrightarrow> unat b < 65536)
          \<and> (t \<in> int_types \<longrightarrow> unat b < 4294967296)
      | Str _ \<Rightarrow> t \<in> other_types)"

definition well_typed :: "stress_setting list \<Rightarrow> bool" where
  "well_typed ss \<longleftrightarrow> (\<forall>s \<in> set ss. type_holds (s_type_id s) (s_value s))"

text \<open>An integer for an integer type, a string for a string type.\<close>

definition right_kind :: "stress_type_id \<Rightarrow> setting_value \<Rightarrow> bool" where
  "right_kind t v \<longleftrightarrow> (case v of Bits _ \<Rightarrow> t \<noteq> TYPE_ID_STR | Str _ \<Rightarrow> t \<in> other_types)"

lemma unat_low_bits: "unat (take_bit 8 (b :: u64)) < 256" "unat (take_bit 16 b) < 65536" "unat (take_bit 32 b) < 4294967296"
  using take_bit_nat_less_exp [of 8 "unat b"] take_bit_nat_less_exp [of 16 "unat b"] take_bit_nat_less_exp [of 32 "unat b"]
  by (simp_all add: unsigned_take_bit_eq)

text \<open>
  A type that keeps its setting as it is keeps the value of the type that was there before; for it
  any value is one of the type.
\<close>

lemma store_fits:
  assumes "right_kind t v" "t \<in> {TYPE_ID_UNDEFINED, TYPE_ID_CALLBACK} \<or> value_fits t v"
  shows "type_holds t (store_value t v old)"
proof (cases v)
  case (Bits b)
  then show ?thesis
    using assms unat_low_bits by (cases t) (auto simp: right_kind_def type_holds_def store_value_def type_sets split: setting_value.splits)
next
  case (Str s)
  then show ?thesis
    using assms by (cases t) (auto simp: right_kind_def type_holds_def store_value_def type_sets split: setting_value.splits)
qed

lemma right_kind_cases: "right_kind t v \<Longrightarrow> t \<in> {TYPE_ID_UNDEFINED, TYPE_ID_CALLBACK} \<or> value_fits t v"
  by (cases v) (auto simp: right_kind_def other_types_def)

text \<open>A value of the type is kept as it is.\<close>

lemma store_keeps:
  assumes "type_holds t v" "value_fits t v"
  shows "store_value t v old = v"
proof (cases v)
  case (Bits b)
  have "take_bit k b = b" if "unat b < 2 ^ k" for k
  proof -
    have "unat (take_bit k b) = unat b" using that by (simp add: unsigned_take_bit_eq take_bit_nat_eq_self)
    then show ?thesis by (metis word_unat_eq_iff)
  qed
  from this [of 8] this [of 16] this [of 32] this [of 64] show ?thesis
    using assms unsigned_less [of b] by (cases t) (auto simp: Bits type_holds_def store_value_def type_sets)
qed (use assms in \<open>simp add: store_value_def\<close>)

lemma load_fits: "type_holds (s_type_id s) (s_value s) \<Longrightarrow> load_value fs s = Some v \<Longrightarrow> type_holds (s_type_id s) v"
  by (cases "s_type_id s") (auto simp: load_value_def type_holds_def type_sets split: setting_value.splits if_splits)

lemma get_loop_fits:
  "setting_get_loop fs cur n ss found (b, out) = (b', Some v) \<Longrightarrow> well_typed ss \<Longrightarrow>
    out = Some v \<or> (\<exists>s \<in> set ss. s_name s = n \<and> type_holds (s_type_id s) v)"
proof (induction fs cur n ss found "(b, out)" arbitrary: b out rule: setting_get_loop.induct)
  case (2 fs cur n s ss found b out)
  show ?case
  proof (cases "(found \<or> s_item s = cur) \<and> s_item s \<noteq> cur \<and> \<not> s_global s")
    case False
    let ?out = "if s_name s = n then (case load_value fs s of None \<Rightarrow> out | Some v \<Rightarrow> Some v) else out"
    have "well_typed ss" "type_holds (s_type_id s) (s_value s)" using 2(4) by (simp_all add: well_typed_def)
    moreover have "?out = Some v \<or> (\<exists>s \<in> set ss. s_name s = n \<and> type_holds (s_type_id s) v)"
      using 2(1) [OF refl] 2(2) [OF refl] 2(3) False \<open>well_typed ss\<close> by (auto simp: Let_def split: if_splits)
    ultimately show ?thesis using load_fits by (fastforce split: if_splits option.splits)
  qed (use 2(3) in \<open>auto simp: Let_def\<close>)
qed simp



end
