(* ===== verification/Operand_Var.thy ===== *)
theory Operand_Var
  imports Bitgen Setting
begin

text \<open>
  The operand mutation stressor of stress-operand-var.c.  Each round computes a result twice and
  compares the two.  The machine that evaluates a computation is a parameter: \<open>hw\<close> gives, for the
  number of an evaluation, the function that this evaluation really computes.  The integer round is
  translated in full; the two double-precision rounds are arguments, since they are whatever the
  floating-point unit computes.  The properties say what becomes of a single wrong evaluation.
\<close>

section \<open>The rounds\<close>

definition OPERAND_VAR_ROUNDS :: nat where "OPERAND_VAR_ROUNDS = 64"
definition OPERAND_VAR_TYPES :: nat where "OPERAND_VAR_TYPES = 8"

definition alu_step :: "u64 \<Rightarrow> nat \<Rightarrow> u64 \<Rightarrow> u64" where
  "alu_step v i acc =
     (let acc = acc + v * of_nat (i + 3);
          acc = acc XOR drop_bit 7 acc;
          acc = acc * 0x2545f4914f6cdd1d
      in acc XOR push_bit (i mod 64) v)"

definition alu_round :: "u64 \<Rightarrow> u64" where
  "alu_round v = fold (alu_step v) [0..<16] v"

definition alu_round_typed :: "u64 \<Rightarrow> nat \<Rightarrow> u64" where
  "alu_round_typed v type_idx =
     (if type_idx mod 4 = 0 then ucast (ucast (alu_round (v AND 0xff)) :: u8)
      else if type_idx mod 4 = 1 then ucast (ucast (alu_round (v AND 0xffff)) :: u16)
      else if type_idx mod 4 = 2 then ucast (ucast (alu_round (v AND 0xffffffff)) :: u32)
      else alu_round v)"

text \<open>
  The evaluations of a machine: number \<open>n\<close> of the typed integer round, of the floating-point round
  and of the edge round, and the two accumulations of the complement round.
\<close>

record machine =
  hw_alu :: "nat \<Rightarrow> u64 \<Rightarrow> nat \<Rightarrow> u64"
  hw_fp :: "nat \<Rightarrow> u64 \<Rightarrow> u64"
  hw_edge :: "nat \<Rightarrow> u64 \<Rightarrow> u64"
  hw_fma :: "nat \<Rightarrow> u64 \<Rightarrow> u64 \<Rightarrow> nat \<Rightarrow> u64 \<Rightarrow> u64"

text \<open>\<open>acc + a * (i + 1) + b\<close>, the accumulation of the complement round.\<close>

definition fma_step :: "u64 \<Rightarrow> u64 \<Rightarrow> nat \<Rightarrow> u64 \<Rightarrow> u64" where
  "fma_step a b i acc = acc + (a * of_nat (i + 1) + b)"

text \<open>
  The loop that all methods share: rounds \<open>i\<close> and up, \<open>n\<close> of them; a round yields the result, its
  replay and the next state, and the first difference ends the loop with the arguments of
  \<open>verify_fail\<close> (expected, actual).
\<close>

fun run_rounds :: "(nat \<Rightarrow> 's \<Rightarrow> (u64 \<times> u64) \<times> 's) \<Rightarrow> nat \<Rightarrow> nat \<Rightarrow> 's \<Rightarrow> (u64 \<times> u64) option" where
  "run_rounds round i 0 s = None"
| "run_rounds round i (Suc n) s =
     (let ((r1, r2), s1) = round i s
      in if r1 \<noteq> r2 then Some (r2, r1) else run_rounds round (Suc i) n s1)"

definition bandwalk_int_round ::
    "bitgen_knobs \<Rightarrow> machine \<Rightarrow> nat \<Rightarrow> stress_bitgen \<Rightarrow> (u64 \<times> u64) \<times> stress_bitgen" where
  "bandwalk_int_round k hw i bg =
     (let (v, bg) = stress_bitgen_bandwalk64 k bg
      in ((hw_alu hw (2 * i) v i, hw_alu hw (2 * i + 1) v i), bg))"

definition bandwalk_fp_round ::
    "bitgen_knobs \<Rightarrow> machine \<Rightarrow> nat \<Rightarrow> stress_bitgen \<Rightarrow> (u64 \<times> u64) \<times> stress_bitgen" where
  "bandwalk_fp_round k hw i bg =
     (let (bits, bg) = stress_bitgen_fp64_bits k bg
      in ((hw_fp hw (2 * i) bits, hw_fp hw (2 * i + 1) bits), bg))"

definition edge_dict_round ::
    "machine \<Rightarrow> nat \<Rightarrow> stress_bitgen \<Rightarrow> (u64 \<times> u64) \<times> stress_bitgen" where
  "edge_dict_round hw i bg =
     (let (v, bg) = stress_bitgen_edge64 bg
      in ((hw_edge hw (2 * i) v, hw_edge hw (2 * i + 1) v), bg))"

definition complement_fma_round ::
    "bitgen_knobs \<Rightarrow> machine \<Rightarrow> nat \<Rightarrow> stress_bitgen \<times> u64 \<Rightarrow> (u64 \<times> u64) \<times> (stress_bitgen \<times> u64)" where
  "complement_fma_round k hw i s =
     (let (bg, acc) = s;
          ((a, b), bg) = stress_bitgen_complement_pair64 k bg;
          r1 = hw_fma hw (3 * i) a b i acc;
          r2 = hw_fma hw (3 * i + 1) b a i r1;
          golden = hw_fma hw (3 * i + 2) b a i r1
      in ((r2, golden), (bg, r2)))"

definition type_matrix_round ::
    "bitgen_knobs \<Rightarrow> machine \<Rightarrow> nat \<Rightarrow> stress_bitgen \<Rightarrow> (u64 \<times> u64) \<times> stress_bitgen" where
  "type_matrix_round k hw i bg =
     (let t = i mod OPERAND_VAR_TYPES
      in if t \<le> 3 then let (v, bg) = stress_bitgen_u64 k bg
                       in ((hw_alu hw (2 * i) v t, hw_alu hw (2 * i + 1) v t), bg)
         else if t = 4 then let (x, bg) = stress_bitgen_fp32_bits k bg; bits = ucast x
                            in ((hw_fp hw (2 * i) bits, hw_fp hw (2 * i + 1) bits), bg)
         else if t = 5 then let (bits, bg) = stress_bitgen_fp64_bits k bg
                            in ((hw_fp hw (2 * i) bits, hw_fp hw (2 * i + 1) bits), bg)
         else let (v, bg) = stress_bitgen_edge64 bg
              in ((hw_edge hw (2 * i) v, hw_edge hw (2 * i + 1) v), bg))"

section \<open>The methods\<close>

record opvar =
  ov_mwc :: mwc
  ov_fails :: "(u64 \<times> u64) list"    \<comment> \<open>the reported differences: expected, actual\<close>
  ov_bogo :: nat

definition blank_bitgen :: stress_bitgen where
  "blank_bitgen = \<lparr>bg_w = 0, bg_z = 0, band_lo = 0, band_width = 0, band_step = 0, band_count = 0,
     bg_density = 0, edge_idx = 0, bg_mix = 0\<rparr>"

text \<open>A method: seed a generator from the global stream, run the rounds, report or count the round.\<close>

definition finish_method :: "(u64 \<times> u64) option \<Rightarrow> opvar \<Rightarrow> opvar" where
  "finish_method result st =
     (case result of
        Some d \<Rightarrow> st\<lparr>ov_fails := ov_fails st @ [d]\<rparr>
      | None \<Rightarrow> st\<lparr>ov_bogo := ov_bogo st + 1\<rparr>)"

definition run_bandwalk_int :: "bitgen_knobs \<Rightarrow> machine \<Rightarrow> opvar \<Rightarrow> opvar" where
  "run_bandwalk_int k hw st =
     (let (bg, m) = stress_bitgen_init k blank_bitgen (ov_mwc st)
      in finish_method (run_rounds (bandwalk_int_round k hw) 0 OPERAND_VAR_ROUNDS bg) (st\<lparr>ov_mwc := m\<rparr>))"

definition run_bandwalk_fp :: "bitgen_knobs \<Rightarrow> machine \<Rightarrow> opvar \<Rightarrow> opvar" where
  "run_bandwalk_fp k hw st =
     (let (bg, m) = stress_bitgen_init k blank_bitgen (ov_mwc st)
      in finish_method (run_rounds (bandwalk_fp_round k hw) 0 OPERAND_VAR_ROUNDS bg) (st\<lparr>ov_mwc := m\<rparr>))"

definition run_edge_dict :: "bitgen_knobs \<Rightarrow> machine \<Rightarrow> opvar \<Rightarrow> opvar" where
  "run_edge_dict k hw st =
     (let (bg, m) = stress_bitgen_init k blank_bitgen (ov_mwc st)
      in finish_method (run_rounds (edge_dict_round hw) 0 OPERAND_VAR_ROUNDS bg) (st\<lparr>ov_mwc := m\<rparr>))"

definition run_complement_fma :: "bitgen_knobs \<Rightarrow> machine \<Rightarrow> opvar \<Rightarrow> opvar" where
  "run_complement_fma k hw st =
     (let (bg, m) = stress_bitgen_init k blank_bitgen (ov_mwc st)
      in finish_method (run_rounds (complement_fma_round k hw) 0 OPERAND_VAR_ROUNDS (bg, 0)) (st\<lparr>ov_mwc := m\<rparr>))"

definition run_type_matrix :: "bitgen_knobs \<Rightarrow> machine \<Rightarrow> opvar \<Rightarrow> opvar" where
  "run_type_matrix k hw st =
     (let (bg, m) = stress_bitgen_init k blank_bitgen (ov_mwc st)
      in finish_method (run_rounds (type_matrix_round k hw) 0 OPERAND_VAR_ROUNDS bg) (st\<lparr>ov_mwc := m\<rparr>))"

definition operand_var_methods :: "(string \<times> (bitgen_knobs \<Rightarrow> machine \<Rightarrow> opvar \<Rightarrow> opvar) option) list" where
  "operand_var_methods =
    [(''all'', None),
     (''bandwalk-int'', Some run_bandwalk_int),
     (''bandwalk-fp'', Some run_bandwalk_fp),
     (''edge-dict'', Some run_edge_dict),
     (''complement-fma'', Some run_complement_fma),
     (''type-matrix'', Some run_type_matrix)]"

definition stress_operand_var_method :: "nat \<Rightarrow> string option" where
  "stress_operand_var_method i =
     (if i < length operand_var_methods then Some (fst (operand_var_methods ! i)) else None)"

section \<open>The stressor\<close>

text \<open>
  Reading a 64-bit option into a variable that starts as zero: the flag that stress_setting_get
  returns and the variable afterwards.
\<close>

definition get_u64 :: "nat option \<Rightarrow> string \<Rightarrow> stress_setting list \<Rightarrow> bool \<times> u64" where
  "get_u64 cur name ss =
     (let (isset, out) = stress_setting_get 0 cur name ss
      in (isset, case out of Some (Bits b) \<Rightarrow> b | _ \<Rightarrow> 0))"

text \<open>
  The calibration options.  The source tests the result of stress_setting_get, which is true when
  the option was found, against zero.
\<close>

definition operand_var_knobs :: "nat option \<Rightarrow> stress_setting list \<Rightarrow> bitgen_knobs \<Rightarrow> bitgen_knobs" where
  "operand_var_knobs cur ss k =
     (let (isset, band_width) = get_u64 cur ''bitgen-band-width'' ss;
          k = (if isset = False \<and> band_width > 0
               then let min = ucast (band_width div 100) :: u32; max = ucast (band_width mod 100) :: u32
                    in if min \<ge> 1 \<and> max \<ge> min
                       then k\<lparr>band_width_min := min, band_width_max := (if max > 64 then 64 else max)\<rparr>
                       else k
               else k);
          (isset, band_density) = get_u64 cur ''bitgen-band-density'' ss
      in if isset = False \<and> band_density > 0
         then k\<lparr>density_mask := ucast (band_density AND 0x1f)\<rparr> else k)"

text \<open>The main loop; \<open>n\<close> is how often stress_continue goes on to answer true, \<open>hws n\<close> the machine then.\<close>

fun operand_var_loop ::
    "bitgen_knobs \<Rightarrow> (nat \<Rightarrow> machine) \<Rightarrow> nat \<Rightarrow> nat \<Rightarrow> nat \<Rightarrow> opvar \<Rightarrow> opvar" where
  "operand_var_loop k hws meth n counter st =
     (let rotate = (meth = 0 \<or> meth \<ge> length operand_var_methods);
          m = (if rotate then counter mod (length operand_var_methods - 1) + 1 else meth);
          counter = (if rotate then counter + 1 else counter);
          st = the (snd (operand_var_methods ! m)) k (hws n) st
      in case n of 0 \<Rightarrow> st | Suc n' \<Rightarrow> operand_var_loop k hws meth n' counter st)"

definition stress_operand_var ::
    "nat option \<Rightarrow> stress_setting list \<Rightarrow> bitgen_knobs \<Rightarrow> (nat \<Rightarrow> machine) \<Rightarrow> nat \<Rightarrow> opvar \<Rightarrow> int \<times> opvar" where
  "stress_operand_var cur ss k hws n st =
     (let (_, meth) = get_u64 cur ''operand-var-method'' ss;
          k = operand_var_knobs cur ss k
      in (EXIT_SUCCESS, operand_var_loop k hws (unat meth) n 0 st))"

section \<open>A machine with one fault\<close>

text \<open>A machine whose evaluations all compute what evaluation 0 of \<open>m\<close> does, and one whose evaluation \<open>e\<close>
  computes something else.\<close>

definition steady :: "machine \<Rightarrow> machine" where
  "steady m = \<lparr>hw_alu = \<lambda>_. hw_alu m 0, hw_fp = \<lambda>_. hw_fp m 0, hw_edge = \<lambda>_. hw_edge m 0, hw_fma = \<lambda>_. hw_fma m 0\<rparr>"

definition faulty :: "nat \<Rightarrow> machine \<Rightarrow> machine \<Rightarrow> machine" where
  "faulty e bad good =
     \<lparr>hw_alu = \<lambda>i. if i = e then hw_alu bad 0 else hw_alu good 0, hw_fp = \<lambda>i. if i = e then hw_fp bad 0 else hw_fp good 0,
      hw_edge = \<lambda>i. if i = e then hw_edge bad 0 else hw_edge good 0, hw_fma = \<lambda>i. if i = e then hw_fma bad 0 else hw_fma good 0\<rparr>"

text \<open>The state before round \<open>i + j\<close> when the rounds start at \<open>i\<close>.\<close>

fun round_state :: "(nat \<Rightarrow> 's \<Rightarrow> (u64 \<times> u64) \<times> 's) \<Rightarrow> nat \<Rightarrow> nat \<Rightarrow> 's \<Rightarrow> 's" where
  "round_state round i 0 s = s"
| "round_state round i (Suc j) s = round_state round (Suc i) j (snd (round i s))"

lemma run_rounds_agree:
  "(\<And>j s. i \<le> j \<Longrightarrow> fst (fst (round j s)) = snd (fst (round j s))) \<Longrightarrow> run_rounds round i n s = None"
  by (induction n arbitrary: i s) (simp_all add: Let_def case_prod_beta)

text \<open>The rounds of a run in which only round \<open>f\<close> can differ.\<close>

lemma run_rounds_single:
  assumes "\<And>i s. i \<noteq> f \<Longrightarrow> round i s = right i s" "\<And>i s. fst (fst (right i s)) = snd (fst (right i s))"
  shows "run_rounds round i n s =
    (if i \<le> f \<and> f < i + n
     then let (r1, r2) = fst (round f (round_state right i (f - i) s)) in if r1 \<noteq> r2 then Some (r2, r1) else None
     else None)"
proof (induction n arbitrary: i s)
  case (Suc n)
  show ?case
  proof (cases "i = f")
    case True
    have "run_rounds round (Suc f) n t = None" for t
      by (rule run_rounds_agree) (simp add: assms)
    then show ?thesis using True by (simp add: Let_def case_prod_beta)
  next
    case False
    then have "run_rounds round i (Suc n) s = run_rounds round (Suc i) n (snd (right i s))"
      using assms(2) by (simp add: assms(1) Let_def case_prod_beta)
    moreover have "f - i = Suc (f - Suc i)" if "i \<le> f" using that False by simp
    ultimately show ?thesis using False by (auto simp: Suc.IH Let_def)
  qed
next
  case 0
  then show ?case by auto
qed

text \<open>A round whose evaluations have the numbers \<open>2 i\<close> and \<open>2 i + 1\<close>.\<close>

definition pair_round :: "(machine \<Rightarrow> nat \<Rightarrow> 's \<Rightarrow> (u64 \<times> u64) \<times> 's) \<Rightarrow> bool" where
  "pair_round round \<longleftrightarrow> (\<forall>e bad good i s. round (faulty e bad good) i s =
     (let right = fst (fst (round (steady good) i s)); wrong = fst (fst (round (steady bad) i s))
      in ((if e = 2 * i then wrong else right, if e = 2 * i + 1 then wrong else right), snd (round (steady good) i s))))"

lemma pair_rounds:
  "pair_round (bandwalk_int_round k)" "pair_round (bandwalk_fp_round k)" "pair_round edge_dict_round" "pair_round (type_matrix_round k)"
  by (auto simp: pair_round_def bandwalk_int_round_def bandwalk_fp_round_def edge_dict_round_def type_matrix_round_def
      faulty_def steady_def Let_def case_prod_beta)

lemma faulty_same: "faulty e m m = steady m"
  by (simp add: faulty_def steady_def)

lemma pair_round_faulty:
  fixes round :: "machine \<Rightarrow> nat \<Rightarrow> 's \<Rightarrow> (u64 \<times> u64) \<times> 's"
  assumes "pair_round round"
  shows "run_rounds (round (faulty e bad good)) 0 n s =
    (let t = round_state (round (steady good)) 0 (e div 2) s;
         right = fst (fst (round (steady good) (e div 2) t)); wrong = fst (fst (round (steady bad) (e div 2) t))
     in if e < 2 * n \<and> wrong \<noteq> right then Some (if even e then (right, wrong) else (wrong, right)) else None)"
proof -
  have R: "round (faulty e bad good) i s = ((if e = 2 * i then fst (fst (round (steady bad) i s)) else fst (fst (round (steady good) i s)),
      if e = 2 * i + 1 then fst (fst (round (steady bad) i s)) else fst (fst (round (steady good) i s))), snd (round (steady good) i s))"
    for e bad good i s
    using assms unfolding pair_round_def Let_def by blast
  have agree: "fst (fst (round (steady good) i s)) = snd (fst (round (steady good) i s))" for i s
    using R [of 0 good good i s] unfolding faulty_same by (metis fst_conv snd_conv)
  have "round (faulty e bad good) i s = round (steady good) i s" if "i \<noteq> e div 2" for i s
  proof -
    have "e \<noteq> 2 * i" "e \<noteq> 2 * i + 1" using that by auto
    then have "round (faulty e bad good) i s = ((fst (fst (round (steady good) i s)), fst (fst (round (steady good) i s))), snd (round (steady good) i s))"
      unfolding R [of e bad good i s] by simp
    also have "\<dots> = round (steady good) i s" by (rule prod_eqI, rule prod_eqI) (simp_all add: agree)
    finally show ?thesis .
  qed
  from run_rounds_single [of "e div 2" "round (faulty e bad good)" "round (steady good)", OF this agree, of 0 n s]
  have run: "run_rounds (round (faulty e bad good)) 0 n s =
    (if e div 2 < n then let (r1, r2) = fst (round (faulty e bad good) (e div 2) (round_state (round (steady good)) 0 (e div 2) s))
       in if r1 \<noteq> r2 then Some (r2, r1) else None else None)" by simp
  have n: "e div 2 < n \<longleftrightarrow> e < 2 * n" by auto
  have parity: "e = 2 * (e div 2) \<longleftrightarrow> even e" "e = 2 * (e div 2) + 1 \<longleftrightarrow> odd e" by presburger+
  have report: "(if e < 2 * n then let (r1, r2) = (if even e then w else r, if odd e then w else r) in if r1 \<noteq> r2 then Some (r2, r1) else None else None) =
      (if e < 2 * n \<and> w \<noteq> r then Some (if even e then (r, w) else (w, r)) else None)" for r w :: u64
    by (cases "even e") auto
  show ?thesis unfolding run n R [of e bad good "e div 2"] parity fst_conv Let_def by (rule report [unfolded Let_def])
qed

lemma length_operand_var_methods [simp]: "length operand_var_methods = 6"
  by (simp add: operand_var_methods_def)

declare operand_var_loop.simps [simp del]

lemma operand_var_step:
  "operand_var_loop k hws meth n c st =
     (let rotate = (meth = 0 \<or> meth \<ge> 6);
          st' = the (snd (operand_var_methods ! (if rotate then c mod 5 + 1 else meth))) k (hws n) st
      in case n of 0 \<Rightarrow> st'
         | Suc n' \<Rightarrow> operand_var_loop k hws meth n' (if rotate then c + 1 else c) st')"
proof -
  have five: "(6::nat) - 1 = 5" by simp
  show ?thesis
    unfolding operand_var_loop.simps [of k hws meth n c st] length_operand_var_methods five Let_def
    by (cases n) simp_all
qed

text \<open>The value variable of a lookup that found nothing is untouched.\<close>

lemma get_loop_unset:
  "(\<not> fst r \<longrightarrow> snd r = None) \<Longrightarrow>
    (\<not> fst (setting_get_loop fs cur n ss found r) \<longrightarrow> snd (setting_get_loop fs cur n ss found r) = None)"
proof (induction ss arbitrary: found r)
  case Nil
  then show ?case by (cases r) simp
next
  case (Cons a ss)
  obtain b v where r: "r = (b, v)" by (cases r)
  show ?case using Cons by (auto simp: r Let_def)
qed

lemma get_u64_unset: "\<not> fst (get_u64 cur name ss) \<Longrightarrow> snd (get_u64 cur name ss) = 0"
  using get_loop_unset [of "(False, None)" 0 cur name ss False]
  by (simp add: get_u64_def stress_setting_get_def Let_def case_prod_beta)

section \<open>Properties\<close>

text \<open>
  The calibration options never take effect: whatever settings are stored, the knobs that the
  rounds use are the ones there were before, because the test on the lookup is inverted.
\<close>

theorem operand_var_knobs_ignored:
  "operand_var_knobs cur ss k = k"
  using get_u64_unset [of cur "''bitgen-band-width''" ss] get_u64_unset [of cur "''bitgen-band-density''" ss]
  by (auto simp: operand_var_knobs_def Let_def case_prod_beta)

text \<open>
  C37: a single wrong evaluation is always seen by the four methods that evaluate each operand twice: on
  a machine all of whose evaluations compute the same but for number \<open>e\<close>, a run reports the one
  difference, with the right and the wrong value in the places of the first evaluation and its replay,
  exactly when it evaluates that often and the wrong value for the operand of that round is another
  one; else it counts a bogo operation.
\<close>

theorem transient_fault_reported:
  assumes "(run, round) \<in> {(run_bandwalk_int, bandwalk_int_round), (run_bandwalk_fp, bandwalk_fp_round),
      (run_edge_dict, \<lambda>k. edge_dict_round), (run_type_matrix, type_matrix_round)}"
  shows "run k (faulty e bad good) st =
    (let (bg, m) = stress_bitgen_init k blank_bitgen (ov_mwc st);
         t = round_state (round k (steady good)) 0 (e div 2) bg;
         right = fst (fst (round k (steady good) (e div 2) t)); wrong = fst (fst (round k (steady bad) (e div 2) t))
     in if e < 128 \<and> wrong \<noteq> right
        then st\<lparr>ov_mwc := m, ov_fails := ov_fails st @ [if even e then (right, wrong) else (wrong, right)]\<rparr>
        else st\<lparr>ov_mwc := m, ov_bogo := ov_bogo st + 1\<rparr>)"
proof -
  have "run k hw st = (let (bg, m) = stress_bitgen_init k blank_bitgen (ov_mwc st)
      in finish_method (run_rounds (round k hw) 0 OPERAND_VAR_ROUNDS bg) (st\<lparr>ov_mwc := m\<rparr>))" for hw
    using assms by (auto simp: run_bandwalk_int_def run_bandwalk_fp_def run_edge_dict_def run_type_matrix_def)
  moreover have "pair_round (round k)" using assms pair_rounds by auto
  ultimately show ?thesis
    by (simp add: pair_round_faulty finish_method_def OPERAND_VAR_ROUNDS_def Let_def case_prod_beta)
qed

text \<open>The integer unit inverts the result of evaluation 2, which is the first of round 1.\<close>

definition plain_machine_ov :: machine where
  "plain_machine_ov = \<lparr>hw_alu = \<lambda>_. alu_round_typed, hw_fp = \<lambda>_ v. v, hw_edge = \<lambda>_ v. v, hw_fma = \<lambda>_. fma_step\<rparr>"

definition flipping_machine :: machine where
  "flipping_machine = plain_machine_ov\<lparr>hw_alu := \<lambda>_ v t. NOT (alu_round_typed v t)\<rparr>"

lemma not_other: "NOT x \<noteq> (x :: u64)"
proof
  assume "NOT x = x"
  then have "bit (NOT x) 0 = bit x 0" by simp
  then show False by (simp add: bit_not_iff)
qed

theorem transient_fault_reported_witness:
  "length (ov_fails (run_bandwalk_int bitgen_default_knobs (faulty 2 flipping_machine plain_machine_ov)
     \<lparr>ov_mwc = mwc_initial, ov_fails = [], ov_bogo = 0\<rparr>)) = 1"
  using transient_fault_reported [of run_bandwalk_int bandwalk_int_round bitgen_default_knobs 2 flipping_machine plain_machine_ov]
  by (simp add: Let_def case_prod_beta bandwalk_int_round_def steady_def flipping_machine_def plain_machine_ov_def not_other)

text \<open>
  The method complement-fma evaluates three times a round and compares the last two results, which
  both start from the first: a first evaluation that is wrong is never reported, whatever it computes.
\<close>

theorem complement_fma_blind:
  assumes "3 dvd e"
  shows "run_complement_fma k (faulty e bad good) st =
    st\<lparr>ov_mwc := snd (stress_bitgen_init k blank_bitgen (ov_mwc st)), ov_bogo := ov_bogo st + 1\<rparr>"
proof -
  have e: "3 * i + 1 \<noteq> e" "3 * i + 2 \<noteq> e" for i using assms by presburger+
  have "run_rounds (complement_fma_round k (faulty e bad good)) 0 OPERAND_VAR_ROUNDS s = None" for s
    by (rule run_rounds_agree) (use e in \<open>simp add: complement_fma_round_def faulty_def Let_def case_prod_beta\<close>)
  then show ?thesis by (simp add: run_complement_fma_def finish_method_def Let_def case_prod_beta)
qed

theorem complement_fma_blind_witness:
  "ov_fails (run_complement_fma bitgen_default_knobs (faulty 3 flipping_machine plain_machine_ov)
     \<lparr>ov_mwc = mwc_initial, ov_fails = [], ov_bogo = 0\<rparr>) = []"
  by (simp add: complement_fma_blind)

text \<open>
  A difference is reported exactly when the two evaluations of some round differ, and what is
  reported is the first such round's replay and result.
\<close>

theorem run_rounds_first_difference:
  "case run_rounds round i n s of
     None \<Rightarrow> (\<nexists>j. j < n \<and> fst (fst (round (i + j) (round_state round i j s))) \<noteq> snd (fst (round (i + j) (round_state round i j s))))
   | Some (expected, actual) \<Rightarrow> expected \<noteq> actual
       \<and> (\<exists>j. j < n \<and> fst (round (i + j) (round_state round i j s)) = (actual, expected)
            \<and> run_rounds round i j s = None)"
proof (induction n arbitrary: i s)
  case 0
  then show ?case by simp
next
  case (Suc n)
  let ?s = "snd (round i s)"
  show ?case
  proof (cases "fst (fst (round i s)) = snd (fst (round i s))")
    case True
    then have go: "run_rounds round i (Suc m) s = run_rounds round (Suc i) m ?s" for m
      by (simp add: Let_def case_prod_beta)
    show ?thesis
    proof (cases "run_rounds round (Suc i) n ?s")
      case None
      have "fst (fst (round (i + j) (round_state round i j s))) = snd (fst (round (i + j) (round_state round i j s)))"
        if "j < Suc n" for j
        using that True Suc.IH [of "Suc i" ?s] None by (cases j) auto
      then show ?thesis by (simp only: go None) auto
    next
      case (Some d)
      obtain e a where d: "d = (e, a)" by (cases d)
      obtain j where "e \<noteq> a" "j < n" "fst (round (Suc i + j) (round_state round (Suc i) j ?s)) = (a, e)"
        "run_rounds round (Suc i) j ?s = None"
        using Suc.IH [of "Suc i" ?s] Some d by auto
      then have "e \<noteq> a \<and> (\<exists>j. j < Suc n \<and> fst (round (i + j) (round_state round i j s)) = (a, e)
            \<and> run_rounds round i j s = None)"
        by (intro conjI exI [of _ "Suc j"]) (simp_all only: go round_state.simps, simp_all)
      then show ?thesis by (simp only: go Some d) simp
    qed
  next
    case False
    then show ?thesis by (auto simp: Let_def case_prod_beta intro!: exI [of _ 0])
  qed
qed

text \<open>
  With no method chosen, or one past the table, five successive rounds run the five methods
  in the order of the table, each once.
\<close>

theorem operand_var_rotation:
  "operand_var_loop k hws 0 4 (5 * c) st =
     run_type_matrix k (hws 0) (run_complement_fma k (hws 1) (run_edge_dict k (hws 2)
       (run_bandwalk_fp k (hws 3) (run_bandwalk_int k (hws 4) st))))
   \<and> operand_var_loop k hws (6 + x) n c st = operand_var_loop k hws 0 n c st"
proof -
  have "operand_var_loop k hws (6 + x) n c st = operand_var_loop k hws 0 n c st" for n c st
  proof (induction n arbitrary: c st)
    case 0
    then show ?case by (simp add: operand_var_step [of _ _ _ 0] Let_def)
  next
    case (Suc n)
    then show ?case by (simp add: operand_var_step [of _ _ _ "Suc n"] Let_def)
  qed
  moreover have "operand_var_loop k hws 0 4 (5 * c) st =
     run_type_matrix k (hws 0) (run_complement_fma k (hws 1) (run_edge_dict k (hws 2)
       (run_bandwalk_fp k (hws 3) (run_bandwalk_int k (hws 4) st))))"
  proof -
    have step: "operand_var_loop k hws 0 (Suc n) c st = operand_var_loop k hws 0 n (c + 1)
        (the (snd (operand_var_methods ! (c mod 5 + 1))) k (hws (Suc n)) st)" for n c st
      by (simp add: operand_var_step [of _ _ _ "Suc n"] Let_def)
    have last: "operand_var_loop k hws 0 0 c st = the (snd (operand_var_methods ! (c mod 5 + 1))) k (hws 0) st" for c st
      by (simp add: operand_var_step [of _ _ _ 0] Let_def)
    have four: "(4::nat) = Suc (Suc (Suc (Suc 0)))" by simp
    have pos: "(5 * c + 1) mod 5 = 1" "(5 * c + 1 + 1) mod 5 = 2" "(5 * c + 1 + 1 + 1) mod 5 = 3"
      "(5 * c + 1 + 1 + 1 + 1) mod 5 = 4" "5 * c mod 5 = 0" by presburger+
    have table: "the (snd (operand_var_methods ! (0 + 1))) = run_bandwalk_int"
      "the (snd (operand_var_methods ! (1 + 1))) = run_bandwalk_fp"
      "the (snd (operand_var_methods ! (2 + 1))) = run_edge_dict"
      "the (snd (operand_var_methods ! (3 + 1))) = run_complement_fma"
      "the (snd (operand_var_methods ! (4 + 1))) = run_type_matrix"
      by (simp_all add: operand_var_methods_def)
    have nums: "Suc 0 = (1::nat)" "Suc 1 = (2::nat)" "Suc 2 = (3::nat)" "Suc 3 = (4::nat)" by simp_all
    show ?thesis unfolding four unfolding step last pos table unfolding nums ..
  qed
  ultimately show ?thesis by blast
qed

end
