(* ===== verification/Hash.thy ===== *)
theory Hash
  imports Prelude
begin

text \<open>
  The string hashes and the string hash table of core-hash.c.  A C string is the list of its bytes
  up to the terminating NUL, taken by \<open>c_str\<close> from the bytes in memory; whether plain char is
  signed is a flag of the functions that widen a plain char, and the byte order is a flag of those
  that load words through memcpy.
\<close>

section \<open>Bytes and rotations\<close>

definition c_str :: "u8 list \<Rightarrow> u8 list" where
  "c_str s = takeWhile (\<lambda>c. c \<noteq> 0) s"

definition char_u32 :: "bool \<Rightarrow> u8 \<Rightarrow> u32" where
  "char_u32 char_signed c = (if char_signed then scast c else ucast c)"

definition shim_rol32n :: "u32 \<Rightarrow> nat \<Rightarrow> u32" where
  "shim_rol32n x bits = push_bit bits x OR drop_bit (32 - bits) x"

definition shim_ror32n :: "u32 \<Rightarrow> nat \<Rightarrow> u32" where
  "shim_ror32n x bits = drop_bit bits x OR push_bit (32 - bits) x"

definition shim_ror64n :: "u64 \<Rightarrow> nat \<Rightarrow> u64" where
  "shim_ror64n x bits = drop_bit bits x OR push_bit (64 - bits) x"

section \<open>Byte at a time\<close>

definition jenkin_step :: "u8 \<Rightarrow> u32 \<Rightarrow> u32" where
  "jenkin_step c h = (let h = h + ucast c; h = h + push_bit 10 h in h XOR drop_bit 6 h)"

definition stress_hash_jenkin :: "u8 list \<Rightarrow> nat \<Rightarrow> u32" where
  "stress_hash_jenkin data len =
     (let h = fold jenkin_step (take len data) 0;
          h = h + push_bit 3 h; h = h XOR drop_bit 11 h
      in h + push_bit 15 h)"

definition pjw_step :: "bool \<Rightarrow> u8 \<Rightarrow> u32 \<Rightarrow> u32" where
  "pjw_step char_signed c h =
     (let h = push_bit 4 h + char_u32 char_signed c; g = h AND 0xf0000000
      in if g \<noteq> 0 then (h XOR drop_bit 24 g) XOR g else h)"

definition stress_hash_pjw :: "bool \<Rightarrow> u8 list \<Rightarrow> u32" where
  "stress_hash_pjw char_signed s = fold (pjw_step char_signed) (c_str s) 0"

definition stress_hash_djb2a :: "bool \<Rightarrow> u8 list \<Rightarrow> u32" where
  "stress_hash_djb2a char_signed s =
     fold (\<lambda>c hash. (push_bit 5 hash + hash) XOR char_u32 char_signed c) (c_str s) 5381"

definition stress_hash_fnv1a :: "bool \<Rightarrow> u8 list \<Rightarrow> u32" where
  "stress_hash_fnv1a char_signed s =
     fold (\<lambda>c hash. (hash XOR char_u32 char_signed c) * 16777619) (c_str s) 5381"

definition stress_hash_sdbm :: "bool \<Rightarrow> u8 list \<Rightarrow> u32" where
  "stress_hash_sdbm char_signed s =
     fold (\<lambda>c hash. char_u32 char_signed c + push_bit 6 hash + push_bit 16 hash - hash) (c_str s) 0"

definition nhash_primes :: "u32 list" where
  "nhash_primes =
    [3, 5, 7, 11, 13, 17, 19, 23, 29, 31, 37, 41, 43, 47, 53, 59, 61, 67, 71, 73,
     79, 83, 89, 97, 101, 103, 107, 109, 113]"

definition nhash_step :: "bool \<Rightarrow> u8 \<Rightarrow> nat \<times> u32 \<Rightarrow> nat \<times> u32" where
  "nhash_step char_signed c st =
     (let (i, sum) = st; n = length nhash_primes;
          i = i + (n - 1); i = (if i \<ge> n then i - n else i)
      in (i, sum + nhash_primes ! i * char_u32 char_signed c))"

definition stress_hash_nhash :: "bool \<Rightarrow> u8 list \<Rightarrow> u32" where
  "stress_hash_nhash char_signed s = snd (fold (nhash_step char_signed) (c_str s) (0, 0))"

definition stress_hash_adler32 :: "u8 list \<Rightarrow> nat \<Rightarrow> u32" where
  "stress_hash_adler32 s len =
     (let (a, b) = fold (\<lambda>c (a, b). let a = (a + ucast c) mod 65521 in (a, (b + a) mod 65521)) (c_str s) (1, 0)
      in push_bit 16 b OR a)"

definition stress_hash_muladd32 :: "u8 list \<Rightarrow> nat \<Rightarrow> u32" where
  "stress_hash_muladd32 s len =
     fold (\<lambda>c prod. let top = drop_bit 24 prod in prod * ucast c + top) (c_str s) (of_nat len)"

definition stress_hash_muladd64 :: "u8 list \<Rightarrow> nat \<Rightarrow> u32" where
  "stress_hash_muladd64 s len =
     (let prod = fold (\<lambda>c prod. let top = drop_bit 56 prod in prod * ucast c + top) (c_str s) (of_nat len :: u64)
      in ucast (drop_bit 32 prod XOR prod))"

definition stress_hash_kandr :: "u8 list \<Rightarrow> u32" where
  "stress_hash_kandr s = fold (\<lambda>c hash. ucast c + 31 * hash) (c_str s) 0"

definition stress_hash_coffin :: "u8 list \<Rightarrow> u32" where
  "stress_hash_coffin s = fold (\<lambda>c result. shim_rol32n (result XOR ucast c) 5) (c_str s) 0x55555555"

definition stress_hash_loselose :: "u8 list \<Rightarrow> u32" where
  "stress_hash_loselose s = fold (\<lambda>c hash. hash + ucast c) (c_str s) 0"

definition stress_hash_knuth :: "u8 list \<Rightarrow> nat \<Rightarrow> u32" where
  "stress_hash_knuth s len =
     fold (\<lambda>c hash. (push_bit 5 hash XOR drop_bit 27 hash) XOR ucast c) (c_str s) (of_nat len)"

definition stress_hash_x17 :: "u8 list \<Rightarrow> u32" where
  "stress_hash_x17 s =
     (let hash = fold (\<lambda>val hash. 17 * hash + (ucast val - 32)) (c_str s) 0x5179efb3
      in hash XOR drop_bit 16 hash)"

definition stress_hash_sedgwick :: "u8 list \<Rightarrow> u32" where
  "stress_hash_sedgwick s =
     snd (fold (\<lambda>c (a, hash). (a * 378551, hash * a + ucast c)) (c_str s) (63689, 0))"

definition stress_hash_sobel :: "u8 list \<Rightarrow> u32" where
  "stress_hash_sobel s =
     fold (\<lambda>c hash. hash XOR (push_bit 5 hash + drop_bit 2 hash + ucast c)) (c_str s) 1315423911"

text \<open>
  The middle five characters; \<open>None\<close> for length zero, where the default case reads far outside
  the string.
\<close>

definition stress_hash_mid5 :: "u8 list \<Rightarrow> nat \<Rightarrow> u32 option" where
  "stress_hash_mid5 s len =
     (let u = (\<lambda>i. ucast (s ! i) :: u32)
      in if len = 0 then None
         else if len = 1 then Some (of_nat len XOR u 0)
         else if len = 2 then Some (of_nat len XOR (u 0 XOR push_bit 6 (u 1)))
         else if len = 3 then Some (of_nat len XOR (u 0 XOR push_bit 6 (u 1) XOR push_bit 12 (u 2)))
         else if len = 4 then Some (of_nat len XOR
           (u 0 XOR push_bit 6 (u 1) XOR push_bit 12 (u 2) XOR push_bit 18 (u 3)))
         else let p = (len - 5) div 2
              in Some (of_nat len XOR (u p XOR push_bit 6 (u (p + 1)) XOR push_bit 12 (u (p + 2))
                XOR push_bit 18 (u (p + 3)) XOR push_bit 24 (u (p + 4)))))"

section \<open>Words at a time\<close>

definition stress_hash_murmur_32_scramble :: "u32 \<Rightarrow> u32" where
  "stress_hash_murmur_32_scramble k =
     (let k = k * 0xcc9e2d51; k = push_bit 15 k OR drop_bit 17 k in k * 0x1b873593)"

text \<open>The loop over whole words: \<open>n\<close> words to go; it returns the rest of the key.\<close>

fun murmur_words :: "bool \<Rightarrow> nat \<Rightarrow> u8 list \<Rightarrow> u32 \<Rightarrow> u32 \<times> u8 list" where
  "murmur_words little 0 key h = (h, key)"
| "murmur_words little (Suc n) key h =
     (let k = load32 little (take 4 key);
          h = h XOR stress_hash_murmur_32_scramble k;
          h = push_bit 13 h OR drop_bit 19 h
      in murmur_words little n (drop 4 key) (h * 5 + 0xe6546b64))"

fun murmur_tail :: "nat \<Rightarrow> u8 list \<Rightarrow> u32 \<Rightarrow> u32" where
  "murmur_tail 0 key k = k"
| "murmur_tail (Suc i) key k = murmur_tail i key (push_bit 8 k OR ucast (key ! i))"

definition stress_hash_murmur3_32 :: "bool \<Rightarrow> u8 list \<Rightarrow> nat \<Rightarrow> u32 \<Rightarrow> u32" where
  "stress_hash_murmur3_32 little key len seed =
     (let (h, key) = murmur_words little (len div 4) key seed;
          k = murmur_tail (len mod 4) key 0;
          h = h XOR stress_hash_murmur_32_scramble k;
          h = h XOR of_nat len;
          h = h XOR drop_bit 16 h;
          h = h * 0x85ebca6b;
          h = h XOR drop_bit 13 h;
          h = h * 0xc2b2ae35
      in h XOR drop_bit 16 h)"

text \<open>
  The coffin hash with 32-bit fetches.  \<open>mem\<close> is memory from the string on; the loop fetches the
  next word before it mixes in the last byte of the current one.
\<close>

fun coffin_tail :: "nat \<Rightarrow> u8 list \<Rightarrow> u32 \<Rightarrow> u32" where
  "coffin_tail 0 mem result = result"
| "coffin_tail (Suc n) mem result = coffin_tail n (tl mem) (shim_rol32n (result XOR ucast (hd mem)) 5)"

function coffin32_loop :: "(u32 \<Rightarrow> nat \<Rightarrow> u32) \<Rightarrow> bool \<Rightarrow> nat \<Rightarrow> u8 list \<Rightarrow> u32 \<Rightarrow> u32 \<Rightarrow> u32" where
  "coffin32_loop byte little n mem val result =
     (if n > 4
      then let result = shim_rol32n (result XOR byte val 0) 5;
               result = shim_rol32n (result XOR byte val 1) 5;
               result = shim_rol32n (result XOR byte val 2) 5;
               tmp = byte val 3;
               mem = drop 4 mem;
               val = load32 little (take 4 mem);
               result = shim_rol32n (result XOR tmp) 5
           in coffin32_loop byte little (n - 4) mem val result
      else coffin_tail n mem result)"
  by pat_completeness auto
termination
  by (relation "measure (\<lambda>(byte, little, n, mem, val, result). n)") auto

declare coffin32_loop.simps [simp del]

definition stress_hash_coffin32_le :: "bool \<Rightarrow> u8 list \<Rightarrow> nat \<Rightarrow> u32" where
  "stress_hash_coffin32_le little mem len =
     coffin32_loop (\<lambda>val i. drop_bit (8 * i) val AND 0xff) little len mem (load32 little (take 4 mem)) 0x55555555"

definition stress_hash_coffin32_be :: "bool \<Rightarrow> u8 list \<Rightarrow> nat \<Rightarrow> u32" where
  "stress_hash_coffin32_be little mem len =
     coffin32_loop (\<lambda>val i. drop_bit (8 * (3 - i)) val AND 0xff) little len mem (load32 little (take 4 mem)) 0x55555555"

text \<open>The four multiply or xor and rotate hashes: \<open>n\<close> whole words and then the last bytes.\<close>

fun word_loop :: "(u8 list \<Rightarrow> 'h \<Rightarrow> 'h) \<Rightarrow> nat \<Rightarrow> nat \<Rightarrow> u8 list \<Rightarrow> 'h \<Rightarrow> 'h \<times> u8 list" where
  "word_loop step sz 0 s h = (h, s)"
| "word_loop step sz (Suc n) s h = word_loop step sz n (drop sz s) (step (take sz s) h)"

definition stress_hash_mulxror64 :: "bool \<Rightarrow> u8 list \<Rightarrow> nat \<Rightarrow> u32" where
  "stress_hash_mulxror64 little s len =
     (let (hash, s) = word_loop (\<lambda>v hash. let hash = hash * load64 little v in hash XOR shim_ror64n hash 40)
            8 (len div 8) s (of_nat len);
          hash = fold (\<lambda>c hash. let hash = hash * ucast c in hash XOR shim_ror64n hash 5) (take (len mod 8) s) hash
      in ucast (drop_bit 32 hash XOR hash))"

definition stress_hash_mulxror32 :: "bool \<Rightarrow> u8 list \<Rightarrow> nat \<Rightarrow> u32" where
  "stress_hash_mulxror32 little s len =
     (let (hash, s) = word_loop (\<lambda>v hash. let hash = hash * load32 little v in hash XOR shim_ror32n hash 20)
            4 (len div 4) s (of_nat len)
      in fold (\<lambda>c hash. let hash = hash * ucast c in hash XOR shim_ror32n hash 5) (take (len mod 4) s) hash)"

definition stress_hash_xorror64 :: "bool \<Rightarrow> u8 list \<Rightarrow> nat \<Rightarrow> u32" where
  "stress_hash_xorror64 little s len =
     (let (hash, s) = word_loop (\<lambda>v hash. load64 little v XOR shim_ror64n hash 16) 8 (len div 8) s (NOT (of_nat len));
          hash = fold (\<lambda>c hash. ucast c XOR shim_ror64n hash 2) (take (len mod 8) s) hash
      in ucast (drop_bit 32 hash XOR hash))"

definition stress_hash_xorror32 :: "bool \<Rightarrow> u8 list \<Rightarrow> nat \<Rightarrow> u32" where
  "stress_hash_xorror32 little s len =
     (let (hash, s) = word_loop (\<lambda>v hash. load32 little v XOR shim_ror32n hash 4) 4 (len div 4) s (NOT (of_nat len))
      in fold (\<lambda>c hash. ucast c XOR shim_ror32n hash 1) (take (len mod 4) s) hash)"

section \<open>The Castagnoli CRC\<close>

definition crc32c_table :: "u32 list" where
  "crc32c_table = [
     0x00000000, 0xf26b8303, 0xe13b70f7, 0x1350f3f4, 0xc79a971f, 0x35f1141c,
     0x26a1e7e8, 0xd4ca64eb, 0x8ad958cf, 0x78b2dbcc, 0x6be22838, 0x9989ab3b,
     0x4d43cfd0, 0xbf284cd3, 0xac78bf27, 0x5e133c24, 0x105ec76f, 0xe235446c,
     0xf165b798, 0x030e349b, 0xd7c45070, 0x25afd373, 0x36ff2087, 0xc494a384,
     0x9a879fa0, 0x68ec1ca3, 0x7bbcef57, 0x89d76c54, 0x5d1d08bf, 0xaf768bbc,
     0xbc267848, 0x4e4dfb4b, 0x20bd8ede, 0xd2d60ddd, 0xc186fe29, 0x33ed7d2a,
     0xe72719c1, 0x154c9ac2, 0x061c6936, 0xf477ea35, 0xaa64d611, 0x580f5512,
     0x4b5fa6e6, 0xb93425e5, 0x6dfe410e, 0x9f95c20d, 0x8cc531f9, 0x7eaeb2fa,
     0x30e349b1, 0xc288cab2, 0xd1d83946, 0x23b3ba45, 0xf779deae, 0x05125dad,
     0x1642ae59, 0xe4292d5a, 0xba3a117e, 0x4851927d, 0x5b016189, 0xa96ae28a,
     0x7da08661, 0x8fcb0562, 0x9c9bf696, 0x6ef07595, 0x417b1dbc, 0xb3109ebf,
     0xa0406d4b, 0x522bee48, 0x86e18aa3, 0x748a09a0, 0x67dafa54, 0x95b17957,
     0xcba24573, 0x39c9c670, 0x2a993584, 0xd8f2b687, 0x0c38d26c, 0xfe53516f,
     0xed03a29b, 0x1f682198, 0x5125dad3, 0xa34e59d0, 0xb01eaa24, 0x42752927,
     0x96bf4dcc, 0x64d4cecf, 0x77843d3b, 0x85efbe38, 0xdbfc821c, 0x2997011f,
     0x3ac7f2eb, 0xc8ac71e8, 0x1c661503, 0xee0d9600, 0xfd5d65f4, 0x0f36e6f7,
     0x61c69362, 0x93ad1061, 0x80fde395, 0x72966096, 0xa65c047d, 0x5437877e,
     0x4767748a, 0xb50cf789, 0xeb1fcbad, 0x197448ae, 0x0a24bb5a, 0xf84f3859,
     0x2c855cb2, 0xdeeedfb1, 0xcdbe2c45, 0x3fd5af46, 0x7198540d, 0x83f3d70e,
     0x90a324fa, 0x62c8a7f9, 0xb602c312, 0x44694011, 0x5739b3e5, 0xa55230e6,
     0xfb410cc2, 0x092a8fc1, 0x1a7a7c35, 0xe811ff36, 0x3cdb9bdd, 0xceb018de,
     0xdde0eb2a, 0x2f8b6829, 0x82f63b78, 0x709db87b, 0x63cd4b8f, 0x91a6c88c,
     0x456cac67, 0xb7072f64, 0xa457dc90, 0x563c5f93, 0x082f63b7, 0xfa44e0b4,
     0xe9141340, 0x1b7f9043, 0xcfb5f4a8, 0x3dde77ab, 0x2e8e845f, 0xdce5075c,
     0x92a8fc17, 0x60c37f14, 0x73938ce0, 0x81f80fe3, 0x55326b08, 0xa759e80b,
     0xb4091bff, 0x466298fc, 0x1871a4d8, 0xea1a27db, 0xf94ad42f, 0x0b21572c,
     0xdfeb33c7, 0x2d80b0c4, 0x3ed04330, 0xccbbc033, 0xa24bb5a6, 0x502036a5,
     0x4370c551, 0xb11b4652, 0x65d122b9, 0x97baa1ba, 0x84ea524e, 0x7681d14d,
     0x2892ed69, 0xdaf96e6a, 0xc9a99d9e, 0x3bc21e9d, 0xef087a76, 0x1d63f975,
     0x0e330a81, 0xfc588982, 0xb21572c9, 0x407ef1ca, 0x532e023e, 0xa145813d,
     0x758fe5d6, 0x87e466d5, 0x94b49521, 0x66df1622, 0x38cc2a06, 0xcaa7a905,
     0xd9f75af1, 0x2b9cd9f2, 0xff56bd19, 0x0d3d3e1a, 0x1e6dcdee, 0xec064eed,
     0xc38d26c4, 0x31e6a5c7, 0x22b65633, 0xd0ddd530, 0x0417b1db, 0xf67c32d8,
     0xe52cc12c, 0x1747422f, 0x49547e0b, 0xbb3ffd08, 0xa86f0efc, 0x5a048dff,
     0x8ecee914, 0x7ca56a17, 0x6ff599e3, 0x9d9e1ae0, 0xd3d3e1ab, 0x21b862a8,
     0x32e8915c, 0xc083125f, 0x144976b4, 0xe622f5b7, 0xf5720643, 0x07198540,
     0x590ab964, 0xab613a67, 0xb831c993, 0x4a5a4a90, 0x9e902e7b, 0x6cfbad78,
     0x7fab5e8c, 0x8dc0dd8f, 0xe330a81a, 0x115b2b19, 0x020bd8ed, 0xf0605bee,
     0x24aa3f05, 0xd6c1bc06, 0xc5914ff2, 0x37faccf1, 0x69e9f0d5, 0x9b8273d6,
     0x88d28022, 0x7ab90321, 0xae7367ca, 0x5c18e4c9, 0x4f48173d, 0xbd23943e,
     0xf36e6f75, 0x0105ec76, 0x12551f82, 0xe03e9c81, 0x34f4f86a, 0xc69f7b69,
     0xd5cf889d, 0x27a40b9e, 0x79b737ba, 0x8bdcb4b9, 0x988c474d, 0x6ae7c44e,
     0xbe2da0a5, 0x4c4623a6, 0x5f16d052, 0xad7d5351]"

definition crc32c_step :: "u8 \<Rightarrow> u32 \<Rightarrow> u32" where
  "crc32c_step val crc = drop_bit 8 crc XOR crc32c_table ! unat ((crc XOR ucast val) AND 0xff)"

definition stress_hash_crc32c :: "u8 list \<Rightarrow> u32" where
  "stress_hash_crc32c s = NOT (fold crc32c_step (c_str s) (NOT 0))"

section \<open>The hash table\<close>

text \<open>
  A table is its chains of entries; an entry is the string that follows it in memory.  The
  results of the allocations are arguments.
\<close>

record stress_hash_table =
  ht_table :: "u8 list list list"
  ht_n :: nat

definition stress_hash_create :: "bool \<Rightarrow> bool \<Rightarrow> nat \<Rightarrow> stress_hash_table option" where
  "stress_hash_create calloc1 calloc2 n =
     (if n = 0 then None
      else if \<not> calloc1 then None
      else if \<not> calloc2 then None
      else Some \<lparr>ht_table = replicate n [], ht_n = n\<rparr>)"

fun stress_hash_find :: "u8 list list \<Rightarrow> u8 list \<Rightarrow> u8 list option" where
  "stress_hash_find [] str = None"
| "stress_hash_find (e # es) str = (if c_str str = c_str e then Some e else stress_hash_find es str)"

definition hash_slot :: "bool \<Rightarrow> stress_hash_table \<Rightarrow> u8 list \<Rightarrow> nat" where
  "hash_slot char_signed ht str = unat (stress_hash_sdbm char_signed str) mod ht_n ht"

definition stress_hash_get :: "bool \<Rightarrow> stress_hash_table option \<Rightarrow> u8 list option \<Rightarrow> u8 list option" where
  "stress_hash_get char_signed hash_table str =
     (case hash_table of None \<Rightarrow> None
      | Some ht \<Rightarrow> (case str of None \<Rightarrow> None
                   | Some s \<Rightarrow> stress_hash_find (ht_table ht ! hash_slot char_signed ht s) s))"

definition hash_insert ::
    "bool \<Rightarrow> bool \<Rightarrow> stress_hash_table \<Rightarrow> u8 list \<Rightarrow> u8 list option \<times> stress_hash_table" where
  "hash_insert char_signed malloc_ok ht str =
     (let h = hash_slot char_signed ht str
      in case stress_hash_find (ht_table ht ! h) str of
           Some e \<Rightarrow> (Some e, ht)
         | None \<Rightarrow>
             (if \<not> malloc_ok then (None, ht)
              else (Some (c_str str), ht\<lparr>ht_table := (ht_table ht)[h := c_str str # ht_table ht ! h]\<rparr>)))"

definition stress_hash_add ::
    "bool \<Rightarrow> bool \<Rightarrow> stress_hash_table option \<Rightarrow> u8 list option
       \<Rightarrow> u8 list option \<times> stress_hash_table option" where
  "stress_hash_add char_signed malloc_ok hash_table str =
     (case hash_table of None \<Rightarrow> (None, None)
      | Some ht \<Rightarrow> (case str of None \<Rightarrow> (None, Some ht)
                   | Some s \<Rightarrow> (let (entry, ht) = hash_insert char_signed malloc_ok ht s in (entry, Some ht))))"

definition stress_hash_delete :: "stress_hash_table option \<Rightarrow> stress_hash_table option" where
  "stress_hash_delete hash_table = None"

section \<open>The checksum is the bitwise one\<close>

text \<open>
  One shift of the bitwise algorithm, from the comment the table comes with.  It is additive, so
  the table of $2^{k+1}$ bytes is that of $2^k$ and the same with the image of bit \<open>k\<close> mixed in.
\<close>

definition castagnoli_bit :: "u32 \<Rightarrow> u32" where
  "castagnoli_bit crc = (if bit crc 0 then drop_bit 1 crc XOR 0x82f63b78 else drop_bit 1 crc)"

lemma castagnoli_bit_xor:
  "castagnoli_bit (x XOR y) = castagnoli_bit x XOR castagnoli_bit y"
  by (auto simp: castagnoli_bit_def bit_simps intro!: bit_word_eqI)

lemma castagnoli_bits_xor:
  "(castagnoli_bit ^^ n) (x XOR y) = (castagnoli_bit ^^ n) x XOR (castagnoli_bit ^^ n) y"
  by (induction n) (simp_all add: castagnoli_bit_xor)

lemma castagnoli_bits_high:
  "take_bit n x = 0 \<Longrightarrow> (castagnoli_bit ^^ n) x = drop_bit n x"
proof (induction n arbitrary: x)
  case (Suc n)
  have t: "take_bit n x = 0" 
    using Suc.prems by (metis take_bit_take_bit min.absorb1 le_SucI order_refl take_bit_of_0)
  have b: "\<not> bit x n"
    using Suc.prems by (metis bit_take_bit_iff lessI bit_0_eq bot_apply bot_bool_def)
  have "(castagnoli_bit ^^ Suc n) x = castagnoli_bit (drop_bit n x)"
    using Suc.IH [OF t] by simp
  also have "\<dots> = drop_bit (Suc n) x"
    using b by (simp add: castagnoli_bit_def bit_simps)
  finally show ?case .
qed simp




lemma word_of_nat_add_exp:
  fixes k :: nat
  assumes "i < 2 ^ k"
  shows "(word_of_nat (2 ^ k + i) :: u32) = 2 ^ k XOR word_of_nat i"
proof -
  have "\<not> bit (word_of_nat i :: u32) k"
    using assms by (simp add: bit_simps bit_nat_def)
  then have "(2 ^ k :: u32) AND word_of_nat i = 0"
    by (simp add: and_exp_eq_0_iff_not_bit and.commute)
  then have "(2 ^ k :: u32) + word_of_nat i = 2 ^ k XOR word_of_nat i"
    by (rule disjunctive_add_eq_xor)
  then show ?thesis by simp
qed

definition crc_double :: "(u32 \<Rightarrow> u32) \<Rightarrow> nat \<Rightarrow> u32 list \<Rightarrow> u32 list" where
  "crc_double f k t = t @ map (\<lambda>x. f (2 ^ k) XOR x) t"

lemma crc_double_table:
  assumes "\<And>x y. f (x XOR y) = f x XOR f y"
  shows "map (\<lambda>i. f (word_of_nat i)) [0..<2 ^ Suc k] = crc_double f k (map (\<lambda>i. f (word_of_nat i)) [0..<2 ^ k])"
proof -
  have "[0..<2 ^ Suc k] = [0..<2 ^ k] @ map (\<lambda>i. 2 ^ k + i) [0..<2 ^ k]"
    using upt_add_eq_append [of 0 "2 ^ k" "2 ^ k"] by (simp add: map_add_upt add.commute mult_2)
  then show ?thesis
    by (simp add: crc_double_def o_def word_of_nat_add_exp [simplified] assms del: upt_Suc)
qed

lemma castagnoli_bit_powers:
  "(castagnoli_bit ^^ 8) 1 = 0xf26b8303" "(castagnoli_bit ^^ 8) 2 = 0xe13b70f7"
  "(castagnoli_bit ^^ 8) 4 = 0xc79a971f" "(castagnoli_bit ^^ 8) 8 = 0x8ad958cf"
  "(castagnoli_bit ^^ 8) 16 = 0x105ec76f" "(castagnoli_bit ^^ 8) 32 = 0x20bd8ede"
  "(castagnoli_bit ^^ 8) 64 = 0x417b1dbc" "(castagnoli_bit ^^ 8) 128 = 0x82f63b78"
  by code_simp+

lemma crc32c_table_bits:
  "crc32c_table = map (\<lambda>i. (castagnoli_bit ^^ 8) (word_of_nat i)) [0..<256]"
proof -
  let ?f = "castagnoli_bit ^^ 8"
  have e: "(256::nat) = 2 ^ Suc (Suc (Suc (Suc (Suc (Suc (Suc (Suc 0)))))))" by simp
  have z: "?f 0 = 0" by (simp add: castagnoli_bits_high)
  have u: "[0..<2 ^ 0] = [0::nat]" by simp
  show ?thesis
    unfolding e crc_double_table [where f = ?f, OF castagnoli_bits_xor] u
    by (simp add: z crc_double_def castagnoli_bit_powers crc32c_table_def del: funpow.simps)
qed

lemma crc32c_step_bits:
  "crc32c_step val crc = (castagnoli_bit ^^ 8) (crc XOR ucast val)"
proof -
  let ?x = "crc XOR ucast val"
  let ?f = "castagnoli_bit ^^ 8"
  have lt: "unat (?x AND 0xff) < 256"
    using word_and_le1 [of ?x "0xff"] by (simp add: word_le_nat_alt)
  have t: "crc32c_table ! unat (?x AND 0xff) = ?f (?x AND 0xff)"
    using lt by (simp add: crc32c_table_bits del: upt_Suc)
  have m: "take_bit 8 ?x = ?x AND 0xff"
    by (simp add: take_bit_eq_mask mask_eq_exp_minus_1)
  have h: "drop_bit 8 crc = drop_bit 8 ?x"
    by (rule bit_word_eqI) (auto simp: bit_simps dest: bit_imp_le_length)
  have "take_bit 8 (push_bit 8 (drop_bit 8 ?x)) = 0"
    by (rule bit_word_eqI) (auto simp: bit_simps)
  then have "?f (push_bit 8 (drop_bit 8 ?x)) = drop_bit 8 (push_bit 8 (drop_bit 8 ?x))"
    by (rule castagnoli_bits_high)
  also have "\<dots> = drop_bit 8 ?x"
    by (rule bit_word_eqI) (auto simp: bit_simps dest: bit_imp_le_length)
  finally have d: "?f (push_bit 8 (drop_bit 8 ?x)) = drop_bit 8 ?x" .
  have "?x = push_bit 8 (drop_bit 8 ?x) XOR take_bit 8 ?x"
    by (rule bit_word_eqI) (auto simp: bit_simps)
  then have "?f ?x = ?f (push_bit 8 (drop_bit 8 ?x) XOR take_bit 8 ?x)"
    by (rule arg_cong)
  also have "\<dots> = drop_bit 8 ?x XOR ?f (?x AND 0xff)"
    unfolding castagnoli_bits_xor d m ..
  finally show ?thesis unfolding crc32c_step_def t h ..
qed

text \<open>
  C30: the table driven checksum is the Castagnoli CRC: every byte of the string is mixed in
  by eight shifts with the reflected polynomial 0x82f63b78, from all ones, and the result is
  complemented.  So each of the 256 entries of the table is right.
\<close>

theorem crc32c_is_castagnoli:
  "stress_hash_crc32c s =
     NOT (fold (\<lambda>c crc. (castagnoli_bit ^^ 8) (crc XOR ucast c)) (c_str s) (NOT 0))"
  unfolding stress_hash_crc32c_def crc32c_step_bits [abs_def] by (rule refl)

section \<open>Word fetches agree with byte fetches\<close>

lemma mask8_bits: "bit (0xff :: u32) n \<longleftrightarrow> n < 8"
proof -
  have "(0xff :: u32) = mask 8" by (simp add: mask_eq_exp_minus_1)
  then show ?thesis by (simp only: bit_mask_iff) auto
qed

lemma load32_le_byte:
  "drop_bit (8 * 0) (load32 True [a, b, c, d]) AND 0xff = ucast a"
  "drop_bit (8 * 1) (load32 True [a, b, c, d]) AND 0xff = ucast b"
  "drop_bit (8 * 2) (load32 True [a, b, c, d]) AND 0xff = ucast c"
  "drop_bit (8 * 3) (load32 True [a, b, c, d]) AND 0xff = ucast d"
  by (rule bit_word_eqI; unfold bit_and_iff mask8_bits; auto simp: load32_def u32_of_bytes_def bit_simps dest: bit_imp_le_length)+

lemma load32_be_byte:
  "drop_bit (8 * (3 - 0)) (load32 False [a, b, c, d]) AND 0xff = ucast a"
  "drop_bit (8 * (3 - 1)) (load32 False [a, b, c, d]) AND 0xff = ucast b"
  "drop_bit (8 * (3 - 2)) (load32 False [a, b, c, d]) AND 0xff = ucast c"
  "drop_bit (8 * (3 - 3)) (load32 False [a, b, c, d]) AND 0xff = ucast d"
  by (rule bit_word_eqI; unfold bit_and_iff mask8_bits; auto simp: load32_def u32_of_bytes_def bit_simps dest: bit_imp_le_length)+

definition coffin_step :: "u8 \<Rightarrow> u32 \<Rightarrow> u32" where
  "coffin_step c result = shim_rol32n (result XOR ucast c) 5"

lemma coffin_tail_fold:
  "n \<le> length mem \<Longrightarrow> coffin_tail n mem result = fold coffin_step (take n mem) result"
proof (induction n arbitrary: mem result)
  case (Suc n)
  then show ?case by (cases mem) (simp_all add: coffin_step_def)
qed simp

lemma list4: "4 \<le> length xs \<Longrightarrow> \<exists>a b c d ys. xs = a # b # c # d # ys"
  by (auto simp: Suc_le_length_iff eval_nat_numeral)

lemma coffin32_loop_fold:
  assumes byte: "\<And>a b c d. byte (load32 little [a, b, c, d]) 0 = ucast a \<and> byte (load32 little [a, b, c, d]) 1 = ucast b
      \<and> byte (load32 little [a, b, c, d]) 2 = ucast c \<and> byte (load32 little [a, b, c, d]) 3 = ucast d"
  shows "n \<le> length mem \<Longrightarrow>
    coffin32_loop byte little n mem (load32 little (take 4 mem)) result =
    fold coffin_step (take n mem) result"
proof (induction n arbitrary: mem result rule: less_induct)
  case (less n)
  show ?case
  proof (cases "n > 4")
    case True
    then obtain a b c d rest where mem: "mem = a # b # c # d # rest"
      using list4 [of mem] less.prems by auto
    obtain m where n: "n = Suc (Suc (Suc (Suc m)))" and "0 < m"
      using True by (intro that [of "n - 4"]) simp_all
    show ?thesis
      using less.IH [of m rest] less.prems True
      by (subst coffin32_loop.simps) (simp add: mem n byte [simplified] coffin_step_def [abs_def] Let_def)
  next
    case False
    then show ?thesis
      using less.prems by (subst coffin32_loop.simps) (simp add: coffin_tail_fold)
  qed
qed

lemma c_str_take: "take (length (c_str mem)) mem = c_str mem"
  unfolding c_str_def by (metis takeWhile_eq_take)

lemma stress_hash_coffin_fold: "stress_hash_coffin s = fold coffin_step (c_str s) 0x55555555"
  by (simp add: stress_hash_coffin_def coffin_step_def [abs_def])

lemma length_c_str [simp]: "length (c_str s) \<le> length s"
  by (simp add: c_str_def length_takeWhile_le)

text \<open>
  The coffin hash with 32-bit fetches, of the machine's byte order and with the string's
  length, is the coffin hash that goes byte by byte.
\<close>

theorem coffin32_is_coffin:
  "(if little then stress_hash_coffin32_le else stress_hash_coffin32_be) little mem (length (c_str mem)) =
     stress_hash_coffin mem"
  unfolding stress_hash_coffin32_le_def stress_hash_coffin32_be_def stress_hash_coffin_fold
  by (cases little; simp; subst coffin32_loop_fold)
    (simp_all add: load32_le_byte [simplified] load32_be_byte [simplified] c_str_take)

section \<open>Closed forms\<close>

lemma fold_horner:
  "fold (\<lambda>c h. f c + k * h) cs (h :: u32) = horner_sum f k (rev cs) + k ^ length cs * h"
proof (induction cs arbitrary: h)
  case (Cons c cs)
  then show ?case
    by (simp add: horner_sum_append algebra_simps)
qed simp

lemma kandr_polynomial: "stress_hash_kandr s = horner_sum ucast 31 (rev (c_str s))"
  unfolding stress_hash_kandr_def fold_horner by simp

text \<open>
  The sdbm hash, which picks the slot of the hash table, is the polynomial with the
  string's characters as coefficients at 65599, modulo $2^{32}$.
\<close>

theorem sdbm_polynomial:
  "stress_hash_sdbm char_signed s = horner_sum (char_u32 char_signed) 65599 (rev (c_str s))"
proof -
  have "(\<lambda>c hash. char_u32 char_signed c + push_bit 6 hash + push_bit 16 hash - hash) =
      (\<lambda>c hash. char_u32 char_signed c + 65599 * hash)"
    by (intro ext) (simp add: push_bit_eq_mult algebra_simps)
  then show ?thesis
    unfolding stress_hash_sdbm_def by (simp add: fold_horner)
qed

definition adler_a :: "u8 list \<Rightarrow> nat" where
  "adler_a cs = 1 + sum_list (map unat cs)"

definition adler_b :: "u8 list \<Rightarrow> nat" where
  "adler_b cs = (\<Sum>k\<in>{1..length cs}. adler_a (take k cs))"

lemma adler_b_snoc: "adler_b (cs @ [c]) = adler_b cs + adler_a (cs @ [c])"
  by (simp add: adler_b_def)

lemma unat_u8_less: "unat (c :: u8) < 256"
  using unsigned_less [of c] by simp

lemma adler_mod_add:
  assumes "x < 65521" "y < 65536"
  shows "((word_of_nat x :: u32) + word_of_nat y) mod 65521 = word_of_nat ((x + y) mod 65521)"
proof (rule unsigned_word_eqI)
  have "unat (word_of_nat x + word_of_nat y :: u32) = x + y"
    using assms by (simp flip: of_nat_add add: unat_of_nat)
  moreover have "(x + y) mod 65521 < 65521" by simp
  ultimately show "unat (((word_of_nat x :: u32) + word_of_nat y) mod 65521) =
      unat (word_of_nat ((x + y) mod 65521) :: u32)"
    by (simp add: unat_mod_distrib unat_of_nat)
qed

lemma adler_loop:
  "fold (\<lambda>c (a, b). let a = (a + ucast (c::u8)) mod 65521 in (a, (b + a) mod 65521)) cs (1, 0) =
    (word_of_nat (adler_a cs mod 65521) :: u32, word_of_nat (adler_b cs mod 65521) :: u32)"
proof (induction cs rule: rev_induct)
  case (snoc c cs)
  have c: "ucast c = (word_of_nat (unat c) :: u32)"
    by (rule unsigned_word_eqI) (simp add: unsigned_ucast_eq)
  have "(word_of_nat (adler_a cs mod 65521) + ucast c) mod 65521 = (word_of_nat (adler_a (cs @ [c]) mod 65521) :: u32)"
    unfolding c using unat_u8_less [of c] less_trans [of "unat c" 256 65536]
    by (subst adler_mod_add) (simp_all add: adler_a_def mod_simps add.assoc)
  moreover have "(word_of_nat (adler_b cs mod 65521) + word_of_nat (adler_a (cs @ [c]) mod 65521)) mod 65521 =
      (word_of_nat (adler_b (cs @ [c]) mod 65521) :: u32)"
    by (subst adler_mod_add) (simp_all add: adler_b_snoc mod_simps less_trans [OF mod_less_divisor])
  ultimately show ?case
    using snoc by (simp add: Let_def)
qed (simp add: adler_a_def adler_b_def)

text \<open>
  The checksum holds Adler's two sums modulo 65521: one plus the sum of the bytes in the
  low half and the sum of that over the prefixes of the string in the high half.  No step of the
  loop wraps at 32 bits.
\<close>

theorem adler32_sums:
  "unat (stress_hash_adler32 s len) =
     adler_b (c_str s) mod 65521 * 65536 + adler_a (c_str s) mod 65521"
proof -
  let ?a = "adler_a (c_str s) mod 65521" and ?b = "adler_b (c_str s) mod 65521"
  have lt: "?a < 65536" "?b < 65536" by (simp_all add: less_trans [OF mod_less_divisor])
  have "push_bit 16 (word_of_nat ?b) OR word_of_nat ?a = (word_of_nat (push_bit 16 ?b OR ?a) :: u32)"
    by (simp add: of_nat_or_eq of_nat_push_bit)
  also have "push_bit 16 ?b OR ?a = push_bit 16 ?b + ?a"
  proof (rule disjunctive_add_eq_or [symmetric])
    have "take_bit 16 ?a = ?a" using lt by (simp add: take_bit_nat_eq_self)
    moreover have "push_bit 16 ?b AND take_bit 16 ?a = 0"
      by (rule bit_eqI) (auto simp: bit_simps)
    ultimately show "push_bit 16 ?b AND ?a = 0" by simp
  qed
  also have "\<dots> = ?b * 65536 + ?a" by (simp add: push_bit_eq_mult)
  finally have "stress_hash_adler32 s len = word_of_nat (?b * 65536 + ?a)"
    unfolding stress_hash_adler32_def adler_loop by simp
  then show ?thesis
    using lt by (simp add: unat_of_nat del: of_nat_add of_nat_mult)
qed

section \<open>The table is a set of strings\<close>

text \<open>
  A set of strings: what a client of the table relies on.  \<open>key\<close> is the identity of a string for
  the set, \<open>adds\<close> a possibly failing insertion.
\<close>

locale string_set =
  fixes key :: "'s \<Rightarrow> 'k"
    and mem :: "'t \<Rightarrow> 's \<Rightarrow> bool"
    and add :: "bool \<Rightarrow> 't \<Rightarrow> 's \<Rightarrow> 't"
    and inv :: "'t \<Rightarrow> bool"
  assumes mem_add: "inv t \<Longrightarrow> mem (add ok t s) s' \<longleftrightarrow> mem t s' \<or> ok \<and> key s' = key s"
    and inv_add: "inv t \<Longrightarrow> inv (add ok t s)"
begin

definition adds :: "'t \<Rightarrow> (bool \<times> 's) list \<Rightarrow> 't" where
  "adds t ss = fold (\<lambda>(ok, s) t. add ok t s) ss t"

lemma inv_adds: "inv t \<Longrightarrow> inv (adds t ss)"
  unfolding adds_def by (induction ss arbitrary: t) (auto simp: inv_add)

lemma mem_adds: "inv t \<Longrightarrow> mem (adds t ss) s' \<longleftrightarrow> mem t s' \<or> (True, key s') \<in> map_prod id key ` set ss"
  unfolding adds_def
proof (induction ss arbitrary: t)
  case (Cons p ss)
  then show ?case by (cases p) (auto simp: inv_add mem_add)
qed simp

end

text \<open>
  A well formed table: its chains are as many as it says, each entry is a C string in the slot
  of its own hash, and no chain holds a string twice.
\<close>

definition hash_ok :: "bool \<Rightarrow> stress_hash_table \<Rightarrow> bool" where
  "hash_ok char_signed ht \<longleftrightarrow>
     0 < ht_n ht \<and> length (ht_table ht) = ht_n ht
     \<and> (\<forall>i<ht_n ht. distinct (ht_table ht ! i)
          \<and> (\<forall>e\<in>set (ht_table ht ! i). c_str e = e \<and> hash_slot char_signed ht e = i))"

lemma c_str_idem [simp]: "c_str (c_str s) = c_str s"
  unfolding c_str_def by (metis set_takeWhileD takeWhile_eq_all_conv)

lemma sdbm_c_str [simp]: "stress_hash_sdbm char_signed (c_str s) = stress_hash_sdbm char_signed s"
  by (simp add: stress_hash_sdbm_def)

lemma hash_slot_c_str [simp]: "hash_slot char_signed ht (c_str s) = hash_slot char_signed ht s"
  by (simp add: hash_slot_def)

lemma hash_slot_cong: "c_str s = c_str s' \<Longrightarrow> hash_slot char_signed ht s = hash_slot char_signed ht s'"
  by (metis hash_slot_c_str)

lemma hash_slot_less: "hash_ok char_signed ht \<Longrightarrow> hash_slot char_signed ht s < ht_n ht"
  by (simp add: hash_ok_def hash_slot_def)

lemma hash_slot_update [simp]: "hash_slot char_signed (ht\<lparr>ht_table := t\<rparr>) s = hash_slot char_signed ht s"
  by (simp add: hash_slot_def)

lemma stress_hash_find_eq:
  "(\<forall>e\<in>set es. c_str e = e) \<Longrightarrow> stress_hash_find es s = (if c_str s \<in> set es then Some (c_str s) else None)"
  by (induction es) auto

lemma hash_ok_find:
  "hash_ok char_signed ht \<Longrightarrow>
   stress_hash_find (ht_table ht ! hash_slot char_signed ht s) s =
     (if c_str s \<in> set (ht_table ht ! hash_slot char_signed ht s) then Some (c_str s) else None)"
  using hash_slot_less [of char_signed ht s] by (intro stress_hash_find_eq) (auto simp: hash_ok_def)

lemma hash_insert_ok:
  assumes "hash_ok char_signed ht"
  shows "hash_ok char_signed (snd (hash_insert char_signed ok ht s))"
  using assms hash_slot_less [OF assms, of s]
  by (auto simp: hash_insert_def Let_def hash_ok_find [OF assms] hash_ok_def nth_list_update)

definition hash_mem :: "bool \<Rightarrow> stress_hash_table \<Rightarrow> u8 list \<Rightarrow> bool" where
  "hash_mem char_signed ht s \<longleftrightarrow> stress_hash_get char_signed (Some ht) (Some s) = Some (c_str s)"

lemma stress_hash_get_eq:
  "hash_ok char_signed ht \<Longrightarrow>
   stress_hash_get char_signed (Some ht) (Some s) = (if hash_mem char_signed ht s then Some (c_str s) else None)"
  by (simp add: hash_mem_def stress_hash_get_def hash_ok_find)

lemma hash_mem_iff:
  "hash_ok char_signed ht \<Longrightarrow>
   hash_mem char_signed ht s \<longleftrightarrow> c_str s \<in> set (ht_table ht ! hash_slot char_signed ht s)"
  by (simp add: hash_mem_def stress_hash_get_def hash_ok_find)

lemma hash_mem_insert:
  assumes "hash_ok char_signed ht"
  shows "hash_mem char_signed (snd (hash_insert char_signed ok ht s)) s' \<longleftrightarrow>
    hash_mem char_signed ht s' \<or> ok \<and> c_str s' = c_str s"
proof -
  let ?h = "hash_slot char_signed ht"
  have len: "?h s < length (ht_table ht)"
    using hash_slot_less [OF assms, of s] assms by (simp add: hash_ok_def)
  have slot: "c_str s' = c_str s \<Longrightarrow> ?h s' = ?h s" by (rule hash_slot_cong)
  show ?thesis
    unfolding hash_mem_iff [OF hash_insert_ok [OF assms]] hash_mem_iff [OF assms]
    unfolding hash_insert_def Let_def hash_ok_find [OF assms]
    using len slot by (cases "?h s' = ?h s") (auto simp: nth_list_update)
qed

definition hash_add_all :: "bool \<Rightarrow> (bool \<times> u8 list) list \<Rightarrow> stress_hash_table option \<Rightarrow> stress_hash_table option" where
  "hash_add_all char_signed ss t = fold (\<lambda>(ok, s) t. snd (stress_hash_add char_signed ok t (Some s))) ss t"

interpretation ht: string_set c_str "hash_mem char_signed"
    "\<lambda>ok t s. snd (hash_insert char_signed ok t s)" "hash_ok char_signed" for char_signed
  by unfold_locales (simp_all add: hash_mem_insert hash_insert_ok)

lemma hash_add_all_adds: "hash_add_all char_signed ss (Some t) = Some (ht.adds char_signed t ss)"
  unfolding hash_add_all_def ht.adds_def
  by (induction ss arbitrary: t) (auto simp: stress_hash_add_def Let_def split: prod.splits)

lemma hash_create_ok: "stress_hash_create True True (Suc n) = Some \<lparr>ht_table = replicate (Suc n) [], ht_n = Suc n\<rparr>"
  "hash_ok char_signed \<lparr>ht_table = replicate (Suc n) [], ht_n = Suc n\<rparr>"
  "\<not> hash_mem char_signed \<lparr>ht_table = replicate (Suc n) [], ht_n = Suc n\<rparr> s"
proof -
  show ok: "hash_ok char_signed \<lparr>ht_table = replicate (Suc n) [], ht_n = Suc n\<rparr>"
    by (auto simp: hash_ok_def less_Suc_eq_0_disj)
  show "\<not> hash_mem char_signed \<lparr>ht_table = replicate (Suc n) [], ht_n = Suc n\<rparr> s"
    using hash_slot_less [OF ok, of s] by (simp add: hash_mem_iff [OF ok] del: replicate_Suc)
qed (simp add: stress_hash_create_def)

text \<open>
  A hash table is a set of C strings: whatever was added, in any order and with any of
  the allocations failing, a string is found exactly when it was added successfully, whatever
  other strings share its slot, and the entry found holds that string.
\<close>

theorem hash_table_is_a_set:
  "stress_hash_get char_signed
      (hash_add_all char_signed ss (stress_hash_create True True (Suc n))) (Some s) =
    (if (True, c_str s) \<in> map_prod id c_str ` set ss then Some (c_str s) else None)"
  unfolding hash_create_ok(1) hash_add_all_adds
  by (simp add: stress_hash_get_eq ht.inv_adds ht.mem_adds hash_create_ok del: replicate_Suc)

lemma hash_table_invariant:
  "map_option (hash_ok char_signed) (hash_add_all char_signed ss (stress_hash_create True True (Suc n))) = Some True"
  unfolding hash_create_ok(1) hash_add_all_adds
  by (simp add: ht.inv_adds hash_create_ok del: replicate_Suc)

end
