(* ===== verification/Prime.thy ===== *)
theory Prime
  imports Prelude
begin

text \<open>
  The primality test and the searches for primes of core-prime.c.  The bound of the trial
  division, one plus the square root computed in double precision, is an argument \<open>isqrt1\<close>, as
  is the number of times the continue flag is still seen set.
\<close>

section \<open>Trial division\<close>

text \<open>The loop over \<open>i = 5, 11, 17, \<dots>\<close> up to \<open>max\<close>.\<close>

function prime64_loop :: "u64 \<Rightarrow> u64 \<Rightarrow> nat \<Rightarrow> bool" where
  "prime64_loop n mx i =
     (if i \<le> unat mx
      then if n mod word_of_nat i = 0 \<or> n mod (word_of_nat i + 2) = 0 then False else prime64_loop n mx (i + 6)
      else True)"
  by pat_completeness auto
termination
  by (relation "measure (\<lambda>(n, mx, i). Suc (unat mx) - i)") auto

declare prime64_loop.simps [simp del]

definition stress_prime64_check :: "(u64 \<Rightarrow> u64) \<Rightarrow> u64 \<Rightarrow> bool" where
  "stress_prime64_check isqrt1 n =
     (if n \<le> 3 then n \<ge> 2
      else if n mod 2 = 0 \<or> n mod 3 = 0 then False
      else prime64_loop n (isqrt1 n) 5)"

section \<open>Searching upwards\<close>

text \<open>
  At most \<open>i\<close> more candidates; \<open>flag\<close> is how often the continue flag is still seen set.  \<open>None\<close>
  when the search gives up.
\<close>

fun prime64_search :: "(u64 \<Rightarrow> u64) \<Rightarrow> nat \<Rightarrow> nat \<Rightarrow> u64 \<Rightarrow> u64 \<Rightarrow> u64 option" where
  "prime64_search isqrt1 0 flag n p = None"
| "prime64_search isqrt1 (Suc i) 0 n p = None"
| "prime64_search isqrt1 (Suc i) (Suc flag) n p =
     (let p = p + 2
      in if n mod p \<noteq> 0 \<and> stress_prime64_check isqrt1 p then Some p
         else prime64_search isqrt1 i flag n p)"

definition prime64_start :: "u64 \<Rightarrow> u64 \<Rightarrow> u64" where
  "prime64_start n p = (let odd_n = (n AND 0x0ffffffffffffffe) + 1 in if p < odd_n then odd_n else p)"

text \<open>The static variable of the function is passed in and returned.\<close>

definition stress_prime64_next_get :: "(u64 \<Rightarrow> u64) \<Rightarrow> nat \<Rightarrow> u64 \<Rightarrow> u64 \<Rightarrow> u64 \<times> u64" where
  "stress_prime64_next_get isqrt1 flag n p =
     (case prime64_search isqrt1 2000 flag n (prime64_start n p) of
        Some p \<Rightarrow> (p, p)
      | None \<Rightarrow> (1009, 1009))"

definition stress_prime64_get :: "(u64 \<Rightarrow> u64) \<Rightarrow> nat \<Rightarrow> u64 \<Rightarrow> u64" where
  "stress_prime64_get isqrt1 flag n =
     (case prime64_search isqrt1 2000 flag n (prime64_start n 1009) of
        Some p \<Rightarrow> p
      | None \<Rightarrow> 18446744073709551557)"

section \<open>The test is exact\<close>

definition is_prime :: "nat \<Rightarrow> bool" where
  "is_prime n \<longleftrightarrow> 1 < n \<and> (\<forall>d. d dvd n \<longrightarrow> d = 1 \<or> d = n)"

lemma mod_word_of_nat:
  fixes n d :: u64
  shows "n mod d = 0 \<longleftrightarrow> unat d dvd unat n"
proof -
  have "n mod d = 0 \<longleftrightarrow> unat (n mod d) = 0" by (metis unsigned_0 unsigned_word_eqI)
  then show ?thesis by (simp add: unat_mod_distrib dvd_eq_mod_eq_0)
qed

lemma unat_small64: "d < 2 ^ 64 \<Longrightarrow> unat (word_of_nat d :: u64) = d"
  by (simp add: unsigned_of_nat take_bit_nat_eq_self)

lemma prime64_loop_iff:
  "0 < i \<Longrightarrow> unat mx < 2 ^ 63 \<Longrightarrow> prime64_loop n mx i \<longleftrightarrow>
    (\<forall>j. i + 6 * j \<le> unat mx \<longrightarrow> \<not> (i + 6 * j) dvd unat n \<and> \<not> (i + 6 * j + 2) dvd unat n)"
proof (induction n mx i rule: prime64_loop.induct)
  case (1 n mx i)
  show ?case
  proof (cases "i \<le> unat mx")
    case True
    have u: "unat (word_of_nat i :: u64) = i" "unat (word_of_nat i + 2 :: u64) = i + 2"
      using unat_small64 [of i] unat_small64 [of "i + 2"] True 1(3) by (simp_all add: add.commute)
    have w: "n mod word_of_nat i = 0 \<longleftrightarrow> i dvd unat n"
        "n mod (word_of_nat i + 2) = 0 \<longleftrightarrow> (i + 2) dvd unat n"
      unfolding mod_word_of_nat u by simp_all
    have split: "(\<forall>j. P j) \<longleftrightarrow> P 0 \<and> (\<forall>j. P (Suc j))" for P :: "nat \<Rightarrow> bool"
      by (metis nat.exhaust)
    show ?thesis
    proof (cases "i dvd unat n \<or> (i + 2) dvd unat n")
      case True
      then show ?thesis
        using \<open>i \<le> unat mx\<close> by (subst prime64_loop.simps, subst split) (auto simp: w)
    next
      case False
      then have "prime64_loop n mx i = prime64_loop n mx (i + 6)"
        using True by (subst prime64_loop.simps) (simp add: w)
      also have "\<dots> \<longleftrightarrow> (\<forall>j. i + 6 + 6 * j \<le> unat mx \<longrightarrow>
          \<not> (i + 6 + 6 * j) dvd unat n \<and> \<not> (i + 6 + 6 * j + 2) dvd unat n)"
        using False w True 1 by simp
      also have "\<dots> \<longleftrightarrow> (\<forall>j. i + 6 * Suc j \<le> unat mx \<longrightarrow>
          \<not> (i + 6 * Suc j) dvd unat n \<and> \<not> (i + 6 * Suc j + 2) dvd unat n)"
        by (simp add: ac_simps)
      finally show ?thesis
        using False by (subst split) simp
    qed
  next
    case False
    then show ?thesis by (subst prime64_loop.simps) auto
  qed
qed

text \<open>A composite number has a divisor no larger than its square root that is prime.\<close>

lemma least_divisor:
  assumes "1 < n" "\<not> is_prime n"
  obtains q where "1 < q" "q dvd n" "q * q \<le> n" "is_prime q"
proof -
  define q where "q = (LEAST d. 1 < d \<and> d dvd n)"
  have q: "1 < q \<and> q dvd n"
    unfolding q_def using assms(1) by (intro LeastI [of "\<lambda>d. 1 < d \<and> d dvd n" n]) simp
  have least: "q \<le> d" if "1 < d" "d dvd n" for d
    unfolding q_def using that by (intro Least_le) simp
  have "is_prime q"
    unfolding is_prime_def
  proof (intro conjI allI impI)
    fix d assume "d dvd q"
    then have "d dvd n" "d \<le> q" "0 < d" using q by (auto intro: dvd_trans dvd_imp_le Nat.gr0I)
    then show "d = 1 \<or> d = q" using least [of d] by linarith
  qed (use q in simp)
  moreover have "q * q \<le> n"
  proof -
    obtain r where r: "n = q * r" using q by blast
    have "q \<noteq> n" using assms \<open>is_prime q\<close> by auto
    then have "1 < r" using r assms(1) by (cases r) auto
    then have "q \<le> r" using least [of r] r by simp
    then show ?thesis using r by simp
  qed
  ultimately show ?thesis using that q by blast
qed

text \<open>Apart from 2 and 3 a prime is one of the loop's candidates.\<close>

lemma prime_candidate:
  assumes "is_prime q" "q \<noteq> 2" "q \<noteq> 3"
  obtains j where "q = 5 + 6 * j \<or> q = 5 + 6 * j + 2"
proof -
  have ndvd: "\<not> 2 dvd q" "\<not> 3 dvd q" and "1 < q"
    using assms by (auto simp: is_prime_def)
  define r where "r = q mod 6"
  define k where "k = q div 6"
  have q: "q = 6 * k + r" and "r < 6" by (simp_all add: r_def k_def)
  from \<open>r < 6\<close> consider "r = 0" | "r = 1" | "r = 2" | "r = 3" | "r = 4" | "r = 5" by linarith
  then show ?thesis
  proof cases
    case 2
    with q \<open>1 < q\<close> have "q = 5 + 6 * (k - 1) + 2" by (cases k) auto
    with that show ?thesis by blast
  next
    case 6
    with q have "q = 5 + 6 * k" by simp
    with that show ?thesis by blast
  next
    case 1
    with q ndvd show ?thesis by simp
  next
    case 3
    with q have "2 dvd q" by presburger
    with ndvd show ?thesis by simp
  next
    case 4
    with q have "3 dvd q" by presburger
    with ndvd show ?thesis by simp
  next
    case 5
    with q have "2 dvd q" by presburger
    with ndvd show ?thesis by simp
  qed
qed

lemma prime64_loop_exact:
  assumes n: "3 < unat n" "\<not> 2 dvd unat n" "\<not> 3 dvd unat n"
    and lo: "unat n < (unat mx + 1)\<^sup>2" and hi: "(unat mx - 2)\<^sup>2 \<le> unat n" and mx: "unat mx < 2 ^ 63"
  shows "prime64_loop n mx 5 \<longleftrightarrow> is_prime (unat n)"
proof
  assume p: "is_prime (unat n)"
  have "\<not> c dvd unat n" if "i \<le> unat mx" "5 \<le> i" "c = i \<or> c = i + 2" for i c
  proof -
    have "c < unat n"
    proof -
      have "2 \<le> unat mx" using that(1,2) by simp
      then obtain m where m: "unat mx = m + 2" by (metis add.commute le_Suc_ex)
      then have "3 \<le> m" using that(1,2) by simp
      have "c \<le> m + 4" using that m by auto
      also have "m + 4 < m * 3" using \<open>3 \<le> m\<close> by simp
      also have "\<dots> \<le> m * m" using \<open>3 \<le> m\<close> by simp
      also have "\<dots> \<le> unat n" using hi m by (simp add: power2_eq_square)
      finally show ?thesis .
    qed
    moreover have "1 < c" using that by auto
    ultimately show ?thesis using p unfolding is_prime_def by blast
  qed
  then show "prime64_loop n mx 5" using mx by (simp add: prime64_loop_iff)
next
  assume l: "prime64_loop n mx 5"
  show "is_prime (unat n)"
  proof (rule ccontr)
    assume "\<not> is_prime (unat n)"
    then obtain q where q: "q dvd unat n" "q * q \<le> unat n" "is_prime q"
      using least_divisor [of "unat n"] n(1) by auto
    then obtain j where j: "q = 5 + 6 * j \<or> q = 5 + 6 * j + 2"
      using prime_candidate [of q] n by metis
    have "q\<^sup>2 < (unat mx + 1)\<^sup>2" using q(2) lo by (simp add: power2_eq_square)
    then have "q < unat mx + 1" by (rule power_less_imp_less_base) simp
    then have "5 + 6 * j \<le> unat mx" using j by auto
    then show False using l q(1) j mx by (auto simp: prime64_loop_iff)
  qed
qed

lemma small_primes: "is_prime 2" "is_prime 3"
proof -
  have "d = 1 \<or> d = 2 \<or> d = 3" if "d dvd n" "n = 2 \<or> n = 3" for d n :: nat
  proof -
    have "d \<le> 3" "d \<noteq> 0" using that dvd_imp_le [of d n] by (auto intro: Nat.gr0I)
    then show ?thesis by linarith
  qed
  from this [of _ 2] this [of _ 3] show "is_prime 2" "is_prime 3"
    unfolding is_prime_def by fastforce+
qed

text \<open>
  The primality test is exact: when the bound computed in double precision lies between
  the integer square root of the number and two above it, the test answers whether the number is
  prime.
\<close>

theorem prime64_check_exact:
  assumes "unat n < (unat (isqrt1 n) + 1)\<^sup>2" "(unat (isqrt1 n) - 2)\<^sup>2 \<le> unat n"
  shows "stress_prime64_check isqrt1 n \<longleftrightarrow> is_prime (unat n)"
proof (cases "n \<le> 3")
  case True
  then have "unat n \<le> 3" by (simp add: word_le_nat_alt)
  then consider "unat n = 0" | "unat n = 1" | "unat n = 2" | "unat n = 3" by linarith
  moreover have "is_prime 2" "is_prime 3" by (rule small_primes)+
  ultimately show ?thesis
    using True by cases (auto simp: stress_prime64_check_def word_le_nat_alt is_prime_def)
next
  case False
  have big: "3 < unat n" using False by (simp add: word_le_nat_alt)
  have "unat n < 2 ^ 64" using unsigned_less [of n] by simp
  have mx: "unat (isqrt1 n) < 2 ^ 63"
  proof (rule ccontr)
    assume "\<not> ?thesis"
    then have "(2 ^ 63 - 2)\<^sup>2 \<le> (unat (isqrt1 n) - 2)\<^sup>2" by (intro power_mono) simp_all
    also note assms(2)
    also note \<open>unat n < 2 ^ 64\<close>
    finally show False by simp
  qed
  have d: "n mod 2 = 0 \<longleftrightarrow> 2 dvd unat n" "n mod 3 = 0 \<longleftrightarrow> 3 dvd unat n"
    by (simp_all add: mod_word_of_nat)
  show ?thesis
  proof (cases "2 dvd unat n \<or> 3 dvd unat n")
    case True
    then have "\<not> is_prime (unat n)" using big by (auto simp: is_prime_def)
    then show ?thesis using False True by (auto simp: stress_prime64_check_def d)
  next
    case nd: False
    then show ?thesis
      using False prime64_loop_exact [OF big _ _ assms mx] by (simp add: stress_prime64_check_def d)
  qed
qed

theorem prime64_check_exact_witness:
  "stress_prime64_check (\<lambda>n. 34) 1031 \<longleftrightarrow> is_prime 1031"
  using prime64_check_exact [of 1031 "\<lambda>n. 34"] by simp

section \<open>What the searches return\<close>

lemma prime64_search_some:
  "prime64_search isqrt1 i flag n p = Some q \<Longrightarrow> n mod q \<noteq> 0 \<and> stress_prime64_check isqrt1 q"
  by (induction isqrt1 i flag n p rule: prime64_search.induct) (auto simp: Let_def split: if_splits)

lemma prime64_check_zero: "\<not> stress_prime64_check isqrt1 0"
  by (simp add: stress_prime64_check_def)

text \<open>
  The search for the next prime returns a number that passed the test and does not divide
  its argument, or 1009 when it gives up; its static variable holds what it returned.
\<close>

theorem prime64_next_result:
  "stress_prime64_next_get isqrt1 flag n p \<in>
     (\<lambda>q. (q, q)) ` insert 1009 {q. n mod q \<noteq> 0 \<and> stress_prime64_check isqrt1 q}"
  by (auto simp: stress_prime64_next_get_def dest: prime64_search_some split: option.splits)

lemma prime64_next_pos: "0 < fst (stress_prime64_next_get isqrt1 flag n p)"
proof -
  have "fst (stress_prime64_next_get isqrt1 flag n p) \<noteq> 0"
    using prime64_check_zero
    by (auto simp: stress_prime64_next_get_def dest: prime64_search_some split: option.splits)
  then show ?thesis by (simp add: word_neq_0_conv)
qed

lemma prime64_gives_up: "stress_prime64_next_get isqrt1 0 n p = (1009, 1009)"
  by (simp add: stress_prime64_next_get_def numeral_eq_Suc)

end
