(* ===== verification/SparseMatrix.thy ===== *)
theory SparseMatrix
  imports Mwc Setting Prime
begin

text \<open>
  The sparse matrix stressor, stress-sparsematrix.c: the hash table, the hash table with a pool of
  nodes, the sorted lists and the mapped array that store a matrix, and the test that fills a
  store from a seeded stream of positions, reads the same stream back and deletes it.  A handle is
  what create returned: the client never passes NULL on, so the operations' own checks for it have
  no case here.  What comes from outside is an environment: which allocations succeed, the
  machine's memory, and how often the continue flag is still seen set.
\<close>

section \<open>Positions and values\<close>

definition value_map :: "u32 \<Rightarrow> u32 \<Rightarrow> u32" where
  "value_map x y = x XOR NOT y"

definition sparse_xy :: "u32 \<Rightarrow> u32 \<Rightarrow> u64" where
  "sparse_xy x y = push_bit 32 (ucast x) OR ucast y"

definition sparse_hash :: "u64 \<Rightarrow> u32 \<Rightarrow> u32 \<Rightarrow> nat" where
  "sparse_hash n x y = unat ((push_bit 3 (ucast x) XOR ucast y) mod n)"

record sparse_env =
  se_alloc :: "nat \<Rightarrow> bool"
  se_malloc :: "nat \<Rightarrow> bool \<times> bool"
  se_isqrt1 :: "u64 \<Rightarrow> u64"
  se_prime_flag :: nat
  se_page_size :: u64
  se_freemem :: u64
  se_freeswap :: u64
  se_mmap :: bool
  se_vec :: bool
  se_mincore :: "bool list option"

section \<open>Hash table\<close>

type_synonym sparse_node = "u64 \<times> u32"

record sparse_hash_table =
  sh_n :: u64
  sh_table :: "sparse_node list list"

text \<open>A chain of nodes: the value at a position, and the chain with that value changed.\<close>

fun chain_find :: "sparse_node list \<Rightarrow> u64 \<Rightarrow> u32 option" where
  "chain_find [] xy = None"
| "chain_find (node # nodes) xy = (if fst node = xy then Some (snd node) else chain_find nodes xy)"

fun chain_set :: "sparse_node list \<Rightarrow> u64 \<Rightarrow> u32 \<Rightarrow> sparse_node list" where
  "chain_set [] xy val = []"
| "chain_set (node # nodes) xy val =
     (if fst node = xy then (xy, val) # nodes else node # chain_set nodes xy val)"

definition hash_create :: "sparse_env \<Rightarrow> u64 \<Rightarrow> u32 \<Rightarrow> u32 \<Rightarrow> u64 \<Rightarrow> sparse_hash_table option \<times> u64" where
  "hash_create env n x y p =
     (let (n_prime, p) = stress_prime64_next_get (se_isqrt1 env) (se_prime_flag env) n p
      in (if \<not> se_alloc env 0 then None
          else if \<not> se_alloc env 1 then None
          else Some \<lparr>sh_n = n_prime, sh_table = replicate (unat n_prime) []\<rparr>, p))"

definition hash_destroy :: "sparse_env \<Rightarrow> sparse_hash_table \<Rightarrow> nat" where
  "hash_destroy env t = 24 * sum_list (map length (sh_table t)) + (16 + 8 * unat (sh_n t))"

definition hash_put ::
    "bool \<times> bool \<Rightarrow> sparse_hash_table \<Rightarrow> u32 \<Rightarrow> u32 \<Rightarrow> u32 \<Rightarrow> int \<times> sparse_hash_table" where
  "hash_put ok t x y val =
     (let xy = sparse_xy x y; h = sparse_hash (sh_n t) x y; chain = sh_table t ! h
      in if chain_find chain xy \<noteq> None
         then (0, t\<lparr>sh_table := (sh_table t)[h := chain_set chain xy val]\<rparr>)
         else if \<not> fst ok then (-1, t)
         else (0, t\<lparr>sh_table := (sh_table t)[h := (xy, val) # chain]\<rparr>))"

definition hash_get_node :: "sparse_hash_table \<Rightarrow> u32 \<Rightarrow> u32 \<Rightarrow> u32 option" where
  "hash_get_node t x y = chain_find (sh_table t ! sparse_hash (sh_n t) x y) (sparse_xy x y)"

definition hash_get :: "sparse_hash_table \<Rightarrow> u32 \<Rightarrow> u32 \<Rightarrow> u32" where
  "hash_get t x y = (case hash_get_node t x y of Some v \<Rightarrow> v | None \<Rightarrow> 0)"

definition hash_del :: "sparse_hash_table \<Rightarrow> u32 \<Rightarrow> u32 \<Rightarrow> sparse_hash_table" where
  "hash_del t x y =
     (let h = sparse_hash (sh_n t) x y
      in case hash_get_node t x y of None \<Rightarrow> t
         | Some _ \<Rightarrow> t\<lparr>sh_table := (sh_table t)[h := chain_set (sh_table t ! h) (sparse_xy x y) 0]\<rparr>)"

section \<open>Hash table with a pool of nodes\<close>

text \<open>\<open>qh_idx\<close> nodes of the pool of \<open>qh_n_nodes\<close> are in use, each on a chain.\<close>

record sparse_qhash_table =
  qh_n :: u64
  qh_n_nodes :: u64
  qh_table :: "sparse_node list list"
  qh_idx :: u64

definition qhash_create :: "sparse_env \<Rightarrow> u64 \<Rightarrow> u32 \<Rightarrow> u32 \<Rightarrow> u64 \<Rightarrow> sparse_qhash_table option \<times> u64" where
  "qhash_create env n x y p =
     (let (n_prime, p) = stress_prime64_next_get (se_isqrt1 env) (se_prime_flag env) n p
      in (if \<not> se_alloc env 0 then None
          else if \<not> se_alloc env 1 then None
          else if \<not> se_alloc env 2 then None
          else Some \<lparr>qh_n = n_prime, qh_n_nodes = n, qh_table = replicate (unat n_prime) [], qh_idx = 0\<rparr>, p))"

definition qhash_destroy :: "sparse_env \<Rightarrow> sparse_qhash_table \<Rightarrow> nat" where
  "qhash_destroy env t = 40 + 24 * unat (qh_n_nodes t) + 8 * unat (qh_n t)"

definition qhash_put ::
    "bool \<times> bool \<Rightarrow> sparse_qhash_table \<Rightarrow> u32 \<Rightarrow> u32 \<Rightarrow> u32 \<Rightarrow> int \<times> sparse_qhash_table" where
  "qhash_put ok t x y val =
     (let xy = sparse_xy x y; h = sparse_hash (qh_n t) x y; chain = qh_table t ! h
      in if qh_idx t \<ge> qh_n_nodes t then (-1, t)
         else if chain_find chain xy \<noteq> None
         then (0, t\<lparr>qh_table := (qh_table t)[h := chain_set chain xy val]\<rparr>)
         else (0, t\<lparr>qh_table := (qh_table t)[h := (xy, val) # chain], qh_idx := qh_idx t + 1\<rparr>))"

definition qhash_get_node :: "sparse_qhash_table \<Rightarrow> u32 \<Rightarrow> u32 \<Rightarrow> u32 option" where
  "qhash_get_node t x y = chain_find (qh_table t ! sparse_hash (qh_n t) x y) (sparse_xy x y)"

definition qhash_get :: "sparse_qhash_table \<Rightarrow> u32 \<Rightarrow> u32 \<Rightarrow> u32" where
  "qhash_get t x y = (case qhash_get_node t x y of Some v \<Rightarrow> v | None \<Rightarrow> 0)"

definition qhash_del :: "sparse_qhash_table \<Rightarrow> u32 \<Rightarrow> u32 \<Rightarrow> sparse_qhash_table" where
  "qhash_del t x y =
     (let h = sparse_hash (qh_n t) x y
      in case qhash_get_node t x y of None \<Rightarrow> t
         | Some _ \<Rightarrow> t\<lparr>qh_table := (qh_table t)[h := chain_set (qh_table t ! h) (sparse_xy x y) 0]\<rparr>)"

section \<open>Sorted lists\<close>

text \<open>A row per \<open>y\<close>, in ascending order, and its nodes in ascending order of \<open>x\<close>.\<close>

type_synonym sparse_x_list = "(u32 \<times> u32) list"
type_synonym sparse_y_list = "(u32 \<times> sparse_x_list) list"

definition list_create :: "sparse_env \<Rightarrow> u64 \<Rightarrow> u32 \<Rightarrow> u32 \<Rightarrow> u64 \<Rightarrow> sparse_y_list option \<times> u64" where
  "list_create env n x y p = (Some [], p)"

definition list_destroy :: "sparse_env \<Rightarrow> sparse_y_list \<Rightarrow> nat" where
  "list_destroy env rows = sum_list (map (\<lambda>(y, row). 24 * length row + 40) rows)"

fun list_put_x :: "bool \<Rightarrow> sparse_x_list \<Rightarrow> u32 \<Rightarrow> u32 \<Rightarrow> int \<times> sparse_x_list" where
  "list_put_x ok [] x val = (if \<not> ok then (-1, []) else (0, [(x, val)]))"
| "list_put_x ok (node # nodes) x val =
     (if fst node = x then (0, (x, val) # nodes)
      else if fst node > x then (if \<not> ok then (-1, node # nodes) else (0, (x, val) # node # nodes))
      else (let (r, nodes) = list_put_x ok nodes x val in (r, node # nodes)))"

definition list_new_row :: "bool \<times> bool \<Rightarrow> u32 \<Rightarrow> u32 \<Rightarrow> u32 \<Rightarrow> sparse_y_list \<Rightarrow> int \<times> sparse_y_list" where
  "list_new_row ok x y val rest =
     (if \<not> fst ok then (-1, rest)
      else (let (r, row) = list_put_x (snd ok) [] x val in (r, (y, row) # rest)))"

fun list_put :: "bool \<times> bool \<Rightarrow> sparse_y_list \<Rightarrow> u32 \<Rightarrow> u32 \<Rightarrow> u32 \<Rightarrow> int \<times> sparse_y_list" where
  "list_put ok [] x y val = list_new_row ok x y val []"
| "list_put ok ((y', row) # rows) x y val =
     (if y' = y then (let (r, row) = list_put_x (snd ok) row x val in (r, (y', row) # rows))
      else if y' > y then list_new_row ok x y val ((y', row) # rows)
      else (let (r, rows) = list_put ok rows x y val in (r, (y', row) # rows)))"

text \<open>A row is searched to its end, whatever its order.\<close>

fun row_find :: "sparse_x_list \<Rightarrow> u32 \<Rightarrow> u32 option" where
  "row_find [] x = None"
| "row_find (node # nodes) x = (if fst node = x then Some (snd node) else row_find nodes x)"

fun list_get_node :: "sparse_y_list \<Rightarrow> u32 \<Rightarrow> u32 \<Rightarrow> u32 option" where
  "list_get_node [] x y = None"
| "list_get_node ((y', row) # rows) x y = (if y' = y then row_find row x else list_get_node rows x y)"

fun row_zero :: "sparse_x_list \<Rightarrow> u32 \<Rightarrow> sparse_x_list" where
  "row_zero [] x = []"
| "row_zero (node # nodes) x = (if fst node = x then (x, 0) # nodes else node # row_zero nodes x)"

fun list_del :: "sparse_y_list \<Rightarrow> u32 \<Rightarrow> u32 \<Rightarrow> sparse_y_list" where
  "list_del [] x y = []"
| "list_del ((y', row) # rows) x y =
     (if y' = y then (y', row_zero row x) # rows else (y', row) # list_del rows x y)"

definition list_get :: "sparse_y_list \<Rightarrow> u32 \<Rightarrow> u32 \<Rightarrow> u32" where
  "list_get rows x y = (case list_get_node rows x y of Some v \<Rightarrow> v | None \<Rightarrow> 0)"

section \<open>Mapped array\<close>

text \<open>The mapping is anonymous memory, so it reads as zero at first; \<open>mm_mem\<close> is its 32-bit words by index.\<close>

record sparse_mmap =
  mm_mem :: "u64 \<Rightarrow> u32"
  mm_mmap_size :: u64
  mm_x :: u32
  mm_y :: u32

definition mmap_create :: "sparse_env \<Rightarrow> u64 \<Rightarrow> u32 \<Rightarrow> u32 \<Rightarrow> u64 \<Rightarrow> sparse_mmap option \<times> u64" where
  "mmap_create env n x y p =
     (let page_size = se_page_size env;
          max_phys = n * page_size * 2;
          mmap_size = ucast x * ucast y * 4 :: u64;
          mmap_size = (mmap_size + page_size - 1) AND NOT (page_size - 1);
          total_free = se_freemem env + se_freeswap env;
          max_size_t = NOT 0
      in (if max_phys > total_free then None
          else if mmap_size \<ge> max_size_t then None
          else if \<not> se_mmap env then None
          else Some \<lparr>mm_mem = (\<lambda>_. 0), mm_mmap_size = mmap_size, mm_x = x, mm_y = y\<rparr>, p))"

definition mmap_destroy :: "sparse_env \<Rightarrow> sparse_mmap \<Rightarrow> nat" where
  "mmap_destroy env m =
     (if mm_mmap_size m = 0 then 0
      else if \<not> se_vec env then unat (mm_mmap_size m)
      else (case se_mincore env of
              None \<Rightarrow> unat (mm_mmap_size m)
            | Some vec \<Rightarrow> (let pages = unat (mm_mmap_size m div se_page_size env)
                          in unat (se_page_size env) * length (filter id (take pages vec)))))"

definition mmap_offset :: "sparse_mmap \<Rightarrow> u32 \<Rightarrow> u32 \<Rightarrow> u64" where
  "mmap_offset m x y = ucast x + ucast (mm_x m) * ucast y"

definition mmap_put :: "bool \<times> bool \<Rightarrow> sparse_mmap \<Rightarrow> u32 \<Rightarrow> u32 \<Rightarrow> u32 \<Rightarrow> int \<times> sparse_mmap" where
  "mmap_put ok m x y val =
     (if mm_x m \<le> x \<or> mm_y m \<le> y then (-1, m)
      else (0, m\<lparr>mm_mem := (mm_mem m)(mmap_offset m x y := val)\<rparr>))"

definition mmap_del :: "sparse_mmap \<Rightarrow> u32 \<Rightarrow> u32 \<Rightarrow> sparse_mmap" where
  "mmap_del m x y =
     (if mm_x m \<le> x \<or> mm_y m \<le> y then m
      else m\<lparr>mm_mem := (mm_mem m)(mmap_offset m x y := 0)\<rparr>)"

definition mmap_get :: "sparse_mmap \<Rightarrow> u32 \<Rightarrow> u32 \<Rightarrow> u32" where
  "mmap_get m x y = (if mm_x m \<le> x \<or> mm_y m \<le> y then -1 else mm_mem m (mmap_offset m x y))"

section \<open>The test of one method\<close>

record 'h stress_sparsematrix_method_info =
  sm_create :: "sparse_env \<Rightarrow> u64 \<Rightarrow> u32 \<Rightarrow> u32 \<Rightarrow> u64 \<Rightarrow> 'h option \<times> u64"
  sm_destroy :: "sparse_env \<Rightarrow> 'h \<Rightarrow> nat"
  sm_put :: "bool \<times> bool \<Rightarrow> 'h \<Rightarrow> u32 \<Rightarrow> u32 \<Rightarrow> u32 \<Rightarrow> int \<times> 'h"
  sm_del :: "'h \<Rightarrow> u32 \<Rightarrow> u32 \<Rightarrow> 'h"
  sm_get :: "'h \<Rightarrow> u32 \<Rightarrow> u32 \<Rightarrow> u32"

record test_info =
  ti_max_objmem :: nat
  ti_put_ops :: nat
  ti_get_ops :: nat
  ti_skip_no_mem :: bool

text \<open>
  The state around the test: the random number generator, the static prime of core-prime.c, and
  how many more checks of the continue flag see it set.
\<close>

record sparse_world =
  sw_mwc :: mwc
  sw_prime :: u64
  sw_run :: nat

definition SPARSE_TEST_OK :: int where "SPARSE_TEST_OK = 0"
definition SPARSE_TEST_FAILED :: int where "SPARSE_TEST_FAILED = -1"
definition SPARSE_TEST_ENOMEM :: int where "SPARSE_TEST_ENOMEM = -2"

definition sparse_coord :: "u32 \<Rightarrow> mwc \<Rightarrow> (u32 \<times> u32) \<times> mwc" where
  "sparse_coord n m = (let (x, m) = stress_mwc32modn n m; (y, m) = stress_mwc32modn n m in ((x, y), m))"

definition sparse_value :: "u32 \<Rightarrow> u32 \<Rightarrow> u32" where
  "sparse_value x y = (let v = value_map x y in if v = 0 then NOT 0 else v)"

text \<open>
  A loop of at most \<open>todo\<close> more iterations, of which \<open>i\<close> were done, and its exit: whether the
  body failed, the iterations done, the checks of the flag left and the state.
\<close>

fun sparse_loop ::
    "(nat \<Rightarrow> 'st \<Rightarrow> bool \<times> 'st) \<Rightarrow> nat \<Rightarrow> nat \<Rightarrow> nat \<Rightarrow> 'st \<Rightarrow> bool \<times> nat \<times> nat \<times> 'st" where
  "sparse_loop body todo 0 i st = (False, i, 0, st)"
| "sparse_loop body 0 (Suc run) i st = (False, i, run, st)"
| "sparse_loop body (Suc todo) (Suc run) i st =
     (let (failed, st) = body i st
      in if failed then (True, i, run, st) else sparse_loop body todo run (Suc i) st)"

definition sparse_put_body ::
    "'h stress_sparsematrix_method_info \<Rightarrow> sparse_env \<Rightarrow> u32 \<Rightarrow> nat \<Rightarrow> 'h \<times> mwc \<Rightarrow> bool \<times> 'h \<times> mwc" where
  "sparse_put_body info env n i st =
     (let (h, m) = st; ((x, y), m) = sparse_coord n m; v = sparse_value x y; gv = sm_get info h x y
      in if gv = 0
         then (let (r, h) = sm_put info (se_malloc env i) h x y v in (r < 0, h, m))
         else (False, h, m))"

definition sparse_get_body ::
    "'h stress_sparsematrix_method_info \<Rightarrow> u32 \<Rightarrow> nat \<Rightarrow> 'h \<times> mwc \<Rightarrow> bool \<times> 'h \<times> mwc" where
  "sparse_get_body info n i st =
     (let (h, m) = st; ((x, y), m) = sparse_coord n m; v = sparse_value x y; gv = sm_get info h x y
      in (gv \<noteq> v, h, m))"

definition sparse_fetch_body ::
    "'h stress_sparsematrix_method_info \<Rightarrow> u32 \<Rightarrow> nat \<Rightarrow> 'h \<times> mwc \<Rightarrow> bool \<times> 'h \<times> mwc" where
  "sparse_fetch_body info n i st =
     (let (h, m) = st; (_, m) = sparse_coord n m in (False, h, m))"

definition sparse_del_body ::
    "'h stress_sparsematrix_method_info \<Rightarrow> u32 \<Rightarrow> nat \<Rightarrow> 'h \<times> mwc \<Rightarrow> bool \<times> 'h \<times> mwc" where
  "sparse_del_body info n i st =
     (let (h, m) = st; ((x, y), m) = sparse_coord n m in (False, sm_del info h x y, m))"

definition sparse_finish ::
    "'h stress_sparsematrix_method_info \<Rightarrow> sparse_env \<Rightarrow> 'h \<Rightarrow> test_info \<Rightarrow> test_info" where
  "sparse_finish info env h ti =
     (let objmem = sm_destroy info env h
      in if objmem > ti_max_objmem ti then ti\<lparr>ti_max_objmem := objmem\<rparr> else ti)"

text \<open>
  \<open>fault\<close> is what happens to the store between the writes and the reads: nothing, on sound
  hardware.
\<close>

definition stress_sparse_method_test ::
    "'h stress_sparsematrix_method_info \<Rightarrow> sparse_env \<Rightarrow> ('h \<Rightarrow> 'h) \<Rightarrow> u64 \<Rightarrow> u32 \<Rightarrow> test_info \<Rightarrow> sparse_world
       \<Rightarrow> int \<times> test_info \<times> sparse_world" where
  "stress_sparse_method_test info env fault items n ti s =
     (let (w, m) = stress_mwc32 (sw_mwc s);
          (z, m) = stress_mwc32 m;
          (handle, p) = sm_create info env items n n (sw_prime s);
          run = sw_run s; todo = unat items
      in case handle of
           None \<Rightarrow> (SPARSE_TEST_ENOMEM, ti\<lparr>ti_skip_no_mem := True\<rparr>, \<lparr>sw_mwc = m, sw_prime = p, sw_run = run\<rparr>)
         | Some h \<Rightarrow>
           (let m = stress_mwc_seed_set w z m;
                (failed, i, run, h, m) = sparse_loop (sparse_put_body info env n) todo run 0 (h, m)
            in if failed
               then (SPARSE_TEST_FAILED, sparse_finish info env h ti, \<lparr>sw_mwc = m, sw_prime = p, sw_run = run\<rparr>)
               else
                 (let ti = ti\<lparr>ti_put_ops := ti_put_ops ti + i\<rparr>;
                      h = fault h;
                      m = stress_mwc_seed_set w z m;
                      (failed, i, run, h, m) = sparse_loop (sparse_get_body info n) todo run 0 (h, m)
                  in if failed
                     then (SPARSE_TEST_FAILED, sparse_finish info env h ti,
                           \<lparr>sw_mwc = m, sw_prime = p, sw_run = run\<rparr>)
                     else
                       (let ti = ti\<lparr>ti_get_ops := ti_get_ops ti + i\<rparr>;
                            (_, i, run, h, m) = sparse_loop (sparse_fetch_body info n) todo run 0 (h, m);
                            ti = ti\<lparr>ti_get_ops := ti_get_ops ti + i\<rparr>;
                            m = stress_mwc_seed_set w z m;
                            (_, _, run, h, m) = sparse_loop (sparse_del_body info n) todo run 0 (h, m)
                        in (SPARSE_TEST_OK, sparse_finish info env h ti,
                            \<lparr>sw_mwc = m, sw_prime = p, sw_run = run\<rparr>)))))"

section \<open>The stressor\<close>

definition hash_method :: "sparse_hash_table stress_sparsematrix_method_info" where
  "hash_method = \<lparr>sm_create = hash_create, sm_destroy = hash_destroy, sm_put = hash_put,
                  sm_del = hash_del, sm_get = hash_get\<rparr>"

definition list_method :: "sparse_y_list stress_sparsematrix_method_info" where
  "list_method = \<lparr>sm_create = list_create, sm_destroy = list_destroy, sm_put = list_put,
                  sm_del = list_del, sm_get = list_get\<rparr>"

definition mmap_method :: "sparse_mmap stress_sparsematrix_method_info" where
  "mmap_method = \<lparr>sm_create = mmap_create, sm_destroy = mmap_destroy, sm_put = mmap_put,
                  sm_del = mmap_del, sm_get = mmap_get\<rparr>"

definition qhash_method :: "sparse_qhash_table stress_sparsematrix_method_info" where
  "qhash_method = \<lparr>sm_create = qhash_create, sm_destroy = qhash_destroy, sm_put = qhash_put,
                  sm_del = qhash_del, sm_get = qhash_get\<rparr>"

text \<open>A test of one method, as the stressor sees it: the method's state is its own.\<close>

type_synonym sparse_test = "u64 \<Rightarrow> u32 \<Rightarrow> test_info \<Rightarrow> sparse_world \<Rightarrow> int \<times> test_info \<times> sparse_world"

definition sparse_initial_info :: test_info where
  "sparse_initial_info = \<lparr>ti_max_objmem = 0, ti_put_ops = 0, ti_get_ops = 0, ti_skip_no_mem = False\<rparr>"

text \<open>The methods from \<open>i\<close> on, one after the other, until one fails.\<close>

fun sparse_all_methods ::
    "sparse_test list \<Rightarrow> u64 \<Rightarrow> u32 \<Rightarrow> test_info list \<Rightarrow> sparse_world \<Rightarrow> bool \<times> test_info list \<times> sparse_world" where
  "sparse_all_methods (t # ts) items n (ti # tis) s =
     (let (rc, ti, s) = t items n ti s
      in if rc = SPARSE_TEST_FAILED then (True, ti # tis, s)
         else (let (failed, tis, s) = sparse_all_methods ts items n tis s in (failed, ti # tis, s)))"
| "sparse_all_methods ts items n tis s = (False, tis, s)"

definition sparse_round ::
    "nat \<Rightarrow> sparse_test list \<Rightarrow> u64 \<Rightarrow> u32 \<Rightarrow> test_info list \<Rightarrow> sparse_world \<Rightarrow> bool \<times> test_info list \<times> sparse_world" where
  "sparse_round method tests items n tis s =
     (if method = 0 then sparse_all_methods tests items n tis s
      else (let (rc, ti, s) = (tests ! (method - 1)) items n (tis ! (method - 1)) s
            in (rc = SPARSE_TEST_FAILED, tis[method - 1 := ti], s)))"

text \<open>The do while loop; \<open>cont\<close> is how often stress_continue goes on to answer true.\<close>

fun sparse_rounds ::
    "nat \<Rightarrow> sparse_test list \<Rightarrow> u64 \<Rightarrow> u32 \<Rightarrow> nat \<Rightarrow> test_info list \<Rightarrow> sparse_world
       \<Rightarrow> bool \<times> test_info list \<times> sparse_world" where
  "sparse_rounds method tests items n cont tis s =
     (let (failed, tis, s) = sparse_round method tests items n tis s
      in if failed then (True, tis, s)
         else case cont of 0 \<Rightarrow> (False, tis, s) | Suc cont \<Rightarrow> sparse_rounds method tests items n cont tis s)"

definition sparse_setting :: "nat option \<Rightarrow> string \<Rightarrow> stress_setting list \<Rightarrow> u64 \<Rightarrow> bool \<times> u64" where
  "sparse_setting cur name ss dflt =
     (let (isset, out) = stress_setting_get 0 cur name ss
      in (isset, case out of Some (Bits b) \<Rightarrow> b | _ \<Rightarrow> dflt))"

definition sparse_size :: "nat option \<Rightarrow> stress_setting list \<Rightarrow> bool \<Rightarrow> bool \<Rightarrow> u32" where
  "sparse_size cur ss maximize minimize =
     (let (isset, n) = sparse_setting cur ''sparsematrix-size'' ss 500
      in if \<not> isset
         then (let n = (if maximize then 10000000 else ucast n) in if minimize then 10 else n)
         else ucast n)"

definition sparse_items :: "nat option \<Rightarrow> stress_setting list \<Rightarrow> bool \<Rightarrow> bool \<Rightarrow> u32 \<Rightarrow> u64" where
  "sparse_items cur ss maximize minimize n =
     (let (isset, items) = sparse_setting cur ''sparsematrix-items'' ss 10000;
          items = (if \<not> isset
                   then (let items = (if maximize then 10000000 else items) in if minimize then 100 else items)
                   else items);
          capacity = ucast n * ucast n
      in if items > capacity then capacity else items)"

definition stress_sparsematrix ::
    "nat option \<Rightarrow> stress_setting list \<Rightarrow> bool \<Rightarrow> bool \<Rightarrow> sparse_test list \<Rightarrow> nat \<Rightarrow> sparse_world
       \<Rightarrow> int \<times> test_info list \<times> sparse_world" where
  "stress_sparsematrix cur ss maximize minimize tests cont s =
     (let (_, method) = sparse_setting cur ''sparsematrix-method'' ss 0;
          n = sparse_size cur ss maximize minimize;
          items = sparse_items cur ss maximize minimize n;
          tis = replicate (length tests) sparse_initial_info;
          (failed, tis, s) = sparse_rounds (unat method) tests items n cont tis s
      in (if failed then EXIT_NO_RESOURCE else EXIT_SUCCESS, tis, s))"

text \<open>
  The methods from index 1 on, in a build without the BSD trees and Judy arrays, whose code is not
  in the repository; index 0 stands for all of them.
\<close>

definition sparsematrix_methods :: "sparse_env \<Rightarrow> (string \<times> sparse_test) list" where
  "sparsematrix_methods env =
     [(''hash'', stress_sparse_method_test hash_method env (\<lambda>h. h)),
      (''list'', stress_sparse_method_test list_method env (\<lambda>h. h)),
      (''mmap'', stress_sparse_method_test mmap_method env (\<lambda>h. h)),
      (''qhash'', stress_sparse_method_test qhash_method env (\<lambda>h. h))]"

section \<open>The interface of a store\<close>

text \<open>
  The store a client sees: \<open>inv k n h\<close> says that \<open>h\<close> is well formed, takes positions below \<open>n\<close>
  and has room for \<open>k\<close> more new positions.
\<close>

locale sparse_store =
  fixes create :: "sparse_env \<Rightarrow> u64 \<Rightarrow> u32 \<Rightarrow> u32 \<Rightarrow> u64 \<Rightarrow> 'h option \<times> u64"
    and put :: "bool \<times> bool \<Rightarrow> 'h \<Rightarrow> u32 \<Rightarrow> u32 \<Rightarrow> u32 \<Rightarrow> int \<times> 'h"
    and del :: "'h \<Rightarrow> u32 \<Rightarrow> u32 \<Rightarrow> 'h"
    and get :: "'h \<Rightarrow> u32 \<Rightarrow> u32 \<Rightarrow> u32"
    and inv :: "nat \<Rightarrow> u32 \<Rightarrow> 'h \<Rightarrow> bool"
  assumes create_inv: "create env items n n p = (Some h, p') \<Longrightarrow> inv (unat items) n h"
    and create_get: "create env items n n p = (Some h, p') \<Longrightarrow> x < n \<Longrightarrow> y < n \<Longrightarrow> get h x y = 0"
    and inv_less: "inv k n h \<Longrightarrow> j \<le> k \<Longrightarrow> inv j n h"
    and put_inv: "inv (Suc k) n h \<Longrightarrow> x < n \<Longrightarrow> y < n \<Longrightarrow> inv k n (snd (put ok h x y v))"
    and put_get: "inv (Suc k) n h \<Longrightarrow> x < n \<Longrightarrow> y < n \<Longrightarrow> x' < n \<Longrightarrow> y' < n \<Longrightarrow> 0 \<le> fst (put ok h x y v) \<Longrightarrow>
        get (snd (put ok h x y v)) x' y' = (if x' = x \<and> y' = y then v else get h x' y')"
    and put_fail: "inv (Suc k) n h \<Longrightarrow> x < n \<Longrightarrow> y < n \<Longrightarrow> x' < n \<Longrightarrow> y' < n \<Longrightarrow> fst (put ok h x y v) < 0 \<Longrightarrow>
        get (snd (put ok h x y v)) x' y' = get h x' y'"
    and put_ok: "inv (Suc k) n h \<Longrightarrow> x < n \<Longrightarrow> y < n \<Longrightarrow> ok = (True, True) \<Longrightarrow> 0 \<le> fst (put ok h x y v)"
    and del_inv: "inv k n h \<Longrightarrow> inv k n (del h x y)"
    and del_get: "inv k n h \<Longrightarrow> x < n \<Longrightarrow> y < n \<Longrightarrow> x' < n \<Longrightarrow> y' < n \<Longrightarrow>
        get (del h x y) x' y' = (if x' = x \<and> y' = y then 0 else get h x' y')"

text \<open>The positions a seed draws.\<close>

definition sparse_positions :: "u32 \<Rightarrow> nat \<Rightarrow> mwc \<Rightarrow> (u32 \<times> u32) list" where
  "sparse_positions n k m = fst (draws (sparse_coord n) k m)"

lemma sparse_positions_0 [simp]: "sparse_positions n 0 m = []"
  by (simp add: sparse_positions_def)

lemma sparse_positions_Suc:
  "sparse_positions n (Suc k) m = fst (sparse_coord n m) # sparse_positions n k (snd (sparse_coord n m))"
  by (simp add: sparse_positions_def Let_def case_prod_beta)

lemma sparse_coord_less:
  assumes "0 < n"
  shows "fst (fst (sparse_coord n m)) < n" "snd (fst (sparse_coord n m)) < n"
  using assms by (simp_all add: sparse_coord_def Let_def case_prod_beta mwc32modn_less)

lemma sparse_value_nonzero: "sparse_value x y \<noteq> 0"
  by (simp add: sparse_value_def Let_def)

text \<open>
  A pass over the positions that only looks: it stops at the first position whose value differs.
\<close>

lemma sparse_get_pass:
  "sparse_loop (sparse_get_body info n) todo run i (h, m) = (failed, i', run', h', m') \<Longrightarrow>
     (failed \<longleftrightarrow> (\<exists>(x, y)\<in>set (sparse_positions n (min todo run) m). sm_get info h x y \<noteq> sparse_value x y)) \<and> h' = h"
proof (induction todo arbitrary: run i m)
  case 0
  then show ?case by (cases run) auto
next
  case (Suc todo)
  show ?case
  proof (cases run)
    case 0
    then show ?thesis using Suc.prems by auto
  next
    case (Suc r)
    then show ?thesis
      using Suc.prems Suc.IH [of r "Suc i" "snd (sparse_coord n m)"]
      by (auto simp: sparse_get_body_def Let_def case_prod_beta sparse_positions_Suc split: if_splits)
  qed
qed

text \<open>Seeding again replays the positions.\<close>

lemma stress_mwc32_core:
  "mwc_core m = mwc_core m' \<Longrightarrow>
   fst (stress_mwc32 m) = fst (stress_mwc32 m') \<and> mwc_core (snd (stress_mwc32 m)) = mwc_core (snd (stress_mwc32 m'))"
  by (simp add: stress_mwc32_def mwc_core_def Let_def)

lemma sparse_coord_core:
  assumes "mwc_core m = mwc_core m'"
  shows "fst (sparse_coord n m) = fst (sparse_coord n m')"
    and "mwc_core (snd (sparse_coord n m)) = mwc_core (snd (sparse_coord n m'))"
  using stress_mwc32_core [OF assms] stress_mwc32_core [of "snd (stress_mwc32 m)" "snd (stress_mwc32 m')"]
  by (auto simp: sparse_coord_def stress_mwc32modn_def Let_def case_prod_beta)

lemma sparse_positions_core:
  "mwc_core m = mwc_core m' \<Longrightarrow> sparse_positions n k m = sparse_positions n k m'"
proof (induction k arbitrary: m m')
  case (Suc k)
  show ?case
    unfolding sparse_positions_Suc sparse_coord_core(1) [OF Suc.prems]
    by (simp add: Suc.IH [OF sparse_coord_core(2) [OF Suc.prems]])
qed simp

lemma sparse_positions_seed:
  "sparse_positions n k (stress_mwc_seed_set w z m) = sparse_positions n k (stress_mwc_seed_set w z m')"
  by (rule sparse_positions_core) (simp add: stress_mwc_seed_set_def mwc_flush_def mwc_core_def)

text \<open>The seeded generator of a test, and the store its writes leave, if it could be created.\<close>

definition sparse_seed :: "sparse_world \<Rightarrow> mwc" where
  "sparse_seed s = (let (w, m) = stress_mwc32 (sw_mwc s); (z, m) = stress_mwc32 m in stress_mwc_seed_set w z m)"

definition sparse_filled ::
    "'h stress_sparsematrix_method_info \<Rightarrow> sparse_env \<Rightarrow> u64 \<Rightarrow> u32 \<Rightarrow> sparse_world \<Rightarrow> 'h option" where
  "sparse_filled info env items n s =
     map_option (\<lambda>h. fst (snd (snd (snd (sparse_loop (sparse_put_body info env n) (unat items) (sw_run s) 0
         (h, sparse_seed s))))))
       (fst (sm_create info env items n n (sw_prime s)))"

lemma sparse_positions_mono: "j \<le> k \<Longrightarrow> set (sparse_positions n j m) \<subseteq> set (sparse_positions n k m)"
proof (induction j arbitrary: k m)
  case (Suc j)
  then show ?case by (cases k) (auto simp: sparse_positions_Suc)
qed simp

lemma sparse_test_codes [simp]:
  "SPARSE_TEST_ENOMEM \<noteq> SPARSE_TEST_FAILED" "SPARSE_TEST_OK \<noteq> SPARSE_TEST_FAILED"
  by (simp_all add: SPARSE_TEST_ENOMEM_def SPARSE_TEST_FAILED_def SPARSE_TEST_OK_def)

context sparse_store
begin

definition agree :: "u32 \<Rightarrow> 'h \<Rightarrow> bool" where
  "agree n h \<longleftrightarrow> (\<forall>x<n. \<forall>y<n. get h x y = 0 \<or> get h x y = sparse_value x y)"

definition holds :: "'h \<Rightarrow> (u32 \<times> u32) list \<Rightarrow> bool" where
  "holds h ps \<longleftrightarrow> (\<forall>(x, y)\<in>set ps. get h x y = sparse_value x y)"

lemma put_pass:
  assumes "sm_get info = get" "sm_put info = put" "0 < n"
    and "sparse_loop (sparse_put_body info env n) todo run i (h, m) = (failed, i', run', h', m')"
    and "inv (todo + k) n h" "agree n h" "\<not> failed"
  shows "inv k n h' \<and> agree n h' \<and> holds h' (sparse_positions n (min todo run) m) \<and>
    (\<forall>x<n. \<forall>y<n. get h x y \<noteq> 0 \<longrightarrow> get h' x y = get h x y) \<and> run' = run - Suc todo"
  using assms(4-7)
proof (induction todo arbitrary: run i h m)
  case 0
  then show ?case by (cases run) (auto simp: holds_def)
next
  case (Suc todo)
  show ?case
  proof (cases run)
    case 0
    then show ?thesis using Suc.prems inv_less [of "Suc todo + k" n h k] by (auto simp: holds_def)
  next
    case r: (Suc r)
    define x where "x = fst (fst (sparse_coord n m))"
    define y where "y = snd (fst (sparse_coord n m))"
    define m1 where "m1 = snd (sparse_coord n m)"
    have xy: "x < n" "y < n" and c: "sparse_coord n m = ((x, y), m1)"
      using sparse_coord_less [OF assms(3)] by (simp_all add: x_def y_def m1_def)
    define h1 where "h1 = (if get h x y = 0 then snd (put (se_malloc env i) h x y (sparse_value x y)) else h)"
    have inv1: "inv (todo + k) n h1"
      using Suc.prems(2) put_inv [of "todo + k" n h x y] xy inv_less [of "Suc todo + k" n h "todo + k"]
      by (auto simp: h1_def)
    have body: "sparse_put_body info env n i (h, m) =
        (get h x y = 0 \<and> fst (put (se_malloc env i) h x y (sparse_value x y)) < 0, h1, m1)"
      by (simp add: sparse_put_body_def c assms(1,2) Let_def case_prod_beta h1_def)
    have step: "sparse_loop (sparse_put_body info env n) todo r (Suc i) (h1, m1) = (failed, i', run', h', m')"
      and ok: "get h x y = 0 \<longrightarrow> 0 \<le> fst (put (se_malloc env i) h x y (sparse_value x y))"
      using Suc.prems(1,4) r
      by (auto simp: body split: if_splits)
    have get1: "get h1 x' y' = (if x' = x \<and> y' = y then sparse_value x y else get h x' y')" if "x' < n" "y' < n" for x' y'
      using ok Suc.prems(2,3) xy that put_get [of "todo + k" n h x y x' y' "se_malloc env i" "sparse_value x y"]
      by (auto simp: h1_def agree_def)
    have "agree n h1" using Suc.prems(3) get1 by (simp add: agree_def)
    note ih = Suc.IH [OF step inv1 this Suc.prems(4)]
    have mono: "get h x' y' \<noteq> 0 \<longrightarrow> get h1 x' y' = get h x' y'" if "x' < n" "y' < n" for x' y'
    proof (cases "x' = x \<and> y' = y")
      case True
      then show ?thesis
        using get1 [OF that] Suc.prems(3) xy unfolding agree_def by metis
    next
      case False
      then show ?thesis using get1 [OF that] by (simp only: if_not_P if_False) simp
    qed
    have "get h' x y = sparse_value x y"
      using ih xy get1 [OF xy] sparse_value_nonzero by auto
    then show ?thesis
      using ih mono r c by (auto simp: holds_def sparse_positions_Suc)
  qed
qed

lemma put_pass_ok:
  assumes "sm_get info = get" "sm_put info = put" "0 < n" "\<And>i. se_malloc env i = (True, True)"
    and "sparse_loop (sparse_put_body info env n) todo run i (h, m) = (failed, rest)"
    and "inv (todo + k) n h"
  shows "\<not> failed"
  using assms(5,6)
proof (induction todo arbitrary: run i h m)
  case 0
  then show ?case by (cases run) auto
next
  case (Suc todo)
  show ?case
  proof (cases run)
    case 0
    then show ?thesis using Suc.prems by auto
  next
    case r: (Suc r)
    define x where "x = fst (fst (sparse_coord n m))"
    define y where "y = snd (fst (sparse_coord n m))"
    define m1 where "m1 = snd (sparse_coord n m)"
    have xy: "x < n" "y < n" and c: "sparse_coord n m = ((x, y), m1)"
      using sparse_coord_less [OF assms(3)] by (simp_all add: x_def y_def m1_def)
    define h1 where "h1 = (if get h x y = 0 then snd (put (se_malloc env i) h x y (sparse_value x y)) else h)"
    have "inv (todo + k) n h1"
      using Suc.prems(2) put_inv [of "todo + k" n h x y] xy inv_less [of "Suc todo + k" n h "todo + k"]
      by (auto simp: h1_def)
    moreover have "0 \<le> fst (put (se_malloc env i) h x y (sparse_value x y))"
      using Suc.prems(2) xy put_ok [of "todo + k" n h x y] assms(4) by simp
    then have "sparse_put_body info env n i (h, m) = (False, h1, m1)"
      by (simp add: sparse_put_body_def c assms(1,2) Let_def case_prod_beta h1_def)
    then have "sparse_loop (sparse_put_body info env n) todo r (Suc i) (h1, m1) = (failed, rest)"
      using Suc.prems(1) r by simp
    ultimately show ?thesis using Suc.IH by blast
  qed
qed

lemma test_outcome:
  assumes info: "sm_create info = create" "sm_get info = get" "sm_put info = put"
    and "0 < n" and ok: "\<And>i. se_malloc env i = (True, True)"
  shows "case sparse_filled info env items n s of
      None \<Rightarrow> fst (stress_sparse_method_test info env fault items n ti s) = SPARSE_TEST_ENOMEM
    | Some h \<Rightarrow>
        holds h (sparse_positions n (min (unat items) (sw_run s)) (sparse_seed s))
        \<and> fst (stress_sparse_method_test info env fault items n ti s) =
          (if \<exists>(x, y)\<in>set (sparse_positions n (min (unat items) (sw_run s - Suc (unat items))) (sparse_seed s)).
               get (fault h) x y \<noteq> sparse_value x y
           then SPARSE_TEST_FAILED else SPARSE_TEST_OK)"
proof -
  obtain w m1 where w: "stress_mwc32 (sw_mwc s) = (w, m1)" by fastforce
  obtain z m2 where z: "stress_mwc32 m1 = (z, m2)" by fastforce
  obtain c p where c: "create env items n n (sw_prime s) = (c, p)" by fastforce
  note defs = stress_sparse_method_test_def sparse_filled_def sparse_seed_def w z c info Let_def
  show ?thesis
  proof (cases c)
    case None
    then show ?thesis by (simp add: defs)
  next
    case (Some h0)
    obtain failed i run h m where put: "sparse_loop (sparse_put_body info env n) (unat items) (sw_run s) 0
        (h0, stress_mwc_seed_set w z m2) = (failed, i, run, h, m)"
      by (metis prod_cases5)
    have inv: "inv (unat items + 0) n h0" using create_inv c Some by simp
    have nf: "\<not> failed" by (rule put_pass_ok [OF info(2,3) assms(4) ok put inv])
    have "agree n h0" using create_get c Some by (auto simp: agree_def)
    note pass = put_pass [OF info(2,3) assms(4) put inv this nf]
    obtain failed' i' run' h' m' where get: "sparse_loop (sparse_get_body info n) (unat items) run 0
        (fault h, stress_mwc_seed_set w z m) = (failed', i', run', h', m')"
      by (metis prod_cases5)
    have seed: "sparse_positions n k (stress_mwc_seed_set w z m) = sparse_positions n k (stress_mwc_seed_set w z m2)" for k
      by (rule sparse_positions_seed)
    have "failed' \<longleftrightarrow> (\<exists>(x, y)\<in>set (sparse_positions n (min (unat items) run) (stress_mwc_seed_set w z m2)).
        get (fault h) x y \<noteq> sparse_value x y)"
      using sparse_get_pass [OF get] by (simp add: info seed)
    then show ?thesis
      using pass nf Some put get
      by (simp add: defs case_prod_beta)
  qed
qed

lemma holds_sub:
  "holds h ps \<Longrightarrow> set qs \<subseteq> set ps \<Longrightarrow> \<not> (\<exists>(x, y)\<in>set qs. get h x y \<noteq> sparse_value x y)"
  unfolding holds_def by (auto dest!: subsetD bspec)

lemma holds_differ:
  "holds h ps \<Longrightarrow> (\<exists>(x, y)\<in>set ps. get h' x y \<noteq> sparse_value x y) \<longleftrightarrow> (\<exists>(x, y)\<in>set ps. get h' x y \<noteq> get h x y)"
  unfolding holds_def by (intro bex_cong) (auto dest: bspec)

lemma no_false_alarm:
  assumes "sm_create info = create" "sm_get info = get" "sm_put info = put"
    and "0 < n" and "\<And>i. se_malloc env i = (True, True)"
  shows "fst (stress_sparse_method_test info env (\<lambda>h. h) items n ti s) \<noteq> SPARSE_TEST_FAILED"
proof -
  have sub: "set (sparse_positions n (min (unat items) (sw_run s - Suc (unat items))) m)
      \<subseteq> set (sparse_positions n (min (unat items) (sw_run s)) m)" for m
    by (rule sparse_positions_mono) linarith
  show ?thesis
    using test_outcome [where fault = "\<lambda>h. h" and items = items and s = s and ti = ti, OF assms]
    by (auto simp: holds_sub [OF _ sub] split: option.splits)
qed

lemma detects:
  assumes "sm_create info = create" "sm_get info = get" "sm_put info = put"
    and "0 < n" and "\<And>i. se_malloc env i = (True, True)"
    and "unat items + unat items < sw_run s"
    and "sparse_filled info env items n s = Some h"
  shows "fst (stress_sparse_method_test info env fault items n ti s) = SPARSE_TEST_FAILED \<longleftrightarrow>
    (\<exists>(x, y)\<in>set (sparse_positions n (unat items) (sparse_seed s)). get (fault h) x y \<noteq> get h x y)"
proof -
  have m: "min (unat items) (sw_run s) = unat items"
      "min (unat items) (sw_run s - Suc (unat items)) = unat items"
    using assms(6) by linarith+
  let ?ps = "sparse_positions n (unat items) (sparse_seed s)"
  have h: "holds h ?ps"
    and rc: "fst (stress_sparse_method_test info env fault items n ti s) =
      (if \<exists>(x, y)\<in>set ?ps. get (fault h) x y \<noteq> sparse_value x y then SPARSE_TEST_FAILED else SPARSE_TEST_OK)"
    using test_outcome [where fault = fault and items = items and s = s and ti = ti, OF assms(1-5)] assms(7)
    unfolding m by simp_all
  show ?thesis unfolding rc holds_differ [OF h] by simp
qed

end

section \<open>The hash tables\<close>

lemma sparse_xy_inj: "sparse_xy x y = sparse_xy x' y' \<longleftrightarrow> x = x' \<and> y = y'"
proof -
  have lo: "ucast (sparse_xy x y) = y" for x y
    unfolding sparse_xy_def by (rule bit_word_eqI) (auto simp: bit_simps)
  have hi: "ucast (drop_bit 32 (sparse_xy x y)) = x" for x y
    unfolding sparse_xy_def by (rule bit_word_eqI) (auto simp: bit_simps dest: bit_imp_le_length)
  show ?thesis by (metis lo hi)
qed

lemma chain_find_set:
  "chain_find (chain_set c k v) k' =
     (if k' = k then map_option (\<lambda>_. v) (chain_find c k) else chain_find c k')"
  by (induction c) auto

lemma sparse_hash_less: "0 < n \<Longrightarrow> sparse_hash n x y < unat n"
  unfolding sparse_hash_def by (simp add: unat_mod_distrib word_less_nat_alt)

text \<open>A table of chains read as a matrix: absent is zero.\<close>

definition chains_get :: "u64 \<Rightarrow> sparse_node list list \<Rightarrow> u32 \<Rightarrow> u32 \<Rightarrow> u32" where
  "chains_get n t x y = (case chain_find (t ! sparse_hash n x y) (sparse_xy x y) of Some v \<Rightarrow> v | None \<Rightarrow> 0)"

lemma chains_get_set:
  assumes "0 < n" "length t = unat n" "chain_find (t ! sparse_hash n x y) (sparse_xy x y) \<noteq> None"
  shows "chains_get n (t[sparse_hash n x y := chain_set (t ! sparse_hash n x y) (sparse_xy x y) v]) x' y' =
    (if x' = x \<and> y' = y then v else chains_get n t x' y')"
proof -
  have h: "sparse_hash n x y < length t" using assms sparse_hash_less by simp
  obtain u where u: "chain_find (t ! sparse_hash n x y) (sparse_xy x y) = Some u" using assms(3) by blast
  show ?thesis
  proof (cases "x' = x \<and> y' = y")
    case True
    then show ?thesis by (simp add: chains_get_def h u chain_find_set)
  next
    case False
    then have ne: "sparse_xy x' y' \<noteq> sparse_xy x y" by (auto simp: sparse_xy_inj)
    show ?thesis
      unfolding if_not_P [OF False]
      by (cases "sparse_hash n x' y' = sparse_hash n x y") (simp_all add: chains_get_def h chain_find_set ne)
  qed
qed

lemma chains_get_add:
  assumes "0 < n" "length t = unat n"
  shows "chains_get n (t[sparse_hash n x y := (sparse_xy x y, v) # t ! sparse_hash n x y]) x' y' =
    (if x' = x \<and> y' = y then v else chains_get n t x' y')"
proof -
  have h: "sparse_hash n x y < length t" using assms sparse_hash_less by simp
  show ?thesis
  proof (cases "x' = x \<and> y' = y")
    case True
    then show ?thesis by (simp add: chains_get_def h)
  next
    case False
    then have ne: "sparse_xy x y \<noteq> sparse_xy x' y'" by (auto simp: sparse_xy_inj)
    show ?thesis
      unfolding if_not_P [OF False]
      by (cases "sparse_hash n x' y' = sparse_hash n x y") (simp_all add: chains_get_def h ne)
  qed
qed

lemma chains_get_none:
  "chain_find (t ! sparse_hash n x y) (sparse_xy x y) = None \<Longrightarrow> chains_get n t x y = 0"
  by (simp add: chains_get_def)

lemma hash_get_chains: "hash_get t x y = chains_get (sh_n t) (sh_table t) x y"
  by (simp add: hash_get_def hash_get_node_def chains_get_def)

lemma qhash_get_chains: "qhash_get t x y = chains_get (qh_n t) (qh_table t) x y"
  by (simp add: qhash_get_def qhash_get_node_def chains_get_def)

definition hash_inv :: "nat \<Rightarrow> u32 \<Rightarrow> sparse_hash_table \<Rightarrow> bool" where
  "hash_inv k n t \<longleftrightarrow> 0 < sh_n t \<and> length (sh_table t) = unat (sh_n t)"

interpretation hash: sparse_store hash_create hash_put hash_del hash_get hash_inv
proof
  fix env items n p h p' x y
  assume c: "hash_create env items n n p = (Some h, p')"
  obtain q r where q: "stress_prime64_next_get (se_isqrt1 env) (se_prime_flag env) items p = (q, r)" "0 < q"
    using prime64_next_pos [of "se_isqrt1 env" "se_prime_flag env" items p] by (metis prod.collapse)
  then show "hash_inv (unat items) n h"
    using c by (auto simp: hash_create_def hash_inv_def split: if_splits)
  show "hash_get h x y = 0"
    using c q sparse_hash_less [of q x y]
    by (auto simp: hash_create_def hash_get_def hash_get_node_def split: if_splits)
qed (auto simp: hash_inv_def hash_put_def hash_del_def hash_get_chains hash_get_node_def Let_def
    chains_get_set chains_get_add chains_get_none split: option.splits)

definition qhash_inv :: "nat \<Rightarrow> u32 \<Rightarrow> sparse_qhash_table \<Rightarrow> bool" where
  "qhash_inv k n t \<longleftrightarrow>
     0 < qh_n t \<and> length (qh_table t) = unat (qh_n t) \<and> unat (qh_idx t) + k \<le> unat (qh_n_nodes t)"

lemma unat_lt64: "unat (m :: u64) < 2 ^ 64"
  using unsigned_less [of m] by simp

lemma qhash_idx_step:
  fixes i m :: u64
  assumes "unat i + Suc k \<le> unat m"
  shows "i < m" "unat (i + 1) + k \<le> unat m"
proof -
  show "i < m" using assms by (simp add: word_less_nat_alt)
  have "unat i + 1 < 2 ^ 64" using assms unat_lt64 [of m] by linarith
  then have "unat (i + 1) = unat i + 1" by (subst unat_add_lem [THEN iffD1]) simp_all
  then show "unat (i + 1) + k \<le> unat m" using assms by simp
qed

lemma qhash_put_room:
  assumes "qhash_inv (Suc k) n t"
  shows "fst (qhash_put ok t x y v) = 0"
    and "qhash_inv k n (snd (qhash_put ok t x y v))"
    and "qhash_get (snd (qhash_put ok t x y v)) x' y' = (if x' = x \<and> y' = y then v else qhash_get t x' y')"
proof -
  have room: "(qh_n_nodes t \<le> qh_idx t) = False" "unat (qh_idx t + 1) + k \<le> unat (qh_n_nodes t)"
      "unat (qh_idx t) + k \<le> unat (qh_n_nodes t)"
    using assms qhash_idx_step [of "qh_idx t" k "qh_n_nodes t"] by (auto simp: qhash_inv_def not_le)
  show "fst (qhash_put ok t x y v) = 0"
    by (simp add: qhash_put_def room Let_def)
  show "qhash_inv k n (snd (qhash_put ok t x y v))"
    using assms room by (simp add: qhash_put_def Let_def qhash_inv_def)
  show "qhash_get (snd (qhash_put ok t x y v)) x' y' = (if x' = x \<and> y' = y then v else qhash_get t x' y')"
    using assms room unfolding qhash_get_chains
    by (simp add: qhash_put_def Let_def qhash_inv_def chains_get_set chains_get_add)
qed

interpretation qhash: sparse_store qhash_create qhash_put qhash_del qhash_get qhash_inv
proof
  fix env items n p h p' x y
  assume c: "qhash_create env items n n p = (Some h, p')"
  obtain q r where q: "stress_prime64_next_get (se_isqrt1 env) (se_prime_flag env) items p = (q, r)" "0 < q"
    using prime64_next_pos [of "se_isqrt1 env" "se_prime_flag env" items p] by (metis prod.collapse)
  then show "qhash_inv (unat items) n h"
    using c by (auto simp: qhash_create_def qhash_inv_def split: if_splits)
  show "qhash_get h x y = 0"
    using c q sparse_hash_less [of q x y]
    by (auto simp: qhash_create_def qhash_get_def qhash_get_node_def split: if_splits)
qed (simp_all add: qhash_put_room, auto simp: qhash_inv_def qhash_del_def qhash_get_chains qhash_get_node_def Let_def
    chains_get_set chains_get_none split: option.splits)

section \<open>The sorted lists\<close>

lemma row_find_zero:
  "row_find (row_zero row x) x' = (if x' = x then map_option (\<lambda>_. 0) (row_find row x) else row_find row x')"
  by (induction row) auto

lemma fst_row_zero [simp]: "map fst (row_zero row x) = map fst row"
  by (induction row) auto

lemma list_del_rows [simp]: "map fst (list_del rows x y) = map fst rows"
  by (induction rows x y rule: list_del.induct) auto

lemma row_find_none: "x \<notin> fst ` set row \<Longrightarrow> row_find row x = None"
  by (induction row) auto

lemma list_get_none: "y \<notin> fst ` set rows \<Longrightarrow> list_get_node rows x y = None"
  by (induction rows x y rule: list_get_node.induct) auto

lemma list_get_node_del:
  "list_get_node (list_del rows x y) x' y' =
     (if x' = x \<and> y' = y then map_option (\<lambda>_. 0) (list_get_node rows x y) else list_get_node rows x' y')"
  by (induction rows x y rule: list_del.induct) (auto simp: row_find_zero)

text \<open>One row.\<close>

definition row_sorted :: "sparse_x_list \<Rightarrow> bool" where
  "row_sorted row \<longleftrightarrow> sorted_wrt (<) (map fst row)"

lemma list_put_x_keys: "fst ` set (snd (list_put_x ok row x v)) \<subseteq> insert x (fst ` set row)"
proof (induction ok row x v rule: list_put_x.induct)
  case (2 ok node nodes x v)
  then show ?case by (cases "fst node = x"; cases "fst node > x"; cases ok) (auto simp: Let_def case_prod_beta)
qed simp

lemma list_put_x_sorted: "row_sorted row \<Longrightarrow> row_sorted (snd (list_put_x ok row x v))"
proof (induction ok row x v rule: list_put_x.induct)
  case (2 ok node nodes x v)
  then show ?case
    using list_put_x_keys [of ok nodes x v]
    by (auto simp: row_sorted_def Let_def case_prod_beta) (force simp: neq_iff)+
qed (simp add: row_sorted_def)

lemma list_put_x_find:
  "row_sorted row \<Longrightarrow> row_find (snd (list_put_x ok row x v)) x' =
     (if x' = x \<and> 0 \<le> fst (list_put_x ok row x v) then Some v else row_find row x')"
proof (induction ok row x v rule: list_put_x.induct)
  case (2 ok node nodes x v)
  have "x' \<notin> fst ` set (node # nodes)" if "x' = x" "fst node > x"
    using that 2(2) by (auto simp: row_sorted_def)
  then show ?case
    using 2 by (auto simp: row_sorted_def Let_def case_prod_beta row_find_none)
qed simp

lemma list_put_x_ok: "fst (list_put_x True row x v) = 0"
  by (induction row) (auto simp: Let_def case_prod_beta)

definition list_inv :: "nat \<Rightarrow> u32 \<Rightarrow> sparse_y_list \<Rightarrow> bool" where
  "list_inv k n rows \<longleftrightarrow> sorted_wrt (<) (map fst rows) \<and> (\<forall>row\<in>snd ` set rows. row_sorted row)"

lemma list_put_keys: "fst ` set (snd (list_put ok rows x y v)) \<subseteq> insert y (fst ` set rows)"
  by (induction ok rows x y v rule: list_put.induct)
    (auto simp: list_new_row_def Let_def case_prod_beta split: if_splits)

lemma list_put_inv: "list_inv k n rows \<Longrightarrow> list_inv j n (snd (list_put ok rows x y v))"
proof (induction ok rows x y v rule: list_put.induct)
  case (1 ok x y v)
  then show ?case by (simp add: list_inv_def list_new_row_def Let_def case_prod_beta list_put_x_sorted row_sorted_def)
next
  case (2 ok y' row rows x y v)
  have new: "row_sorted (snd (list_put_x (snd ok) [] x v))"
    by (rule list_put_x_sorted) (simp add: row_sorted_def)
  show ?case
    using 2 list_put_keys [of ok rows x y v] new
    by (auto simp: list_inv_def list_new_row_def Let_def case_prod_beta list_put_x_sorted) (force simp: neq_iff)+
qed

lemma list_put_get:
  "list_inv k n rows \<Longrightarrow> list_get (snd (list_put ok rows x y v)) x' y' =
     (if x' = x \<and> y' = y \<and> 0 \<le> fst (list_put ok rows x y v) then v else list_get rows x' y')"
proof (induction ok rows x y v rule: list_put.induct)
  case (1 ok x y v)
  then show ?case by (auto simp: list_get_def list_new_row_def Let_def case_prod_beta)
next
  case (2 ok y' row rows x y v)
  have row: "row_sorted row" and rest: "list_inv k n rows"
    using 2(2) by (auto simp: list_inv_def)
  consider "y' = y" | "y' \<noteq> y" "y' > y" | "y' \<noteq> y" "\<not> y' > y" by blast
  then show ?case
  proof cases
    case 1
    then show ?thesis by (auto simp: list_get_def Let_def case_prod_beta list_put_x_find [OF row])
  next
    case c: 2
    then have "y \<notin> fst ` set rows"
      using 2(2) by (auto simp: list_inv_def)
    then show ?thesis
      using c by (auto simp: list_get_def list_new_row_def Let_def case_prod_beta list_get_none)
  next
    case 3
    then show ?thesis
      using 2(1) [OF _ _ rest] by (auto simp: list_get_def Let_def case_prod_beta)
  qed
qed

lemma list_put_ok: "ok = (True, True) \<Longrightarrow> fst (list_put ok rows x y v) = 0"
  by (induction ok rows x y v rule: list_put.induct)
    (auto simp: list_new_row_def Let_def case_prod_beta list_put_x_ok)

interpretation lst: sparse_store list_create list_put list_del list_get list_inv
proof
  fix k n h x y assume "list_inv k n h"
  moreover have "row_sorted (row_zero row x) = row_sorted row" for row by (simp add: row_sorted_def)
  moreover have "\<forall>row\<in>snd ` set (list_del h x y). \<exists>row'\<in>snd ` set h. row = row' \<or> row = row_zero row' x"
    by (induction h x y rule: list_del.induct) auto
  ultimately show "list_inv k n (list_del h x y)"
    unfolding list_inv_def list_del_rows by metis
qed (simp_all add: list_create_def list_inv_def [of _ _ "[]"] list_get_def [of "[]"] list_put_get list_put_inv list_put_ok
    list_get_def [of "list_del _ _ _"] list_get_node_del, auto simp: list_inv_def list_get_def split: option.splits)

section \<open>The mapped array\<close>

definition mmap_inv :: "nat \<Rightarrow> u32 \<Rightarrow> sparse_mmap \<Rightarrow> bool" where
  "mmap_inv k n m \<longleftrightarrow> mm_x m = n \<and> mm_y m = n"

lemma unat_lt32: "unat (v :: u32) < 2 ^ 64"
proof -
  have "unat v < 2 ^ 32" using unsigned_less [of v] by simp
  also have "(2::nat) ^ 32 \<le> 2 ^ 64" by simp
  finally show ?thesis .
qed

text \<open>The offset of a position does not wrap: it is the row-major index.\<close>

lemma mmap_offset_bound:
  assumes "x < mm_x m" "y < mm_y m"
  shows "unat (mmap_offset m x y) = unat x + unat (mm_x m) * unat y"
    and "unat (mmap_offset m x y) < unat (mm_x m) * unat (mm_y m)"
proof -
  let ?X = "unat (mm_x m)" and ?Y = "unat (mm_y m)"
  have lt: "unat x < ?X" "unat y < ?Y" "?X < 2 ^ 32" "?Y < 2 ^ 32"
    using assms unsigned_less [of "mm_x m"] unsigned_less [of "mm_y m"] by (simp_all add: word_less_nat_alt)
  have "unat x + ?X * unat y < ?X + ?X * unat y" using lt by simp
  also have "\<dots> = ?X * Suc (unat y)" by simp
  also have "\<dots> \<le> ?X * ?Y" using lt by (intro mult_le_mono) auto
  finally have b: "unat x + ?X * unat y < ?X * ?Y" .
  have "?X \<le> 2 ^ 32 - 1" "?Y \<le> 2 ^ 32 - 1" using lt(3,4) by linarith+
  then have "?X * ?Y \<le> (2 ^ 32 - 1) * (2 ^ 32 - 1)" by (rule mult_le_mono)
  then have w: "unat x + ?X * unat y < 2 ^ 64" using b by simp
  have u: "unat (ucast v :: u64) = unat v" for v :: u32
    by (simp add: unsigned_ucast_eq take_bit_nat_eq_self_iff unat_lt32 [simplified])
  have "unat (ucast (mm_x m) * ucast y :: u64) = ?X * unat y"
    using w by (subst unat_mult_lem [THEN iffD1]) (simp_all add: u)
  then show "unat (mmap_offset m x y) = unat x + ?X * unat y"
    using w unfolding mmap_offset_def by (subst unat_add_lem [THEN iffD1]) (simp_all add: u)
  with b show "unat (mmap_offset m x y) < ?X * ?Y" by simp
qed

lemma mmap_offset_inj:
  assumes "x < mm_x m" "y < mm_y m" "x' < mm_x m" "y' < mm_y m"
  shows "mmap_offset m x y = mmap_offset m x' y' \<longleftrightarrow> x = x' \<and> y = y'"
proof
  assume "mmap_offset m x y = mmap_offset m x' y'"
  then have e: "unat x + unat (mm_x m) * unat y = unat x' + unat (mm_x m) * unat y'"
    using mmap_offset_bound(1) [OF assms(1,2)] mmap_offset_bound(1) [OF assms(3,4)] by simp
  have "unat x < unat (mm_x m)" "unat x' < unat (mm_x m)"
    using assms by (simp_all add: word_less_nat_alt)
  then have "unat x = unat x'" "unat y = unat y'"
    using arg_cong [OF e, of "\<lambda>n. n mod unat (mm_x m)"] arg_cong [OF e, of "\<lambda>n. n div unat (mm_x m)"]
    by simp_all
  then show "x = x' \<and> y = y'" by (simp add: unsigned_word_eqI)
qed simp

lemma mmap_get_inv: "mmap_inv k n m \<Longrightarrow> x < n \<Longrightarrow> y < n \<Longrightarrow> mmap_get m x y = mm_mem m (mmap_offset m x y)"
  by (auto simp: mmap_inv_def mmap_get_def)

lemma mmap_offset_mem [simp]: "mmap_offset (m\<lparr>mm_mem := f\<rparr>) x y = mmap_offset m x y"
  by (simp add: mmap_offset_def)

lemma mmap_write_get:
  assumes "mmap_inv k n m" "x < n" "y < n" "x' < n" "y' < n"
  shows "mmap_get (m\<lparr>mm_mem := (mm_mem m)(mmap_offset m x y := v)\<rparr>) x' y' =
    (if x' = x \<and> y' = y then v else mmap_get m x' y')"
proof -
  have "mmap_inv k n (m\<lparr>mm_mem := (mm_mem m)(mmap_offset m x y := v)\<rparr>)"
    using assms(1) by (simp add: mmap_inv_def)
  then show ?thesis
    using assms mmap_offset_inj [of x' m y' x y] by (auto simp: mmap_get_inv) (auto simp: mmap_inv_def)
qed

lemma mmap_put_inv_eq:
  "mmap_inv k n m \<Longrightarrow> x < n \<Longrightarrow> y < n \<Longrightarrow>
   mmap_put ok m x y v = (0, m\<lparr>mm_mem := (mm_mem m)(mmap_offset m x y := v)\<rparr>)"
  by (auto simp: mmap_put_def mmap_inv_def)

lemma mmap_del_inv_eq:
  "mmap_inv k n m \<Longrightarrow> x < n \<Longrightarrow> y < n \<Longrightarrow>
   mmap_del m x y = m\<lparr>mm_mem := (mm_mem m)(mmap_offset m x y := 0)\<rparr>"
  by (auto simp: mmap_del_def mmap_inv_def)

interpretation mapped: sparse_store mmap_create mmap_put mmap_del mmap_get mmap_inv
proof
  fix k n h x y assume "mmap_inv k n h"
  then show "mmap_inv k n (mmap_del h x y)" by (simp add: mmap_inv_def mmap_del_def)
qed (auto simp: mmap_put_inv_eq mmap_del_inv_eq mmap_write_get,
  auto simp: mmap_create_def mmap_inv_def mmap_get_def Let_def split: if_splits)

section \<open>The stressor on sound and on faulty hardware\<close>

text \<open>Tests that never report a mismatch at a given size.\<close>

definition sound_tests :: "u64 \<Rightarrow> u32 \<Rightarrow> sparse_test list \<Rightarrow> bool" where
  "sound_tests items n ts \<longleftrightarrow> (\<forall>t\<in>set ts. \<forall>ti s. fst (t items n ti s) \<noteq> SPARSE_TEST_FAILED)"

lemma sparse_all_methods_pass: "sound_tests items n ts \<Longrightarrow> \<not> fst (sparse_all_methods ts items n tis s)"
proof (induction ts arbitrary: tis s)
  case (Cons t ts)
  have "fst (t items n ti s) \<noteq> SPARSE_TEST_FAILED" "sound_tests items n ts" for ti s
    using Cons.prems by (simp_all add: sound_tests_def)
  then show ?case using Cons.IH by (cases tis) (simp_all add: Let_def case_prod_beta)
qed simp

lemma sparse_round_pass:
  assumes "sound_tests items n tests" "method \<le> length tests"
  shows "\<not> fst (sparse_round method tests items n tis s)"
proof (cases "method = 0")
  case True
  then show ?thesis using sparse_all_methods_pass [OF assms(1)] by (simp add: sparse_round_def)
next
  case False
  then have "tests ! (method - 1) \<in> set tests" using assms(2) by simp
  then show ?thesis
    using False assms(1) by (auto simp: sparse_round_def sound_tests_def Let_def case_prod_beta)
qed

lemma sparse_rounds_pass:
  assumes "sound_tests items n tests" "method \<le> length tests"
  shows "\<not> fst (sparse_rounds method tests items n cont tis s)"
proof (induction cont arbitrary: tis s)
  case 0
  then show ?case
    using sparse_round_pass [OF assms, of tis s] by (simp add: Let_def case_prod_beta)
next
  case (Suc cont)
  then show ?case
    using sparse_round_pass [OF assms, of tis s] by (simp add: Let_def case_prod_beta)
qed

lemma sparsematrix_methods_sound:
  assumes "\<And>i. se_malloc env i = (True, True)" "0 < n"
  shows "sound_tests items n (map snd (sparsematrix_methods env))"
  using hash.no_false_alarm [where info = hash_method, OF _ _ _ assms(2,1)]
    lst.no_false_alarm [where info = list_method, OF _ _ _ assms(2,1)]
    mapped.no_false_alarm [where info = mmap_method, OF _ _ _ assms(2,1)]
    qhash.no_false_alarm [where info = qhash_method, OF _ _ _ assms(2,1)]
  by (simp add: sound_tests_def sparsematrix_methods_def hash_method_def list_method_def mmap_method_def
      qhash_method_def)

text \<open>
  C21: on sound hardware, when every allocation of a put succeeds, the stressor with any of its
  methods, sizes and item counts reports no mismatch and exits successfully, however the run is cut
  short and whether or not the stores can be created.
\<close>

theorem sparse_stressor_passes:
  assumes "\<And>i. se_malloc env i = (True, True)"
    and "0 < sparse_size cur ss maximize minimize"
    and "unat (snd (sparse_setting cur ''sparsematrix-method'' ss 0)) \<le> 4"
  shows "fst (stress_sparsematrix cur ss maximize minimize (map snd (sparsematrix_methods env)) cont s) = EXIT_SUCCESS"
proof -
  have "unat (snd (sparse_setting cur ''sparsematrix-method'' ss 0)) \<le> length (map snd (sparsematrix_methods env))"
    using assms(3) by (simp add: sparsematrix_methods_def)
  from sparse_rounds_pass [OF sparsematrix_methods_sound [OF assms(1,2)] this] show ?thesis
    by (simp add: stress_sparsematrix_def Let_def case_prod_beta)
qed

definition demo_env :: sparse_env where
  "demo_env = \<lparr>se_alloc = (\<lambda>_. True), se_malloc = (\<lambda>_. (True, True)), se_isqrt1 = (\<lambda>n. 33), se_prime_flag = 4000,
     se_page_size = 4096, se_freemem = 1000000000, se_freeswap = 0, se_mmap = True, se_vec = True, se_mincore = None\<rparr>"

theorem sparse_stressor_passes_witness:
  "fst (stress_sparsematrix None [] False True (map snd (sparsematrix_methods demo_env)) 3
      \<lparr>sw_mwc = mwc_initial, sw_prime = 1009, sw_run = 5000\<rparr>) = EXIT_SUCCESS"
  by (rule sparse_stressor_passes)
    (simp_all add: demo_env_def sparse_size_def sparse_setting_def stress_setting_get_def Let_def)


text \<open>
  What a test promises of a fault that strikes between its writes and its reads: it is reported
  exactly when one of the positions drawn reads differently.
\<close>

definition reports_fault ::
    "'h stress_sparsematrix_method_info \<Rightarrow> sparse_env \<Rightarrow> ('h \<Rightarrow> 'h) \<Rightarrow> u64 \<Rightarrow> u32 \<Rightarrow> test_info \<Rightarrow> sparse_world \<Rightarrow> bool" where
  "reports_fault info env fault items n ti s \<longleftrightarrow>
     (case sparse_filled info env items n s of None \<Rightarrow> True
      | Some h \<Rightarrow> (fst (stress_sparse_method_test info env fault items n ti s) = SPARSE_TEST_FAILED \<longleftrightarrow>
          (\<exists>(x, y)\<in>set (sparse_positions n (unat items) (sparse_seed s)).
             sm_get info (fault h) x y \<noteq> sm_get info h x y)))"

text \<open>
  C15: the four stores all detect a fault: when every allocation succeeds and nothing cuts the test
  short it fails exactly when the fault changed the value read at one of the positions that were drawn.
\<close>

theorem sparse_fault_detected:
  assumes "\<And>i. se_malloc env i = (True, True)" and "0 < n" and "unat items + unat items < sw_run s"
  shows "reports_fault hash_method env f1 items n ti s \<and> reports_fault list_method env f2 items n ti s
    \<and> reports_fault mmap_method env f3 items n ti s \<and> reports_fault qhash_method env f4 items n ti s"
  using hash.detects [where info = hash_method and fault = f1 and ti = ti, OF _ _ _ assms(2,1,3)]
    lst.detects [where info = list_method and fault = f2 and ti = ti, OF _ _ _ assms(2,1,3)]
    mapped.detects [where info = mmap_method and fault = f3 and ti = ti, OF _ _ _ assms(2,1,3)]
    qhash.detects [where info = qhash_method and fault = f4 and ti = ti, OF _ _ _ assms(2,1,3)]
  by (simp add: reports_fault_def hash_method_def list_method_def mmap_method_def qhash_method_def
      split: option.splits)

theorem sparse_fault_detected_witness:
  "reports_fault hash_method demo_env (\<lambda>t. t\<lparr>sh_table := (sh_table t)[7 := []]\<rparr>) 5 10 sparse_initial_info
      \<lparr>sw_mwc = mwc_initial, sw_prime = 1009, sw_run = 5000\<rparr>"
  using sparse_fault_detected [of demo_env 10 5 "\<lparr>sw_mwc = mwc_initial, sw_prime = 1009, sw_run = 5000\<rparr>"
      "\<lambda>t. t\<lparr>sh_table := (sh_table t)[7 := []]\<rparr>" sparse_initial_info "\<lambda>h. h" "\<lambda>h. h" "\<lambda>h. h"]
  by (simp add: demo_env_def)

text \<open>
  A mismatch in the first method tested makes the stressor exit as if it had lacked a
  resource, not with a failure.
\<close>

theorem sparse_mismatch_exit:
  assumes "snd (sparse_setting cur ''sparsematrix-method'' ss 0) \<in> {0, 1}"
    and "n = sparse_size cur ss maximize minimize"
    and "fst (t (sparse_items cur ss maximize minimize n) n sparse_initial_info s) = SPARSE_TEST_FAILED"
  shows "fst (stress_sparsematrix cur ss maximize minimize (t # ts) cont s) = EXIT_NO_RESOURCE"
proof -
  have "fst (sparse_round (unat (snd (sparse_setting cur ''sparsematrix-method'' ss 0))) (t # ts)
      (sparse_items cur ss maximize minimize n) n (replicate (length (t # ts)) sparse_initial_info) s)"
    using assms(1,3) by (auto simp: sparse_round_def Let_def case_prod_beta)
  then show ?thesis
    unfolding stress_sparsematrix_def assms(2) [symmetric] by (simp add: Let_def case_prod_beta)
qed

theorem sparse_mismatch_exit_witness:
  "fst (stress_sparsematrix None [] False False [\<lambda>items n ti s. (SPARSE_TEST_FAILED, ti, s)] 0
      \<lparr>sw_mwc = mwc_initial, sw_prime = 1009, sw_run = 5000\<rparr>) = EXIT_NO_RESOURCE"
  by (rule sparse_mismatch_exit [OF _ refl])
    (simp_all add: sparse_setting_def stress_setting_get_def)

section \<open>Memory safety of the mapped array\<close>

unbundle bit_operations_syntax

lemma unat_and_not_mask:
  fixes a :: u64
  shows "unat a < unat (a AND NOT (mask k)) + 2 ^ k"
proof -
  have "a = (a AND NOT (mask k)) + take_bit k a"
  proof -
    have "(a AND NOT (mask k)) AND take_bit k a = 0"
      by (rule bit_word_eqI) (auto simp: bit_simps)
    then have "(a AND NOT (mask k)) + take_bit k a = (a AND NOT (mask k)) OR take_bit k a"
      by (rule disjunctive_add_eq_or)
    also have "\<dots> = a" by (rule bit_word_eqI) (auto simp: bit_simps)
    finally show ?thesis by simp
  qed
  then have "unat a \<le> unat (a AND NOT (mask k)) + unat (take_bit k a)"
    by (metis unat_plus_simple word_le_nat_alt unat_word_ariths(1) mod_less_eq_dividend)
  moreover have "unat (take_bit k a) < 2 ^ k"
    by (simp add: unsigned_take_bit_eq)
  ultimately show ?thesis by linarith
qed

text \<open>
  Every position of the mapped array lies inside the mapping, for every page size and
  every size the option allows: no address computation wraps at 64 bits.
\<close>

theorem sparse_mmap_in_bounds:
  assumes "mmap_create env n x y p = (Some m, p')"
    and "se_page_size env = 2 ^ k" "k < 32" and "x \<le> 10000000" "y \<le> 10000000" and "i < x" "j < y"
  shows "4 * unat (mmap_offset m i j) + 4 \<le> unat (mm_mmap_size m)"
proof -
  let ?s = "ucast x * ucast y * 4 :: u64" and ?P = "2 ^ k :: u64"
  have m: "mm_mmap_size m = (?s + ?P - 1) AND NOT (?P - 1)" "mm_x m = x" "mm_y m = y"
    using assms(1,2) by (auto simp: mmap_create_def Let_def split: if_splits)
  have xy: "unat x \<le> 10000000" "unat y \<le> 10000000" using assms(4,5) by (simp_all add: word_le_nat_alt)
  have prod: "unat x * unat y \<le> 10000000 * 10000000" using xy by (rule mult_le_mono)
  have u: "unat (ucast v :: u64) = unat v" for v :: u32
    by (simp add: unsigned_ucast_eq take_bit_nat_eq_self_iff unat_lt32 [simplified])
  have "unat (ucast x * ucast y :: u64) = unat x * unat y"
    using prod by (subst unat_mult_lem [THEN iffD1]) (simp_all add: u)
  then have s: "unat ?s = unat x * unat y * 4"
    using prod by (subst unat_mult_lem [THEN iffD1]) simp_all
  have "(2::nat) ^ k < 2 ^ 32" by (rule power_strict_increasing [OF assms(3)]) simp
  moreover have "unat ?P = 2 ^ k"
  proof -
    have "(2::nat) ^ k < 2 ^ 64" by (rule power_strict_increasing) (use assms(3) in simp_all)
    then have "unat (word_of_nat (2 ^ k) :: u64) = 2 ^ k" by (rule unat_small64)
    then show ?thesis by simp
  qed
  ultimately have P: "unat ?P = 2 ^ k" "(2::nat) ^ k < 4294967296" by simp_all
  have pos: "(0::nat) < 2 ^ k" by simp
  have sP: "unat (?s + ?P) = unat ?s + 2 ^ k"
    using s P prod by (subst unat_add_lem [THEN iffD1]) simp_all
  have one: "Suc 0 \<le> unat ?s + 2 ^ k" using pos by linarith
  from sP have "unat (?s + ?P - 1) = unat ?s + 2 ^ k - 1"
    using one by (subst unat_sub) (simp_all add: word_le_nat_alt)
  moreover have "?P - 1 = mask k" by (simp add: mask_eq_exp_minus_1)
  ultimately have "unat ?s \<le> unat (mm_mmap_size m)"
    using unat_and_not_mask [of "?s + ?P - 1" k] pos unfolding m(1) by simp
  moreover have "unat (mmap_offset m i j) < unat x * unat y"
    using mmap_offset_bound(2) [of i m j] assms(6,7) m by simp
  ultimately show ?thesis using s by linarith
qed

lemma not_minus_one_le: "\<not> (- 1 :: u64) \<le> 4096"
  by code_simp

theorem sparse_mmap_in_bounds_witness:
  "4 * unat (mmap_offset \<lparr>mm_mem = (\<lambda>_. 0), mm_mmap_size = 4096, mm_x = 10, mm_y = 10\<rparr> 9 9) + 4 \<le> (4096 :: nat)"
  using sparse_mmap_in_bounds [of "\<lparr>se_alloc = (\<lambda>_. True), se_malloc = (\<lambda>_. (True, True)), se_isqrt1 = (\<lambda>n. 33),
      se_prime_flag = 0, se_page_size = 4096, se_freemem = 1000000000, se_freeswap = 0, se_mmap = True,
      se_vec = True, se_mincore = None\<rparr>" 20 10 10 0 "\<lparr>mm_mem = (\<lambda>_. 0), mm_mmap_size = 4096, mm_x = 10, mm_y = 10\<rparr>"
      0 12 9 9]
    not_minus_one_le
  by (simp add: mmap_create_def)

end
