(* ===== verification/Tso.thy ===== *)
theory Tso
  imports Prelude
begin

text \<open>
  The machine under the two mutual exclusion stressors: two processes that share memory, on a
  processor that keeps stores in a buffer per process, in order, until they reach memory, and
  whose memory fence waits for the buffer to empty (x86).  A program is given by what a process
  does next at each control point, with its local variables in the control point.
\<close>

section \<open>Processes and steps\<close>

datatype proc = P0 | P1

fun other :: "proc \<Rightarrow> proc" where
  "other P0 = P1"
| "other P1 = P0"

lemma other_other [simp]: "other (other p) = p"
  by (cases p) simp_all

lemma other_neq [simp]: "other p \<noteq> p" "p \<noteq> other p"
  by (cases p; simp)+

lemma neq_other: "q \<noteq> p \<longleftrightarrow> q = other p"
  by (cases p; cases q) simp_all

lemma all_proc: "(\<forall>p. P p) \<longleftrightarrow> P P0 \<and> P P1"
  by (metis proc.exhaust)

text \<open>The number of a process, as the programs store it in \<open>turn\<close>.\<close>

fun num :: "proc \<Rightarrow> i32" where
  "num P0 = 0"
| "num P1 = 1"

lemma num_eq [simp]: "num p = num q \<longleftrightarrow> p = q"
  by (cases p; cases q) simp_all

text \<open>The shared variables: an array of flags, the turn and the checked counter.\<close>

datatype var = Flag proc | Turn | Check

datatype 'pc action =
    Store var i32 'pc
  | Load var "i32 \<Rightarrow> 'pc"
  | Fence 'pc
  | Local "'pc list"

record 'pc tso =
  mem :: "var \<Rightarrow> i32"
  buf :: "proc \<Rightarrow> (var \<times> i32) list"
  pc :: "proc \<Rightarrow> 'pc"

text \<open>A load sees the newest store to the variable in the process's own buffer, or memory.\<close>

definition tso_read :: "'pc tso \<Rightarrow> proc \<Rightarrow> var \<Rightarrow> i32" where
  "tso_read s p x = (case map_of (rev (buf s p)) x of Some v \<Rightarrow> v | None \<Rightarrow> mem s x)"

inductive tso_step :: "(proc \<Rightarrow> 'pc \<Rightarrow> 'pc action) \<Rightarrow> 'pc tso \<Rightarrow> 'pc tso \<Rightarrow> bool" for prog where
  store: "prog p (pc s p) = Store x v k \<Longrightarrow>
    tso_step prog s (s\<lparr>buf := (buf s)(p := buf s p @ [(x, v)]), pc := (pc s)(p := k)\<rparr>)"
| load: "prog p (pc s p) = Load x k \<Longrightarrow>
    tso_step prog s (s\<lparr>pc := (pc s)(p := k (tso_read s p x))\<rparr>)"
| fence: "prog p (pc s p) = Fence k \<Longrightarrow> buf s p = [] \<Longrightarrow>
    tso_step prog s (s\<lparr>pc := (pc s)(p := k)\<rparr>)"
| local: "prog p (pc s p) = Local ks \<Longrightarrow> k \<in> set ks \<Longrightarrow>
    tso_step prog s (s\<lparr>pc := (pc s)(p := k)\<rparr>)"
| flush: "buf s p = (x, v) # b \<Longrightarrow>
    tso_step prog s (s\<lparr>mem := (mem s)(x := v), buf := (buf s)(p := b)\<rparr>)"

inductive tso_reachable :: "(proc \<Rightarrow> 'pc \<Rightarrow> 'pc action) \<Rightarrow> 'pc tso \<Rightarrow> 'pc tso \<Rightarrow> bool" for prog s0 where
  start: "tso_reachable prog s0 s0"
| step: "tso_reachable prog s0 s \<Longrightarrow> tso_step prog s s' \<Longrightarrow> tso_reachable prog s0 s'"

text \<open>The memory that mmap hands out is zero: no flag is set, the turn is of process 0.\<close>

definition tso_start :: "'pc \<Rightarrow> 'pc tso" where
  "tso_start k = \<lparr>mem = (\<lambda>_. 0), buf = (\<lambda>_. []), pc = (\<lambda>_. k)\<rparr>"

lemma tso_reachable_trans:
  assumes "tso_reachable prog s t" "tso_reachable prog t u"
  shows "tso_reachable prog s u"
  using assms(2,1) by (induction rule: tso_reachable.induct) (auto intro: tso_reachable.step)

section \<open>The checked counter\<close>

text \<open>In its critical section process 0 counts the checked variable up, process 1 down.\<close>

fun check_delta :: "proc \<Rightarrow> i32" where
  "check_delta P0 = 1"
| "check_delta P1 = -1"

section \<open>Runs of a schedule\<close>

text \<open>
  A schedule names who moves: \<open>None\<close> flushes the oldest store of the process, \<open>Some i\<close> lets it
  go on, by its choice \<open>i\<close> where it has one.  A move that is not enabled changes nothing.
\<close>

fun tso_move :: "(proc \<Rightarrow> 'pc \<Rightarrow> 'pc action) \<Rightarrow> proc \<times> nat option \<Rightarrow> 'pc tso \<Rightarrow> 'pc tso" where
  "tso_move prog (p, None) s =
     (case buf s p of [] \<Rightarrow> s
      | w # b \<Rightarrow> s\<lparr>mem := (mem s)(fst w := snd w), buf := (buf s)(p := b)\<rparr>)"
| "tso_move prog (p, Some i) s =
     (case prog p (pc s p) of
        Store x v k \<Rightarrow> s\<lparr>buf := (buf s)(p := buf s p @ [(x, v)]), pc := (pc s)(p := k)\<rparr>
      | Load x k \<Rightarrow> s\<lparr>pc := (pc s)(p := k (tso_read s p x))\<rparr>
      | Fence k \<Rightarrow> (if buf s p = [] then s\<lparr>pc := (pc s)(p := k)\<rparr> else s)
      | Local ks \<Rightarrow> (if i < length ks then s\<lparr>pc := (pc s)(p := ks ! i)\<rparr> else s))"

definition tso_run :: "(proc \<Rightarrow> 'pc \<Rightarrow> 'pc action) \<Rightarrow> (proc \<times> nat option) list \<Rightarrow> 'pc tso \<Rightarrow> 'pc tso" where
  "tso_run prog es s = fold (tso_move prog) es s"

lemma tso_move_reachable: "tso_reachable prog s (tso_move prog e s)"
proof (cases "tso_step prog s (tso_move prog e s)")
  case True
  then show ?thesis by (rule tso_reachable.step [OF tso_reachable.start])
next
  case False
  obtain p c where e: "e = (p, c)" by fastforce
  have "tso_move prog e s = s"
    using False unfolding e
    by (cases c) (auto split: list.splits action.splits if_splits dest: tso_step.intros(1-3)
        intro: tso_step.intros(4) tso_step.intros(5))
  then show ?thesis by (simp add: tso_reachable.start)
qed

lemma tso_run_reachable: "tso_reachable prog s (tso_run prog es s)"
  unfolding tso_run_def
proof (induction es arbitrary: s)
  case Nil
  show ?case by (simp add: tso_reachable.start)
next
  case (Cons e es)
  show ?case using tso_reachable_trans [OF tso_move_reachable Cons.IH] by simp
qed

section \<open>Invariants\<close>

text \<open>
  What a program has to show for an invariant that speaks of each process and its peer: it is
  kept by a step of the process and by a step of the peer.
\<close>

locale tso_invariant =
  fixes prog :: "proc \<Rightarrow> 'pc \<Rightarrow> 'pc action"
    and k0 :: 'pc
    and inv :: "proc \<Rightarrow> 'pc tso \<Rightarrow> bool"
  assumes inv_start: "inv p (tso_start k0)"
    and inv_store: "inv p s \<Longrightarrow> inv (other p) s \<Longrightarrow> prog q (pc s q) = Store x v k \<Longrightarrow>
        inv p (s\<lparr>buf := (buf s)(q := buf s q @ [(x, v)]), pc := (pc s)(q := k)\<rparr>)"
    and inv_load: "inv p s \<Longrightarrow> inv (other p) s \<Longrightarrow> prog q (pc s q) = Load x kk \<Longrightarrow>
        inv p (s\<lparr>pc := (pc s)(q := kk (tso_read s q x))\<rparr>)"
    and inv_fence: "inv p s \<Longrightarrow> inv (other p) s \<Longrightarrow> prog q (pc s q) = Fence k \<Longrightarrow> buf s q = [] \<Longrightarrow>
        inv p (s\<lparr>pc := (pc s)(q := k)\<rparr>)"
    and inv_local: "inv p s \<Longrightarrow> inv (other p) s \<Longrightarrow> prog q (pc s q) = Local ks \<Longrightarrow> k \<in> set ks \<Longrightarrow>
        inv p (s\<lparr>pc := (pc s)(q := k)\<rparr>)"
    and inv_flush: "inv p s \<Longrightarrow> inv (other p) s \<Longrightarrow> buf s q = (x, v) # b \<Longrightarrow>
        inv p (s\<lparr>mem := (mem s)(x := v), buf := (buf s)(q := b)\<rparr>)"
begin

lemma inv_step:
  assumes "tso_step prog s s'" "\<And>p. inv p s"
  shows "inv p s'"
  using assms
  by (induction rule: tso_step.induct) (auto intro: inv_store inv_load inv_fence inv_local inv_flush)

lemma reachable_inv: "tso_reachable prog (tso_start k0) s \<Longrightarrow> inv p s"
proof (induction arbitrary: p rule: tso_reachable.induct)
  case start
  show ?case by (rule inv_start)
next
  case (step s s')
  then show ?case by (intro inv_step [of s s'])
qed

end

end
