(* ===== verification/Peterson.thy ===== *)
theory Peterson
  imports Tso
begin

text \<open>
  Peterson's algorithm as stress-peterson.c runs it: process 0 is the child, process 1 the
  parent.  A control point is named after the statement that comes next.
\<close>

section \<open>The program\<close>

datatype peterson_pc =
    Idle | Set_flag | Set_turn | Mfence1 | Spin_flag | Spin_turn
  | Check0 | Inc_read i32 | Inc_write i32 i32 | Check1 i32
  | Clear_flag i32 i32 | Mfence2 i32 i32 | Compare i32 i32
  | Stopped | Failed

fun stress_peterson_prog :: "proc \<Rightarrow> peterson_pc \<Rightarrow> peterson_pc action" where
  "stress_peterson_prog p Idle = Local [Set_flag, Stopped]"
| "stress_peterson_prog p Set_flag = Store (Flag p) 1 Set_turn"
| "stress_peterson_prog p Set_turn = Store Turn (num (other p)) Mfence1"
| "stress_peterson_prog p Mfence1 = Fence Spin_flag"
| "stress_peterson_prog p Spin_flag = Load (Flag (other p)) (\<lambda>v. if v \<noteq> 0 then Spin_turn else Check0)"
| "stress_peterson_prog p Spin_turn = Load Turn (\<lambda>v. if v = num (other p) then Spin_flag else Check0)"
| "stress_peterson_prog p Check0 = Load Check Inc_read"
| "stress_peterson_prog p (Inc_read check0) = Load Check (Inc_write check0)"
| "stress_peterson_prog p (Inc_write check0 v) = Store Check (v + check_delta p) (Check1 check0)"
| "stress_peterson_prog p (Check1 check0) = Load Check (Clear_flag check0)"
| "stress_peterson_prog p (Clear_flag check0 check1) = Store (Flag p) 0 (Mfence2 check0 check1)"
| "stress_peterson_prog p (Mfence2 check0 check1) = Fence (Compare check0 check1)"
| "stress_peterson_prog p (Compare check0 check1) =
     Local [if check0 + check_delta p \<noteq> check1 then Failed else Idle]"
| "stress_peterson_prog p Stopped = Local []"
| "stress_peterson_prog p Failed = Local []"

text \<open>The status a process ends its loop with, and the exit status of the stressor: the child's where it exited.\<close>

definition peterson_rc :: "peterson_pc \<Rightarrow> int" where
  "peterson_rc k = (if k = Failed then EXIT_FAILURE else EXIT_SUCCESS)"

definition stress_peterson :: "bool \<Rightarrow> bool \<Rightarrow> peterson_pc \<Rightarrow> wait_status option \<Rightarrow> int" where
  "stress_peterson mmap_ok fork_ok parent wait =
     (if \<not> mmap_ok then EXIT_NO_RESOURCE
      else if \<not> fork_ok then EXIT_NO_RESOURCE
      else (let rc = peterson_rc parent
            in case wait of Some (Exited status) \<Rightarrow> status | _ \<Rightarrow> rc))"

section \<open>The invariant\<close>

text \<open>
  A process is in its critical section from the end of its wait until the store that clears its
  flag reaches memory, and its entry is committed once its stores to flag and turn are in memory.
\<close>

fun peterson_inside :: "peterson_pc \<Rightarrow> bool" where
  "peterson_inside Check0 = True"
| "peterson_inside (Inc_read c0) = True"
| "peterson_inside (Inc_write c0 v) = True"
| "peterson_inside (Check1 c0) = True"
| "peterson_inside (Clear_flag c0 c1) = True"
| "peterson_inside _ = False"

fun peterson_leaving :: "peterson_pc \<Rightarrow> bool" where
  "peterson_leaving (Mfence2 c0 c1) = True"
| "peterson_leaving _ = False"

definition peterson_critical :: "proc \<Rightarrow> peterson_pc tso \<Rightarrow> bool" where
  "peterson_critical p s \<longleftrightarrow>
     peterson_inside (pc s p) \<or> peterson_leaving (pc s p) \<and> mem s (Flag p) = 1"

definition peterson_committed :: "proc \<Rightarrow> peterson_pc tso \<Rightarrow> bool" where
  "peterson_committed p s \<longleftrightarrow>
     peterson_critical p s \<or> pc s p \<in> {Spin_flag, Spin_turn} \<or> pc s p = Mfence1 \<and> buf s p = []"

text \<open>What a process's own buffer, flag and local variables look like at each control point.\<close>

fun peterson_local :: "proc \<Rightarrow> peterson_pc \<Rightarrow> (var \<times> i32) list \<Rightarrow> i32 \<Rightarrow> i32 \<Rightarrow> bool" where
  "peterson_local p Set_turn b flag check \<longleftrightarrow> (b = [(Flag p, 1)] \<and> flag = 0 \<or> b = [] \<and> flag = 1)"
| "peterson_local p Mfence1 b flag check \<longleftrightarrow>
     (b = [(Flag p, 1), (Turn, num (other p))] \<and> flag = 0 \<or> b = [(Turn, num (other p))] \<and> flag = 1
      \<or> b = [] \<and> flag = 1)"
| "peterson_local p Spin_flag b flag check \<longleftrightarrow> b = [] \<and> flag = 1"
| "peterson_local p Spin_turn b flag check \<longleftrightarrow> b = [] \<and> flag = 1"
| "peterson_local p Check0 b flag check \<longleftrightarrow> b = [] \<and> flag = 1"
| "peterson_local p (Inc_read c0) b flag check \<longleftrightarrow> b = [] \<and> flag = 1 \<and> c0 = check"
| "peterson_local p (Inc_write c0 v) b flag check \<longleftrightarrow> b = [] \<and> flag = 1 \<and> c0 = check \<and> v = check"
| "peterson_local p (Check1 c0) b flag check \<longleftrightarrow>
     flag = 1 \<and> (b = [(Check, c0 + check_delta p)] \<or> b = [] \<and> check = c0 + check_delta p)"
| "peterson_local p (Clear_flag c0 c1) b flag check \<longleftrightarrow>
     flag = 1 \<and> c1 = c0 + check_delta p \<and> (b = [(Check, c0 + check_delta p)] \<or> b = [])"
| "peterson_local p (Mfence2 c0 c1) b flag check \<longleftrightarrow>
     c1 = c0 + check_delta p
     \<and> (b = [(Check, c0 + check_delta p), (Flag p, 0)] \<and> flag = 1 \<or> b = [(Flag p, 0)] \<and> flag = 1 \<or> b = [] \<and> flag = 0)"
| "peterson_local p (Compare c0 c1) b flag check \<longleftrightarrow> b = [] \<and> flag = 0 \<and> c1 = c0 + check_delta p"
| "peterson_local p Failed b flag check \<longleftrightarrow> False"
| "peterson_local p _ b flag check \<longleftrightarrow> b = [] \<and> flag = 0"

definition peterson_inv :: "proc \<Rightarrow> peterson_pc tso \<Rightarrow> bool" where
  "peterson_inv p s \<longleftrightarrow>
     peterson_local p (pc s p) (buf s p) (mem s (Flag p)) (mem s Check)
     \<and> (peterson_critical p s \<and> peterson_committed (other p) s \<longrightarrow> mem s Turn = num p)
     \<and> mem s Turn \<in> {0, 1}"

section \<open>Every step keeps it\<close>

lemmas peterson_inv_defs = peterson_inv_def peterson_critical_def peterson_committed_def

lemma peterson_excludes:
  assumes "peterson_critical (other p) s" "peterson_inv p s" "peterson_inv (other p) s"
  shows "\<not> peterson_critical p s"
proof
  assume "peterson_critical p s"
  then have "mem s Turn = num p" "mem s Turn = num (other p)"
    using assms by (simp_all add: peterson_inv_def peterson_committed_def)
  then show False by simp
qed

lemma load_own:
  assumes "peterson_inv p s" "peterson_inv (other p) s" "stress_peterson_prog p (pc s p) = Load x k"
  shows "peterson_inv p (s\<lparr>pc := (pc s)(p := k (tso_read s p x))\<rparr>)"
proof (cases "pc s p")
  case Spin_flag
  then show ?thesis using assms 
   apply (clarsimp simp: peterson_inv_defs tso_read_def ) 
   apply (cases "pc s (other p)"; simp) done
next
  case Spin_turn
  then show ?thesis using assms by (cases p; clarsimp simp: peterson_inv_defs tso_read_def; auto)
next
  case Check0
  then show ?thesis using assms by (simp add: peterson_inv_defs tso_read_def)
next
  case (Inc_read c)
  then show ?thesis using assms by (clarsimp simp: peterson_inv_defs tso_read_def; auto)
next
  case (Check1 c)
  then show ?thesis using assms by (clarsimp simp: peterson_inv_defs tso_read_def; auto)
qed (use assms(3) in simp_all)

lemma load_peer:
  assumes "peterson_inv p s" "peterson_inv (other p) s" "stress_peterson_prog (other p) (pc s (other p)) = Load x k"
  shows "peterson_inv p (s\<lparr>pc := (pc s)(other p := k (tso_read s (other p) x))\<rparr>)"
proof -
  have "peterson_committed (other p) s"
    using assms(3) by (cases "pc s (other p)") (simp_all add: peterson_committed_def peterson_critical_def)
  moreover have "peterson_critical p (s\<lparr>pc := (pc s)(other p := k')\<rparr>) = peterson_critical p s" for k'
    by (simp add: peterson_critical_def)
  ultimately show ?thesis
    using assms(1) by (simp add: peterson_inv_def)
qed

lemma local_outside: "\<not> peterson_inside k \<Longrightarrow> peterson_local p k b flag check = peterson_local p k b flag check'"
  by (cases k) simp_all


lemma num_01: "num p \<in> {0, 1}"
  by (cases p) simp_all

lemma flush_own:
  assumes "peterson_inv p s" "peterson_inv (other p) s" "buf s p = (x, v) # b"
  shows "peterson_inv p (s\<lparr>mem := (mem s)(x := v), buf := (buf s)(p := b)\<rparr>)"
proof (cases "pc s p")
  case Set_turn
  then show ?thesis using assms by (simp add: peterson_inv_defs)
next
  case Mfence1
  then have "\<not> peterson_critical p (s\<lparr>mem := (mem s)(x := v), buf := (buf s)(p := b)\<rparr>)"
    by (simp add: peterson_critical_def)
  moreover have "x = Flag p \<and> v = 1 \<and> b = [(Turn, num (other p))] \<and> mem s Turn \<in> {0, 1}
      \<or> x = Turn \<and> v = num (other p) \<and> b = [] \<and> mem s (Flag p) = 1"
    using Mfence1 assms by (auto simp: peterson_inv_def)
  ultimately show ?thesis
    using Mfence1 num_01 [of "other p"] by (auto simp: peterson_inv_def)
next
  case (Check1 c)
  then show ?thesis using assms by (simp add: peterson_inv_defs)
next
  case (Clear_flag c d)
  then show ?thesis using assms by (simp add: peterson_inv_defs)
next
  case (Mfence2 c d)
  then have "x = Check \<and> v = c + check_delta p \<and> b = [(Flag p, 0)] \<and> mem s (Flag p) = 1
      \<or> x = Flag p \<and> v = 0 \<and> b = []"
    using assms by (auto simp: peterson_inv_def)
  then show ?thesis
  proof (elim disjE conjE)
    assume e: "x = Check" "v = c + check_delta p" "b = [(Flag p, 0)]" "mem s (Flag p) = 1"
    moreover have "peterson_committed (other p) (s\<lparr>mem := (mem s)(Check := v), buf := (buf s)(p := b)\<rparr>) =
        peterson_committed (other p) s" for v b
      by (simp add: peterson_committed_def peterson_critical_def)
    ultimately show ?thesis
      using Mfence2 assms(1) by (simp add: peterson_inv_def peterson_critical_def)
  next
    assume "x = Flag p" "v = 0" "b = []"
    then show ?thesis
      using Mfence2 assms(1) by (simp add: peterson_inv_def peterson_critical_def)
  qed
qed (use assms in \<open>simp_all add: peterson_inv_def\<close>)

lemma flush_peer:
  assumes "peterson_inv p s" "peterson_inv (other p) s" "buf s (other p) = (x, v) # b"
  shows "peterson_inv p (s\<lparr>mem := (mem s)(x := v), buf := (buf s)(other p := b)\<rparr>)"
proof (cases "pc s (other p)")
  case Set_turn
  then show ?thesis using assms by (simp add: peterson_inv_defs)
next
  case Mfence1
  then have "x = Flag (other p) \<and> v = 1 \<and> b = [(Turn, num p)]
      \<or> x = Turn \<and> v = num p \<and> b = [] \<and> mem s (Flag (other p)) = 1"
    using assms by (auto simp: peterson_inv_def)
  then show ?thesis
  proof (elim disjE conjE)
    assume "x = Flag (other p)" "v = 1" "b = [(Turn, num p)]"
    then show ?thesis
      using Mfence1 assms(1) by (simp add: peterson_inv_def peterson_critical_def peterson_committed_def)
  next
    assume "x = Turn" "v = num p" "b = []"
    then show ?thesis
      using assms(1) num_01 [of p] by (simp add: peterson_inv_def)
  qed
next
  case (Check1 c)
  then have "\<not> peterson_inside (pc s p)" using assms by (simp add: peterson_inv_defs)
  then show ?thesis
    using Check1 assms local_outside [of "pc s p" p "buf s p" "mem s (Flag p)" "mem s Check" v]
    by (simp add: peterson_inv_defs)
next
  case (Clear_flag c d)
  then have "\<not> peterson_inside (pc s p)" using assms by (simp add: peterson_inv_defs)
  then show ?thesis
    using Clear_flag assms local_outside [of "pc s p" p "buf s p" "mem s (Flag p)" "mem s Check" v]
    by (simp add: peterson_inv_defs)
next
  case (Mfence2 c d)
  then have "x = Check \<and> v = c + check_delta (other p) \<and> b = [(Flag (other p), 0)] \<and> mem s (Flag (other p)) = 1
      \<or> x = Flag (other p) \<and> v = 0 \<and> b = []"
    using assms by (auto simp: peterson_inv_def)
  then show ?thesis
  proof (elim disjE conjE)
    assume e: "x = Check" "mem s (Flag (other p)) = 1"
    then have "peterson_critical (other p) s" using Mfence2 by (simp add: peterson_critical_def)
    then have "\<not> peterson_critical p s" using assms(1,2) by (rule peterson_excludes)
    moreover have "peterson_critical p (s\<lparr>mem := (mem s)(Check := v), buf := (buf s)(other p := b)\<rparr>) =
        peterson_critical p s" for v b
      by (simp add: peterson_critical_def)
    ultimately show ?thesis
      using e(1) assms(1) local_outside [of "pc s p" p "buf s p" "mem s (Flag p)" "mem s Check" v]
      by (simp add: peterson_inv_def) (simp add: peterson_critical_def)
  next
    assume e: "x = Flag (other p)" "v = 0" "b = []"
    then have "\<not> peterson_committed (other p) (s\<lparr>mem := (mem s)(x := v), buf := (buf s)(other p := b)\<rparr>)"
      using Mfence2 by (simp add: peterson_committed_def peterson_critical_def)
    then show ?thesis using e(1) assms(1) by (simp add: peterson_inv_def)
  qed
qed (use assms in \<open>simp_all add: peterson_inv_def\<close>)

lemma store_step:
  assumes "peterson_inv p s" "peterson_inv (other p) s" "stress_peterson_prog q (pc s q) = Store x v k"
  shows "peterson_inv p (s\<lparr>buf := (buf s)(q := buf s q @ [(x, v)]), pc := (pc s)(q := k)\<rparr>)"
proof (cases "q = p")
  case True
  then show ?thesis using assms by (cases "pc s p") (auto simp: peterson_inv_defs)
next
  case False
  then have "q = other p" by (simp add: neq_other)
  then show ?thesis using assms by (cases "pc s (other p)") (auto simp: peterson_inv_defs)
qed

lemma fence_step:
  assumes "peterson_inv p s" "peterson_inv (other p) s" "stress_peterson_prog q (pc s q) = Fence k" "buf s q = []"
  shows "peterson_inv p (s\<lparr>pc := (pc s)(q := k)\<rparr>)"
proof (cases "q = p")
  case True
  then show ?thesis using assms by (cases "pc s p") (auto simp: peterson_inv_defs)
next
  case False
  then have "q = other p" by (simp add: neq_other)
  then show ?thesis using assms by (cases "pc s (other p)") (auto simp: peterson_inv_defs)
qed

lemma local_step:
  assumes "peterson_inv p s" "peterson_inv (other p) s" "stress_peterson_prog q (pc s q) = Local ks" "k \<in> set ks"
  shows "peterson_inv p (s\<lparr>pc := (pc s)(q := k)\<rparr>)"
proof (cases "q = p")
  case True
  then show ?thesis using assms by (cases "pc s p") (auto simp: peterson_inv_defs)
next
  case False
  then have "q = other p" by (simp add: neq_other)
  then show ?thesis using assms by (cases "pc s (other p)") (auto simp: peterson_inv_defs split: if_splits)
qed

interpretation peterson: tso_invariant stress_peterson_prog Idle peterson_inv
proof
  show "peterson_inv p (tso_start Idle)" for p
    by (simp add: tso_start_def peterson_inv_defs)
  show "peterson_inv p (s\<lparr>pc := (pc s)(q := kk (tso_read s q x))\<rparr>)"
    if "peterson_inv p s" "peterson_inv (other p) s" "stress_peterson_prog q (pc s q) = Load x kk" for p s q x kk
    using that load_own load_peer by (cases "q = p") (auto simp: neq_other)
  show "peterson_inv p (s\<lparr>mem := (mem s)(x := v), buf := (buf s)(q := b)\<rparr>)"
    if "peterson_inv p s" "peterson_inv (other p) s" "buf s q = (x, v) # b" for p s q x v b
    using that flush_own flush_peer by (cases "q = p") (auto simp: neq_other)
qed (fact store_step fence_step local_step)+

section \<open>Mutual exclusion\<close>

text \<open>
  C10: mutual exclusion under store buffering: in no reachable state are both processes between
  the end of their wait and the moment the store that clears their flag reaches memory.  The
  fences are what makes it true.
\<close>

theorem peterson_mutual_exclusion:
  assumes "tso_reachable stress_peterson_prog (tso_start Idle) s"
  shows "\<not> (peterson_critical P0 s \<and> peterson_critical P1 s)"
  using peterson_excludes [of P0 s] peterson.reachable_inv [OF assms] by auto

definition both_enter :: "(proc \<times> nat option) list" where
  "both_enter = [(P0, Some 0), (P1, Some 0), (P0, Some 0), (P1, Some 0), (P0, Some 0), (P1, Some 0),
     (P0, None), (P0, None), (P1, None), (P1, None), (P0, Some 0), (P1, Some 0)]"

theorem peterson_mutual_exclusion_witness:
  "\<not> (peterson_critical P0 (tso_run stress_peterson_prog both_enter (tso_start Idle))
      \<and> peterson_critical P1 (tso_run stress_peterson_prog both_enter (tso_start Idle)))"
  by (rule peterson_mutual_exclusion [OF tso_run_reachable])

text \<open>
  C34: the checked counter never surprises: whatever both processes have done when they end, and
  whether the child is killed or has exited by itself, the stressor exits successfully.
\<close>

theorem peterson_check_holds:
  assumes "tso_reachable stress_peterson_prog (tso_start Idle) s"
    and "wait \<in> {None, Some (Signaled sig), Some (Exited (peterson_rc (pc s P0)))}"
  shows "stress_peterson True True (pc s P1) wait = EXIT_SUCCESS"
proof -
  have "pc s p \<noteq> Failed" for p
    using peterson.reachable_inv [OF assms(1), of p] by (auto simp: peterson_inv_def)
  then show ?thesis
    using assms(2) by (auto simp: stress_peterson_def peterson_rc_def)
qed

theorem peterson_check_holds_witness:
  "stress_peterson True True
     (pc (tso_run stress_peterson_prog both_enter (tso_start Idle)) P1) (Some (Signaled 9)) = EXIT_SUCCESS"
  by (rule peterson_check_holds [OF tso_run_reachable]) simp

text \<open>
  C35: no deadlock: when both processes wait, one of them can enter its critical section.
\<close>

theorem peterson_no_deadlock:
  assumes "tso_reachable stress_peterson_prog (tso_start Idle) s"
    and "\<forall>p. pc s p \<in> {Spin_flag, Spin_turn}"
  shows "\<exists>p s'. tso_reachable stress_peterson_prog s s' \<and> pc s' p = Check0"
proof -
  have inv: "peterson_inv p s" for p by (rule peterson.reachable_inv [OF assms(1)])
  obtain p where p: "mem s Turn = num p"
    using inv [of P0] num.simps by (metis (no_types) insertE peterson_inv_def singletonD)
  have b: "buf s p = []" and f: "mem s (Flag (other p)) = 1"
    using inv [of p] inv [of "other p"] spec [OF assms(2), of p] spec [OF assms(2), of "other p"]
    by (auto simp: peterson_inv_def)
  have turn: "tso_reachable stress_peterson_prog t (t\<lparr>pc := (pc t)(p := Check0)\<rparr>)"
    if "pc t p = Spin_turn" "buf t p = []" "mem t Turn = num p" for t
  proof -
    have "tso_step stress_peterson_prog t (t\<lparr>pc := (pc t)(p := Check0)\<rparr>)"
      using tso_step.load [of stress_peterson_prog p t Turn] that by (simp add: tso_read_def)
    then show ?thesis by (blast intro: tso_reachable.intros)
  qed
  show ?thesis
  proof (cases "pc s p = Spin_turn")
    case True
    with turn [OF this b p] show ?thesis by (intro exI [of _ p]) (auto intro!: exI)
  next
    case False
    then have "pc s p = Spin_flag" using assms(2) by blast
    then have st: "tso_step stress_peterson_prog s (s\<lparr>pc := (pc s)(p := Spin_turn)\<rparr>)"
      using tso_step.load [of stress_peterson_prog p s "Flag (other p)"] b f by (simp add: tso_read_def)
    have "tso_reachable stress_peterson_prog (s\<lparr>pc := (pc s)(p := Spin_turn)\<rparr>)
        (s\<lparr>pc := (pc s)(p := Spin_turn), pc := (pc s)(p := Check0)\<rparr>)"
      using turn [of "s\<lparr>pc := (pc s)(p := Spin_turn)\<rparr>"] b p by simp
    then have "tso_reachable stress_peterson_prog s (s\<lparr>pc := (pc s)(p := Spin_turn), pc := (pc s)(p := Check0)\<rparr>)"
      by (rule tso_reachable_trans [OF tso_reachable.step [OF tso_reachable.start st]])
    then show ?thesis by (intro exI [of _ p]) (auto intro!: exI)
  qed
qed

theorem peterson_no_deadlock_witness:
  "\<exists>p s'. tso_reachable stress_peterson_prog
      (tso_run stress_peterson_prog both_enter (tso_start Idle)) s' \<and> pc s' p = Check0"
  by (rule peterson_no_deadlock [OF tso_run_reachable])
    (simp add: all_proc both_enter_def tso_run_def tso_start_def)

lemma peterson_parent_failure_lost:
  "stress_peterson True True Failed (Some (Exited EXIT_SUCCESS)) = EXIT_SUCCESS"
  by (simp add: stress_peterson_def)

end
