(* ===== verification/Dekker.thy ===== *)
theory Dekker
  imports Tso
begin

text \<open>
  Dekker's algorithm as stress-dekker.c runs it; the flag of a process is its
  \<open>wants_to_enter\<close>.  Process 0 is the child, process 1 the parent, and a control point is
  named after the statement that comes next.
\<close>

section \<open>The program\<close>

datatype dekker_pc =
    Start | Set_wants | Mfence1 | Test_wants | Test_turn | Clear_wants | Mfence2 | Wait_turn
  | Set_again | Mfence3
  | Check0 | Inc_read i32 | Inc_write i32 i32 | Check1 i32 | Mfence4 i32 i32
  | Give_turn i32 i32 | Leave i32 i32 | Mfence5 i32 i32 | Compare i32 i32
  | Stopped | Failed

fun stress_dekker_prog :: "proc \<Rightarrow> dekker_pc \<Rightarrow> dekker_pc action" where
  "stress_dekker_prog p Start = Local [Set_wants, Stopped]"
| "stress_dekker_prog p Set_wants = Store (Flag p) 1 Mfence1"
| "stress_dekker_prog p Mfence1 = Fence Test_wants"
| "stress_dekker_prog p Test_wants = Load (Flag (other p)) (\<lambda>v. if v \<noteq> 0 then Test_turn else Check0)"
| "stress_dekker_prog p Test_turn = Load Turn (\<lambda>v. if v \<noteq> num p then Clear_wants else Test_wants)"
| "stress_dekker_prog p Clear_wants = Store (Flag p) 0 Mfence2"
| "stress_dekker_prog p Mfence2 = Fence Wait_turn"
| "stress_dekker_prog p Wait_turn = Load Turn (\<lambda>v. if v \<noteq> num p then Wait_turn else Set_again)"
| "stress_dekker_prog p Set_again = Store (Flag p) 1 Mfence3"
| "stress_dekker_prog p Mfence3 = Fence Test_wants"
| "stress_dekker_prog p Check0 = Load Check Inc_read"
| "stress_dekker_prog p (Inc_read check0) = Load Check (Inc_write check0)"
| "stress_dekker_prog p (Inc_write check0 v) = Store Check (v + check_delta p) (Check1 check0)"
| "stress_dekker_prog p (Check1 check0) = Load Check (Mfence4 check0)"
| "stress_dekker_prog p (Mfence4 check0 check1) = Fence (Give_turn check0 check1)"
| "stress_dekker_prog p (Give_turn check0 check1) = Store Turn (num (other p)) (Leave check0 check1)"
| "stress_dekker_prog p (Leave check0 check1) = Store (Flag p) 0 (Mfence5 check0 check1)"
| "stress_dekker_prog p (Mfence5 check0 check1) = Fence (Compare check0 check1)"
| "stress_dekker_prog p (Compare check0 check1) =
     Local [if check0 + check_delta p \<noteq> check1 then Failed else Start]"
| "stress_dekker_prog p Stopped = Local []"
| "stress_dekker_prog p Failed = Local []"

definition dekker_rc :: "dekker_pc \<Rightarrow> int" where
  "dekker_rc k = (if k = Failed then EXIT_FAILURE else EXIT_SUCCESS)"

definition stress_dekker :: "bool \<Rightarrow> bool \<Rightarrow> dekker_pc \<Rightarrow> wait_status option \<Rightarrow> int" where
  "stress_dekker mmap_ok fork_ok parent wait =
     (if \<not> mmap_ok then EXIT_NO_RESOURCE
      else if \<not> fork_ok then EXIT_NO_RESOURCE
      else (let rc = dekker_rc parent
            in case wait of Some (Exited status) \<Rightarrow> status | _ \<Rightarrow> rc))"

section \<open>The invariant\<close>

text \<open>
  A process that is in its critical section has its flag set in memory, and it saw the other's
  flag clear after that.
\<close>

fun dekker_inside :: "dekker_pc \<Rightarrow> bool" where
  "dekker_inside Check0 = True"
| "dekker_inside (Inc_read c0) = True"
| "dekker_inside (Inc_write c0 v) = True"
| "dekker_inside (Check1 c0) = True"
| "dekker_inside (Mfence4 c0 c1) = True"
| "dekker_inside (Give_turn c0 c1) = True"
| "dekker_inside (Leave c0 c1) = True"
| "dekker_inside _ = False"

fun dekker_leaving :: "dekker_pc \<Rightarrow> bool" where
  "dekker_leaving (Mfence5 c0 c1) = True"
| "dekker_leaving _ = False"

definition dekker_critical :: "proc \<Rightarrow> dekker_pc tso \<Rightarrow> bool" where
  "dekker_critical p s \<longleftrightarrow> dekker_inside (pc s p) \<or> dekker_leaving (pc s p) \<and> mem s (Flag p) = 1"

fun dekker_local :: "proc \<Rightarrow> dekker_pc \<Rightarrow> (var \<times> i32) list \<Rightarrow> i32 \<Rightarrow> i32 \<Rightarrow> bool" where
  "dekker_local p Mfence1 b flag check \<longleftrightarrow> (b = [(Flag p, 1)] \<and> flag = 0 \<or> b = [] \<and> flag = 1)"
| "dekker_local p Mfence3 b flag check \<longleftrightarrow> (b = [(Flag p, 1)] \<and> flag = 0 \<or> b = [] \<and> flag = 1)"
| "dekker_local p Mfence2 b flag check \<longleftrightarrow> (b = [(Flag p, 0)] \<and> flag = 1 \<or> b = [] \<and> flag = 0)"
| "dekker_local p Test_wants b flag check \<longleftrightarrow> b = [] \<and> flag = 1"
| "dekker_local p Test_turn b flag check \<longleftrightarrow> b = [] \<and> flag = 1"
| "dekker_local p Clear_wants b flag check \<longleftrightarrow> b = [] \<and> flag = 1"
| "dekker_local p Check0 b flag check \<longleftrightarrow> b = [] \<and> flag = 1"
| "dekker_local p (Inc_read c0) b flag check \<longleftrightarrow> b = [] \<and> flag = 1 \<and> c0 = check"
| "dekker_local p (Inc_write c0 v) b flag check \<longleftrightarrow> b = [] \<and> flag = 1 \<and> c0 = check \<and> v = check"
| "dekker_local p (Check1 c0) b flag check \<longleftrightarrow>
     flag = 1 \<and> (b = [(Check, c0 + check_delta p)] \<or> b = [] \<and> check = c0 + check_delta p)"
| "dekker_local p (Mfence4 c0 c1) b flag check \<longleftrightarrow>
     flag = 1 \<and> c1 = c0 + check_delta p \<and> (b = [(Check, c0 + check_delta p)] \<or> b = [])"
| "dekker_local p (Give_turn c0 c1) b flag check \<longleftrightarrow> flag = 1 \<and> c1 = c0 + check_delta p \<and> b = []"
| "dekker_local p (Leave c0 c1) b flag check \<longleftrightarrow>
     flag = 1 \<and> c1 = c0 + check_delta p \<and> (b = [(Turn, num (other p))] \<or> b = [])"
| "dekker_local p (Mfence5 c0 c1) b flag check \<longleftrightarrow>
     c1 = c0 + check_delta p
     \<and> (b = [(Turn, num (other p)), (Flag p, 0)] \<and> flag = 1 \<or> b = [(Flag p, 0)] \<and> flag = 1 \<or> b = [] \<and> flag = 0)"
| "dekker_local p (Compare c0 c1) b flag check \<longleftrightarrow> b = [] \<and> flag = 0 \<and> c1 = c0 + check_delta p"
| "dekker_local p Failed b flag check \<longleftrightarrow> False"
| "dekker_local p _ b flag check \<longleftrightarrow> b = [] \<and> flag = 0"

definition dekker_inv :: "proc \<Rightarrow> dekker_pc tso \<Rightarrow> bool" where
  "dekker_inv p s \<longleftrightarrow>
     dekker_local p (pc s p) (buf s p) (mem s (Flag p)) (mem s Check)
     \<and> \<not> (dekker_critical p s \<and> dekker_critical (other p) s)"

section \<open>Every step keeps it\<close>

lemmas dekker_inv_defs = dekker_inv_def dekker_critical_def

lemma dekker_inside_flag: "dekker_inv p s \<Longrightarrow> dekker_inside (pc s p) \<Longrightarrow> mem s (Flag p) = 1"
  by (cases "pc s p") (simp_all add: dekker_inv_def)

lemma dekker_local_outside:
  "\<not> dekker_inside k \<Longrightarrow> dekker_local p k b flag check = dekker_local p k b flag check'"
  by (cases k) simp_all

lemma dekker_load_own:
  assumes "dekker_inv p s" "dekker_inv (other p) s" "stress_dekker_prog p (pc s p) = Load x k"
  shows "dekker_inv p (s\<lparr>pc := (pc s)(p := k (tso_read s p x))\<rparr>)"
proof (cases "pc s p")
  case Test_wants
  show ?thesis
  proof (cases "mem s (Flag (other p)) = 0")
    case True
    then have "\<not> dekker_critical (other p) s"
      using dekker_inside_flag [OF assms(2)] by (auto simp: dekker_critical_def)
    then show ?thesis
      using True Test_wants assms by (auto simp: dekker_inv_defs tso_read_def)
  next
    case False
    then show ?thesis
      using Test_wants assms by (auto simp: dekker_inv_defs tso_read_def)
  qed
qed (use assms in \<open>auto simp: dekker_inv_defs tso_read_def split: if_splits\<close>)

lemma dekker_load_peer:
  assumes "dekker_inv p s" "dekker_inv (other p) s" "stress_dekker_prog (other p) (pc s (other p)) = Load x k"
  shows "dekker_inv p (s\<lparr>pc := (pc s)(other p := k (tso_read s (other p) x))\<rparr>)"
  using dekker_load_own [OF assms(2) _ assms(3)] assms(1) by (simp add: dekker_inv_defs conj_commute)

lemma dekker_store_own:
  assumes "dekker_inv p s" "dekker_inv (other p) s" "stress_dekker_prog p (pc s p) = Store x v k"
  shows "dekker_inv p (s\<lparr>buf := (buf s)(p := buf s p @ [(x, v)]), pc := (pc s)(p := k)\<rparr>)"
  using assms by (cases "pc s p") (auto simp: dekker_inv_defs)

lemma dekker_flush_own:
  assumes "dekker_inv p s" "dekker_inv (other p) s" "buf s p = (x, v) # b"
  shows "dekker_inv p (s\<lparr>mem := (mem s)(x := v), buf := (buf s)(p := b)\<rparr>)"
proof (cases "pc s p")
  case (Mfence5 c d)
  then have "x = Turn \<and> v = num (other p) \<and> b = [(Flag p, 0)] \<and> mem s (Flag p) = 1
      \<or> x = Flag p \<and> v = 0 \<and> b = []"
    using assms by (auto simp: dekker_inv_def)
  then show ?thesis
    using Mfence5 assms(1) by (elim disjE conjE; simp add: dekker_inv_defs)
qed (use assms in \<open>auto simp: dekker_inv_defs\<close>)

lemma dekker_store_peer:
  assumes "dekker_inv p s" "dekker_inv (other p) s" "stress_dekker_prog (other p) (pc s (other p)) = Store x v k"
  shows "dekker_inv p (s\<lparr>buf := (buf s)(other p := buf s (other p) @ [(x, v)]), pc := (pc s)(other p := k)\<rparr>)"
  using dekker_store_own [OF assms(2) _ assms(3)] assms(1) by (simp add: dekker_inv_defs conj_commute)

lemma dekker_flush_check:
  assumes "dekker_inv (other p) s" "buf s (other p) = (Check, v) # b"
  shows "dekker_inside (pc s (other p))"
  using assms by (cases "pc s (other p)") (auto simp: dekker_inv_def)

lemma dekker_flush_peer:
  assumes "dekker_inv p s" "dekker_inv (other p) s" "buf s (other p) = (x, v) # b"
  shows "dekker_inv p (s\<lparr>mem := (mem s)(x := v), buf := (buf s)(other p := b)\<rparr>)"
proof -
  let ?s = "s\<lparr>mem := (mem s)(x := v), buf := (buf s)(other p := b)\<rparr>"
  have "\<not> (dekker_critical (other p) ?s \<and> dekker_critical p ?s)"
    using dekker_flush_own [OF assms(2) _ assms(3)] assms(1) by (simp add: dekker_inv_def)
  moreover have flag: "x \<noteq> Flag p"
    using assms(2,3) by (cases "pc s (other p)") (auto simp: dekker_inv_def)
  moreover have "\<not> dekker_inside (pc s p)" if "x = Check"
    using dekker_flush_check [of p s v b] assms that by (auto simp: dekker_inv_defs)
  then have "dekker_local p (pc s p) (buf s p) (mem s (Flag p)) (mem ?s Check)"
    using assms(1) dekker_local_outside [of "pc s p" p "buf s p" "mem s (Flag p)" v "mem s Check"]
    by (cases "x = Check") (auto simp: dekker_inv_def)
  ultimately show ?thesis by (simp add: dekker_inv_def) blast
qed

lemma dekker_jump_own:
  assumes "dekker_inv p s" "dekker_inv (other p) s"
    and "stress_dekker_prog p (pc s p) = Fence k \<and> buf s p = []
      \<or> stress_dekker_prog p (pc s p) = Local ks \<and> k \<in> set ks"
  shows "dekker_inv p (s\<lparr>pc := (pc s)(p := k)\<rparr>)"
  using assms by (cases "pc s p") (auto simp: dekker_inv_defs split: if_splits)

lemma dekker_jump_peer:
  assumes "dekker_inv p s" "dekker_inv (other p) s"
    and "stress_dekker_prog (other p) (pc s (other p)) = Fence k \<and> buf s (other p) = []
      \<or> stress_dekker_prog (other p) (pc s (other p)) = Local ks \<and> k \<in> set ks"
  shows "dekker_inv p (s\<lparr>pc := (pc s)(other p := k)\<rparr>)"
  using dekker_jump_own [OF assms(2) _ assms(3)] assms(1) by (simp add: dekker_inv_defs conj_commute)

interpretation dekker: tso_invariant stress_dekker_prog Start dekker_inv
proof
  show "dekker_inv p (tso_start Start)" for p
    by (simp add: tso_start_def dekker_inv_defs)
  fix p q s x v k b kk ks
  assume inv: "dekker_inv p s" "dekker_inv (other p) s"
  have q: "q = p \<or> q = other p" using neq_other by blast
  show "dekker_inv p (s\<lparr>buf := (buf s)(q := buf s q @ [(x, v)]), pc := (pc s)(q := k)\<rparr>)"
    if "stress_dekker_prog q (pc s q) = Store x v k"
    using that q inv dekker_store_own dekker_store_peer by auto
  show "dekker_inv p (s\<lparr>pc := (pc s)(q := kk (tso_read s q x))\<rparr>)"
    if "stress_dekker_prog q (pc s q) = Load x kk"
    using that q inv dekker_load_own dekker_load_peer by auto
  show "dekker_inv p (s\<lparr>pc := (pc s)(q := k)\<rparr>)"
    if "stress_dekker_prog q (pc s q) = Fence k" "buf s q = []"
    using that q inv dekker_jump_own dekker_jump_peer by blast
  show "dekker_inv p (s\<lparr>pc := (pc s)(q := k)\<rparr>)"
    if "stress_dekker_prog q (pc s q) = Local ks" "k \<in> set ks"
    using that q inv dekker_jump_own dekker_jump_peer by blast
  show "dekker_inv p (s\<lparr>mem := (mem s)(x := v), buf := (buf s)(q := b)\<rparr>)"
    if "buf s q = (x, v) # b"
    using that q inv dekker_flush_own dekker_flush_peer by auto
qed

section \<open>Mutual exclusion\<close>

text \<open>
  C20: Dekker's algorithm excludes under store buffering: in no reachable state are both
  processes between seeing the other's flag clear and the moment their own clear flag reaches memory.
\<close>

theorem dekker_mutual_exclusion:
  assumes "tso_reachable stress_dekker_prog (tso_start Start) s"
  shows "\<not> (dekker_critical P0 s \<and> dekker_critical P1 s)"
  using dekker.reachable_inv [OF assms, of P0] by (simp add: dekker_inv_def)

definition both_want :: "(proc \<times> nat option) list" where
  "both_want = [(P0, Some 0), (P0, Some 0), (P1, Some 0), (P1, Some 0), (P1, None), (P1, Some 0),
     (P0, None), (P0, Some 0), (P0, Some 0), (P1, Some 0)]"

theorem dekker_mutual_exclusion_witness:
  "\<not> (dekker_critical P0 (tso_run stress_dekker_prog both_want (tso_start Start))
      \<and> dekker_critical P1 (tso_run stress_dekker_prog both_want (tso_start Start)))"
  by (rule dekker_mutual_exclusion [OF tso_run_reachable])

text \<open>
  Dekker's checked counter never surprises: whatever both processes have done when they end,
  and whether the child is killed or has exited by itself, the stressor exits successfully.
\<close>

theorem dekker_check_holds:
  assumes "tso_reachable stress_dekker_prog (tso_start Start) s"
    and "wait \<in> {None, Some (Signaled sig), Some (Exited (dekker_rc (pc s P0)))}"
  shows "stress_dekker True True (pc s P1) wait = EXIT_SUCCESS"
proof -
  have "pc s p \<noteq> Failed" for p
    using dekker.reachable_inv [OF assms(1), of p] by (auto simp: dekker_inv_def)
  then show ?thesis
    using assms(2) by (auto simp: stress_dekker_def dekker_rc_def)
qed

theorem dekker_check_holds_witness:
  "stress_dekker True True
     (pc (tso_run stress_dekker_prog both_want (tso_start Start)) P1) (Some (Signaled 9)) = EXIT_SUCCESS"
  by (rule dekker_check_holds [OF tso_run_reachable]) simp

lemma dekker_parent_failure_lost:
  "stress_dekker True True Failed (Some (Exited EXIT_SUCCESS)) = EXIT_SUCCESS"
  by (simp add: stress_dekker_def)

end
