(* ===== verification/ParseOpts.thy ===== *)
theory ParseOpts
  imports Setting
begin

text \<open>
  The option parser, core-parse-opts.c: numbers, scaled sizes and times, percentages and the
  switch over an option's type that stores the result in the option list of core-setting.c.  An
  error leaves by longjmp: it is the left of a sum.  What the parser asks of the machine (cache,
  memory and processor sizes, the network option parsers and callbacks) and the double precision
  arithmetic of the percentages is an environment.
\<close>

section \<open>Errors\<close>

datatype parse_error =
    Bad_stressors | Out_of_range | Not_numeric | Not_positive | Invalid_value | Too_large | Too_small
  | Invalid_size | Illegal_specifier | Empty_specifier | Illegal_cache | No_cache_size
  | Percent_of_nothing | No_instances | Invalid_percentage | Negative_percentage | Huge_percentage
  | No_method_function | Unknown_choice | Bad_domain | No_callback

type_synonym 'a parse = "parse_error + 'a"

fun pbind :: "'a parse \<Rightarrow> ('a \<Rightarrow> 'b parse) \<Rightarrow> 'b parse" where
  "pbind (Inl e) f = Inl e"
| "pbind (Inr v) f = f v"

lemma pbind_Inr: "pbind r f = Inr w \<longleftrightarrow> (\<exists>v. r = Inr v \<and> f v = Inr w)"
  by (cases r) simp_all

definition STRESS_PROCS_MAX :: int where "STRESS_PROCS_MAX = 8192"

definition stress_check_max_stressors :: "int \<Rightarrow> unit parse" where
  "stress_check_max_stressors v = (if v < 0 \<or> v > STRESS_PROCS_MAX then Inl Bad_stressors else Inr ())"

definition stress_check_signed_range :: "int \<Rightarrow> int \<Rightarrow> int \<Rightarrow> unit parse" where
  "stress_check_signed_range v lo hi = (if v < lo \<or> v > hi then Inl Out_of_range else Inr ())"

definition stress_check_range :: "u64 \<Rightarrow> u64 \<Rightarrow> u64 \<Rightarrow> unit parse" where
  "stress_check_range v lo hi = (if v < lo \<or> v > hi then Inl Out_of_range else Inr ())"

definition stress_check_range_bytes :: "u64 \<Rightarrow> u64 \<Rightarrow> u64 \<Rightarrow> unit parse" where
  "stress_check_range_bytes v lo hi = (if v < lo \<or> v > hi then Inl Out_of_range else Inr ())"

section \<open>Characters and the C library's number scanner\<close>

definition code :: "char \<Rightarrow> nat" where
  "code c = of_char c"

definition isdigit :: "char \<Rightarrow> bool" where
  "isdigit c \<longleftrightarrow> 48 \<le> code c \<and> code c \<le> 57"

definition isspace :: "char \<Rightarrow> bool" where
  "isspace c \<longleftrightarrow> code c = 32 \<or> 9 \<le> code c \<and> code c \<le> 13"

definition tolower :: "char \<Rightarrow> char" where
  "tolower c = (if 65 \<le> code c \<and> code c \<le> 90 then char_of (code c + 32) else c)"

definition decimal :: "string \<Rightarrow> nat" where
  "decimal ds = foldl (\<lambda>v c. 10 * v + (code c - 48)) 0 ds"

definition scan_sign :: "string \<Rightarrow> bool \<times> string" where
  "scan_sign s =
     (case s of [] \<Rightarrow> (False, [])
      | c # cs \<Rightarrow> if c = CHR ''-'' then (True, cs) else if c = CHR ''+'' then (False, cs) else (False, s))"

text \<open>
  sscanf with SCNu64 and SCNd64: white space, a sign, digits; \<open>None\<close> when there is no number.  A
  number that does not fit gives the largest (smallest) value and sets errno, the flag of the result.
\<close>

definition scanf_u64 :: "string \<Rightarrow> (u64 \<times> bool) option" where
  "scanf_u64 s =
     (let (neg, t) = scan_sign (dropWhile isspace s); ds = takeWhile isdigit t; v = decimal ds
      in if ds = [] then None
         else if v \<ge> 2 ^ 64 then Some (- 1, True)
         else Some (if neg then - word_of_nat v else word_of_nat v, False))"

definition scanf_d64 :: "string \<Rightarrow> (int \<times> bool) option" where
  "scanf_d64 s =
     (let (neg, t) = scan_sign (dropWhile isspace s); ds = takeWhile isdigit t;
          v = (if neg then - int (decimal ds) else int (decimal ds))
      in if ds = [] then None
         else if v > 2 ^ 63 - 1 then Some (2 ^ 63 - 1, True)
         else if v < - (2 ^ 63) then Some (- (2 ^ 63), True)
         else Some (v, False))"

definition scan_u64 :: "string \<Rightarrow> u64 parse" where
  "scan_u64 s = (case scanf_u64 s of Some (v, False) \<Rightarrow> Inr v | _ \<Rightarrow> Inl Invalid_value)"

definition scan_d64 :: "string \<Rightarrow> int parse" where
  "scan_d64 s = (case scanf_d64 s of Some (v, False) \<Rightarrow> Inr v | _ \<Rightarrow> Inl Invalid_value)"

section \<open>Plain numbers\<close>

definition stress_ensure_numeric :: "string \<Rightarrow> unit parse" where
  "stress_ensure_numeric s =
     (let t = (case s of [] \<Rightarrow> [] | c # cs \<Rightarrow> if c = CHR ''-'' then cs else s)
      in if dropWhile isdigit t = [] then Inr () else Inl Not_numeric)"

fun ensure_positive_loop :: "string \<Rightarrow> bool \<Rightarrow> unit parse" where
  "ensure_positive_loop [] negative = Inr ()"
| "ensure_positive_loop (c # cs) negative =
     (if c = CHR ''-'' then ensure_positive_loop cs True
      else if isdigit c then (if \<not> negative then Inr () else Inl Not_positive)
      else ensure_positive_loop cs negative)"

definition stress_ensure_positive :: "string \<Rightarrow> unit parse" where
  "stress_ensure_positive s = ensure_positive_loop s False"

text \<open>The unsigned and the signed parsers differ only in the limits of their type.\<close>

definition get_unsigned :: "u64 \<Rightarrow> string \<Rightarrow> u64 parse" where
  "get_unsigned hi s =
     pbind (stress_ensure_positive s) (\<lambda>_.
     pbind (stress_ensure_numeric s) (\<lambda>_.
     pbind (scan_u64 s) (\<lambda>v. if v > hi then Inl Too_large else Inr v)))"

definition get_signed :: "int \<Rightarrow> int \<Rightarrow> string \<Rightarrow> int parse" where
  "get_signed lo hi s =
     pbind (stress_ensure_numeric s) (\<lambda>_.
     pbind (scan_d64 s) (\<lambda>v. if v > hi then Inl Too_large else if v < lo then Inl Too_small else Inr v))"

definition stress_get_uint8 :: "string \<Rightarrow> u8 parse" where
  "stress_get_uint8 s = pbind (get_unsigned 0xff s) (\<lambda>v. Inr (ucast v))"

definition stress_get_int8 :: "string \<Rightarrow> 8 word parse" where
  "stress_get_int8 s = pbind (get_signed (- 128) 127 s) (\<lambda>v. Inr (word_of_int v))"

definition stress_get_uint16 :: "string \<Rightarrow> u16 parse" where
  "stress_get_uint16 s = pbind (get_unsigned 0xffff s) (\<lambda>v. Inr (ucast v))"

definition stress_get_int16 :: "string \<Rightarrow> 16 word parse" where
  "stress_get_int16 s = pbind (get_signed (- 32768) 32767 s) (\<lambda>v. Inr (word_of_int v))"

definition stress_get_uint32 :: "string \<Rightarrow> u32 parse" where
  "stress_get_uint32 s = pbind (get_unsigned 0xffffffff s) (\<lambda>v. Inr (ucast v))"

definition stress_get_int32 :: "string \<Rightarrow> i32 parse" where
  "stress_get_int32 s = pbind (get_signed (- 2147483648) 2147483647 s) (\<lambda>v. Inr (word_of_int v))"

definition stress_get_uint64 :: "string \<Rightarrow> u64 parse" where
  "stress_get_uint64 s =
     pbind (stress_ensure_positive s) (\<lambda>_. pbind (stress_ensure_numeric s) (\<lambda>_. scan_u64 s))"

definition stress_get_int64 :: "string \<Rightarrow> 64 word parse" where
  "stress_get_int64 s =
     pbind (stress_ensure_numeric s) (\<lambda>_. pbind (scan_d64 s) (\<lambda>v. Inr (word_of_int v)))"

definition stress_get_uint :: "string \<Rightarrow> u32 parse" where
  "stress_get_uint s = pbind (get_unsigned 0xffffffff s) (\<lambda>v. Inr (ucast v))"

definition stress_get_int :: "string \<Rightarrow> i32 parse" where
  "stress_get_int s = pbind (get_signed (- 2147483648) 2147483647 s) (\<lambda>v. Inr (word_of_int v))"

section \<open>Scaled numbers\<close>

text \<open>A table of scales, without its terminating zero entry.\<close>

type_synonym stress_scale = "char \<times> u64"

definition stress_get_uint64_scale :: "string \<Rightarrow> stress_scale list \<Rightarrow> u64 parse" where
  "stress_get_uint64_scale s scales =
     pbind (stress_ensure_positive s) (\<lambda>_.
     pbind (scan_u64 s) (\<lambda>v.
       if s = [] then Inl Invalid_size
       else let ch = last s
            in if isdigit ch then Inr v
               else (case map_of scales (tolower ch) of
                       Some scale \<Rightarrow> Inr (v * scale)
                     | None \<Rightarrow> Inl Illegal_specifier)))"

definition size_scales :: "stress_scale list" where
  "size_scales =
     [(CHR ''b'', 1), (CHR ''k'', push_bit 10 1), (CHR ''m'', push_bit 20 1), (CHR ''g'', push_bit 30 1),
      (CHR ''t'', push_bit 40 1), (CHR ''p'', push_bit 50 1), (CHR ''e'', push_bit 60 1)]"

definition time_scales :: "stress_scale list" where
  "time_scales =
     [(CHR ''s'', 1), (CHR ''m'', 60), (CHR ''h'', 3600), (CHR ''d'', 24 * 3600), (CHR ''w'', 24 * 3600 * 7),
      (CHR ''y'', 31536000)]"

definition stress_get_uint64_byte_scale :: "string \<Rightarrow> u64 parse" where
  "stress_get_uint64_byte_scale s =
     (case s of [] \<Rightarrow> Inl Empty_specifier
      | [c] \<Rightarrow> (case map_of (tl size_scales) (tolower c) of Some scale \<Rightarrow> Inr scale | None \<Rightarrow> Inl Illegal_specifier)
      | _ \<Rightarrow> Inl Illegal_specifier)"

definition stress_get_uint64_time :: "string \<Rightarrow> u64 parse" where
  "stress_get_uint64_time s = stress_get_uint64_scale s time_scales"

section \<open>The environment\<close>

text \<open>
  The doubles are a type of their own: \<open>pe_scan\<close> is sscanf with lf, \<open>pe_percent\<close> the percentage of
  an amount over a number of instances, \<open>pe_cpus_percent\<close> that of the processors.
\<close>

record 'd parse_env =
  pe_llc_size :: u64
  pe_cache_size :: "u16 \<Rightarrow> u64"
  pe_phys_mem :: u64
  pe_cpus_configured :: i32
  pe_cpus_online :: i32
  pe_scan :: "string \<Rightarrow> 'd option"
  pe_negative :: "'d \<Rightarrow> bool"
  pe_positive :: "'d \<Rightarrow> bool"
  pe_percent :: "u64 \<Rightarrow> 'd \<Rightarrow> u32 \<Rightarrow> 'd"
  pe_above_u64 :: "'d \<Rightarrow> bool"
  pe_to_u64 :: "'d \<Rightarrow> u64"
  pe_cpus_percent :: "i32 \<Rightarrow> 'd \<Rightarrow> 'd"
  pe_below_one :: "'d \<Rightarrow> bool"
  pe_above_i32 :: "'d \<Rightarrow> bool"
  pe_to_i32 :: "'d \<Rightarrow> i32"

definition stress_get_uint64_byte :: "'d parse_env \<Rightarrow> string \<Rightarrow> u64 parse" where
  "stress_get_uint64_byte env s =
     (if s = [] \<or> tolower (hd s) \<noteq> CHR ''l'' then stress_get_uint64_scale s size_scales
      else pbind
        (if map tolower s = ''llc'' then Inr (pe_llc_size env)
         else let cache_level = (case scanf_d64 (tl s) of Some (v, False) \<Rightarrow> word_of_int v :: i32 | _ \<Rightarrow> 0)
              in if sint cache_level < 0 \<or> sint cache_level > 5 then Inl Illegal_cache
                 else Inr (pe_cache_size env (ucast cache_level)))
        (\<lambda>llc_size. if llc_size = 0 then Inl No_cache_size else Inr llc_size))"

text \<open>The result of a percentage carries whether it was one.\<close>

definition stress_get_uint64_percent ::
    "'d parse_env \<Rightarrow> string \<Rightarrow> u32 \<Rightarrow> u64 \<Rightarrow> (bool \<times> u64) parse" where
  "stress_get_uint64_percent env s instances mx =
     (if length s > 1 \<and> last s = CHR ''%''
      then if mx = 0 then Inl Percent_of_nothing
           else if instances < 1 then Inl No_instances
           else (case pe_scan env s of
                   None \<Rightarrow> Inl Invalid_percentage
                 | Some v \<Rightarrow>
                   if pe_negative env v then Inl Negative_percentage
                   else let percent = pe_percent env mx v instances
                        in if pe_above_u64 env percent then Inl Huge_percentage
                           else Inr (True, pe_to_u64 env percent))
      else pbind (stress_get_uint64_byte env s) (\<lambda>v. Inr (False, v)))"

definition stress_get_int32_instance_percent_generic :: "'d parse_env \<Rightarrow> string \<Rightarrow> i32 parse" where
  "stress_get_int32_instance_percent_generic env s =
     (if length s > 1 \<and> last s = CHR ''%''
      then (case pe_scan env s of
              None \<Rightarrow> Inl Invalid_percentage
            | Some v \<Rightarrow>
              if pe_negative env v then Inr (- 1)
              else if pe_positive env v
              then let v = pe_cpus_percent env (pe_cpus_configured env) v
                   in if pe_below_one env v then Inr 1
                      else if pe_above_i32 env v then Inl Huge_percentage
                      else Inr (pe_to_i32 env v)
              else Inr 0)
      else stress_get_int32 s)"

definition stress_get_int32_instance_percent :: "'d parse_env \<Rightarrow> string \<Rightarrow> i32 parse" where
  "stress_get_int32_instance_percent env s =
     pbind (stress_get_int32_instance_percent_generic env s) (\<lambda>v.
       if v = 0 then Inr (pe_cpus_configured env)
       else if sint v < 0 then Inr (pe_cpus_online env)
       else Inr v)"

definition stress_get_uint64_byte_memory :: "'d parse_env \<Rightarrow> string \<Rightarrow> u32 \<Rightarrow> u64 parse" where
  "stress_get_uint64_byte_memory env s instances =
     pbind (stress_get_uint64_percent env s instances (pe_phys_mem env)) (\<lambda>(_, v). Inr v)"

definition stress_get_uint64_byte_filesystem :: "'d parse_env \<Rightarrow> string \<Rightarrow> u32 \<Rightarrow> (bool \<times> u64) parse" where
  "stress_get_uint64_byte_filesystem env s instances = stress_get_uint64_percent env s instances 100"

section \<open>Network options\<close>

text \<open>core-net.c: the address families by name, with the flag an option's mask selects them by.\<close>

type_synonym stress_domain = "string \<times> i32 \<times> i32"

definition domains :: "stress_domain list" where
  "domains = [(''ipv4'', 2, 0x01), (''ipv6'', 10, 0x02), (''unix'', 1, 0x04)]"

definition stress_net_domain :: "i32 \<Rightarrow> string" where
  "stress_net_domain af =
     (case List.find (\<lambda>(_, d, _). d = af) domains of Some (n, _) \<Rightarrow> n | None \<Rightarrow> ''unknown'')"

definition stress_net_domain_set :: "i32 \<Rightarrow> string \<Rightarrow> i32 option" where
  "stress_net_domain_set domain_mask domain_name =
     (case List.find (\<lambda>(n, _, flags). domain_mask AND flags \<noteq> 0 \<and> domain_name = n) domains of
        Some (_, d, _) \<Rightarrow> Some d | None \<Rightarrow> None)"

definition stress_net_port_set :: "string \<Rightarrow> i32 \<Rightarrow> i32 \<Rightarrow> i32 parse" where
  "stress_net_port_set arg min_port max_port =
     pbind (stress_get_uint64 arg) (\<lambda>val.
     pbind (stress_check_range val (scast min_port) (scast max_port)) (\<lambda>_. Inr (ucast val)))"

section \<open>Options\<close>

text \<open>
  An entry of a stressor's option table.  Its data is a list of method names (the method function,
  up to its first NULL), a mask of domains or a callback, as the type of the option says.
\<close>

datatype opt_data =
    No_data | Methods "string list" | Domain_mask i32
  | Callback "string \<Rightarrow> string option \<Rightarrow> (stress_type_id \<times> setting_value) parse"

record stress_opt =
  so_name :: string
  so_type_id :: stress_type_id
  so_min :: u64
  so_max :: u64
  so_data :: opt_data

definition stress_unimplemented_method :: "nat \<Rightarrow> string option" where
  "stress_unimplemented_method i = None"

text \<open>The index of the first method of that name.\<close>

fun method_index :: "string list \<Rightarrow> string \<Rightarrow> nat \<Rightarrow> nat option" where
  "method_index [] s i = None"
| "method_index (m # ms) s i = (if m = s then Some i else method_index ms s (Suc i))"

type_synonym set_result = "setting_exit + stress_setting list"

text \<open>Parse, check the range, and set: the shape of most cases of the switch.\<close>

definition set_checked ::
    "'v parse \<Rightarrow> ('v \<Rightarrow> unit parse) \<Rightarrow> ('v \<Rightarrow> u64) \<Rightarrow> (u64 \<Rightarrow> set_result) \<Rightarrow> set_result parse" where
  "set_checked get check bits put =
     pbind get (\<lambda>v. pbind (check v) (\<lambda>_. Inr (put (bits v))))"

text \<open>
  \<open>arg\<close> is the option's argument, \<open>None\<close> when it has none, which only a boolean and a string option
  may; \<open>optarg\<close> is getopt's global of the same value, which one case reads instead.
\<close>

definition stress_parse_opt ::
    "'d parse_env \<Rightarrow> bool \<Rightarrow> nat option \<Rightarrow> string \<Rightarrow> string \<Rightarrow> string option \<Rightarrow> stress_opt \<Rightarrow>
     stress_setting list \<Rightarrow> set_result parse" where
  "stress_parse_opt env alloc_ok cur optarg stressor_name opt_arg opt ss =
     (let arg = the opt_arg; lo = so_min opt; hi = so_max opt;
          put = (\<lambda>t b. stress_setting_set alloc_ok cur stressor_name (Some (so_name opt)) t (Some (Bits b)) ss)
      in case so_type_id opt of
        TYPE_ID_UINT8 \<Rightarrow>
          set_checked (stress_get_uint8 arg) (\<lambda>v. stress_check_range (ucast v) lo hi) ucast (put TYPE_ID_UINT8)
      | TYPE_ID_INT8 \<Rightarrow>
          set_checked (stress_get_int8 arg) (\<lambda>v. stress_check_signed_range (sint v) (sint lo) (sint hi)) ucast
            (put TYPE_ID_INT8)
      | TYPE_ID_UINT16 \<Rightarrow>
          set_checked (stress_get_uint16 arg) (\<lambda>v. stress_check_range (ucast v) lo hi) ucast (put TYPE_ID_UINT16)
      | TYPE_ID_INT16 \<Rightarrow>
          set_checked (stress_get_int16 arg) (\<lambda>v. stress_check_signed_range (sint v) (sint lo) (sint hi)) ucast
            (put TYPE_ID_INT16)
      | TYPE_ID_UINT32 \<Rightarrow>
          set_checked (stress_get_uint32 arg) (\<lambda>v. stress_check_range (ucast v) lo hi) ucast (put TYPE_ID_UINT32)
      | TYPE_ID_UINT32_TIME \<Rightarrow>
          set_checked (stress_get_uint64_time arg) (\<lambda>v. stress_check_range v lo hi)
            (\<lambda>v. ucast (ucast v :: u32)) (put TYPE_ID_UINT32_TIME)
      | TYPE_ID_INT32 \<Rightarrow>
          set_checked (stress_get_int32 arg) (\<lambda>v. stress_check_signed_range (sint v) (sint lo) (sint hi)) ucast
            (put TYPE_ID_INT32)
      | TYPE_ID_INT32_TIME \<Rightarrow>
          set_checked (stress_get_uint64_time arg) (\<lambda>v. stress_check_range v lo hi)
            (\<lambda>v. ucast (ucast v :: i32)) (put TYPE_ID_INT32_TIME)
      | TYPE_ID_INT32_CPU_PERCENT \<Rightarrow>
          set_checked (stress_get_int32_instance_percent env optarg)
            (\<lambda>v. stress_check_signed_range (sint v) (sint lo) (sint hi)) ucast (put TYPE_ID_INT32)
      | TYPE_ID_UINT64 \<Rightarrow>
          set_checked (stress_get_uint64 arg) (\<lambda>v. stress_check_range v lo hi) id (put TYPE_ID_UINT64)
      | TYPE_ID_UINT64_TIME \<Rightarrow>
          set_checked (stress_get_uint64_time arg) (\<lambda>v. stress_check_range v lo hi) id (put TYPE_ID_UINT64_TIME)
      | TYPE_ID_UINT64_BYTES \<Rightarrow>
          set_checked (stress_get_uint64_byte env arg) (\<lambda>v. stress_check_range_bytes v lo hi) id
            (put TYPE_ID_UINT64_BYTES)
      | TYPE_ID_UINT64_BYTES_FS \<Rightarrow>
          pbind (stress_get_uint64_byte_filesystem env arg 1) (\<lambda>(percentage, v).
            if percentage then Inr (put TYPE_ID_UINT64_BYTES_FS_PERCENT v)
            else set_checked (Inr v) (\<lambda>v. stress_check_range_bytes v lo hi) id (put TYPE_ID_UINT64_BYTES_FS))
      | TYPE_ID_UINT64_BYTES_VM \<Rightarrow>
          set_checked (stress_get_uint64_byte_memory env arg 1) (\<lambda>v. stress_check_range_bytes v lo hi) id
            (put TYPE_ID_UINT64_BYTES_VM)
      | TYPE_ID_INT64 \<Rightarrow>
          set_checked (stress_get_int64 arg) (\<lambda>v. stress_check_signed_range (sint v) (sint lo) (sint hi)) id
            (put TYPE_ID_INT64)
      | TYPE_ID_SIZE_T \<Rightarrow>
          set_checked (stress_get_uint64 arg) (\<lambda>v. stress_check_range v lo hi) id (put TYPE_ID_SIZE_T)
      | TYPE_ID_SIZE_T_BYTES \<Rightarrow>
          set_checked (stress_get_uint64_byte env arg) (\<lambda>v. stress_check_range v lo hi) id
            (put TYPE_ID_SIZE_T_BYTES)
      | TYPE_ID_SIZE_T_BYTES_FS \<Rightarrow>
          pbind (stress_get_uint64_byte_filesystem env arg 1) (\<lambda>(percentage, v).
            if percentage then Inr (put TYPE_ID_SIZE_T_BYTES_FS_PERCENT v)
            else set_checked (Inr v) (\<lambda>v. stress_check_range v lo hi) id (put TYPE_ID_SIZE_T_BYTES_FS))
      | TYPE_ID_SIZE_T_BYTES_VM \<Rightarrow>
          set_checked (stress_get_uint64_byte_memory env arg 1) (\<lambda>v. stress_check_range_bytes v lo hi) id
            (put TYPE_ID_SIZE_T_BYTES_VM)
      | TYPE_ID_SIZE_T_METHOD \<Rightarrow>
          (case so_data opt of
             Methods ms \<Rightarrow>
               (case method_index ms arg 0 of
                  Some i \<Rightarrow> Inr (put TYPE_ID_SIZE_T_METHOD (word_of_nat i))
                | None \<Rightarrow> Inl Unknown_choice)
           | _ \<Rightarrow> Inl No_method_function)
      | TYPE_ID_SSIZE_T \<Rightarrow>
          set_checked (stress_get_int64 arg) (\<lambda>v. stress_check_signed_range (sint v) (sint lo) (sint hi)) id
            (put TYPE_ID_SSIZE_T)
      | TYPE_ID_UINT \<Rightarrow>
          set_checked (stress_get_uint arg) (\<lambda>v. stress_check_range (ucast v) lo hi) ucast (put TYPE_ID_UINT)
      | TYPE_ID_INT \<Rightarrow>
          set_checked (stress_get_int arg) (\<lambda>v. stress_check_signed_range (sint v) (sint lo) (sint hi)) ucast
            (put TYPE_ID_INT)
      | TYPE_ID_INT_DOMAIN \<Rightarrow>
          (case stress_net_domain_set (case so_data opt of Domain_mask m \<Rightarrow> m | _ \<Rightarrow> 0) arg of
             Some d \<Rightarrow> Inr (put TYPE_ID_UINT (ucast d))
           | None \<Rightarrow> Inl Bad_domain)
      | TYPE_ID_INT_PORT \<Rightarrow>
          set_checked (stress_net_port_set arg (ucast lo) (ucast hi)) (\<lambda>_. Inr ()) ucast (put TYPE_ID_INT)
      | TYPE_ID_OFF_T \<Rightarrow>
          pbind (stress_get_uint64_byte_filesystem env arg 1) (\<lambda>(percentage, v).
            set_checked (Inr v) (\<lambda>v. stress_check_range_bytes v lo hi) id (put TYPE_ID_OFF_T))
      | TYPE_ID_STR \<Rightarrow>
          Inr (stress_setting_set alloc_ok cur stressor_name (Some (so_name opt)) TYPE_ID_STR
                 (map_option Str opt_arg) ss)
      | TYPE_ID_BOOL \<Rightarrow>
          (case opt_arg of
             None \<Rightarrow> Inr (stress_setting_set_true alloc_ok cur stressor_name (Some (so_name opt)) ss)
           | Some a \<Rightarrow>
             set_checked (pbind (stress_get_uint8 a) (\<lambda>v. Inr (if v \<noteq> 0 then 1 else 0)))
               (\<lambda>v. stress_check_range v lo hi) id (put TYPE_ID_BOOL))
      | TYPE_ID_CALLBACK \<Rightarrow>
          (case so_data opt of
             Callback f \<Rightarrow>
               pbind (f (so_name opt) opt_arg) (\<lambda>(type_id, u).
                 Inr (if type_id \<noteq> TYPE_ID_UNDEFINED
                      then stress_setting_set alloc_ok cur stressor_name (Some (so_name opt)) type_id (Some u) ss
                      else Inr ss))
           | _ \<Rightarrow> Inl No_callback)
      | _ \<Rightarrow> Inr (Inr ss))"

section \<open>What the parsers accept\<close>

lemma isdigit_not_space: "isdigit c \<Longrightarrow> \<not> isspace c"
  by (auto simp: isdigit_def isspace_def)

lemma isdigit_not_sign: "isdigit c \<Longrightarrow> c \<noteq> CHR ''-''" "isdigit c \<Longrightarrow> c \<noteq> CHR ''+''"
  by (auto simp: isdigit_def code_def)

lemma dropWhile_Nil_all: "dropWhile P xs = [] \<longleftrightarrow> list_all P xs"
  by (induction xs) auto

lemma takeWhile_all: "list_all P xs \<Longrightarrow> takeWhile P xs = xs"
  by (induction xs) auto

lemma takeWhile_stop: "list_all P xs \<Longrightarrow> \<not> P c \<Longrightarrow> takeWhile P (xs @ [c]) = xs"
  by (induction xs) auto

text \<open>The scanner on a string that starts with a digit.\<close>

lemma scan_digit_start:
  assumes "isdigit c"
  shows "scan_sign (dropWhile isspace (c # s)) = (False, c # s)"
  using assms isdigit_not_space [OF assms] isdigit_not_sign [OF assms] by (simp add: scan_sign_def)

lemma scan_u64_digits:
  assumes "takeWhile isdigit s = ds" "ds \<noteq> []"
  shows "scan_u64 s = (if decimal ds \<ge> 2 ^ 64 then Inl Invalid_value else Inr (word_of_nat (decimal ds)))"
proof -
  obtain c t where s: "s = c # t" "isdigit c"
    using assms by (cases s) (auto split: if_splits)
  show ?thesis
    unfolding scan_u64_def scanf_u64_def s(1) scan_digit_start [OF s(2)]
    using assms s by simp
qed

lemma ensure_positive_digit [simp]: "isdigit c \<Longrightarrow> stress_ensure_positive (c # s) = Inr ()"
  using isdigit_not_sign [of c] by (simp add: stress_ensure_positive_def)

lemma ensure_numeric_iff:
  "stress_ensure_numeric s = Inr () \<longleftrightarrow>
     (case s of [] \<Rightarrow> True | c # cs \<Rightarrow> (c = CHR ''-'' \<or> isdigit c) \<and> list_all isdigit cs)"
proof (cases s)
  case (Cons c cs)
  show ?thesis
    by (cases "c = CHR ''-''") (simp_all add: Cons stress_ensure_numeric_def list_all_iff)
qed (simp add: stress_ensure_numeric_def)

lemma checked_number:
  "(stress_ensure_positive s = Inr () \<and> stress_ensure_numeric s = Inr () \<and> scan_u64 s = Inr v) \<longleftrightarrow>
    s \<noteq> [] \<and> list_all isdigit s \<and> decimal s < 2 ^ 64 \<and> v = word_of_nat (decimal s)"
proof (cases "s \<noteq> [] \<and> list_all isdigit s")
  case True
  then obtain c t where s: "s = c # t" "isdigit c" "list_all isdigit t" by (cases s) auto
  have "stress_ensure_positive s = Inr ()" "stress_ensure_numeric s = Inr ()"
    unfolding s(1) using s(2,3) by (simp_all add: ensure_numeric_iff)
  then show ?thesis
    using True scan_u64_digits [OF takeWhile_all, of s] by (auto simp: not_le)
next
  case False
  have "scan_u64 s = Inl Invalid_value" if "s = [] \<or> s = ''-''"
    using that by (auto simp: scan_u64_def scanf_u64_def scan_sign_def isspace_def code_def)
  moreover have "stress_ensure_positive s \<noteq> Inr ()" if "s = CHR ''-'' # c # t" "isdigit c" for c t
    using that isdigit_not_sign(1) by (auto simp: stress_ensure_positive_def)
  moreover have "s = [] \<or> s = ''-'' \<or> (\<exists>c t. s = CHR ''-'' # c # t \<and> isdigit c)"
    if "stress_ensure_numeric s = Inr ()"
  proof (cases s)
    case (Cons c cs)
    then show ?thesis using that False by (cases cs) (auto simp: ensure_numeric_iff)
  qed simp
  ultimately have "\<not> (stress_ensure_positive s = Inr () \<and> stress_ensure_numeric s = Inr () \<and> scan_u64 s = Inr v)"
    by fastforce
  then show ?thesis using False by blast
qed

lemma word_of_nat_u64: "n < 2 ^ 64 \<Longrightarrow> unat (word_of_nat n :: u64) = n"
  by (simp add: unat_of_nat take_bit_nat_eq_self)

lemma get_unsigned_iff:
  "get_unsigned hi s = Inr v \<longleftrightarrow>
     s \<noteq> [] \<and> list_all isdigit s \<and> decimal s \<le> unat hi \<and> v = word_of_nat (decimal s)"
proof -
  have "unat (word_of_nat (decimal s) :: u64) = decimal s" if "decimal s < 2 ^ 64"
    using that by (simp add: unat_of_nat take_bit_nat_eq_self)
  moreover have "decimal s < 18446744073709551616" if "decimal s \<le> unat hi"
    using that unat_less_width(4) [of hi] by linarith
  ultimately have "(decimal s < 2 ^ 64 \<and> \<not> word_of_nat (decimal s) > hi) = (decimal s \<le> unat hi)"
    by (auto simp: word_less_nat_alt)
  moreover have "get_unsigned hi s = Inr v \<longleftrightarrow>
      (stress_ensure_positive s = Inr () \<and> stress_ensure_numeric s = Inr () \<and> scan_u64 s = Inr v) \<and> \<not> v > hi"
    by (auto simp: get_unsigned_def pbind_Inr)
  ultimately show ?thesis unfolding checked_number by blast
qed

lemma get_uint64_iff:
  "stress_get_uint64 s = Inr v \<longleftrightarrow>
     s \<noteq> [] \<and> list_all isdigit s \<and> decimal s < 2 ^ 64 \<and> v = word_of_nat (decimal s)"
  unfolding checked_number [symmetric] by (auto simp: stress_get_uint64_def pbind_Inr)

lemma get_narrow_iff:
  assumes "unat hi < 2 ^ LENGTH('a::len)"
  shows "pbind (get_unsigned hi s) (\<lambda>v. Inr (ucast v :: 'a word)) = Inr w \<longleftrightarrow>
    s \<noteq> [] \<and> list_all isdigit s \<and> decimal s \<le> unat hi \<and> w = word_of_nat (decimal s)"
proof -
  have "ucast (word_of_nat (decimal s) :: u64) = (word_of_nat (decimal s) :: 'a word)" if "decimal s \<le> unat hi"
  proof -
    have "decimal s < 2 ^ 64" using that unat_less_width(4) [of hi] by (simp del: unat_less_width)
    then show ?thesis by (simp add: unsigned_of_nat take_bit_nat_eq_self)
  qed
  then show ?thesis by (auto simp: pbind_Inr get_unsigned_iff)
qed

lemma unsigned_parsers:
  "stress_get_uint8 s = Inr a \<longleftrightarrow>
      s \<noteq> [] \<and> list_all isdigit s \<and> decimal s < 2 ^ 8 \<and> a = word_of_nat (decimal s)"
  "stress_get_uint16 s = Inr b \<longleftrightarrow>
      s \<noteq> [] \<and> list_all isdigit s \<and> decimal s < 2 ^ 16 \<and> b = word_of_nat (decimal s)"
  "stress_get_uint32 s = Inr c \<longleftrightarrow>
      s \<noteq> [] \<and> list_all isdigit s \<and> decimal s < 2 ^ 32 \<and> c = word_of_nat (decimal s)"
  "stress_get_uint s = Inr c \<longleftrightarrow>
      s \<noteq> [] \<and> list_all isdigit s \<and> decimal s < 2 ^ 32 \<and> c = word_of_nat (decimal s)"
  "stress_get_uint64 s = Inr d \<longleftrightarrow>
      s \<noteq> [] \<and> list_all isdigit s \<and> decimal s < 2 ^ 64 \<and> d = word_of_nat (decimal s)"
  by (auto simp: stress_get_uint8_def stress_get_uint16_def stress_get_uint32_def stress_get_uint_def
      get_narrow_iff get_uint64_iff)

text \<open>
  C39: the unsigned parsers accept exactly the non-empty strings of digits whose value fits the
  type, and give that value: no sign, no white space, no wrap-around.
\<close>

theorem unsigned_parse_exact:
  "(stress_get_uint8 s = Inr a \<longleftrightarrow>
      s \<noteq> [] \<and> list_all isdigit s \<and> decimal s < 2 ^ 8 \<and> a = word_of_nat (decimal s))
   \<and> (stress_get_uint16 s = Inr b \<longleftrightarrow>
      s \<noteq> [] \<and> list_all isdigit s \<and> decimal s < 2 ^ 16 \<and> b = word_of_nat (decimal s))
   \<and> (stress_get_uint32 s = Inr c \<longleftrightarrow>
      s \<noteq> [] \<and> list_all isdigit s \<and> decimal s < 2 ^ 32 \<and> c = word_of_nat (decimal s))
   \<and> (stress_get_uint64 s = Inr d \<longleftrightarrow>
      s \<noteq> [] \<and> list_all isdigit s \<and> decimal s < 2 ^ 64 \<and> d = word_of_nat (decimal s))"
  by (simp add: unsigned_parsers)


text \<open>The signed parsers.\<close>

lemma scan_d64_sign:
  assumes "scan_sign (dropWhile isspace s) = (neg, ds)" "list_all isdigit ds" "ds \<noteq> []"
  shows "scan_d64 s =
    (let v = (if neg then - int (decimal ds) else int (decimal ds))
     in if v > 2 ^ 63 - 1 \<or> v < - (2 ^ 63) then Inl Invalid_value else Inr v)"
  unfolding scan_d64_def scanf_d64_def assms(1) using assms(2,3)
  by (simp add: takeWhile_all Let_def)

lemma scan_d64_digits:
  assumes "list_all isdigit ds" "ds \<noteq> []"
  shows "scan_d64 (if neg then CHR ''-'' # ds else ds) =
    (let v = (if neg then - int (decimal ds) else int (decimal ds))
     in if v > 2 ^ 63 - 1 \<or> v < - (2 ^ 63) then Inl Invalid_value else Inr v)"
proof (rule scan_d64_sign [OF _ assms])
  obtain c t where ds: "ds = c # t" "isdigit c" using assms by (cases ds) auto
  show "scan_sign (dropWhile isspace (if neg then CHR ''-'' # ds else ds)) = (neg, ds)"
  proof (cases neg)
    case True
    then show ?thesis by (simp add: scan_sign_def isspace_def code_def)
  next
    case False
    then show ?thesis unfolding ds(1) using scan_digit_start [OF ds(2)] by simp
  qed
qed

lemma numeric_digits:
  "stress_ensure_numeric s = Inr () \<and> s \<noteq> [] \<and> s \<noteq> ''-'' \<longleftrightarrow>
     (\<exists>neg ds. s = (if neg then CHR ''-'' # ds else ds) \<and> ds \<noteq> [] \<and> list_all isdigit ds)"
  (is "?l = ?r")
proof
  assume ?l
  then obtain c cs where s: "s = c # cs" "c = CHR ''-'' \<or> isdigit c" "list_all isdigit cs"
    by (cases s) (auto simp: ensure_numeric_iff)
  show ?r
  proof (cases "c = CHR ''-''")
    case True
    then show ?thesis using \<open>?l\<close> s by (intro exI [of _ True] exI [of _ cs]) auto
  next
    case False
    then show ?thesis using s by (intro exI [of _ False] exI [of _ s]) auto
  qed
next
  assume ?r
  then obtain neg ds where s: "s = (if neg then CHR ''-'' # ds else ds)" "ds \<noteq> []" "list_all isdigit ds"
    by blast
  then obtain d t where "ds = d # t" "isdigit d" by (cases ds) auto
  then show ?l using s isdigit_not_sign(1) [of d] by (cases neg) (auto simp: ensure_numeric_iff)
qed

text \<open>A string that the signed parsers read as \<open>v\<close>: a minus sign or nothing, and digits.\<close>

definition signed_numeral :: "string \<Rightarrow> int \<Rightarrow> bool" where
  "signed_numeral s v \<longleftrightarrow>
     (let ds = (if hd s = CHR ''-'' then tl s else s)
      in s \<noteq> [] \<and> ds \<noteq> [] \<and> list_all isdigit ds \<and>
         v = (if hd s = CHR ''-'' then - int (decimal ds) else int (decimal ds)))"

lemma checked_signed:
  "(stress_ensure_numeric s = Inr () \<and> scan_d64 s = Inr v) \<longleftrightarrow>
     signed_numeral s v \<and> - (2 ^ 63) \<le> v \<and> v \<le> 2 ^ 63 - 1"
proof (cases "stress_ensure_numeric s = Inr () \<and> s \<noteq> [] \<and> s \<noteq> ''-''")
  case True
  then obtain neg ds where s: "s = (if neg then CHR ''-'' # ds else ds)" "ds \<noteq> []" "list_all isdigit ds"
    unfolding numeric_digits by blast
  then obtain d t where d: "ds = d # t" "isdigit d" by (cases ds) auto
  have "scan_d64 s = Inr v \<longleftrightarrow> signed_numeral s v \<and> - (2 ^ 63) \<le> v \<and> v \<le> 2 ^ 63 - 1"
    unfolding s(1) scan_d64_digits [OF s(3,2)]
    using s(2,3) d isdigit_not_sign(1) [of d] by (cases neg) (auto simp: signed_numeral_def Let_def)
  then show ?thesis using True by simp
next
  case False
  have "scan_d64 s = Inl Invalid_value" if "s = [] \<or> s = ''-''"
    using that by (auto simp: scan_d64_def scanf_d64_def scan_sign_def isspace_def code_def)
  moreover have "stress_ensure_numeric s = Inr () \<and> s \<noteq> [] \<and> s \<noteq> ''-''" if "signed_numeral s v"
    unfolding numeric_digits using that
    by (cases s; intro exI [of _ "hd s = CHR ''-''"] exI [of _ "if hd s = CHR ''-'' then tl s else s"])
      (auto simp: signed_numeral_def Let_def split: if_splits)
  ultimately show ?thesis using False by auto
qed

lemma get_signed_iff:
  assumes "- (2 ^ 63) \<le> lo" "hi \<le> 2 ^ 63 - 1"
  shows "get_signed lo hi s = Inr v \<longleftrightarrow> signed_numeral s v \<and> lo \<le> v \<and> v \<le> hi"
proof -
  have "get_signed lo hi s = Inr v \<longleftrightarrow>
      (stress_ensure_numeric s = Inr () \<and> scan_d64 s = Inr v) \<and> lo \<le> v \<and> v \<le> hi"
    by (auto simp: get_signed_def pbind_Inr not_less split: if_splits intro!: exI [of _ v])
  then show ?thesis unfolding checked_signed using assms by auto
qed

text \<open>
  The signed parsers accept exactly an optional minus sign followed by digits whose value lies
  in the range of the type, and give that value in two's complement.
\<close>

theorem signed_parse_exact:
  "(stress_get_int8 s = Inr a \<longleftrightarrow> (\<exists>v. signed_numeral s v \<and> - (2 ^ 7) \<le> v \<and> v < 2 ^ 7 \<and> a = word_of_int v))
   \<and> (stress_get_int16 s = Inr b \<longleftrightarrow>
        (\<exists>v. signed_numeral s v \<and> - (2 ^ 15) \<le> v \<and> v < 2 ^ 15 \<and> b = word_of_int v))
   \<and> (stress_get_int32 s = Inr c \<longleftrightarrow>
        (\<exists>v. signed_numeral s v \<and> - (2 ^ 31) \<le> v \<and> v < 2 ^ 31 \<and> c = word_of_int v))
   \<and> (stress_get_int64 s = Inr d \<longleftrightarrow>
        (\<exists>v. signed_numeral s v \<and> - (2 ^ 63) \<le> v \<and> v < 2 ^ 63 \<and> d = word_of_int v))"
proof -
  have "stress_get_int64 s = Inr d \<longleftrightarrow>
      (\<exists>v. (stress_ensure_numeric s = Inr () \<and> scan_d64 s = Inr v) \<and> d = word_of_int v)"
    by (auto simp: stress_get_int64_def pbind_Inr)
  then show ?thesis
    unfolding checked_signed
    by (auto simp: stress_get_int8_def stress_get_int16_def stress_get_int32_def pbind_Inr get_signed_iff)
qed

text \<open>
  C40: a decimal number with a scale suffix is parsed to the product modulo \<open>2 ^ 64\<close>: exactly the
  product when it fits, and a wrapped value, without an error, when it does not.
\<close>

theorem scaled_parse_wraps:
  assumes "ds \<noteq> []" "list_all isdigit ds" "decimal ds < 2 ^ 64" "\<not> isdigit c"
    and "map_of scales (tolower c) = Some scale"
  shows "stress_get_uint64_scale (ds @ [c]) scales = Inr (word_of_nat (decimal ds * unat scale))"
proof -
  have "stress_ensure_positive (ds @ [c]) = Inr ()"
    using assms(1,2) by (cases ds) simp_all
  moreover have "scan_u64 (ds @ [c]) = Inr (word_of_nat (decimal ds))"
    using scan_u64_digits [OF takeWhile_stop [OF assms(2,4)] assms(1)] assms(3) by simp
  ultimately show ?thesis
    using assms(4,5) by (simp add: stress_get_uint64_scale_def Let_def)
qed

theorem scaled_parse_wraps_witness:
  "stress_get_uint64_scale ''16e'' size_scales = Inr 0"
proof -
  have "decimal ''16'' = 16" "map_of size_scales (tolower CHR ''e'') = Some (push_bit 60 1)"
    "list_all isdigit ''16''" "\<not> isdigit CHR ''e''"
    by (simp_all add: decimal_def code_def size_scales_def tolower_def isdigit_def)
  then show ?thesis
    using scaled_parse_wraps [of "''16''" "CHR ''e''" size_scales "push_bit 60 1"] by simp
qed

section \<open>An option's argument, its range and its setting\<close>

lemma set_checked_Inr:
  "set_checked get check bits put = Inr r \<longleftrightarrow> (\<exists>v. get = Inr v \<and> check v = Inr () \<and> r = put (bits v))"
  by (auto simp: set_checked_def pbind_Inr)

lemma check_range_Inr: "stress_check_range v lo hi = Inr () \<longleftrightarrow> lo \<le> v \<and> v \<le> hi"
  by (auto simp: stress_check_range_def)

lemma word_of_nat_ucast:
  assumes "n < 2 ^ LENGTH('a::len)" "LENGTH('a) \<le> 64"
  shows "ucast (word_of_nat n :: 'a word) = (word_of_nat n :: u64)"
  using assms by (simp add: unsigned_of_nat take_bit_nat_eq_self)

lemma word_of_nat_between:
  assumes "n < 2 ^ 64"
  shows "lo \<le> (word_of_nat n :: u64) \<and> word_of_nat n \<le> (hi :: u64) \<longleftrightarrow> unat lo \<le> n \<and> n \<le> unat hi"
  unfolding word_le_nat_alt word_of_nat_u64 [OF assms] ..

lemma checked_narrow:
  fixes get :: "'a::len word parse"
  assumes "set_checked get (\<lambda>v. stress_check_range (ucast v) lo hi) ucast put = Inr r"
    and "\<And>v. get = Inr v \<longleftrightarrow> s \<noteq> [] \<and> list_all isdigit s \<and> decimal s < 2 ^ w \<and> v = word_of_nat (decimal s)"
    and "LENGTH('a) = w" "w \<le> 64"
  shows "s \<noteq> [] \<and> list_all isdigit s \<and> decimal s < 2 ^ w \<and> lo \<le> word_of_nat (decimal s)
    \<and> word_of_nat (decimal s) \<le> hi \<and> r = put (word_of_nat (decimal s))"
  using assms word_of_nat_ucast [where 'a = 'a, of "decimal s"]
  by (auto simp: set_checked_Inr check_range_Inr)

text \<open>The settings in which an option of a stressor is found again.\<close>

definition settings_ok :: "nat option \<Rightarrow> string \<Rightarrow> string \<Rightarrow> stress_setting list \<Rightarrow> bool" where
  "settings_ok cur sn n ss \<longleftrightarrow>
     distinct (map setting_key ss) \<and> item_tail cur ss \<and>
     list_all (\<lambda>s. s_name s = n \<longrightarrow> s_stressor_name s = sn) ss"

lemma set_number_then_get:
  assumes "stress_setting_set ok cur sn (Some n) t (Some (Bits (word_of_nat k))) ss = Inr ss'"
    and "member_width t = Some w" "k < 2 ^ w" "settings_ok cur sn n ss"
    and "t \<noteq> TYPE_ID_UINT64_BYTES_FS_PERCENT" "t \<noteq> TYPE_ID_SIZE_T_BYTES_FS_PERCENT"
  shows "stress_setting_get fs cur n ss' = (True, Some (Bits (word_of_nat k)))"
proof -
  note fits = member_width_fits [OF assms(2), of "word_of_nat k"]
  have "\<not> w > 64" using assms(2) by (cases t) auto
  then have "take_bit w (word_of_nat k :: u64) = word_of_nat k"
    using assms(3) by (simp add: take_bit_of_nat take_bit_nat_eq_self)
  then show ?thesis
    using set_then_get [OF assms(1) _ _ fits, of fs] member_width_read_back [OF assms(2), of fs "word_of_nat k"] assms(4-6)
    by (simp add: settings_ok_def list_all_iff percent_types_def)
qed

text \<open>What an accepted number is: its width, its range and the value that is stored.\<close>

lemma parse_unsigned_stored:
  assumes "stress_parse_opt env ok cur oa sn (Some arg) opt ss = Inr (Inr ss')"
    and "so_type_id opt \<in> {TYPE_ID_UINT8, TYPE_ID_UINT16, TYPE_ID_UINT32, TYPE_ID_UINT, TYPE_ID_UINT64, TYPE_ID_SIZE_T}"
  shows "\<exists>w. member_width (so_type_id opt) = Some w \<and> w \<le> 64 \<and> arg \<noteq> [] \<and> list_all isdigit arg
    \<and> decimal arg < 2 ^ w \<and> so_min opt \<le> word_of_nat (decimal arg) \<and> word_of_nat (decimal arg) \<le> so_max opt
    \<and> stress_setting_set ok cur sn (Some (so_name opt)) (so_type_id opt) (Some (Bits (word_of_nat (decimal arg)))) ss = Inr ss'"
proof -
  note parse = assms(1) [unfolded stress_parse_opt_def Let_def option.sel]
  show ?thesis
    using assms(2)
  proof (elim insertE emptyE)
    assume t: "so_type_id opt = TYPE_ID_UINT8"
    show ?thesis unfolding t
      using checked_narrow [OF parse [unfolded t stress_type_id.case] unsigned_parsers(1)]
      by (intro exI [of _ 8]) simp
  next
    assume t: "so_type_id opt = TYPE_ID_UINT16"
    show ?thesis unfolding t
      using checked_narrow [OF parse [unfolded t stress_type_id.case] unsigned_parsers(2)]
      by (intro exI [of _ 16]) simp
  next
    assume t: "so_type_id opt = TYPE_ID_UINT32"
    show ?thesis unfolding t
      using checked_narrow [OF parse [unfolded t stress_type_id.case] unsigned_parsers(3)]
      by (intro exI [of _ 32]) simp
  next
    assume t: "so_type_id opt = TYPE_ID_UINT"
    show ?thesis unfolding t
      using checked_narrow [OF parse [unfolded t stress_type_id.case] unsigned_parsers(4)]
      by (intro exI [of _ 32]) simp
  next
    assume t: "so_type_id opt = TYPE_ID_UINT64"
    show ?thesis unfolding t using parse [unfolded t stress_type_id.case]
      by (intro exI [of _ 64]) (auto simp: unsigned_parsers(5) set_checked_Inr check_range_Inr)
  next
    assume t: "so_type_id opt = TYPE_ID_SIZE_T"
    show ?thesis unfolding t using parse [unfolded t stress_type_id.case]
      by (intro exI [of _ 64]) (auto simp: unsigned_parsers(5) set_checked_Inr check_range_Inr)
  qed
qed

text \<open>
  C17: parsing an option of an unsigned type, when it succeeds and the setting can be stored, means
  that the argument is a decimal number within the option's limits.  A look-up of the option by the
  same stressor right after it returns that number if the settings before it are in order
  (\<open>settings_ok\<close>): no setting of another stressor, other than a global one, follows one of this
  stressor, no two settings have the same stressor and name, and no other stressor has an option of
  that name.  Without the first of these the number is stored but not found
  (\<open>setting_lost_after_switch\<close> in Setting).
\<close>

theorem parse_opt_unsigned:
  assumes "stress_parse_opt env ok cur oa sn (Some arg) opt ss = Inr (Inr ss')"
    and "so_type_id opt \<in> {TYPE_ID_UINT8, TYPE_ID_UINT16, TYPE_ID_UINT32, TYPE_ID_UINT, TYPE_ID_UINT64, TYPE_ID_SIZE_T}"
    and "settings_ok cur sn (so_name opt) ss"
  shows "arg \<noteq> [] \<and> list_all isdigit arg \<and> unat (so_min opt) \<le> decimal arg \<and> decimal arg \<le> unat (so_max opt)
    \<and> stress_setting_get fs cur (so_name opt) ss' = (True, Some (Bits (word_of_nat (decimal arg))))"
proof -
  obtain w where *: "member_width (so_type_id opt) = Some w" "w \<le> 64" "arg \<noteq> []" "list_all isdigit arg"
    "decimal arg < 2 ^ w" "so_min opt \<le> word_of_nat (decimal arg)" "word_of_nat (decimal arg) \<le> so_max opt"
    "stress_setting_set ok cur sn (Some (so_name opt)) (so_type_id opt) (Some (Bits (word_of_nat (decimal arg)))) ss = Inr ss'"
    using parse_unsigned_stored [OF assms(1,2)] by blast
  have "decimal arg < 2 ^ 64"
    using * power_increasing [of w 64 "2 :: nat"] by linarith
  then show ?thesis
    using * set_number_then_get [of ok cur sn "so_name opt" "so_type_id opt" "decimal arg" ss ss' w fs] assms(2,3)
      word_of_nat_between [of "decimal arg" "so_min opt" "so_max opt"] by auto
qed


theorem parse_opt_unsigned_witness:
  "\<forall>env :: nat parse_env. \<exists>ss.
     stress_parse_opt env True (Some 1) [] ''fork'' (Some ''64'')
       \<lparr>so_name = ''fork-max'', so_type_id = TYPE_ID_UINT32, so_min = 1, so_max = 65536, so_data = No_data\<rparr> [] = Inr (Inr ss)
     \<and> stress_setting_get 0 (Some 1) ''fork-max'' ss = (True, Some (Bits 64))"
proof
  fix env :: "nat parse_env"
  let ?opt = "\<lparr>so_name = ''fork-max'', so_type_id = TYPE_ID_UINT32, so_min = 1, so_max = 65536, so_data = No_data\<rparr>"
  have dec: "decimal ''64'' = 64" "list_all isdigit ''64''" by (simp_all add: decimal_def code_def isdigit_def)
  then have "stress_get_uint32 ''64'' = Inr 64" by (simp add: unsigned_parsers)
  then obtain ss where ss: "stress_parse_opt env True (Some 1) [] ''fork'' (Some ''64'') ?opt [] = Inr (Inr ss)"
    by (simp add: stress_parse_opt_def set_checked_def stress_check_range_def stress_setting_set_def stress_setting_generic_set_def)
  moreover have "settings_ok (Some 1) ''fork'' (so_name ?opt) []" by (simp add: settings_ok_def)
  ultimately have "stress_setting_get 0 (Some 1) (so_name ?opt) ss = (True, Some (Bits (word_of_nat (decimal ''64''))))"
    using parse_opt_unsigned [of env True "Some 1" "[]" "''fork''" "''64''" ?opt "[]" ss 0] by simp
  then show "\<exists>ss. stress_parse_opt env True (Some 1) [] ''fork'' (Some ''64'') ?opt [] = Inr (Inr ss)
      \<and> stress_setting_get 0 (Some 1) ''fork-max'' ss = (True, Some (Bits 64))"
    using ss dec by simp
qed

text \<open>The methods of an option.\<close>

lemma method_index_Some:
  "method_index ms s i = Some j \<Longrightarrow> i \<le> j \<and> j - i < length ms \<and> ms ! (j - i) = s \<and> s \<notin> set (take (j - i) ms)"
proof (induction ms arbitrary: i)
  case (Cons m ms)
  show ?case
  proof (cases "m = s")
    case False
    then have "method_index ms s (Suc i) = Some j" using Cons.prems by simp
    from Cons.IH [OF this] obtain k where "j = Suc (i + k)" "k < length ms" "ms ! k = s" "s \<notin> set (take k ms)"
      by (metis add_Suc add_diff_cancel_left' le_Suc_ex)
    then show ?thesis using False by auto
  qed (use Cons.prems in auto)
qed simp

lemma method_index_None: "method_index ms s i = None \<longleftrightarrow> s \<notin> set ms"
  by (induction ms arbitrary: i) auto

text \<open>
  A method option is an error exactly when its argument is not one of the method names;
  otherwise the setting that is stored and looked up is the index of the first method of that name.
\<close>

theorem parse_opt_method:
  assumes "so_type_id opt = TYPE_ID_SIZE_T_METHOD" "so_data opt = Methods ms" "length ms < 2 ^ 64"
    and "settings_ok cur sn (so_name opt) ss"
  shows "(stress_parse_opt env ok cur oa sn (Some arg) opt ss = Inl Unknown_choice) = (arg \<notin> set ms)
    \<and> (\<forall>ss'. stress_parse_opt env ok cur oa sn (Some arg) opt ss = Inr (Inr ss') \<longrightarrow>
        (\<exists>i < length ms. ms ! i = arg \<and> arg \<notin> set (take i ms)
          \<and> stress_setting_get fs cur (so_name opt) ss' = (True, Some (Bits (word_of_nat i)))))"
proof (cases "method_index ms arg 0")
  case None
  then have "arg \<notin> set ms" by (simp add: method_index_None)
  then show ?thesis using None assms(1,2) by (simp add: stress_parse_opt_def)
next
  case (Some i)
  have i: "i < length ms" "ms ! i = arg" "arg \<notin> set (take i ms)" using method_index_Some [OF Some] by simp_all
  have "arg \<in> set ms" using i nth_mem by blast
  moreover have "stress_setting_get fs cur (so_name opt) ss' = (True, Some (Bits (word_of_nat i)))"
    if "stress_setting_set ok cur sn (Some (so_name opt)) TYPE_ID_SIZE_T_METHOD (Some (Bits (word_of_nat i))) ss = Inr ss'"
    for ss'
    using set_number_then_get [OF that, of 64 fs] i assms(3,4) by simp
  ultimately show ?thesis using assms(1,2) Some i by (auto simp: stress_parse_opt_def)
qed

theorem parse_opt_method_witness:
  "\<forall>env :: nat parse_env. stress_parse_opt env True (Some 1) [] ''prime'' (Some ''trial'')
     \<lparr>so_name = ''prime-method'', so_type_id = TYPE_ID_SIZE_T_METHOD, so_min = 0, so_max = 0,
      so_data = Methods [''factorial'', ''inc'']\<rparr> [] = Inl Unknown_choice"
proof
  fix env :: "nat parse_env"
  let ?opt = "\<lparr>so_name = ''prime-method'', so_type_id = TYPE_ID_SIZE_T_METHOD, so_min = 0, so_max = 0,
      so_data = Methods [''factorial'', ''inc'']\<rparr>"
  show "stress_parse_opt env True (Some 1) [] ''prime'' (Some ''trial'') ?opt [] = Inl Unknown_choice"
    using parse_opt_method [of ?opt "[''factorial'', ''inc'']" "Some 1" "''prime''" "[]" env True "[]" "''trial''" 0]
    by (simp add: settings_ok_def)
qed

end
