(* ===== verification/Supervisor.thy ===== *)
theory Supervisor
  imports Hash Prime "HOL-Library.Multiset"
begin

text \<open>
  The supervisor of stress-ng.c: it forks the stressor instances, finds the statistics of a child
  by its process id in a hash table that is chained through shared memory, reaps the children and
  turns their exit statuses into the three success flags and the counts of each stressor.  The
  statistics live in a heap, a function from addresses; the kernel (fork, waitpid, signals, the
  out-of-memory killer) is a sequence of events.  \<open>None\<close> is a supervisor that does not return.
\<close>

section \<open>Shared memory\<close>

record stress_counter =
  counter :: u64
  counter_ready :: bool
  run_ok :: bool
  force_killed :: bool

record stress_checksum =
  cs_count :: stress_counter
  cs_hash :: u32

text \<open>
  The statistics of an instance; \<open>st_item\<close> is the index of its stressor in the list, \<open>st_checksum\<close>
  the index of its checksum block, \<open>st_hash_next\<close> the next statistics in its hash chain.
\<close>

record stress_stats =
  st_hash_next :: "nat option"
  st_item :: nat
  st_count :: stress_counter
  st_counter_total :: u64
  st_checksum :: "nat option"
  st_pid :: int
  st_reaped :: bool
  st_wait_status :: wait_status
  st_signalled :: bool
  st_completed :: bool

datatype stressor_status = PASSED | FAILED | SKIPPED | BAD_METRICS

text \<open>A stressor of the list, with the addresses of the statistics of its instances.\<close>

record stress_list_item =
  li_stats :: "nat list"
  li_status :: "stressor_status \<Rightarrow> u32"
  li_ignore_run :: bool
  li_ignore_permute :: bool

record run_state =
  rs_stats :: "nat \<Rightarrow> stress_stats"
  rs_items :: "stress_list_item list"
  rs_checksums :: "nat \<Rightarrow> stress_checksum"
  rs_table :: "nat option list"
  rs_continue :: bool
  rs_started :: u32
  rs_exited :: u32
  rs_reaped :: u32
  rs_failed :: u32
  rs_kill_count :: nat
  rs_killed :: "(int \<times> int) list"
  rs_success :: bool
  rs_resource_success :: bool
  rs_metrics_success :: bool

definition upd_stats :: "nat \<Rightarrow> (stress_stats \<Rightarrow> stress_stats) \<Rightarrow> run_state \<Rightarrow> run_state" where
  "upd_stats k f s = s\<lparr>rs_stats := (rs_stats s)(k := f (rs_stats s k))\<rparr>"

section \<open>The process table\<close>

definition stress_stats_pid_to_hash :: "run_state \<Rightarrow> int \<Rightarrow> nat" where
  "stress_stats_pid_to_hash s p = nat (p mod 2 ^ 64) mod length (rs_table s)"

text \<open>Walking a chain; it does not end on a cycle without the process.\<close>

partial_function (option) chain_walk ::
    "(nat \<Rightarrow> stress_stats) \<Rightarrow> int \<Rightarrow> nat option \<Rightarrow> nat option option" where
  "chain_walk heap p c =
     (case c of None \<Rightarrow> Some None
      | Some k \<Rightarrow> if st_pid (heap k) = p then Some (Some k) else chain_walk heap p (st_hash_next (heap k)))"

definition stress_stats_pid_find :: "run_state \<Rightarrow> int \<Rightarrow> nat option option" where
  "stress_stats_pid_find s p = chain_walk (rs_stats s) p (rs_table s ! stress_stats_pid_to_hash s p)"

definition stress_stats_hash_table_add :: "nat \<Rightarrow> run_state \<Rightarrow> run_state" where
  "stress_stats_hash_table_add k s =
     (let h = stress_stats_pid_to_hash s (st_pid (rs_stats s k))
      in (upd_stats k (\<lambda>st. st\<lparr>st_hash_next := rs_table s ! h\<rparr>) s)\<lparr>rs_table := (rs_table s)[h := Some k]\<rparr>)"

text \<open>The table is sized by the next prime; \<open>None\<close> when calloc fails.\<close>

definition stress_stats_hash_table_alloc ::
    "(u64 \<Rightarrow> u64) \<Rightarrow> nat \<Rightarrow> u64 \<Rightarrow> bool \<Rightarrow> nat \<Rightarrow> run_state \<Rightarrow> run_state option" where
  "stress_stats_hash_table_alloc isqrt1 flag p alloc_ok n s =
     (if alloc_ok
      then Some (s\<lparr>rs_table := replicate (unat (fst (stress_prime64_next_get isqrt1 flag (word_of_nat n) p))) None\<rparr>)
      else None)"

definition stress_stats_hash_table_free :: "run_state \<Rightarrow> run_state" where
  "stress_stats_hash_table_free s = s\<lparr>rs_table := []\<rparr>"

section \<open>Signals\<close>

definition SIGKILL :: int where "SIGKILL = 9"
definition SIGALRM :: int where "SIGALRM = 14"

definition kill_one :: "int \<Rightarrow> nat \<Rightarrow> run_state \<Rightarrow> run_state" where
  "kill_one signum k s =
     (let st = rs_stats s k
      in if st_pid st > 1 \<and> \<not> st_reaped st \<and> \<not> st_signalled st
         then (upd_stats k (\<lambda>st. st\<lparr>st_signalled := True\<rparr>) s)\<lparr>rs_killed := rs_killed s @ [(st_pid st, signum)]\<rparr>
         else s)"

text \<open>The seventh and every later forced call sends SIGKILL instead.\<close>

definition stress_stressors_kill :: "int \<Rightarrow> bool \<Rightarrow> run_state \<Rightarrow> run_state" where
  "stress_stressors_kill sig force_sigkill s =
     (let signum = (if force_sigkill \<and> rs_kill_count s > 5 then SIGKILL else sig);
          s = (if force_sigkill then s\<lparr>rs_kill_count := rs_kill_count s + 1\<rparr> else s)
      in fold (kill_one signum) (concat (map li_stats (filter (\<lambda>it. \<not> li_ignore_run it) (rs_items s)))) s)"

section \<open>Reaping\<close>

text \<open>The exit status that counts, and whether the signal of a killed child is a failure.\<close>

definition wait_exit_status :: "(int \<Rightarrow> bool) \<Rightarrow> int \<Rightarrow> wait_status \<Rightarrow> int \<times> bool" where
  "wait_exit_status oomed p status =
     (case status of
        Exited c \<Rightarrow> (c, False)
      | Signaled sig \<Rightarrow>
          if oomed p then (0, False)
          else if sig = SIGKILL then (0, False)
          else if sig \<noteq> SIGALRM then (EXIT_SIGNALED, True)
          else (0, False))"

text \<open>
  The switch over the exit status: the count it adds to, whether it may abort the run, and whether
  it leaves the success, resource and metrics flags alone.
\<close>

datatype verdict = Verdict stressor_status bool bool bool bool

definition exit_verdict :: "int \<Rightarrow> verdict" where
  "exit_verdict c =
     (if c = EXIT_SUCCESS then Verdict PASSED False True True True
      else if c = EXIT_NO_RESOURCE then Verdict SKIPPED True True False True
      else if c = EXIT_NOT_IMPLEMENTED then Verdict SKIPPED False True True True
      else if c = EXIT_SIGNALED then Verdict FAILED True False True True
      else if c = EXIT_BY_SYS_EXIT then Verdict FAILED True True True True
      else if c = EXIT_METRICS_UNTRUSTWORTHY then Verdict BAD_METRICS False True True False
      else if c = EXIT_FAILURE then Verdict FAILED True False True True
      else Verdict FAILED True False True True)"

definition stress_exit_status_to_string :: "int \<Rightarrow> string" where
  "stress_exit_status_to_string status =
     (case map_of
        [(EXIT_SUCCESS, ''success''), (EXIT_FAILURE, ''stress-ng core failure ''),
         (EXIT_NOT_SUCCESS, ''stressor failed''), (EXIT_NO_RESOURCE, ''no resources''),
         (EXIT_NOT_IMPLEMENTED, ''not implemented''), (EXIT_SIGNALED, ''killed by signal''),
         (EXIT_BY_SYS_EXIT, ''stressor terminated using _exit()''),
         (EXIT_METRICS_UNTRUSTWORTHY, ''metrics may be untrustworthy'')] status of
        Some d \<Rightarrow> d | None \<Rightarrow> ''unknown'')"

definition count_status :: "nat \<Rightarrow> stressor_status \<Rightarrow> run_state \<Rightarrow> run_state" where
  "count_status i c s =
     s\<lparr>rs_items := (rs_items s)[i := (let it = rs_items s ! i
        in it\<lparr>li_status := (li_status it)(c := li_status it c + 1)\<rparr>)]\<rparr>"

definition stress_stressor_finished :: "nat \<Rightarrow> run_state \<Rightarrow> run_state" where
  "stress_stressor_finished k s = (upd_stats k (\<lambda>st. st\<lparr>st_pid := 0\<rparr>) s)\<lparr>rs_reaped := rs_reaped s + 1\<rparr>"

definition stress_wait_status :: "(int \<Rightarrow> bool) \<Rightarrow> bool \<Rightarrow> nat \<Rightarrow> run_state \<Rightarrow> run_state" where
  "stress_wait_status oomed opt_abort k s =
     (let st = rs_stats s k
      in if \<not> st_reaped st then s
         else let (code, signaled) = wait_exit_status oomed (st_pid st) (st_wait_status st)
              in (case exit_verdict code of
                    Verdict c do_abort ok res met \<Rightarrow>
                      let s = count_status (st_item st) c s;
                          s = s\<lparr>rs_success := rs_success s \<and> \<not> signaled \<and> ok,
                                rs_resource_success := rs_resource_success s \<and> res,
                                rs_metrics_success := rs_metrics_success s \<and> met\<rparr>;
                          s = (if opt_abort \<and> do_abort
                               then stress_stressors_kill SIGALRM True (s\<lparr>rs_continue := False\<rparr>) else s)
                      in stress_stressor_finished k s))"

text \<open>What waitpid returns: a child and its status, or nothing (an error, or none has ended yet).\<close>

type_synonym wait_event = "(int \<times> wait_status) option"

definition stress_child_wait ::
    "(int \<Rightarrow> bool) \<Rightarrow> bool \<Rightarrow> wait_event \<Rightarrow> run_state \<Rightarrow> (bool \<times> run_state) option" where
  "stress_child_wait oomed opt_abort ev s =
     (case ev of
        None \<Rightarrow> Some (False, s)
      | Some (p, status) \<Rightarrow>
          if p > 0
          then (case stress_stats_pid_find s p of
                  None \<Rightarrow> None
                | Some None \<Rightarrow> Some (False, s)
                | Some (Some k) \<Rightarrow>
                    Some (True, stress_wait_status oomed opt_abort k
                      (upd_stats k (\<lambda>st. st\<lparr>st_reaped := True, st_wait_status := status\<rparr>) s)))
          else Some (False, s))"

definition runnable :: "stress_list_item \<Rightarrow> bool" where
  "runnable it \<longleftrightarrow> \<not> (li_ignore_run it \<or> li_ignore_permute it)"

text \<open>The children of some stressors, by index, that have been forked and not reaped.\<close>

definition pending :: "nat list \<Rightarrow> run_state \<Rightarrow> nat list" where
  "pending is s =
     filter (\<lambda>k. st_pid (rs_stats s k) > 0 \<and> \<not> st_reaped (rs_stats s k))
       (concat (map (\<lambda>i. if runnable (rs_items s ! i) then li_stats (rs_items s ! i) else []) is))"

definition stress_wait_reap_count :: "nat list \<Rightarrow> run_state \<Rightarrow> nat" where
  "stress_wait_reap_count is s = length (pending is s)"

text \<open>The loop that reaps until the count is zero, over the sequence of what waitpid returns.\<close>

fun wait_loop ::
    "(int \<Rightarrow> bool) \<Rightarrow> bool \<Rightarrow> wait_event list \<Rightarrow> nat \<Rightarrow> run_state \<Rightarrow> run_state option" where
  "wait_loop oomed opt_abort evs 0 s = Some s"
| "wait_loop oomed opt_abort [] (Suc n) s = None"
| "wait_loop oomed opt_abort (ev # evs) (Suc n) s =
     (case stress_child_wait oomed opt_abort ev s of
        None \<Rightarrow> None
      | Some (found, s) \<Rightarrow> wait_loop oomed opt_abort evs (if found then n else Suc n) s)"

text \<open>
  With \<open>--aggressive\<close> the code first reaps in a loop of its own that does not block and moves the
  children to other processors; that loop is left out.
\<close>

definition stress_stressors_wait ::
    "(int \<Rightarrow> bool) \<Rightarrow> bool \<Rightarrow> wait_event list \<Rightarrow> nat list \<Rightarrow> run_state \<Rightarrow> run_state option" where
  "stress_stressors_wait oomed opt_abort evs is s =
     wait_loop oomed opt_abort evs (stress_wait_reap_count is s) s"

section \<open>The process table is a map\<close>

lemma upd_stats_simps [simp]:
  "rs_stats (upd_stats k f s) = (rs_stats s)(k := f (rs_stats s k))"
  "rs_table (upd_stats k f s) = rs_table s" "rs_items (upd_stats k f s) = rs_items s"
  "rs_checksums (upd_stats k f s) = rs_checksums s" "rs_continue (upd_stats k f s) = rs_continue s"
  "rs_success (upd_stats k f s) = rs_success s"
  "rs_resource_success (upd_stats k f s) = rs_resource_success s"
  "rs_metrics_success (upd_stats k f s) = rs_metrics_success s"
  by (simp_all add: upd_stats_def)

text \<open>The statistics that a chain leads through, and the pointer it ends in.\<close>

fun chain :: "(nat \<Rightarrow> stress_stats) \<Rightarrow> nat option \<Rightarrow> nat list \<Rightarrow> nat option \<Rightarrow> bool" where
  "chain heap c [] e = (c = e)"
| "chain heap c (k # ks) e = (c = Some k \<and> chain heap (st_hash_next (heap k)) ks e)"

lemma chain_cong:
  "(\<And>k. k \<in> set ks \<Longrightarrow> st_hash_next (heap' k) = st_hash_next (heap k)) \<Longrightarrow>
    chain heap' c ks e = chain heap c ks e"
  by (induction ks arbitrary: c) auto

text \<open>A walk stops at the first statistics with the process id, or goes on behind the chain.\<close>

lemma walk_chain:
  "chain heap c ks e \<Longrightarrow> chain_walk heap p c =
     (case List.find (\<lambda>k. st_pid (heap k) = p) ks of Some k \<Rightarrow> Some (Some k) | None \<Rightarrow> chain_walk heap p e)"
proof (induction ks arbitrary: c)
  case (Cons k ks)
  have "chain_walk heap p c =
      (if st_pid (heap k) = p then Some (Some k) else chain_walk heap p (st_hash_next (heap k)))"
    using Cons.prems by (subst chain_walk.simps) simp
  then show ?case using Cons by simp
qed simp

lemma walk_end [simp]: "chain_walk heap p None = Some None"
  by (subst chain_walk.simps) simp

text \<open>Giving a child to statistics and adding them to the table, as the fork loop does.\<close>

definition register_pid :: "nat \<times> int \<Rightarrow> run_state \<Rightarrow> run_state" where
  "register_pid = (\<lambda>(k, p) s. stress_stats_hash_table_add k (upd_stats k (\<lambda>st. st\<lparr>st_pid := p\<rparr>) s))"

text \<open>The chains of a table to which \<open>adds\<close>, the latest first, were added when they ended in \<open>ends\<close>.\<close>

definition bucket :: "nat \<Rightarrow> (nat \<times> int) list \<Rightarrow> nat \<Rightarrow> nat list" where
  "bucket n adds h = map fst (filter (\<lambda>(k, p). nat (p mod 2 ^ 64) mod n = h) adds)"

definition chained :: "run_state \<Rightarrow> (nat \<times> int) list \<Rightarrow> (nat \<Rightarrow> nat option) \<Rightarrow> bool" where
  "chained s adds ends \<longleftrightarrow>
     (\<forall>h < length (rs_table s). chain (rs_stats s) (rs_table s ! h) (bucket (length (rs_table s)) adds h) (ends h))"

lemma bucket_Cons:
  "bucket n ((k, p) # adds) h =
    (if nat (p mod 2 ^ 64) mod n = h then k # bucket n adds h else bucket n adds h)"
  by (simp add: bucket_def)

lemma set_bucket: "k \<in> set (bucket n adds h) \<longleftrightarrow> (\<exists>p. (k, p) \<in> set adds \<and> nat (p mod 2 ^ 64) mod n = h)"
  by (force simp: bucket_def)

lemma chained_register:
  assumes "chained s adds ends" "k \<notin> fst ` set adds"
  shows "chained (register_pid (k, p) s) ((k, p) # adds) ends"
  unfolding chained_def
proof (intro allI impI)
  fix h
  let ?s = "register_pid (k, p) s"
  let ?n = "length (rs_table s)"
  have n: "length (rs_table ?s) = ?n"
    by (simp add: register_pid_def stress_stats_hash_table_add_def Let_def)
  assume "h < length (rs_table ?s)"
  then have h: "h < ?n" by (simp add: n)
  have pid: "stress_stats_pid_to_hash (upd_stats k (\<lambda>st. st\<lparr>st_pid := p\<rparr>) s) p = nat (p mod 2 ^ 64) mod ?n"
    by (simp add: stress_stats_pid_to_hash_def)
  have same: "chain (rs_stats ?s) c (bucket ?n adds h) e = chain (rs_stats s) c (bucket ?n adds h) e" for c e
    using assms(2) by (intro chain_cong) (force simp: register_pid_def stress_stats_hash_table_add_def Let_def set_bucket)
  have old: "chain (rs_stats s) (rs_table s ! h) (bucket ?n adds h) (ends h)"
    using assms(1) h by (simp add: chained_def)
  show "chain (rs_stats ?s) (rs_table ?s ! h) (bucket (length (rs_table ?s)) ((k, p) # adds) h) (ends h)"
    unfolding n
  proof (cases "nat (p mod 2 ^ 64) mod ?n = h")
    case True
    have "st_hash_next (rs_stats ?s k) = rs_table s ! h" "rs_table ?s ! h = Some k"
      using True h pid by (simp_all add: register_pid_def stress_stats_hash_table_add_def Let_def)
    then show "chain (rs_stats ?s) (rs_table ?s ! h) (bucket ?n ((k, p) # adds) h) (ends h)"
      using True old by (simp add: bucket_Cons same)
  next
    case False
    then have "rs_table ?s ! h = rs_table s ! h"
      using pid by (simp add: register_pid_def stress_stats_hash_table_add_def Let_def)
    then show "chain (rs_stats ?s) (rs_table ?s ! h) (bucket ?n ((k, p) # adds) h) (ends h)"
      using False old by (simp add: bucket_Cons same)
  qed
qed

lemma register_other:
  "j \<noteq> k \<Longrightarrow> rs_stats (register_pid (k, p) s) j = rs_stats s j"
  "st_pid (rs_stats (register_pid (k, p) s) k) = p"
  "length (rs_table (register_pid (k, p) s)) = length (rs_table s)"
  by (simp_all add: register_pid_def stress_stats_hash_table_add_def Let_def)

definition register_all :: "(nat \<times> int) list \<Rightarrow> run_state \<Rightarrow> run_state" where
  "register_all adds s = foldr register_pid adds s"

lemma register_all_simps [simp]:
  "register_all [] s = s" "register_all (a # adds) s = register_pid a (register_all adds s)"
  by (simp_all add: register_all_def)

lemma register_all_chained:
  "distinct (map fst adds) \<Longrightarrow>
    chained (register_all adds s) adds (\<lambda>h. rs_table s ! h)
    \<and> length (rs_table (register_all adds s)) = length (rs_table s)
    \<and> (\<forall>(k, p) \<in> set adds. st_pid (rs_stats (register_all adds s) k) = p)"
proof (induction adds)
  case Nil
  then show ?case by (simp add: chained_def bucket_def)
next
  case (Cons a adds)
  obtain k p where a: "a = (k, p)" by (cases a)
  have k: "k \<notin> fst ` set adds" "distinct (map fst adds)" using Cons.prems a by simp_all
  have "st_pid (rs_stats (register_all (a # adds) s) j) = q" if "(j, q) \<in> set (a # adds)" for j q
  proof (cases "j = k")
    case True
    then show ?thesis using that k(1) a by (force simp: register_other)
  next
    case False
    then show ?thesis using that Cons.IH [OF k(2)] a by (auto simp: register_other)
  qed
  then show ?case
    using chained_register [of "register_all adds s" adds _ k p] k Cons.IH [OF k(2)]
    by (auto simp: a register_other)
qed

text \<open>A lookup in chains whose process ids are still those of the additions.\<close>

lemma find_bucket:
  assumes "\<forall>(k, q) \<in> set adds. st_pid (heap k) = q"
  shows "List.find (\<lambda>k. st_pid (heap k) = p) (bucket n adds (nat (p mod 2 ^ 64) mod n))
    = map_of (map (\<lambda>(k, q). (q, k)) adds) p"
  using assms
proof (induction adds)
  case (Cons a adds)
  then show ?case by (cases a) (simp add: bucket_Cons)
qed (simp add: bucket_def)

text \<open>
  C29: the process table is a map: in a fresh table, the lookup of any process id ends, and finds
  exactly the statistics that the process was added with.
\<close>

theorem pid_table_is_a_map:
  assumes "distinct (map fst adds)" "n > 0"
  shows "stress_stats_pid_find (register_all adds (s\<lparr>rs_table := replicate n None\<rparr>)) p
    = Some (map_of (map (\<lambda>(k, q). (q, k)) adds) p)"
proof -
  let ?s = "register_all adds (s\<lparr>rs_table := replicate n None\<rparr>)"
  let ?h = "nat (p mod 2 ^ 64) mod n"
  have *: "chained ?s adds (\<lambda>h. replicate n None ! h)" "length (rs_table ?s) = n"
      "\<forall>(k, q) \<in> set adds. st_pid (rs_stats ?s k) = q"
    using register_all_chained [OF assms(1), of "s\<lparr>rs_table := replicate n None\<rparr>"] by simp_all
  have "chain (rs_stats ?s) (rs_table ?s ! ?h) (bucket n adds ?h) None"
    using *(1,2) assms(2) by (simp add: chained_def)
  from walk_chain [OF this, of p] show ?thesis
    unfolding stress_stats_pid_find_def stress_stats_pid_to_hash_def *(2) find_bucket [OF *(3)]
    by (simp split: option.split)
qed

theorem pid_table_is_a_map_witness:
  "\<forall>s. stress_stats_pid_find (register_all [(1, 107), (0, 100)] (s\<lparr>rs_table := replicate 7 None\<rparr>)) 100 = Some (Some 0)"
  using pid_table_is_a_map [of "[(1, 107), (0, 100)]" 7 _ 100] by simp

text \<open>Statistics that point at themselves: a lookup of any other process does not end.\<close>

lemma walk_self_loop:
  assumes "st_hash_next (heap k) = Some k" "st_pid (heap k) \<noteq> p"
  shows "chain_walk heap p (Some k) = None"
proof (rule ccontr)
  assume "chain_walk heap p (Some k) \<noteq> None"
  then obtain y where y: "chain_walk heap p (Some k) = Some y" by blast
  have "\<forall>j. c = Some j \<longrightarrow> st_hash_next (h j) = Some j \<longrightarrow> st_pid (h j) = q"
    if "chain_walk h q c = Some z" for h q c z
    by (rule chain_walk.raw_induct [where P = "\<lambda>h q c z. \<forall>j. c = Some j \<longrightarrow> st_hash_next (h j) = Some j \<longrightarrow> st_pid (h j) = q",
          OF _ that])
      (auto split: option.splits if_splits)
  then show False using y assms by blast
qed

lemma register_table:
  "rs_table (register_pid (k, p) s) = (rs_table s)[nat (p mod 2 ^ 64) mod length (rs_table s) := Some k]"
  by (simp add: register_pid_def stress_stats_hash_table_add_def stress_stats_pid_to_hash_def Let_def)

lemma register_next:
  "st_hash_next (rs_stats (register_pid (k, p) s) k) = rs_table s ! (nat (p mod 2 ^ 64) mod length (rs_table s))"
  by (simp add: register_pid_def stress_stats_hash_table_add_def stress_stats_pid_to_hash_def Let_def)

text \<open>
  C36: registering the same statistics twice, as a permuted run does for every permutation, ties
  their chain into a loop when the two processes share a bucket: the lookup of a process that is
  not a stressor of this run then never returns.
\<close>

theorem pid_table_cycle:
  assumes "nat (p mod 2 ^ 64) mod n = h" "nat (q mod 2 ^ 64) mod n = h" "nat (r mod 2 ^ 64) mod n = h"
    and "r \<noteq> q" "n > 0"
  shows "stress_stats_pid_find (register_all [(k, q), (k, p)] (s\<lparr>rs_table := replicate n None\<rparr>)) r = None"
proof -
  let ?t = "register_pid (k, p) (s\<lparr>rs_table := replicate n None\<rparr>)"
  let ?s = "register_pid (k, q) ?t"
  have h: "h < n" using assms(1,5) by auto
  have n: "length (rs_table ?t) = n" "length (rs_table ?s) = n" by (simp_all add: register_other)
  have "rs_table ?t ! h = Some k" unfolding register_table using assms(1) h by simp
  then have "st_hash_next (rs_stats ?s k) = Some k" unfolding register_next n using assms(2) by simp
  moreover have "rs_table ?s ! h = Some k" unfolding register_table [of k q ?t] n(1) assms(2) using h n(1) by simp
  moreover have "st_pid (rs_stats ?s k) = q" by (rule register_other)
  ultimately show ?thesis
    unfolding register_all_simps stress_stats_pid_find_def stress_stats_pid_to_hash_def n(2) assms(3)
    using walk_self_loop [of "rs_stats ?s" k r] assms(4) by simp
qed

theorem pid_table_cycle_witness:
  "\<forall>s. stress_stats_pid_find (register_all [(0, 107), (0, 100)] (s\<lparr>rs_table := replicate 7 None\<rparr>)) 114 = None"
  using pid_table_cycle [of 100 7 2 107 114 0] by simp

section \<open>What reaping does\<close>

text \<open>Sending signals only marks the statistics.\<close>

lemma kill_one_frame:
  "rs_table (kill_one sig k s) = rs_table s" "rs_items (kill_one sig k s) = rs_items s"
  "rs_success (kill_one sig k s) = rs_success s"
  "rs_resource_success (kill_one sig k s) = rs_resource_success s"
  "rs_metrics_success (kill_one sig k s) = rs_metrics_success s"
  "\<exists>b. rs_stats (kill_one sig k s) j = (rs_stats s j)\<lparr>st_signalled := b\<rparr>"
  by (auto simp: kill_one_def Let_def intro: exI [of _ "st_signalled (rs_stats s j)"])

lemma kill_fold_frame:
  "rs_table (fold (kill_one sig) ks s) = rs_table s \<and> rs_items (fold (kill_one sig) ks s) = rs_items s
   \<and> rs_success (fold (kill_one sig) ks s) = rs_success s
   \<and> rs_resource_success (fold (kill_one sig) ks s) = rs_resource_success s
   \<and> rs_metrics_success (fold (kill_one sig) ks s) = rs_metrics_success s
   \<and> (\<exists>b. rs_stats (fold (kill_one sig) ks s) j = (rs_stats s j)\<lparr>st_signalled := b\<rparr>)"
proof (induction ks arbitrary: s)
  case Nil
  have "rs_stats s j = (rs_stats s j)\<lparr>st_signalled := st_signalled (rs_stats s j)\<rparr>" by simp
  then show ?case by (auto intro: exI [of _ "st_signalled (rs_stats s j)"])
next
  case (Cons k ks)
  obtain b where b: "rs_stats (kill_one sig k s) j = (rs_stats s j)\<lparr>st_signalled := b\<rparr>"
    using kill_one_frame(6) by blast
  show ?case using Cons.IH [of "kill_one sig k s"] b by (auto simp: kill_one_frame(1-5))
qed

lemma kill_frame:
  "rs_table (stress_stressors_kill sig f s) = rs_table s"
  "rs_items (stress_stressors_kill sig f s) = rs_items s"
  "rs_success (stress_stressors_kill sig f s) = rs_success s"
  "rs_resource_success (stress_stressors_kill sig f s) = rs_resource_success s"
  "rs_metrics_success (stress_stressors_kill sig f s) = rs_metrics_success s"
  "\<exists>b. rs_stats (stress_stressors_kill sig f s) j = (rs_stats s j)\<lparr>st_signalled := b\<rparr>"
proof -
  let ?sig = "if f \<and> rs_kill_count s > 5 then SIGKILL else sig"
  let ?s = "if f then s\<lparr>rs_kill_count := rs_kill_count s + 1\<rparr> else s"
  have "rs_stats ?s = rs_stats s" by simp
  then show "\<exists>b. rs_stats (stress_stressors_kill sig f s) j = (rs_stats s j)\<lparr>st_signalled := b\<rparr>"
    unfolding stress_stressors_kill_def Let_def using kill_fold_frame [of ?sig _ ?s j] by metis
qed (simp_all add: stress_stressors_kill_def Let_def kill_fold_frame)

lemma kill_stats:
  "st_pid (rs_stats (stress_stressors_kill sig f s) j) = st_pid (rs_stats s j)"
  "st_hash_next (rs_stats (stress_stressors_kill sig f s) j) = st_hash_next (rs_stats s j)"
  "st_reaped (rs_stats (stress_stressors_kill sig f s) j) = st_reaped (rs_stats s j)"
  "st_item (rs_stats (stress_stressors_kill sig f s) j) = st_item (rs_stats s j)"
  using kill_frame(6) [of sig f s j] by auto

text \<open>What an exit status of a child does to the flags of the run.\<close>

definition code_fails :: "int \<Rightarrow> bool" where
  "code_fails c \<longleftrightarrow>
     c \<notin> {EXIT_SUCCESS, EXIT_NO_RESOURCE, EXIT_NOT_IMPLEMENTED, EXIT_BY_SYS_EXIT, EXIT_METRICS_UNTRUSTWORTHY}"

definition status_fails :: "(int \<Rightarrow> bool) \<Rightarrow> int \<times> wait_status \<Rightarrow> bool" where
  "status_fails oomed e =
     (let (code, signaled) = wait_exit_status oomed (fst e) (snd e)
      in signaled \<or> code_fails code)"

definition status_code :: "(int \<Rightarrow> bool) \<Rightarrow> int \<times> wait_status \<Rightarrow> int" where
  "status_code oomed e = fst (wait_exit_status oomed (fst e) (snd e))"

lemmas exit_defs = EXIT_SUCCESS_def EXIT_FAILURE_def EXIT_NOT_SUCCESS_def EXIT_NO_RESOURCE_def
  EXIT_NOT_IMPLEMENTED_def EXIT_SIGNALED_def EXIT_BY_SYS_EXIT_def EXIT_METRICS_UNTRUSTWORTHY_def

lemma wait_status_effect:
  fixes oomed :: "int \<Rightarrow> bool" and opt_abort :: bool and s :: run_state and k :: nat
  assumes "st_reaped (rs_stats s k)"
  defines "e \<equiv> (st_pid (rs_stats s k), st_wait_status (rs_stats s k))"
  defines "s' \<equiv> stress_wait_status oomed opt_abort k s"
  shows "rs_table s' = rs_table s"
    and "st_pid (rs_stats s' j) = (if j = k then 0 else st_pid (rs_stats s j))"
    and "st_hash_next (rs_stats s' j) = st_hash_next (rs_stats s j)"
    and "st_reaped (rs_stats s' j) = st_reaped (rs_stats s j)"
    and "st_item (rs_stats s' j) = st_item (rs_stats s j)"
    and "rs_success s' = (rs_success s \<and> \<not> status_fails oomed e)"
    and "rs_resource_success s' = (rs_resource_success s \<and> status_code oomed e \<noteq> EXIT_NO_RESOURCE)"
    and "rs_metrics_success s' = (rs_metrics_success s \<and> status_code oomed e \<noteq> EXIT_METRICS_UNTRUSTWORTHY)"
proof -
  obtain code signaled where w: "wait_exit_status oomed (st_pid (rs_stats s k)) (st_wait_status (rs_stats s k)) = (code, signaled)"
    by fastforce
  obtain c do_abort ok res met where v: "exit_verdict code = Verdict c do_abort ok res met"
    by (cases "exit_verdict code")
  have flags: "ok = (\<not> code_fails code)"
      "res = (code \<noteq> EXIT_NO_RESOURCE)" "met = (code \<noteq> EXIT_METRICS_UNTRUSTWORTHY)"
    using v by (auto simp: exit_verdict_def code_fails_def exit_defs split: if_splits)
  note unf = s'_def stress_wait_status_def Let_def stress_stressor_finished_def count_status_def
  show "rs_table s' = rs_table s" using assms(1) w v by (simp add: unf kill_frame)
  show "st_pid (rs_stats s' j) = (if j = k then 0 else st_pid (rs_stats s j))"
    using assms(1) w v by (simp add: unf kill_stats)
  show "st_hash_next (rs_stats s' j) = st_hash_next (rs_stats s j)"
    "st_reaped (rs_stats s' j) = st_reaped (rs_stats s j)"
    "st_item (rs_stats s' j) = st_item (rs_stats s j)"
    using assms(1) w v by (simp_all add: unf kill_stats)
  show "rs_success s' = (rs_success s \<and> \<not> status_fails oomed e)"
    using assms(1) w v flags(1) by (auto simp: unf kill_frame status_fails_def e_def)
  show "rs_resource_success s' = (rs_resource_success s \<and> status_code oomed e \<noteq> EXIT_NO_RESOURCE)"
    "rs_metrics_success s' = (rs_metrics_success s \<and> status_code oomed e \<noteq> EXIT_METRICS_UNTRUSTWORTHY)"
    using assms(1) w v flags(2,3) by (auto simp: unf kill_frame status_code_def e_def)
qed

section \<open>Reaping all children\<close>

text \<open>
  The children \<open>adds\<close> are in the table; those that have been reaped have process id 0.
\<close>

definition tracked :: "run_state \<Rightarrow> (nat \<times> int) list \<Rightarrow> bool" where
  "tracked s adds \<longleftrightarrow>
     chained s adds (\<lambda>_. None) \<and> rs_table s \<noteq> [] \<and> distinct (map fst adds) \<and> distinct (map snd adds)
     \<and> (\<forall>(k, p) \<in> set adds. p > 0 \<and> (st_pid (rs_stats s k) = p \<or> st_pid (rs_stats s k) = 0))"

definition live :: "run_state \<Rightarrow> (nat \<times> int) list \<Rightarrow> (nat \<times> int) list" where
  "live s adds = filter (\<lambda>(k, p). st_pid (rs_stats s k) = p) adds"

lemma find_live:
  assumes "\<forall>(k, q) \<in> set adds. q > 0 \<and> (st_pid (heap k) = q \<or> st_pid (heap k) = 0)" "p > 0"
  shows "List.find (\<lambda>k. st_pid (heap k) = p) (bucket n adds (nat (p mod 2 ^ 64) mod n))
    = map_of (map (\<lambda>(k, q). (q, k)) (filter (\<lambda>(k, q). st_pid (heap k) = q) adds)) p"
  using assms
proof (induction adds)
  case (Cons a adds)
  obtain k q where a: "a = (k, q)" by (cases a)
  consider "st_pid (heap k) = p" "q = p" | "st_pid (heap k) = q" "q \<noteq> p" | "st_pid (heap k) = 0" "q \<noteq> 0"
    using Cons.prems a by auto
  then show ?case
    by cases (use Cons in \<open>simp_all add: a bucket_Cons\<close>)
qed (simp add: bucket_def)

lemma find_tracked:
  assumes "tracked s adds" "p > 0"
  shows "stress_stats_pid_find s p = Some (map_of (map (\<lambda>(k, q). (q, k)) (live s adds)) p)"
proof -
  let ?n = "length (rs_table s)"
  let ?h = "nat (p mod 2 ^ 64) mod ?n"
  have "?h < ?n" using assms(1) by (simp add: tracked_def)
  then have "chain (rs_stats s) (rs_table s ! ?h) (bucket ?n adds ?h) None"
    using assms(1) by (simp add: tracked_def chained_def)
  from walk_chain [OF this, of p] show ?thesis
    unfolding stress_stats_pid_find_def stress_stats_pid_to_hash_def live_def
    using find_live [of adds "rs_stats s" p ?n] assms by (simp add: tracked_def split: option.split)
qed

lemma live_map_of:
  assumes "tracked s adds"
  shows "map_of (map (\<lambda>(k, q). (q, k)) (live s adds)) p = Some k \<longleftrightarrow> (k, p) \<in> set (live s adds)"
proof -
  have "map fst (map (\<lambda>(k, q). (q, k)) xs) = map snd xs" for xs :: "(nat \<times> int) list"
    by (induction xs) auto
  moreover have "distinct (map snd (live s adds))"
    using assms by (simp add: tracked_def live_def distinct_map_filter)
  ultimately have "distinct (map fst (map (\<lambda>(k, q). (q, k)) (live s adds)))" by (simp only:)
  then show ?thesis by (force simp: map_of_eq_Some_iff)
qed

lemma tracked_cong:
  assumes "tracked s adds" "rs_table s' = rs_table s"
    and "\<And>j. st_hash_next (rs_stats s' j) = st_hash_next (rs_stats s j)"
    and "\<And>j. st_pid (rs_stats s' j) = st_pid (rs_stats s j) \<or> st_pid (rs_stats s' j) = 0"
  shows "tracked s' adds"
proof -
  have "chain (rs_stats s') c ks e = chain (rs_stats s) c ks e" for c ks e
    by (rule chain_cong) (rule assms(3))
  then have "chained s' adds (\<lambda>_. None)"
    using assms(1,2) by (simp add: tracked_def chained_def)
  moreover have "p > 0 \<and> (st_pid (rs_stats s' k) = p \<or> st_pid (rs_stats s' k) = 0)" if "(k, p) \<in> set adds" for k p
    using assms(1) that assms(4) [of k] by (auto simp: tracked_def)
  ultimately show ?thesis using assms(1,2) by (auto simp: tracked_def)
qed

text \<open>Reaping a child of the table.\<close>

lemma child_wait_known:
  assumes "tracked s adds" "(k, p) \<in> set (live s adds)"
  obtains s' where "stress_child_wait oomed opt_abort (Some (p, st)) s = Some (True, s')"
    and "tracked s' adds" "live s' adds = filter (\<lambda>a. a \<noteq> (k, p)) (live s adds)"
    and "rs_success s' = (rs_success s \<and> \<not> status_fails oomed (p, st))"
    and "rs_resource_success s' = (rs_resource_success s \<and> status_code oomed (p, st) \<noteq> EXIT_NO_RESOURCE)"
    and "rs_metrics_success s' = (rs_metrics_success s \<and> status_code oomed (p, st) \<noteq> EXIT_METRICS_UNTRUSTWORTHY)"
    and "\<And>j. st_reaped (rs_stats s' j) = (j = k \<or> st_reaped (rs_stats s j))"
proof -
  have p: "p > 0" "st_pid (rs_stats s k) = p" "(k, p) \<in> set adds"
    using assms by (auto simp: tracked_def live_def)
  let ?s = "upd_stats k (\<lambda>x. x\<lparr>st_reaped := True, st_wait_status := st\<rparr>) s"
  let ?s' = "stress_wait_status oomed opt_abort k ?s"
  have e: "(st_pid (rs_stats ?s k), st_wait_status (rs_stats ?s k)) = (p, st)" using p by simp
  have r: "st_reaped (rs_stats ?s k)" by simp
  note eff = wait_status_effect [OF r, of oomed opt_abort, unfolded e]
  have found: "stress_stats_pid_find s p = Some (Some k)"
    using find_tracked [OF assms(1) p(1)] live_map_of [OF assms(1)] assms(2) by simp
  have run: "stress_child_wait oomed opt_abort (Some (p, st)) s = Some (True, ?s')"
    using p found by (simp add: stress_child_wait_def)
  have "tracked ?s' adds"
    by (rule tracked_cong [OF assms(1)]) (simp_all add: eff(1-3))
  moreover have "live ?s' adds = filter (\<lambda>a. a \<noteq> (k, p)) (live s adds)"
  proof -
    have "distinct (map fst adds)" using assms(1) by (simp add: tracked_def)
    have "(st_pid (rs_stats ?s' j) = q) = (st_pid (rs_stats s j) = q \<and> (j, q) \<noteq> (k, p))"
      if "(j, q) \<in> set adds" for j q
    proof (cases "j = k")
      case True
      have "q > 0" using assms(1) that by (auto simp: tracked_def)
      then show ?thesis using True p(2) by (simp add: eff(2))
    next
      case False
      then show ?thesis by (simp add: eff(2))
    qed
    then show ?thesis unfolding live_def filter_filter by (intro filter_cong) auto
  qed
  ultimately show ?thesis
    by (rule that [OF run]) (simp_all add: eff(4,6-8))
qed

lemma child_wait_unknown:
  assumes "tracked s adds" "p \<notin> snd ` set (live s adds)"
  shows "stress_child_wait oomed opt_abort (Some (p, st)) s = Some (False, s)"
proof (cases "p > 0")
  case True
  have "map_of (map (\<lambda>(k, q). (q, k)) (live s adds)) p = None"
    using assms(2) by (force simp: map_of_eq_None_iff)
  then show ?thesis using True find_tracked [OF assms(1) True] by (simp add: stress_child_wait_def)
qed (simp add: stress_child_wait_def)

text \<open>The events that are about given processes.\<close>

fun reports :: "int set \<Rightarrow> wait_event list \<Rightarrow> (int \<times> wait_status) list" where
  "reports ps [] = []"
| "reports ps (None # evs) = reports ps evs"
| "reports ps (Some e # evs) = (if fst e \<in> ps then e # reports ps evs else reports ps evs)"

lemma reports_subset:
  "\<forall>e \<in> set (reports ps evs). fst e \<noteq> p \<Longrightarrow> reports (ps - {p}) evs = reports ps evs"
  by (induction ps evs rule: reports.induct) auto

lemma distinct_split:
  "distinct xs \<Longrightarrow> a \<in> set xs \<Longrightarrow> mset xs = add_mset a (mset (filter (\<lambda>x. x \<noteq> a) xs))"
proof (induction xs)
  case (Cons x xs)
  have "filter (\<lambda>y. y \<noteq> x) xs = xs" if "x \<notin> set xs" using that by (intro filter_True) auto
  then show ?case using Cons by (auto simp del: mset_filter)
qed simp

lemma wait_loop_outcome:
  assumes "tracked s adds"
    and "mset (map fst (reports (snd ` set (live s adds)) evs)) = mset (map snd (live s adds))"
  shows "\<exists>s'. wait_loop oomed opt_abort evs (length (live s adds)) s = Some s' \<and> live s' adds = []
    \<and> (let es = reports (snd ` set (live s adds)) evs
       in rs_success s' = (rs_success s \<and> list_all (\<lambda>e. \<not> status_fails oomed e) es)
        \<and> rs_resource_success s' = (rs_resource_success s \<and> list_all (\<lambda>e. status_code oomed e \<noteq> EXIT_NO_RESOURCE) es)
        \<and> rs_metrics_success s'
          = (rs_metrics_success s \<and> list_all (\<lambda>e. status_code oomed e \<noteq> EXIT_METRICS_UNTRUSTWORTHY) es))
    \<and> (\<forall>j. st_reaped (rs_stats s' j) = (st_reaped (rs_stats s j) \<or> j \<in> fst ` set (live s adds)))"
  using assms
proof (induction evs arbitrary: s)
  case Nil
  then have "live s adds = []" by simp
  then show ?case by simp
next
  case (Cons ev evs)
  show ?case
  proof (cases "live s adds")
    case Nil
    have none: "reports {} xs = []" for xs by (induction "{} :: int set" xs rule: reports.induct) auto
    show ?thesis by (simp add: Nil none)
  next
    case live: (Cons b bs)
    then obtain n where n: "length (live s adds) = Suc n" by simp
    show ?thesis
    proof (cases "\<exists>p st. ev = Some (p, st) \<and> p \<in> snd ` set (live s adds)")
      case False
      then have "stress_child_wait oomed opt_abort ev s = Some (False, s)"
      proof (cases ev)
        case (Some e)
        obtain p st where e: "e = (p, st)" by (cases e)
        then have "p \<notin> snd ` set (live s adds)" using False Some by blast
        then show ?thesis unfolding Some e by (rule child_wait_unknown [OF Cons.prems(1)])
      qed (simp add: stress_child_wait_def)
      moreover have "reports (snd ` set (live s adds)) (ev # evs) = reports (snd ` set (live s adds)) evs"
      proof (cases ev)
        case (Some e)
        obtain p st where e: "e = (p, st)" by (cases e)
        then have "p \<notin> snd ` set (live s adds)" using False Some by blast
        then show ?thesis unfolding Some e by simp
      qed simp
      ultimately show ?thesis using Cons.IH [OF Cons.prems(1)] Cons.prems(2) n by simp
    next
      case True
      then obtain k p st where ev: "ev = Some (p, st)" "(k, p) \<in> set (live s adds)" by force
      obtain s' where s': "stress_child_wait oomed opt_abort (Some (p, st)) s = Some (True, s')"
        "tracked s' adds" "live s' adds = filter (\<lambda>a. a \<noteq> (k, p)) (live s adds)"
        "rs_success s' = (rs_success s \<and> \<not> status_fails oomed (p, st))"
        "rs_resource_success s' = (rs_resource_success s \<and> status_code oomed (p, st) \<noteq> EXIT_NO_RESOURCE)"
        "rs_metrics_success s' = (rs_metrics_success s \<and> status_code oomed (p, st) \<noteq> EXIT_METRICS_UNTRUSTWORTHY)"
        "\<And>j. st_reaped (rs_stats s' j) = (j = k \<or> st_reaped (rs_stats s j))"
        by (rule child_wait_known [OF Cons.prems(1) ev(2), of oomed opt_abort st]) blast
      let ?P = "snd ` set (live s adds)"
      have dist: "distinct (map snd (live s adds))"
        using Cons.prems(1) unfolding tracked_def live_def by (simp add: distinct_map_filter)
      then have dist': "distinct (live s adds)" "inj_on snd (set (live s adds))" by (simp_all add: distinct_map)
      then have split: "mset (live s adds) = add_mset (k, p) (mset (live s' adds))"
        using distinct_split [OF _ ev(2)] s'(3) by simp
      have len: "length (live s adds) = Suc (length (live s' adds))"
        using split size_mset [of "live s adds"] size_mset [of "live s' adds"] by simp
      have "set (live s' adds) = set (live s adds) - {(k, p)}" using s'(3) by auto
      then have P': "snd ` set (live s' adds) = ?P - {p}"
        using inj_on_image_set_diff [OF dist'(2), of "set (live s adds)" "{(k, p)}"] ev(2) by auto
      have eq: "mset (map fst (reports ?P (ev # evs))) = add_mset p (mset (map fst (reports ?P evs)))"
        using ev by force
      have "mset (map fst (reports ?P evs)) = mset (map snd (live s' adds))"
        using eq Cons.prems(2) arg_cong [OF split, of "image_mset snd"] by simp
      moreover from this have "fst ` set (reports ?P evs) = ?P - {p}"
        using P' mset_eq_setD [of "map fst (reports ?P evs)" "map snd (live s' adds)"] by (simp only: set_map)
      moreover from this have "reports (?P - {p}) evs = reports ?P evs"
        by (intro reports_subset) blast
      ultimately have es: "reports ?P (ev # evs) = (p, st) # reports (snd ` set (live s' adds)) evs"
        "mset (map fst (reports (snd ` set (live s' adds)) evs)) = mset (map snd (live s' adds))"
        using ev P' by force+
      have ks: "fst ` set (live s adds) = insert k (fst ` set (live s' adds))"
        using ev(2) s'(3) by force
      let ?es = "reports (snd ` set (live s' adds)) evs"
      obtain s2 where s2: "wait_loop oomed opt_abort evs (length (live s' adds)) s' = Some s2" "live s2 adds = []"
        "rs_success s2 = (rs_success s' \<and> list_all (\<lambda>e. \<not> status_fails oomed e) ?es)"
        "rs_resource_success s2 = (rs_resource_success s' \<and> list_all (\<lambda>e. status_code oomed e \<noteq> EXIT_NO_RESOURCE) ?es)"
        "rs_metrics_success s2
          = (rs_metrics_success s' \<and> list_all (\<lambda>e. status_code oomed e \<noteq> EXIT_METRICS_UNTRUSTWORTHY) ?es)"
        "\<And>j. st_reaped (rs_stats s2 j) = (st_reaped (rs_stats s' j) \<or> j \<in> fst ` set (live s' adds))"
        using Cons.IH [OF s'(2) es(2)] unfolding Let_def by blast
      have "wait_loop oomed opt_abort (ev # evs) (length (live s adds)) s = Some s2"
        unfolding len ev(1) using s'(1) s2(1) by simp
      then show ?thesis
        unfolding es(1) ks using s2(2-6) s'(4-7) by (intro exI [of _ s2]) (simp add: Let_def, blast)
    qed
  qed
qed

end
