(* ===== verification/Stressor_Run.thy ===== *)
theory Stressor_Run
  imports Supervisor "HOL-Library.Countable" "HOL-Library.FuncSet"
begin

text \<open>
  Running the stressors, stress-ng.c: the child that runs a stressor and leaves its counter, its
  run flag and their checksum in shared memory, the fork loop of the supervisor, its sequential,
  parallel and permuted runs, the check of the metrics against the checksums, and the exit status.
  What a stressor does and when signals, forks and waits happen is input.
\<close>

section \<open>The checksum\<close>

text \<open>The 16 bytes of the counter structure in a machine that is \<open>little\<close> endian or not.\<close>

definition counter_bytes :: "bool \<Rightarrow> stress_counter \<Rightarrow> u8 list" where
  "counter_bytes little c =
     (if little then bytes_of64 (counter c) else rev (bytes_of64 (counter c)))
     @ [of_bool (counter_ready c), of_bool (run_ok c), of_bool (force_killed c), 0] @ replicate 4 0"

definition stress_hash_checksum :: "bool \<Rightarrow> stress_counter \<Rightarrow> u32" where
  "stress_hash_checksum little c = stress_hash_jenkin (counter_bytes little c) 16"

definition counter_zero :: stress_counter where
  "counter_zero = \<lparr>counter = 0, counter_ready = False, run_ok = False, force_killed = False\<rparr>"

definition checksum_zero :: stress_checksum where
  "checksum_zero = \<lparr>cs_count = counter_zero, cs_hash = 0\<rparr>"

section \<open>The child\<close>

text \<open>
  What happens in a child: whether the scheduler settings and the signal handlers can be set, what
  the stressor returns and leaves in the counter structure, how many failure messages it logs,
  whether a failing interrupt is seen, and whether the child is killed while the stressor runs.
\<close>

record child =
  ch_sched_ok :: bool
  ch_handler_ok :: bool
  ch_rc :: int
  ch_counter :: u64
  ch_ready :: bool
  ch_force_killed :: bool
  ch_fails :: nat
  ch_interrupts :: bool
  ch_dies :: bool

definition ABORT_FAILURES :: nat where "ABORT_FAILURES = 5"

definition pr_fail_check :: "nat \<Rightarrow> int \<Rightarrow> int" where
  "pr_fail_check fails rc = (if fails \<ge> ABORT_FAILURES \<and> rc = EXIT_SUCCESS then EXIT_FAILURE else rc)"

text \<open>The result of the stressor after the checks that may turn it into a failure.\<close>

definition stressor_result :: "child \<Rightarrow> int" where
  "stressor_result ch = pr_fail_check (ch_fails ch) (if ch_interrupts ch then EXIT_FAILURE else ch_rc ch)"

text \<open>The part that runs the stressor, for statistics \<open>k\<close> with checksum block \<open>c\<close>.\<close>

definition child_stress :: "bool \<Rightarrow> child \<Rightarrow> nat \<Rightarrow> nat \<Rightarrow> run_state \<Rightarrow> int \<times> run_state" where
  "child_stress little ch k c s =
     (let s = s\<lparr>rs_checksums := (rs_checksums s)(c := checksum_zero)\<rparr>;
          s = upd_stats k (\<lambda>st. st\<lparr>st_count := (st_count st)\<lparr>counter := ch_counter ch,
                counter_ready := ch_ready ch,
                force_killed := force_killed (st_count st) \<or> ch_force_killed ch\<rparr>\<rparr>) s
      in if ch_dies ch then (0, s)
         else let rc = stressor_result ch; ok = (rc = EXIT_SUCCESS);
                  s = upd_stats k (\<lambda>st. st\<lparr>st_completed := True, st_count := (st_count st)\<lparr>run_ok := ok\<rparr>\<rparr>) s;
                  rc = (if \<not> ch_ready ch \<and> \<not> force_killed (st_count (rs_stats s k))
                        then EXIT_METRICS_UNTRUSTWORTHY else rc);
                  cnt = counter_zero\<lparr>counter := ch_counter ch, run_ok := ok\<rparr>
              in (rc, s\<lparr>rs_checksums := (rs_checksums s)(c :=
                   \<lparr>cs_count = cnt, cs_hash = stress_hash_checksum little cnt\<rparr>)\<rparr>))"

text \<open>
  The result and the effects on shared memory; a child that dies has no result of its own (0
  stands for it) and none of the effects after its death.  The alarm that a failing child sends its
  parent with \<open>--abort\<close> is an event of the parent, in \<open>spawn\<close>.
\<close>

definition stress_child_run ::
    "bool \<Rightarrow> bool \<Rightarrow> child \<Rightarrow> nat \<Rightarrow> nat \<Rightarrow> run_state \<Rightarrow> int \<times> run_state" where
  "stress_child_run little dry_run ch k c s =
     (let s = s\<lparr>rs_started := rs_started s + 1\<rparr>;
          (rc, s) =
            (if \<not> ch_sched_ok ch \<or> \<not> ch_handler_ok ch then (EXIT_FAILURE, s)
             else let (rc, s) = (if rs_continue s \<and> \<not> dry_run then child_stress little ch k c s else (EXIT_SUCCESS, s))
                  in (rc, if rs_continue s \<and> \<not> dry_run \<and> ch_dies ch then s
                          else upd_stats k (\<lambda>st. st\<lparr>st_counter_total := st_counter_total st + counter (st_count st)\<rparr>) s))
      in if ch_sched_ok ch \<and> ch_handler_ok ch \<and> rs_continue s \<and> \<not> dry_run \<and> ch_dies ch then (rc, s)
         else (rc, s\<lparr>rs_exited := rs_exited s + 1, rs_started := rs_started s - 1,
                     rs_failed := (if rc = EXIT_FAILURE then rs_failed s + 1 else rs_failed s)\<rparr>))"

section \<open>Forking\<close>

datatype fork_result = Forked int | Fork_again | Fork_error

text \<open>
  The events of starting one instance: for each attempt to fork, whether a terminating signal has
  come before it and its outcome; whether one comes after it; and what waitpid then returns.
\<close>

record spawn =
  sp_forks :: "(bool \<times> fork_result) list"
  sp_signal :: bool
  sp_wait :: wait_event
  sp_child :: child

datatype spawned = Child int | Stopped | Failed_fork

fun spawn_loop :: "nat \<Rightarrow> (bool \<times> fork_result) list \<Rightarrow> run_state \<Rightarrow> (spawned \<times> run_state) option" where
  "spawn_loop k [] s = None"
| "spawn_loop k ((signal, r) # fs) s =
     (let s = (if signal then s\<lparr>rs_continue := False\<rparr> else s)
      in if \<not> rs_continue s then Some (Stopped, s)
         else (case r of
                 Forked p \<Rightarrow> Some (Child p, s)
               | Fork_again \<Rightarrow> spawn_loop k fs (upd_stats k (\<lambda>st. st\<lparr>st_reaped := True\<rparr>) s)
               | Fork_error \<Rightarrow>
                   Some (Failed_fork, stress_stressors_kill SIGALRM False (upd_stats k (\<lambda>st. st\<lparr>st_reaped := True\<rparr>) s))))"

record run_env =
  re_spawn :: "nat \<Rightarrow> spawn"
  re_waits :: "wait_event list"

record run_opts =
  ro_oomed :: "int \<Rightarrow> bool"
  ro_little :: bool
  ro_abort :: bool
  ro_dry_run :: bool

definition stats_init :: "nat \<Rightarrow> nat \<Rightarrow> nat \<Rightarrow> run_state \<Rightarrow> run_state" where
  "stats_init i c k s =
     upd_stats k (\<lambda>st. st\<lparr>st_count := (st_count st)\<lparr>counter_ready := True, counter := 0\<rparr>,
       st_checksum := Some c, st_item := i, st_reaped := False, st_wait_status := Exited 0\<rparr>) s"

text \<open>
  The instances of one stressor.  The result says whether the run goes on with the next stressor
  (or waits at once), and the next checksum block.  The child's effects, which are on its own
  statistics and block and on the counts, are taken at its fork.
\<close>

fun run_instances ::
    "run_opts \<Rightarrow> run_env \<Rightarrow> nat \<Rightarrow> nat list \<Rightarrow> nat \<Rightarrow> run_state \<Rightarrow> (bool \<times> nat \<times> run_state) option" where
  "run_instances opts env i [] c s = Some (True, c, s)"
| "run_instances opts env i (k # ks) c s =
     (let s = stats_init i c k s; sp = re_spawn env k
      in if ro_dry_run opts
         then run_instances opts env i ks (c + 1) (upd_stats k (\<lambda>st. st\<lparr>st_reaped := True, st_pid := - 1\<rparr>) s)
         else (case spawn_loop k (sp_forks sp) s of
                 None \<Rightarrow> None
               | Some (Stopped, s) \<Rightarrow> Some (True, c, s)
               | Some (Failed_fork, s) \<Rightarrow> Some (False, c, s)
               | Some (Child p, s) \<Rightarrow>
                   let s = upd_stats k (\<lambda>st. st\<lparr>st_pid := p, st_reaped := False, st_signalled := False\<rparr>) s;
                       s = stress_stats_hash_table_add k (snd (stress_child_run (ro_little opts) False (sp_child sp) k c s));
                       s = (if sp_signal sp then s\<lparr>rs_continue := False\<rparr> else s)
                   in if \<not> rs_continue s then Some (False, c, stress_stressors_kill SIGALRM True s)
                      else (case stress_child_wait (ro_oomed opts) (ro_abort opts) (sp_wait sp) s of
                              None \<Rightarrow> None
                            | Some (_, s) \<Rightarrow> run_instances opts env i ks (c + 1) s)))"

fun run_items ::
    "run_opts \<Rightarrow> run_env \<Rightarrow> nat list \<Rightarrow> nat \<Rightarrow> run_state \<Rightarrow> (nat \<times> run_state) option" where
  "run_items opts env [] c s = Some (c, s)"
| "run_items opts env (i # is) c s =
     (let it = rs_items s ! i
      in if \<not> runnable it then run_items opts env is (c + length (li_stats it)) s
         else (case run_instances opts env i (li_stats it) c s of
                 None \<Rightarrow> None
               | Some (go_on, c, s) \<Rightarrow> if go_on then run_items opts env is c s else Some (c, s)))"

definition stress_run ::
    "run_opts \<Rightarrow> run_env \<Rightarrow> nat list \<Rightarrow> nat \<Rightarrow> run_state \<Rightarrow> (nat \<times> run_state) option" where
  "stress_run opts env is c s =
     (case run_items opts env is c s of
        None \<Rightarrow> None
      | Some (c, s) \<Rightarrow>
          map_option (Pair c) (stress_stressors_wait (ro_oomed opts) (ro_abort opts) (re_waits env) is s))"

section \<open>The check of the metrics\<close>

definition metrics_sound :: "bool \<Rightarrow> run_state \<Rightarrow> nat \<Rightarrow> bool" where
  "metrics_sound little s k =
     (let st = rs_stats s k; sums = counter_zero\<lparr>counter := counter (st_count st), run_ok := run_ok (st_count st)\<rparr>
      in if \<not> st_completed st then True
         else (case st_checksum st of
                 None \<Rightarrow> False
               | Some c \<Rightarrow>
                   let cs = rs_checksums s c
                   in counter (st_count st) = counter (cs_count cs) \<and> run_ok (st_count st) = run_ok (cs_count cs)
                      \<and> stress_hash_checksum little sums = cs_hash cs))"

definition checked_stats :: "run_state \<Rightarrow> nat list" where
  "checked_stats s = concat (map li_stats (filter (\<lambda>it. \<not> li_ignore_run it) (rs_items s)))"

definition stress_metrics_check :: "bool \<Rightarrow> bool \<Rightarrow> run_state \<Rightarrow> run_state" where
  "stress_metrics_check little dry_run s =
     (if checked_stats s = [] then s
      else if dry_run then s
      else if list_all (metrics_sound little s) (checked_stats s) then s
      else s\<lparr>rs_success := False\<rparr>)"

section \<open>Sequential, parallel and permuted runs\<close>

text \<open>One stressor after the other, as long as no signal has stopped the run.\<close>

fun sequential_loop ::
    "run_opts \<Rightarrow> (nat \<Rightarrow> run_env) \<Rightarrow> nat list \<Rightarrow> nat \<Rightarrow> run_state \<Rightarrow> run_state option" where
  "sequential_loop opts env [] c s = Some s"
| "sequential_loop opts env (i # is) c s =
     (if \<not> rs_continue s then Some s
      else if li_ignore_run (rs_items s ! i) then sequential_loop opts env is c s
      else (case stress_run opts (env i) [i] c s of
              None \<Rightarrow> None
            | Some (c, s) \<Rightarrow> sequential_loop opts env is c s))"

definition stress_sequential_run :: "run_opts \<Rightarrow> (nat \<Rightarrow> run_env) \<Rightarrow> run_state \<Rightarrow> run_state option" where
  "stress_sequential_run opts env s =
     map_option (stress_metrics_check (ro_little opts) (ro_dry_run opts))
       (sequential_loop opts env [0..<length (rs_items s)] 0 s)"

definition stress_parallel_run :: "run_opts \<Rightarrow> run_env \<Rightarrow> run_state \<Rightarrow> run_state option" where
  "stress_parallel_run opts env s =
     (case stress_run opts env [0..<length (rs_items s)] 0 s of
        None \<Rightarrow> None
      | Some (c, s) \<Rightarrow> Some (stress_metrics_check (ro_little opts) (ro_dry_run opts) s))"

definition STRESS_MAX_PERMUTATIONS :: nat where "STRESS_MAX_PERMUTATIONS = 20"

text \<open>Permutation \<open>n\<close> ignores the \<open>j\<close>th stressor that can run unless bit \<open>j\<close> of \<open>n\<close> is set.\<close>

fun permute_ignore :: "nat \<Rightarrow> nat \<Rightarrow> stress_list_item list \<Rightarrow> stress_list_item list" where
  "permute_ignore n j [] = []"
| "permute_ignore n j (it # its) =
     (if j < STRESS_MAX_PERMUTATIONS
      then if li_ignore_run it then it\<lparr>li_ignore_permute := True\<rparr> # permute_ignore n j its
           else it\<lparr>li_ignore_permute := \<not> bit n j\<rparr> # permute_ignore n (Suc j) its
      else it # its)"

fun permute_loop ::
    "run_opts \<Rightarrow> (nat \<Rightarrow> run_env) \<Rightarrow> nat list \<Rightarrow> run_state \<Rightarrow> run_state option" where
  "permute_loop opts env [] s = Some s"
| "permute_loop opts env (n # ns) s =
     (if \<not> rs_continue s then Some s
      else (case stress_parallel_run opts (env n) (s\<lparr>rs_items := permute_ignore n 0 (rs_items s)\<rparr>) of
              None \<Rightarrow> None
            | Some s \<Rightarrow> permute_loop opts env ns s))"

definition num_perms :: "stress_list_item list \<Rightarrow> nat" where
  "num_perms its =
     2 ^ min (length (filter (\<lambda>it. \<not> li_ignore_run it) its)) STRESS_MAX_PERMUTATIONS - 1"

definition stress_permute_run :: "run_opts \<Rightarrow> (nat \<Rightarrow> run_env) \<Rightarrow> run_state \<Rightarrow> run_state option" where
  "stress_permute_run opts env s =
     (let its = map (\<lambda>it. it\<lparr>li_ignore_permute := True\<rparr>) (rs_items s)
      in map_option (\<lambda>s. s\<lparr>rs_items := map (\<lambda>it. it\<lparr>li_ignore_permute := False\<rparr>) (rs_items s)\<rparr>)
           (permute_loop opts env [1..<Suc (num_perms its)] (s\<lparr>rs_items := its\<rparr>)))"

section \<open>The exit status\<close>

text \<open>The end of main: the kernel log may clear the success flag; \<open>ret\<close> is the status so far.\<close>

definition stress_klog_stop :: "bool \<Rightarrow> u64 \<Rightarrow> run_state \<Rightarrow> run_state" where
  "stress_klog_stop klog_check klog_errors s =
     (if klog_check \<and> klog_errors \<noteq> 0 then s\<lparr>rs_success := False\<rparr> else s)"

definition main_exit :: "int \<Rightarrow> run_state \<Rightarrow> int" where
  "main_exit ret s =
     (if \<not> rs_success s then EXIT_NOT_SUCCESS
      else if \<not> rs_resource_success s then EXIT_NO_RESOURCE
      else if \<not> rs_metrics_success s then EXIT_METRICS_UNTRUSTWORTHY
      else ret)"

section \<open>The exit status of a run\<close>

text \<open>The state in which main starts the stressors: shared memory is zeroed, the flags are set.\<close>

definition stats_zero :: stress_stats where
  "stats_zero = \<lparr>st_hash_next = None, st_item = 0, st_count = counter_zero, st_counter_total = 0, st_checksum = None,
     st_pid = 0, st_reaped = False, st_wait_status = Exited 0, st_signalled = False, st_completed = False\<rparr>"

definition run_init :: "stress_list_item list \<Rightarrow> nat \<Rightarrow> run_state" where
  "run_init its n = \<lparr>rs_stats = (\<lambda>_. stats_zero), rs_items = its, rs_checksums = (\<lambda>_. checksum_zero),
     rs_table = replicate n None, rs_continue = True, rs_started = 0, rs_exited = 0, rs_reaped = 0, rs_failed = 0,
     rs_kill_count = 0, rs_killed = [], rs_success = True, rs_resource_success = True, rs_metrics_success = True\<rparr>"

definition new_item :: "nat list \<Rightarrow> stress_list_item" where
  "new_item ks = \<lparr>li_stats = ks, li_status = (\<lambda>_. 0), li_ignore_run = False, li_ignore_permute = False\<rparr>"

lemma register_all_flags:
  "rs_success (register_all adds s) = rs_success s"
  "rs_resource_success (register_all adds s) = rs_resource_success s"
  "rs_metrics_success (register_all adds s) = rs_metrics_success s"
  "rs_items (register_all adds s) = rs_items s"
  by (induction adds) (simp_all add: register_pid_def stress_stats_hash_table_add_def Let_def split_def)

lemma register_all_tracked:
  assumes "n > 0" "distinct (map fst adds)" "distinct (map snd adds)" "list_all (\<lambda>(k, p). p > 0) adds"
    and "rs_table s = replicate n None"
  shows "tracked (register_all adds s) adds" "live (register_all adds s) adds = adds"
proof -
  have *: "chained (register_all adds s) adds (\<lambda>h. rs_table s ! h)"
    "length (rs_table (register_all adds s)) = n"
    "\<forall>(k, p) \<in> set adds. st_pid (rs_stats (register_all adds s) k) = p"
    using register_all_chained [OF assms(2), of s] assms(5) by simp_all
  then have "chained (register_all adds s) adds (\<lambda>_. None)"
    using assms(5) by (simp add: chained_def)
  then show "tracked (register_all adds s) adds"
    using * assms by (auto simp: tracked_def list_all_iff)
  show "live (register_all adds s) adds = adds"
    unfolding live_def by (rule filter_True) (rule *(3))
qed

text \<open>
  C14: when every child that was forked is reported once by waitpid, between reports of other
  processes and errors, the waiting returns with all of them reaped, and the exit status of the
  program is determined by their statuses: failure before missing resources before bad metrics.
  An exit by _exit, SIGKILL, SIGALRM and the out-of-memory killer are not failures.
\<close>

theorem exit_status_exact:
  assumes "n > 0" "distinct (map fst children)" "distinct (map snd children)" "list_all (\<lambda>(k, p). p > 0) children"
    and "rs_table s = replicate n None" "rs_success s" "rs_resource_success s" "rs_metrics_success s"
    and "mset (pending is (register_all children s)) = mset (map fst children)"
    and "mset (map fst (reports (snd ` set children) evs)) = mset (map snd children)"
  shows "\<exists>s'. stress_stressors_wait oomed opt_abort evs is (register_all children s) = Some s'
    \<and> list_all (\<lambda>(k, p). st_reaped (rs_stats s' k)) children
    \<and> main_exit EXIT_SUCCESS s' =
      (let es = reports (snd ` set children) evs
       in if list_ex (status_fails oomed) es then EXIT_NOT_SUCCESS
          else if list_ex (\<lambda>e. status_code oomed e = EXIT_NO_RESOURCE) es then EXIT_NO_RESOURCE
          else if list_ex (\<lambda>e. status_code oomed e = EXIT_METRICS_UNTRUSTWORTHY) es then EXIT_METRICS_UNTRUSTWORTHY
          else EXIT_SUCCESS)"
proof -
  let ?s = "register_all children s"
  note tracked = register_all_tracked [OF assms(1-5)]
  have "length (pending is ?s) = length children"
    using assms(9) by (metis length_map size_mset)
  then obtain s' where s': "stress_stressors_wait oomed opt_abort evs is ?s = Some s'"
    and flags: "rs_success s' = list_all (\<lambda>e. \<not> status_fails oomed e) (reports (snd ` set children) evs)"
      "rs_resource_success s' = list_all (\<lambda>e. status_code oomed e \<noteq> EXIT_NO_RESOURCE) (reports (snd ` set children) evs)"
      "rs_metrics_success s'
        = list_all (\<lambda>e. status_code oomed e \<noteq> EXIT_METRICS_UNTRUSTWORTHY) (reports (snd ` set children) evs)"
    and reaped: "\<forall>j \<in> fst ` set children. st_reaped (rs_stats s' j)"
    using wait_loop_outcome [OF tracked(1), unfolded tracked(2), OF assms(10), of oomed opt_abort] assms(6-8)
    by (auto simp: Let_def stress_stressors_wait_def stress_wait_reap_count_def register_all_flags)
  have "list_all (\<lambda>(k, p). st_reaped (rs_stats s' k)) children"
    using reaped by (auto simp: list_all_iff)
  then show ?thesis
    using s' flags by (intro exI [of _ s']) (simp add: main_exit_def Let_def list_ex_iff list_all_iff)
qed

text \<open>
  Two children, the first killed by somebody with SIGKILL, the second leaving by _exit: the run is
  a success.
\<close>

theorem exit_status_exact_witness:
  "\<exists>s'. stress_stressors_wait (\<lambda>_. False) False [Some (50, Exited 1), Some (101, Exited 6), None, Some (100, Signaled 9)] [0]
      (register_all [(1, 101), (0, 100)] (run_init [new_item [0, 1]] 7)) = Some s'
    \<and> main_exit EXIT_SUCCESS s' = EXIT_SUCCESS"
proof -
  have pending: "pending [0] (register_all [(1, 101), (0, 100)] (run_init [new_item [0, 1]] 7)) = [0, 1]"
    by (simp add: pending_def run_init_def new_item_def runnable_def register_pid_def stress_stats_hash_table_add_def
        Let_def stats_zero_def upd_stats_def stress_stats_pid_to_hash_def)
  show ?thesis
    using exit_status_exact [of 7 "[(1, 101), (0, 100)]" "run_init [new_item [0, 1]] 7" "[0]"
        "[Some (50, Exited 1), Some (101, Exited 6), None, Some (100, Signaled 9)]" "\<lambda>_. False" False, unfolded pending]
    by (auto simp: run_init_def status_fails_def code_fails_def status_code_def wait_exit_status_def exit_defs SIGKILL_def)
qed

section \<open>The child and its metrics\<close>

text \<open>The state of a child that gets to run its stressor and comes back from it.\<close>

definition child_completes :: "child \<Rightarrow> run_state \<Rightarrow> bool" where
  "child_completes ch s \<longleftrightarrow> ch_sched_ok ch \<and> ch_handler_ok ch \<and> rs_continue s \<and> \<not> ch_dies ch"

lemma child_run_memory:
  fixes little :: bool and k c :: nat and s :: run_state
  assumes "child_completes ch s"
  defines "s' \<equiv> snd (stress_child_run little False ch k c s)"
  defines "cnt \<equiv> counter_zero\<lparr>counter := ch_counter ch, run_ok := stressor_result ch = EXIT_SUCCESS\<rparr>"
  shows "st_completed (rs_stats s' k)" "counter (st_count (rs_stats s' k)) = ch_counter ch"
    "run_ok (st_count (rs_stats s' k)) = (stressor_result ch = EXIT_SUCCESS)"
    "st_checksum (rs_stats s' k) = st_checksum (rs_stats s k)"
    "rs_checksums s' c = \<lparr>cs_count = cnt, cs_hash = stress_hash_checksum little cnt\<rparr>"
  using assms(1)
  by (simp_all add: s'_def cnt_def child_completes_def stress_child_run_def child_stress_def Let_def)

lemma child_run_sound:
  assumes "child_completes ch s" "st_checksum (rs_stats s k) = Some c"
  shows "metrics_sound little (snd (stress_child_run little False ch k c s)) k"
  using child_run_memory [OF assms(1), of little k c] assms(2) by (simp add: metrics_sound_def Let_def)

text \<open>
  C19: the check of the metrics accepts what a completed child leaves behind, and later accepts
  the same statistics and checksum block only with the counter and the run flag of the child:
  a corruption of one of the two copies is always reported.
\<close>

theorem metrics_detect_corruption:
  assumes "child_completes ch s" "st_checksum (rs_stats s k) = Some c"
    and "s1 = snd (stress_child_run little False ch k c s)"
    and "st_completed (rs_stats s2 k)" "st_checksum (rs_stats s2 k) = Some c"
  shows "metrics_sound little s1 k
    \<and> (rs_checksums s2 c = rs_checksums s1 c \<longrightarrow>
        metrics_sound little s2 k = (counter (st_count (rs_stats s2 k)) = ch_counter ch
          \<and> run_ok (st_count (rs_stats s2 k)) = (stressor_result ch = EXIT_SUCCESS)))
    \<and> (st_count (rs_stats s2 k) = st_count (rs_stats s1 k) \<longrightarrow>
        metrics_sound little s2 k = (counter (cs_count (rs_checksums s2 c)) = ch_counter ch
          \<and> run_ok (cs_count (rs_checksums s2 c)) = (stressor_result ch = EXIT_SUCCESS)
          \<and> cs_hash (rs_checksums s2 c) = cs_hash (rs_checksums s1 c)))"
  using child_run_memory [OF assms(1), of little k c] assms(2,4,5) unfolding assms(3)
  by (auto simp: metrics_sound_def Let_def)

text \<open>A child that counts to five, of which the counter is then overwritten.\<close>

definition good_child :: child where
  "good_child = \<lparr>ch_sched_ok = True, ch_handler_ok = True, ch_rc = 0, ch_counter = 5, ch_ready = True,
     ch_force_killed = False, ch_fails = 0, ch_interrupts = False, ch_dies = False\<rparr>"

theorem metrics_detect_corruption_witness:
  "\<not> metrics_sound True
      (upd_stats 0 (\<lambda>st. st\<lparr>st_count := (st_count st)\<lparr>counter := 7\<rparr>\<rparr>)
        (snd (stress_child_run True False good_child 0 0 (stats_init 0 0 0 (run_init [new_item [0]] 7))))) 0"
proof -
  let ?s = "stats_init 0 0 0 (run_init [new_item [0]] 7)"
  let ?t = "snd (stress_child_run True False good_child 0 0 ?s)"
  have "child_completes good_child ?s" "st_checksum (rs_stats ?s 0) = Some 0"
    by (simp_all add: child_completes_def good_child_def stats_init_def run_init_def upd_stats_def)
  moreover have "st_completed (rs_stats ?t 0)" "st_checksum (rs_stats ?t 0) = Some 0"
    using child_run_memory [OF calculation(1), of True 0 0] calculation(2) by simp_all
  ultimately show ?thesis
    using metrics_detect_corruption [of good_child ?s 0 0 ?t True "upd_stats 0 (\<lambda>st. st\<lparr>st_count := (st_count st)\<lparr>counter := 7\<rparr>\<rparr>) ?t"]
    by (simp add: upd_stats_def good_child_def)
qed

text \<open>
  A stressor that ends in failure, or logs five failures, makes its child exit with a status
  that fails the run, but only while its counter is ready or it was killed on purpose: otherwise
  the status says untrustworthy metrics, and fewer than five logged failures do not count.
\<close>

theorem failing_stressor_status:
  assumes "child_completes ch s" "ch_rc ch \<in> {EXIT_SUCCESS, EXIT_FAILURE, EXIT_NOT_SUCCESS}" "\<not> oomed p"
    and "\<not> ch_interrupts ch" "\<not> force_killed (st_count (rs_stats s k))"
  shows "status_fails oomed (p, Exited (fst (stress_child_run little False ch k c s)))
    \<longleftrightarrow> (ch_rc ch \<noteq> EXIT_SUCCESS \<or> ch_fails ch \<ge> 5) \<and> (ch_ready ch \<or> ch_force_killed ch)"
  using assms
  by (auto simp: child_completes_def stress_child_run_def child_stress_def Let_def status_fails_def code_fails_def wait_exit_status_def
      stressor_result_def pr_fail_check_def ABORT_FAILURES_def exit_defs)

theorem failing_stressor_status_witness:
  "\<not> status_fails (\<lambda>_. False) (100, Exited (fst (stress_child_run True False
      (good_child\<lparr>ch_rc := EXIT_FAILURE, ch_ready := False\<rparr>) 0 0 (run_init [new_item [0]] 7))))"
  using failing_stressor_status [of "good_child\<lparr>ch_rc := EXIT_FAILURE, ch_ready := False\<rparr>" "run_init [new_item [0]] 7"
      "\<lambda>_. False" 100 0 True 0]
  by (simp add: good_child_def child_completes_def run_init_def stats_zero_def counter_zero_def exit_defs)

text \<open>
  The completion flag outlives its run: when a permuted run gives a completed instance its
  next turn and is stopped before the fork, or the child dies there after other counts, the check
  of the metrics reports corrupted memory although nothing was corrupted.
\<close>

theorem stale_completion_false_alarm:
  assumes "child_completes ch s" "ch_counter ch \<noteq> 0"
    and "s1 = stats_init i c k (snd (stress_child_run little False ch k c s))"
    and "ch2 = ch\<lparr>ch_dies := True, ch_counter := n\<rparr>" "n \<noteq> 0"
  shows "\<not> metrics_sound little s1 k
    \<and> \<not> metrics_sound little (snd (stress_child_run little False ch2 k c (s1\<lparr>rs_continue := True\<rparr>))) k"
proof -
  let ?t = "snd (stress_child_run little False ch k c s)"
  note mem = child_run_memory [OF assms(1), of little k c]
  have s1: "st_completed (rs_stats s1 k)" "st_checksum (rs_stats s1 k) = Some c"
    "counter (st_count (rs_stats s1 k)) = 0" "rs_checksums s1 c = rs_checksums ?t c"
    unfolding assms(3) using mem by (simp_all add: stats_init_def upd_stats_def)
  have "\<not> metrics_sound little s1 k"
    using s1 mem(5) assms(2) by (simp add: metrics_sound_def Let_def)
  moreover have "\<not> metrics_sound little (snd (stress_child_run little False ch2 k c (s1\<lparr>rs_continue := True\<rparr>))) k"
    using s1(1,2) assms(1,4,5)
    by (simp add: child_completes_def stress_child_run_def child_stress_def Let_def metrics_sound_def checksum_zero_def counter_zero_def)
  ultimately show ?thesis ..
qed

theorem stale_completion_false_alarm_witness:
  "\<not> metrics_sound True (stats_init 0 0 0
      (snd (stress_child_run True False good_child 0 0 (run_init [new_item [0]] 7)))) 0"
  using stale_completion_false_alarm [of good_child "run_init [new_item [0]] 7" _ 0 0 0 True _ 1, OF _ _ refl refl]
  by (simp add: good_child_def child_completes_def run_init_def)

section \<open>A whole run\<close>

text \<open>The exit status of a child that completes.\<close>

definition child_rc :: "child \<Rightarrow> int" where
  "child_rc ch = (if \<not> ch_ready ch \<and> \<not> ch_force_killed ch then EXIT_METRICS_UNTRUSTWORTHY else stressor_result ch)"

lemma child_run_frame:
  fixes little :: bool and s :: run_state and k c :: nat and ch :: child
  defines "s' \<equiv> snd (stress_child_run little False ch k c s)"
  shows "rs_table s' = rs_table s" "rs_items s' = rs_items s" "rs_continue s' = rs_continue s"
    "rs_success s' = rs_success s" "rs_resource_success s' = rs_resource_success s"
    "rs_metrics_success s' = rs_metrics_success s"
    "st_hash_next (rs_stats s' j) = st_hash_next (rs_stats s j)" "st_pid (rs_stats s' j) = st_pid (rs_stats s j)"
    "st_reaped (rs_stats s' j) = st_reaped (rs_stats s j)" "st_checksum (rs_stats s' j) = st_checksum (rs_stats s j)"
    "j \<noteq> k \<Longrightarrow> rs_stats s' j = rs_stats s j" "d \<noteq> c \<Longrightarrow> rs_checksums s' d = rs_checksums s d"
  by (simp_all add: s'_def stress_child_run_def child_stress_def Let_def)

text \<open>One instance that is forked at the first attempt, as process \<open>p\<close>.\<close>

definition start_child :: "bool \<Rightarrow> child \<Rightarrow> nat \<Rightarrow> nat \<Rightarrow> int \<Rightarrow> nat \<Rightarrow> run_state \<Rightarrow> run_state" where
  "start_child little ch i c p k s =
     stress_stats_hash_table_add k (snd (stress_child_run little False ch k c
       (upd_stats k (\<lambda>st. st\<lparr>st_pid := p, st_reaped := False, st_signalled := False\<rparr>) (stats_init i c k s))))"

lemma metrics_sound_cong:
  assumes "st_count (rs_stats s' k) = st_count (rs_stats s k)" "st_completed (rs_stats s' k) = st_completed (rs_stats s k)"
    and "st_checksum (rs_stats s' k) = st_checksum (rs_stats s k)"
    and "\<And>d. st_checksum (rs_stats s k) = Some d \<Longrightarrow> rs_checksums s' d = rs_checksums s d"
  shows "metrics_sound little s' k = metrics_sound little s k"
  using assms by (auto simp: metrics_sound_def Let_def split: option.split)

lemma start_child_frame:
  fixes little :: bool and s :: run_state and i k c :: nat and ch :: child and p :: int
  defines "s' \<equiv> start_child little ch i c p k s"
  shows "rs_items s' = rs_items s" "rs_continue s' = rs_continue s"
    "rs_success s' = rs_success s" "rs_resource_success s' = rs_resource_success s"
    "rs_metrics_success s' = rs_metrics_success s"
    "j \<noteq> k \<Longrightarrow> rs_stats s' j = rs_stats s j" "d \<noteq> c \<Longrightarrow> rs_checksums s' d = rs_checksums s d"
    "st_pid (rs_stats s' k) = p" "\<not> st_reaped (rs_stats s' k)" "st_checksum (rs_stats s' k) = Some c"
  unfolding s'_def start_child_def stress_stats_hash_table_add_def Let_def
  by (simp_all add: child_run_frame stats_init_def)

lemma register_same:
  "st_pid (rs_stats s k) = p \<Longrightarrow> register_pid (k, p) s = stress_stats_hash_table_add k s"
proof -
  assume "st_pid (rs_stats s k) = p"
  then have "upd_stats k (\<lambda>st. st\<lparr>st_pid := p\<rparr>) s = s" by (auto simp: upd_stats_def)
  then show ?thesis by (simp add: register_pid_def)
qed

lemma start_child_tracked:
  assumes "tracked s adds" "k \<notin> fst ` set adds" "p \<notin> snd ` set adds" "p > 0"
  shows "tracked (start_child little ch i c p k s) ((k, p) # adds)"
    and "live (start_child little ch i c p k s) ((k, p) # adds) = (k, p) # live s adds"
proof -
  let ?t = "snd (stress_child_run little False ch k c
       (upd_stats k (\<lambda>st. st\<lparr>st_pid := p, st_reaped := False, st_signalled := False\<rparr>) (stats_init i c k s)))"
  let ?u = "start_child little ch i c p k s"
  have t: "st_pid (rs_stats ?t k) = p" "rs_table ?t = rs_table s" "\<And>j. j \<noteq> k \<Longrightarrow> rs_stats ?t j = rs_stats s j"
    by (simp_all add: child_run_frame stats_init_def)
  have reg: "?u = register_pid (k, p) ?t" using register_same [OF t(1)] by (simp add: start_child_def)
  have "chain (rs_stats ?t) x ks e = chain (rs_stats s) x ks e" if "k \<notin> set ks" for x ks e
    by (rule chain_cong) (use that t(3) in metis)
  moreover have "k \<notin> set (bucket n adds h)" for n h using assms(2) by (force simp: set_bucket)
  ultimately have "chained ?t adds (\<lambda>_. None)"
    using assms(1) by (simp add: tracked_def chained_def t(2))
  then have "chained ?u ((k, p) # adds) (\<lambda>_. None)"
    unfolding reg by (rule chained_register) (rule assms(2))
  moreover have "rs_table ?u \<noteq> []"
    using assms(1) register_other(3) [of k p ?t] t(2) by (auto simp: reg tracked_def)
  moreover have same: "rs_stats ?u j = rs_stats s j" if "j \<noteq> k" for j
    using start_child_frame(6) that by blast
  moreover have ne: "j \<noteq> k" if "(j, q) \<in> set adds" for j q using assms(2) that by force
  ultimately show "tracked ?u ((k, p) # adds)"
    using assms by (auto simp: tracked_def start_child_frame(8))
  show "live ?u ((k, p) # adds) = (k, p) # live s adds"
    using same ne by (auto simp: live_def start_child_frame(8) intro!: filter_cong)
qed

text \<open>The children started so far are alive, and the metrics of the finished stressors are sound.\<close>

definition started_well :: "bool \<Rightarrow> run_state \<Rightarrow> (nat \<times> int) list \<Rightarrow> nat \<Rightarrow> bool" where
  "started_well little s adds c \<longleftrightarrow>
     tracked s adds \<and> live s adds = adds \<and> rs_continue s
     \<and> (\<forall>(k, p) \<in> set adds. \<not> st_reaped (rs_stats s k) \<and> metrics_sound little s k
         \<and> (\<exists>d < c. st_checksum (rs_stats s k) = Some d))"

lemma start_child_well:
  assumes "started_well little s adds c" "k \<notin> fst ` set adds" "p \<notin> snd ` set adds" "p > 0"
    and "ch_sched_ok ch" "ch_handler_ok ch" "\<not> ch_dies ch"
  shows "started_well little (start_child little ch i c p k s) ((k, p) # adds) (Suc c)"
proof -
  let ?u = "start_child little ch i c p k s"
  let ?v = "upd_stats k (\<lambda>st. st\<lparr>st_pid := p, st_reaped := False, st_signalled := False\<rparr>) (stats_init i c k s)"
  let ?t = "snd (stress_child_run little False ch k c ?v)"
  have well: "tracked s adds" "live s adds = adds" "rs_continue s"
    "\<And>j q. (j, q) \<in> set adds \<Longrightarrow> \<not> st_reaped (rs_stats s j) \<and> metrics_sound little s j
       \<and> (\<exists>d < c. st_checksum (rs_stats s j) = Some d)"
    using assms(1) by (auto simp: started_well_def)
  have "child_completes ch ?v" using assms(5-7) well(3) by (simp add: child_completes_def stats_init_def)
  then have "metrics_sound little ?t k"
    by (rule child_run_sound) (simp add: stats_init_def)
  moreover have "metrics_sound little ?u k = metrics_sound little ?t k"
    by (rule metrics_sound_cong) (simp_all add: start_child_def stress_stats_hash_table_add_def Let_def)
  ultimately have k: "metrics_sound little ?u k" by simp
  have "metrics_sound little ?u j = metrics_sound little s j" if "(j, q) \<in> set adds" for j q
  proof -
    have "j \<noteq> k" using assms(2) that by force
    then have "rs_stats ?u j = rs_stats s j" by (rule start_child_frame(6))
    moreover have "rs_checksums ?u d = rs_checksums s d" if "st_checksum (rs_stats s j) = Some d" for d
      using well(4) [OF \<open>(j, q) \<in> set adds\<close>] that by (intro start_child_frame(7)) auto
    ultimately show ?thesis by (intro metrics_sound_cong) simp_all
  qed
  moreover have u: "rs_stats ?u j = rs_stats s j" if "(j, q) \<in> set adds" for j q
    using assms(2) that start_child_frame(6) [of j k] by force
  moreover have "\<exists>d < Suc c. st_checksum (rs_stats ?u j) = Some d" if "(j, q) \<in> set adds" for j q
    using well(4) [OF that] u [OF that] less_SucI by metis
  ultimately show ?thesis
    using start_child_tracked [OF well(1) assms(2-4), of little ch i c] well k
    by (auto simp: started_well_def start_child_frame(2,9,10))
qed

text \<open>Every fork succeeds at once, no signal comes, and no child ends before all are started.\<close>

definition calm_spawn :: "int \<Rightarrow> child \<Rightarrow> spawn" where
  "calm_spawn p ch = \<lparr>sp_forks = [(False, Forked p)], sp_signal = False, sp_wait = None, sp_child = ch\<rparr>"

definition runs_through :: "child \<Rightarrow> bool" where
  "runs_through ch \<longleftrightarrow> ch_sched_ok ch \<and> ch_handler_ok ch \<and> \<not> ch_dies ch"

lemma run_instances_step:
  assumes "re_spawn env k = calm_spawn p ch" "\<not> ro_dry_run opts" "rs_continue s"
  shows "run_instances opts env i (k # ks) c s
    = run_instances opts env i ks (Suc c) (start_child (ro_little opts) ch i c p k s)"
  using assms start_child_frame(2) [of "ro_little opts" ch i c p k s]
  by (simp add: Let_def calm_spawn_def stats_init_def start_child_def stress_child_wait_def)

definition pids_of :: "(nat \<Rightarrow> int) \<Rightarrow> nat list \<Rightarrow> (nat \<times> int) list" where
  "pids_of pid ks = map (\<lambda>k. (k, pid k)) ks"

lemma run_instances_well:
  assumes "\<And>k. k \<in> set ks \<Longrightarrow> re_spawn env k = calm_spawn (pid k) (ch k) \<and> pid k > 0 \<and> runs_through (ch k)"
    and "\<not> ro_dry_run opts" "started_well (ro_little opts) s (pids_of pid (rev ks0)) c"
    and "distinct (ks0 @ ks)" "distinct (map pid (ks0 @ ks))"
  shows "\<exists>s'. run_instances opts env i ks c s = Some (True, c + length ks, s')
    \<and> started_well (ro_little opts) s' (pids_of pid (rev (ks0 @ ks))) (c + length ks)
    \<and> rs_items s' = rs_items s \<and> rs_success s' = rs_success s \<and> rs_resource_success s' = rs_resource_success s
    \<and> rs_metrics_success s' = rs_metrics_success s"
  using assms
proof (induction ks arbitrary: s c ks0)
  case Nil
  then show ?case by simp
next
  case (Cons k ks)
  let ?u = "start_child (ro_little opts) (ch k) i c (pid k) k s"
  have k: "re_spawn env k = calm_spawn (pid k) (ch k)" "pid k > 0" "runs_through (ch k)"
    using Cons.prems(1) by simp_all
  have step: "run_instances opts env i (k # ks) c s = run_instances opts env i ks (Suc c) ?u"
    using run_instances_step [where env = env and opts = opts, OF k(1)] Cons.prems(2,3) by (simp add: started_well_def)
  have "k \<notin> fst ` set (pids_of pid (rev ks0))" "pid k \<notin> snd ` set (pids_of pid (rev ks0))"
    using Cons.prems(4,5) by (force simp: pids_of_def)+
  then have "started_well (ro_little opts) ?u (pids_of pid (rev (ks0 @ [k]))) (Suc c)"
    using start_child_well [OF Cons.prems(3)] k by (simp add: runs_through_def pids_of_def)
  from Cons.IH [OF _ Cons.prems(2) this] show ?case
    using Cons.prems(1,4,5) unfolding step by (simp add: start_child_frame)
qed

lemma run_items_well:
  assumes "\<And>k. k \<in> set (concat (map li_stats its)) \<Longrightarrow>
      re_spawn env k = calm_spawn (pid k) (ch k) \<and> pid k > 0 \<and> runs_through (ch k)"
    and "\<not> ro_dry_run opts" "started_well (ro_little opts) s (pids_of pid (rev ks0)) c"
    and "rs_items s = its0 @ its" "list_all runnable its"
    and "distinct (ks0 @ concat (map li_stats its))" "distinct (map pid (ks0 @ concat (map li_stats its)))"
  shows "\<exists>c' s'. run_items opts env [length its0..<length (rs_items s)] c s = Some (c', s')
    \<and> started_well (ro_little opts) s' (pids_of pid (rev (ks0 @ concat (map li_stats its)))) c'
    \<and> rs_items s' = rs_items s \<and> rs_success s' = rs_success s \<and> rs_resource_success s' = rs_resource_success s
    \<and> rs_metrics_success s' = rs_metrics_success s"
  using assms
proof (induction its arbitrary: s c ks0 its0)
  case Nil
  then show ?case by simp
next
  case (Cons it its)
  have it: "rs_items s ! length its0 = it" "runnable it" using Cons.prems(4,5) by simp_all
  have upt: "[length its0..<length (rs_items s)] = length its0 # [length (its0 @ [it])..<length (rs_items s)]"
    using Cons.prems(4) by (simp add: upt_rec)
  have d: "distinct (ks0 @ li_stats it)" "distinct (map pid (ks0 @ li_stats it))"
    using Cons.prems(6,7) by auto
  have env: "re_spawn env k = calm_spawn (pid k) (ch k) \<and> pid k > 0 \<and> runs_through (ch k)"
    if "k \<in> set (li_stats it)" for k
    using Cons.prems(1) that by simp
  obtain s1 where s1: "run_instances opts env (length its0) (li_stats it) c s = Some (True, c + length (li_stats it), s1)"
    "started_well (ro_little opts) s1 (pids_of pid (rev (ks0 @ li_stats it))) (c + length (li_stats it))"
    "rs_items s1 = rs_items s" "rs_success s1 = rs_success s" "rs_resource_success s1 = rs_resource_success s"
    "rs_metrics_success s1 = rs_metrics_success s"
    using run_instances_well [where ks = "li_stats it" and env = env and pid = pid and ch = ch and i = "length its0",
        OF env Cons.prems(2,3) d] by blast
  have "rs_items s1 = (its0 @ [it]) @ its" using s1(3) Cons.prems(4) by simp
  from Cons.IH [OF _ Cons.prems(2) s1(2) this] obtain c' s' where
    "run_items opts env [length (its0 @ [it])..<length (rs_items s1)] (c + length (li_stats it)) s1 = Some (c', s')"
    "started_well (ro_little opts) s' (pids_of pid (rev ((ks0 @ li_stats it) @ concat (map li_stats its)))) c'"
    "rs_items s' = rs_items s1" "rs_success s' = rs_success s1" "rs_resource_success s' = rs_resource_success s1"
    "rs_metrics_success s' = rs_metrics_success s1"
    using Cons.prems(1,5-7) by auto
  then show ?case using it s1(1,3-6) unfolding upt by simp
qed

text \<open>Waiting changes neither the counters and checksums nor the instances of a stressor.\<close>

lemma kill_checksums: "rs_checksums (stress_stressors_kill sig f s) = rs_checksums s"
proof -
  have "rs_checksums (fold (kill_one sig) ks s) = rs_checksums s" for sig ks s
    by (induction ks arbitrary: s) (simp_all add: kill_one_def Let_def)
  then show ?thesis by (simp add: stress_stressors_kill_def Let_def)
qed

lemma kill_counts:
  "st_count (rs_stats (stress_stressors_kill sig f s) j) = st_count (rs_stats s j)"
  "st_completed (rs_stats (stress_stressors_kill sig f s) j) = st_completed (rs_stats s j)"
  "st_checksum (rs_stats (stress_stressors_kill sig f s) j) = st_checksum (rs_stats s j)"
  using kill_frame(6) [of sig f s j] by auto

definition shape :: "run_state \<Rightarrow> (nat list \<times> bool) list" where
  "shape s = map (\<lambda>it. (li_stats it, li_ignore_run it)) (rs_items s)"

lemma shape_count_status [simp]: "shape (count_status i c s) = shape s"
  by (cases "i < length (rs_items s)"; rule nth_equalityI)
    (auto simp: shape_def count_status_def Let_def nth_list_update)

lemma report_keeps:
  "metrics_sound little (upd_stats k (\<lambda>st. st\<lparr>st_reaped := True, st_wait_status := w\<rparr>) s) j = metrics_sound little s j"
  "shape (upd_stats k f s) = shape s"
  by (rule metrics_sound_cong; simp) (simp add: shape_def)

lemma wait_status_keeps:
  "metrics_sound little (stress_wait_status oomed ab k s) j = metrics_sound little s j
   \<and> shape (stress_wait_status oomed ab k s) = shape s"
proof (cases "st_reaped (rs_stats s k)")
  case True
  obtain code sg where w: "wait_exit_status oomed (st_pid (rs_stats s k)) (st_wait_status (rs_stats s k)) = (code, sg)"
    by fastforce
  obtain c a b d e where v: "exit_verdict code = Verdict c a b d e" by (cases "exit_verdict code")
  have shape: "shape (s\<lparr>rs_items := rs_items t\<rparr>) = shape t" for s t by (simp add: shape_def)
  have "metrics_sound little (stress_wait_status oomed ab k s) j = metrics_sound little s j"
    using True w v by (intro metrics_sound_cong)
      (simp_all add: stress_wait_status_def Let_def stress_stressor_finished_def count_status_def kill_counts kill_checksums)
  moreover have "rs_items (stress_wait_status oomed ab k s) = rs_items (count_status (st_item (rs_stats s k)) c s)"
    using True w v by (simp add: stress_wait_status_def Let_def stress_stressor_finished_def count_status_def kill_frame)
  ultimately show ?thesis
    using shape_count_status [of "st_item (rs_stats s k)" c s] by (simp add: shape_def)
qed (simp add: stress_wait_status_def)

lemma child_wait_keeps:
  "stress_child_wait oomed ab ev s = Some (b, s') \<Longrightarrow>
    metrics_sound little s' j = metrics_sound little s j \<and> shape s' = shape s"
  by (auto simp: stress_child_wait_def wait_status_keeps report_keeps split: option.splits prod.splits if_splits)

lemma wait_loop_keeps:
  "wait_loop oomed ab evs n s = Some s' \<Longrightarrow>
    metrics_sound little s' j = metrics_sound little s j \<and> shape s' = shape s"
  by (induction oomed ab evs n s rule: wait_loop.induct)
    (auto split: option.splits prod.splits dest: child_wait_keeps)


lemma checked_shape: "checked_stats s = concat (map fst (filter (\<lambda>(ks, ig). \<not> ig) (shape s)))"
  by (simp add: checked_stats_def shape_def filter_map o_def)

lemma metrics_check_passes:
  "list_all (metrics_sound little s) (checked_stats s) \<Longrightarrow> stress_metrics_check little False s = s"
  by (simp add: stress_metrics_check_def)

lemma child_run_rc:
  assumes "child_completes ch s" "\<not> force_killed (st_count (rs_stats s k))"
  shows "fst (stress_child_run little False ch k c s) = child_rc ch"
  using assms by (simp add: child_completes_def stress_child_run_def child_stress_def Let_def child_rc_def)

lemma started_well_init:
  "n > 0 \<Longrightarrow> started_well little (run_init its n) [] 0"
  by (simp add: started_well_def tracked_def live_def chained_def bucket_def run_init_def)

text \<open>What the exit statuses of the children say: failure, then missing resources, then bad metrics.\<close>

definition exit_of :: "int list \<Rightarrow> int" where
  "exit_of codes =
     (if list_ex code_fails codes then EXIT_NOT_SUCCESS
      else if list_ex (\<lambda>c. c = EXIT_NO_RESOURCE) codes then EXIT_NO_RESOURCE
      else if list_ex (\<lambda>c. c = EXIT_METRICS_UNTRUSTWORTHY) codes then EXIT_METRICS_UNTRUSTWORTHY
      else EXIT_SUCCESS)"

text \<open>Reports that name each child once, with the status its stressor earned, say what the children did.\<close>

lemma reports_of_children:
  assumes "distinct (map pid ks)" "mset (map fst es) = mset (map pid ks)"
    and "\<And>e. e \<in> set es \<Longrightarrow> \<exists>k \<in> set ks. e = (pid k, st k)"
  shows "list_all (\<lambda>e. \<not> P e) es = (\<not> list_ex (\<lambda>k. P (pid k, st k)) ks)"
proof -
  have fst_es: "fst ` set es = pid ` set ks"
    using mset_eq_setD [OF assms(2)] by (simp only: set_map)
  have inj: "inj_on pid (set ks)" using assms(1) by (simp add: distinct_map)
  have "set es = (\<lambda>k. (pid k, st k)) ` set ks"
  proof (intro equalityI subsetI)
    fix e assume "e \<in> (\<lambda>k. (pid k, st k)) ` set ks"
    then obtain k where k: "k \<in> set ks" "e = (pid k, st k)" by blast
    then obtain e' where e': "e' \<in> set es" "fst e' = pid k" using fst_es by (metis imageE imageI)
    then obtain j where j: "j \<in> set ks" "e' = (pid j, st j)" using assms(3) by blast
    then have "j = k" using e'(2) k(1) inj by (simp add: inj_on_def)
    then show "e \<in> set es" using e'(1) j(2) k(2) by simp
  qed (use assms(3) in blast)
  then show ?thesis by (simp add: list_all_iff list_ex_iff)
qed

lemma pending_all:
  assumes "list_all runnable (rs_items s)"
    and "\<And>k. k \<in> set (concat (map li_stats (rs_items s))) \<Longrightarrow> st_pid (rs_stats s k) > 0 \<and> \<not> st_reaped (rs_stats s k)"
  shows "pending [0..<length (rs_items s)] s = concat (map li_stats (rs_items s))"
proof -
  have "map (\<lambda>i. if runnable (rs_items s ! i) then li_stats (rs_items s ! i) else []) [0..<length (rs_items s)]
      = map li_stats (rs_items s)"
    using assms(1) by (intro nth_equalityI) (simp_all add: list_all_length)
  then show ?thesis using assms(2) by (simp add: pending_def)
qed

text \<open>
  C1: a parallel run whose forks succeed and whose children run to their end, each reported once
  by waitpid with the status its stressor earned, returns, passes the check of its metrics, and
  its exit status is determined by the stressors: a failure anywhere is the failure of the run.
\<close>

theorem parallel_run_exit:
  fixes its :: "stress_list_item list" and pid :: "nat \<Rightarrow> int" and ch :: "nat \<Rightarrow> child"
  defines "ks \<equiv> concat (map li_stats its)"
  assumes "\<And>k. k \<in> set ks \<Longrightarrow> re_spawn env k = calm_spawn (pid k) (ch k) \<and> pid k > 0 \<and> runs_through (ch k)"
    and "\<not> ro_dry_run opts" "list_all runnable its" "n > 0" "distinct ks" "distinct (map pid ks)"
    and "mset (map fst (reports (pid ` set ks) (re_waits env))) = mset (map pid ks)"
    and "\<And>e. e \<in> set (reports (pid ` set ks) (re_waits env)) \<Longrightarrow>
      \<exists>k \<in> set ks. e = (pid k, Exited (child_rc (ch k)))"
  shows "\<exists>s'. stress_parallel_run opts env (run_init its n) = Some s'
    \<and> main_exit EXIT_SUCCESS s' = exit_of (map (\<lambda>k. child_rc (ch k)) ks)"
proof -
  let ?s = "run_init its n"
  let ?es = "reports (pid ` set ks) (re_waits env)"
  have init: "started_well (ro_little opts) ?s (pids_of pid (rev [])) 0"
    using started_well_init [OF assms(5)] by (simp add: pids_of_def)
  have "rs_items ?s = [] @ its" by (simp add: run_init_def)
  from run_items_well [where env = env and pid = pid and ch = ch, OF assms(2) [unfolded ks_def] assms(3) init this assms(4)]
  obtain c s1 where s1: "run_items opts env [0..<length its] 0 ?s = Some (c, s1)"
    "started_well (ro_little opts) s1 (pids_of pid (rev ks)) c" "rs_items s1 = its"
    "rs_success s1" "rs_resource_success s1" "rs_metrics_success s1"
    using assms(6,7) by (auto simp: ks_def run_init_def)
  have adds: "tracked s1 (pids_of pid (rev ks))" "live s1 (pids_of pid (rev ks)) = pids_of pid (rev ks)"
    "\<And>k. k \<in> set ks \<Longrightarrow> \<not> st_reaped (rs_stats s1 k) \<and> metrics_sound (ro_little opts) s1 k"
    using s1(2) by (auto simp: started_well_def pids_of_def)
  have pids: "st_pid (rs_stats s1 k) > 0" if "k \<in> set ks" for k
  proof -
    have "(k, pid k) \<in> set (live s1 (pids_of pid (rev ks)))" using that adds(2) by (auto simp: pids_of_def)
    then show ?thesis using assms(2) [OF that] by (simp add: live_def)
  qed
  have pending: "pending [0..<length its] s1 = ks"
    using pending_all [of s1] assms(4) adds(3) pids by (simp add: s1(3) ks_def [symmetric])
  have set: "snd ` set (pids_of pid (rev ks)) = pid ` set ks" "map snd (pids_of pid (rev ks)) = map pid (rev ks)"
    "length (pids_of pid (rev ks)) = length ks"
    by (simp_all add: pids_of_def image_image o_def)
  have "mset (map fst (reports (snd ` set (live s1 (pids_of pid (rev ks)))) (re_waits env)))
      = mset (map snd (live s1 (pids_of pid (rev ks))))"
    unfolding adds(2) set using assms(8) by (simp flip: rev_map)
  from wait_loop_outcome [OF adds(1) this, of "ro_oomed opts" "ro_abort opts"]
  obtain s2 where s2: "wait_loop (ro_oomed opts) (ro_abort opts) (re_waits env) (length ks) s1 = Some s2"
    and flags: "rs_success s2 = list_all (\<lambda>e. \<not> status_fails (ro_oomed opts) e) ?es"
      "rs_resource_success s2 = list_all (\<lambda>e. status_code (ro_oomed opts) e \<noteq> EXIT_NO_RESOURCE) ?es"
      "rs_metrics_success s2 = list_all (\<lambda>e. status_code (ro_oomed opts) e \<noteq> EXIT_METRICS_UNTRUSTWORTHY) ?es"
    unfolding adds(2) set using s1(4-6) by (auto simp: Let_def)
  have "checked_stats s2 = ks"
    using wait_loop_keeps [OF s2, of "ro_little opts" 0] assms(4) unfolding checked_shape
    by (simp add: shape_def s1(3) ks_def filter_map o_def runnable_def list_all_iff cong: filter_cong)
  then have "stress_metrics_check (ro_little opts) False s2 = s2"
    using wait_loop_keeps [OF s2] adds(3) by (intro metrics_check_passes) (auto simp: list_all_iff)
  then have run: "stress_parallel_run opts env ?s = Some s2"
    using s1(1) s2 pending assms(3)
    by (simp add: stress_parallel_run_def stress_run_def stress_stressors_wait_def stress_wait_reap_count_def
        run_init_def [of its n])
  have all_es: "list_all (\<lambda>e. \<not> P e) ?es = (\<not> list_ex (\<lambda>k. P (pid k, Exited (child_rc (ch k)))) ks)" for P
    using reports_of_children [OF assms(7,8,9)] by simp
  have exited: "status_fails (ro_oomed opts) (p, Exited c) = code_fails c" "status_code (ro_oomed opts) (p, Exited c) = c" for p c
    by (simp_all add: status_fails_def status_code_def wait_exit_status_def)
  have "main_exit EXIT_SUCCESS s2 = exit_of (map (\<lambda>k. child_rc (ch k)) ks)"
    unfolding main_exit_def flags all_es exited exit_of_def by (simp only: list_ex_iff set_map bex_simps ball_simps not_not)
  then show ?thesis using run by blast
qed


text \<open>Two stressors, the second of which finds an error.\<close>

theorem parallel_run_exit_witness:
  "\<exists>s'. stress_parallel_run \<lparr>ro_oomed = (\<lambda>_. False), ro_little = True, ro_abort = False, ro_dry_run = False\<rparr>
      \<lparr>re_spawn = (\<lambda>k. calm_spawn (100 + int k) (good_child\<lparr>ch_rc := if k = 1 then EXIT_NOT_SUCCESS else EXIT_SUCCESS\<rparr>)),
       re_waits = [Some (101, Exited 2), None, Some (100, Exited 0)]\<rparr>
      (run_init [new_item [0], new_item [1]] 7) = Some s' \<and> main_exit EXIT_SUCCESS s' = EXIT_NOT_SUCCESS"
proof -
  let ?ch = "\<lambda>k :: nat. good_child\<lparr>ch_rc := if k = 1 then EXIT_NOT_SUCCESS else EXIT_SUCCESS\<rparr>"
  let ?opts = "\<lparr>ro_oomed = (\<lambda>_. False), ro_little = True, ro_abort = False, ro_dry_run = False\<rparr>"
  let ?env = "\<lparr>re_spawn = (\<lambda>k. calm_spawn (100 + int k) (?ch k)),
       re_waits = [Some (101, Exited 2), None, Some (100, Exited 0)]\<rparr>"
  have rc: "child_rc (good_child\<lparr>ch_rc := EXIT_SUCCESS\<rparr>) = 0" "child_rc (good_child\<lparr>ch_rc := EXIT_NOT_SUCCESS\<rparr>) = 2"
    by (simp_all add: child_rc_def good_child_def stressor_result_def pr_fail_check_def ABORT_FAILURES_def exit_defs)
  have runs: "runs_through (good_child\<lparr>ch_rc := x\<rparr>)" for x by (simp add: runs_through_def good_child_def)
  have "\<exists>s'. stress_parallel_run ?opts ?env (run_init [new_item [0], new_item [1]] 7) = Some s'
      \<and> main_exit EXIT_SUCCESS s' = exit_of (map (\<lambda>k. child_rc (?ch k)) (concat (map li_stats [new_item [0], new_item [1]])))"
    by (rule parallel_run_exit [where pid = "\<lambda>k. 100 + int k"])
      (auto simp: new_item_def runs runnable_def rc)
  then show ?thesis using rc by (simp add: new_item_def exit_of_def code_fails_def exit_defs)
qed

section \<open>Permutations\<close>

text \<open>How many stressors before the \<open>i\<close>th can run.\<close>

definition rank :: "stress_list_item list \<Rightarrow> nat \<Rightarrow> nat" where
  "rank its i = length (filter (\<lambda>it. \<not> li_ignore_run it) (take i its))"

definition can_run :: "stress_list_item list \<Rightarrow> nat set" where
  "can_run its = {i. i < length its \<and> \<not> li_ignore_run (its ! i)}"

lemma rank_image: "rank its ` can_run its = {..<length (filter (\<lambda>it. \<not> li_ignore_run it) its)}"
proof (induction its rule: rev_induct)
  case Nil
  then show ?case by (simp add: can_run_def)
next
  case (snoc it its)
  have "rank (its @ [it]) i = rank its i" if "i \<le> length its" for i using that by (simp add: rank_def)
  moreover have "can_run (its @ [it]) = can_run its \<union> (if li_ignore_run it then {} else {length its})"
    by (auto simp: can_run_def nth_append less_Suc_eq)
  ultimately show ?case
    using snoc by (auto simp: can_run_def rank_def lessThan_Suc image_Un cong: image_cong_simp)
qed

lemma rank_inj: "inj_on (rank its) (can_run its)"
proof (rule eq_card_imp_inj_on)
  show "finite (can_run its)" by (simp add: can_run_def)
  show "card (rank its ` can_run its) = card (can_run its)"
    unfolding rank_image by (simp add: can_run_def length_filter_conv_card)
qed

lemma permute_ignore_nth:
  assumes "i < length its"
  shows "li_ignore_run (permute_ignore n j its ! i) = li_ignore_run (its ! i)
    \<and> (\<not> li_ignore_run (its ! i) \<longrightarrow> li_ignore_permute (permute_ignore n j its ! i) =
      (if j + rank its i < STRESS_MAX_PERMUTATIONS then \<not> bit n (j + rank its i) else li_ignore_permute (its ! i)))"
  using assms
proof (induction its arbitrary: i j)
  case (Cons it its)
  show ?case
  proof (cases i)
    case 0
    then show ?thesis by (simp add: rank_def)
  next
    case (Suc i')
    have rank: "rank (it # its) i = (if li_ignore_run it then rank its i' else Suc (rank its i'))"
      by (simp add: rank_def Suc)
    show ?thesis
      using Cons.IH [of i' j] Cons.IH [of i' "Suc j"] Cons.prems by (simp add: rank) (simp add: Suc)
  qed
qed simp

lemma permute_ignore_length [simp]: "length (permute_ignore n j its) = length its"
  by (induction its arbitrary: j) simp_all

lemma runnable_permuted:
  assumes "list_all li_ignore_permute its"
  shows "{i. i < length its \<and> runnable (permute_ignore n 0 its ! i)}
    = {i \<in> can_run its. rank its i < STRESS_MAX_PERMUTATIONS \<and> bit n (rank its i)}"
  using assms by (auto simp: runnable_def can_run_def permute_ignore_nth list_all_length split: if_splits)

lemma set_decode_bit: "set_decode n = {i. bit n i}"
  by (auto simp: set_decode_def bit_iff_odd)

lemma bit_below: "n < 2 ^ m \<Longrightarrow> bit n i \<Longrightarrow> i < m" for n :: nat
proof (rule ccontr)
  assume "n < 2 ^ m" "bit n i" "\<not> i < m"
  then have "n < 2 ^ i" using less_le_trans [OF _ power_increasing, of n 2 m i] by simp
  then show False using \<open>bit n i\<close> by (simp add: bit_iff_odd)
qed

text \<open>The numbers of the permutations are the non-empty sets of stressors, by their bits.\<close>

lemma permute_bijection:
  fixes items :: "stress_list_item list"
  defines "its \<equiv> map (\<lambda>it. it\<lparr>li_ignore_permute := True\<rparr>) items"
  shows "bij_betw (\<lambda>n. {i. i < length its \<and> runnable (permute_ignore n 0 its ! i)}) {1..num_perms its}
      {A. A \<noteq> {} \<and> A \<subseteq> {i \<in> can_run its. rank its i < STRESS_MAX_PERMUTATIONS}}
    \<and> permute_ignore n 0 (permute_ignore m 0 its) = permute_ignore n 0 its"
proof
  let ?C = "{i \<in> can_run its. rank its i < STRESS_MAX_PERMUTATIONS}"
  let ?m = "min (length (filter (\<lambda>it. \<not> li_ignore_run it) its)) STRESS_MAX_PERMUTATIONS"
  have all: "list_all li_ignore_permute its" by (simp add: its_def list_all_iff)
  have C: "rank its ` ?C = {..<?m}"
  proof -
    have "rank its ` ?C = rank its ` can_run its \<inter> {..<STRESS_MAX_PERMUTATIONS}" by auto
    then show ?thesis unfolding rank_image by auto
  qed
  have inj: "inj_on (rank its) ?C" by (rule inj_on_subset [OF rank_inj]) auto
  have fin: "finite ?C" by (simp add: can_run_def)
  have N: "n \<in> {1..num_perms its} \<longleftrightarrow> n \<noteq> 0 \<and> n < 2 ^ ?m" for n
    using one_le_power [of "2 :: nat" ?m] by (auto simp: num_perms_def)
  show "bij_betw (\<lambda>n. {i. i < length its \<and> runnable (permute_ignore n 0 its ! i)}) {1..num_perms its}
      {A. A \<noteq> {} \<and> A \<subseteq> ?C}"
    unfolding runnable_permuted [OF all]
  proof (rule bij_betwI [where g = "\<lambda>A. set_encode (rank its ` A)"])
    have img: "rank its ` {i \<in> can_run its. rank its i < STRESS_MAX_PERMUTATIONS \<and> bit n (rank its i)} = set_decode n"
      if "n \<in> {1..num_perms its}" for n
    proof -
      have "rank its ` {i \<in> can_run its. rank its i < STRESS_MAX_PERMUTATIONS \<and> bit n (rank its i)}
          = rank its ` ?C \<inter> {i. bit n i}" by auto
      also have "{i. bit n i} \<subseteq> {..<?m}"
        using that bit_below [of n ?m] unfolding N subset_iff lessThan_iff mem_Collect_eq by blast
      then have "rank its ` ?C \<inter> {i. bit n i} = {i. bit n i}" unfolding C by (rule Int_absorb1)
      finally show ?thesis by (simp add: set_decode_bit)
    qed
    have ne: "set_decode n \<noteq> {}" if "n \<noteq> 0" for n
      using that set_encode_inverse set_decode_inverse by (metis set_encode_empty)
    show "(\<lambda>n. {i \<in> can_run its. rank its i < STRESS_MAX_PERMUTATIONS \<and> bit n (rank its i)})
        \<in> {1..num_perms its} \<rightarrow> {A. A \<noteq> {} \<and> A \<subseteq> ?C}"
    proof (rule Pi_I)
      fix n assume n: "n \<in> {1..num_perms its}"
      have "{i \<in> can_run its. rank its i < STRESS_MAX_PERMUTATIONS \<and> bit n (rank its i)} \<noteq> {}"
        using img [OF n] ne [of n] N n by (metis image_empty)
      then show "{i \<in> can_run its. rank its i < STRESS_MAX_PERMUTATIONS \<and> bit n (rank its i)} \<in> {A. A \<noteq> {} \<and> A \<subseteq> ?C}"
        by auto
    qed
    show "set_encode (rank its ` {i \<in> can_run its. rank its i < STRESS_MAX_PERMUTATIONS \<and> bit n (rank its i)}) = n"
      if "n \<in> {1..num_perms its}" for n
      unfolding img [OF that] by (rule set_decode_inverse)
    have dec: "set_decode (set_encode (rank its ` A)) = rank its ` A" if "A \<subseteq> ?C" for A
      using finite_subset [OF that fin] by (simp add: set_encode_inverse)
    show "{i \<in> can_run its. rank its i < STRESS_MAX_PERMUTATIONS \<and> bit (set_encode (rank its ` A)) (rank its i)} = A"
      if "A \<in> {A. A \<noteq> {} \<and> A \<subseteq> ?C}" for A
    proof -
      have "{i. bit (set_encode (rank its ` A)) i} = rank its ` A"
        using dec [of A] that by (simp only: set_decode_bit mem_Collect_eq)
      then have b: "bit (set_encode (rank its ` A)) r = (r \<in> rank its ` A)" for r by (metis mem_Collect_eq)
      have "{i \<in> can_run its. rank its i < STRESS_MAX_PERMUTATIONS \<and> bit (set_encode (rank its ` A)) (rank its i)}
          = {i \<in> ?C. rank its i \<in> rank its ` A}"
        unfolding b by blast
      also have "\<dots> = A"
      proof -
        have "A \<subseteq> ?C" using that by simp
        then show ?thesis using inj_onD [OF inj] by (intro equalityI subsetI) blast+
      qed
      finally show ?thesis .
    qed
    show "(\<lambda>A. set_encode (rank its ` A)) \<in> {A. A \<noteq> {} \<and> A \<subseteq> ?C} \<rightarrow> {1..num_perms its}"
    proof (rule Pi_I)
      fix A assume A: "A \<in> {A. A \<noteq> {} \<and> A \<subseteq> ?C}"
      have "rank its ` A \<subseteq> {0..<?m}" using C A by (auto simp: atLeast0LessThan)
      then have "set_encode (rank its ` A) \<le> (\<Sum>i = 0..<?m. 2 ^ i)"
        unfolding set_encode_def by (intro sum_mono2) auto
      also have "\<dots> = 2 ^ ?m - 1" by (rule sum_power2)
      finally have "set_encode (rank its ` A) < 2 ^ ?m"
        using zero_less_power [of "2 :: nat" ?m] by linarith
      moreover have "set_encode (rank its ` A) \<noteq> 0" using dec [of A] A by (metis (mono_tags) empty_is_image mem_Collect_eq set_decode_zero)
      ultimately show "set_encode (rank its ` A) \<in> {1..num_perms its}" unfolding N by simp
    qed
  qed
  show "permute_ignore n 0 (permute_ignore m 0 its) = permute_ignore n 0 its"
  proof -
    have "permute_ignore n j (permute_ignore m j xs) = permute_ignore n j xs" for j and xs :: "stress_list_item list"
      by (induction xs arbitrary: j) simp_all
    then show ?thesis by simp
  qed
qed

text \<open>
  C31: the permuted run goes through every non-empty set of the first twenty stressors that can
  run, each exactly once, whatever the permutation before it.
\<close>

theorem permute_enumerates:
  "let its = map (\<lambda>it. it\<lparr>li_ignore_permute := True\<rparr>) items
   in bij_betw (\<lambda>n. {i. i < length its \<and> runnable (permute_ignore n 0 its ! i)}) {1..num_perms its}
        {A. A \<noteq> {} \<and> A \<subseteq> {i \<in> can_run its. rank its i < STRESS_MAX_PERMUTATIONS}}
      \<and> permute_ignore n 0 (permute_ignore m 0 its) = permute_ignore n 0 its"
  unfolding Let_def by (rule permute_bijection)

end
