(* ===== verification/Vm_Memory.thy ===== *)
theory Vm_Memory
  imports Mwc
begin

text \<open>
  The memory that the \<open>vm\<close> stressor (src/stress-vm.c) tests.  The hardware is a parameter: a read
  and a write of one byte on a memory of any type.  Wider accesses are made of byte accesses, from
  the least significant byte up.  The locale \<open>sound_memory\<close> is the contract of memory that works;
  \<open>plain_memory\<close> meets it, \<open>stuck_memory\<close> is memory with bits that do not change and
  \<open>aliased_memory\<close> is memory with address lines that do not work.
\<close>

section \<open>Hardware\<close>

record 'm hw =
  hw_read :: "'m \<Rightarrow> nat \<Rightarrow> u8"
  hw_write :: "nat \<Rightarrow> u8 \<Rightarrow> 'm \<Rightarrow> 'm"

type_synonym cells = "nat \<Rightarrow> u8"

definition plain_memory :: "cells hw" where
  "plain_memory = \<lparr>hw_read = (\<lambda>m i. m i), hw_write = (\<lambda>i v m. m(i := v))\<rparr>"

text \<open>The bits \<open>hi i\<close> of byte \<open>i\<close> read as one and the bits \<open>lo i\<close> as zero, whatever is written.\<close>

definition stuck_memory :: "(nat \<Rightarrow> u8) \<Rightarrow> (nat \<Rightarrow> u8) \<Rightarrow> cells hw" where
  "stuck_memory hi lo =
     \<lparr>hw_read = (\<lambda>m i. (m i OR hi i) AND NOT (lo i)), hw_write = (\<lambda>i v m. m(i := v))\<rparr>"

text \<open>The address \<open>i\<close> selects the cell \<open>sel i\<close>.\<close>

definition aliased_memory :: "(nat \<Rightarrow> nat) \<Rightarrow> cells hw" where
  "aliased_memory sel = \<lparr>hw_read = (\<lambda>m i. m (sel i)), hw_write = (\<lambda>i v m. m(sel i := v))\<rparr>"

section \<open>Words in memory\<close>

primrec bytes_word :: "u8 list \<Rightarrow> 'w::len word" where
  "bytes_word [] = 0"
| "bytes_word (b # bs) = ucast b OR push_bit 8 (bytes_word bs)"

primrec word_bytes :: "nat \<Rightarrow> 'w::len word \<Rightarrow> u8 list" where
  "word_bytes 0 w = []"
| "word_bytes (Suc k) w = ucast w # word_bytes k (drop_bit 8 w)"

definition load :: "'m hw \<Rightarrow> 'm \<Rightarrow> nat \<Rightarrow> 'w::len word" where
  "load hw m i = bytes_word (map (\<lambda>j. hw_read hw m (i + j)) [0..<LENGTH('w) div 8])"

primrec write_bytes :: "'m hw \<Rightarrow> nat \<Rightarrow> u8 list \<Rightarrow> 'm \<Rightarrow> 'm" where
  "write_bytes hw i [] m = m"
| "write_bytes hw i (b # bs) m = write_bytes hw (Suc i) bs (hw_write hw i b m)"

definition store :: "'m hw \<Rightarrow> nat \<Rightarrow> 'w::len word \<Rightarrow> 'm \<Rightarrow> 'm" where
  "store hw i v = write_bytes hw i (word_bytes (LENGTH('w) div 8) v)"

lemma length_word_bytes [simp]: "length (word_bytes k w) = k"
  by (induction k arbitrary: w) simp_all

lemma bytes_word_bytes: "bytes_word (word_bytes k w) = take_bit (8 * k) w"
proof (induction k arbitrary: w)
  case (Suc k)
  have "ucast (ucast w :: u8) OR push_bit 8 (take_bit (8 * k) (drop_bit 8 w)) = take_bit (8 * Suc k) w"
    by (rule bit_word_eqI) (auto simp: bit_simps)
  then show ?case by (simp add: Suc)
qed simp

lemma bytes_word_id: "8 dvd LENGTH('w) \<Longrightarrow> bytes_word (word_bytes (LENGTH('w) div 8) w) = (w :: 'w::len word)"
  by (simp add: bytes_word_bytes)

lemma bit_bytes_word:
  "bit (bytes_word bs :: 'w::len word) i \<longleftrightarrow> i < LENGTH('w) \<and> i < 8 * length bs \<and> bit (bs ! (i div 8)) (i mod 8)"
proof (induction bs arbitrary: i)
  case (Cons b bs)
  show ?case
  proof (cases "i < 8")
    case True
    then show ?thesis by (auto simp: bit_simps)
  next
    case False
    then have "i div 8 = Suc ((i - 8) div 8)" "i mod 8 = (i - 8) mod 8"
      by (simp_all add: le_div_geq le_mod_geq)
    moreover have "\<not> bit b i" using False by (auto dest: bit_imp_le_length)
    moreover have "i < 8 * length (b # bs) \<longleftrightarrow> i - 8 < 8 * length bs" using False by auto
    ultimately show ?thesis
      using False Cons.IH [of "i - 8"] by (simp add: bit_or_iff bit_push_bit_iff bit_ucast_iff) linarith
  qed
qed simp

text \<open>The bytes of memory, \<open>n\<close> of them from the start: what the buffer holds.\<close>

definition contents :: "'m hw \<Rightarrow> nat \<Rightarrow> 'm \<Rightarrow> u8 list" where
  "contents hw n m = map (hw_read hw m) [0..<n]"

section \<open>Memory that works\<close>

text \<open>
  A byte read back is the last byte written there, for addresses below \<open>n\<close>: an access outside the
  buffer promises nothing.
\<close>

locale sound_memory =
  fixes hw :: "'m hw" and n :: nat
  assumes read_write: "i < n \<Longrightarrow> j < n \<Longrightarrow>
    hw_read hw (hw_write hw i v m) j = (if j = i then v else hw_read hw m j)"
begin

lemma read_write_bytes:
  "i + length bs \<le> n \<Longrightarrow> j < n \<Longrightarrow>
    hw_read hw (write_bytes hw i bs m) j = (if i \<le> j \<and> j < i + length bs then bs ! (j - i) else hw_read hw m j)"
proof (induction bs arbitrary: i m)
  case (Cons b bs)
  then show ?case by (auto simp: read_write nth_Cons' Suc_diff_le)
qed auto

lemma load_store_same:
  assumes "8 dvd LENGTH('w)" "i + LENGTH('w) div 8 \<le> n"
  shows "load hw (store hw i v m) i = (v :: 'w::len word)"
proof -
  have "map (\<lambda>j. hw_read hw (store hw i v m) (i + j)) [0..<LENGTH('w) div 8] = word_bytes (LENGTH('w) div 8) v"
    using assms(2) by (intro nth_equalityI) (simp_all add: store_def read_write_bytes)
  then show ?thesis by (simp add: load_def bytes_word_id assms(1))
qed

lemma load_store_other:
  assumes "i + LENGTH('w) div 8 \<le> n" "j + LENGTH('v) div 8 \<le> n"
    and "i + LENGTH('w) div 8 \<le> j \<or> j + LENGTH('v) div 8 \<le> i"
  shows "load hw (store hw i (v :: 'w::len word) m) j = (load hw m j :: 'v::len word)"
proof -
  have "hw_read hw (store hw i v m) (j + l) = hw_read hw m (j + l)" if "l < LENGTH('v) div 8" for l
    using that assms by (auto simp: store_def read_write_bytes)
  then show ?thesis unfolding load_def by (intro arg_cong [of _ _ bytes_word] map_cong) simp_all
qed

lemma contents_write:
  "i < n \<Longrightarrow> contents hw n (hw_write hw i v m) = (contents hw n m)[i := v]"
  by (intro nth_equalityI) (simp_all add: contents_def read_write nth_list_update)

end

interpretation plain: sound_memory plain_memory n
  by unfold_locales (simp add: plain_memory_def)

lemma load_byte [simp]: "(load hw m i :: u8) = hw_read hw m i"
  by (simp add: load_def)

lemma store_byte [simp]: "store hw i (v :: u8) m = hw_write hw i v m"
  by (simp add: store_def)

end
