(* ===== verification/Vm_Loops.thy ===== *)
theory Vm_Loops
  imports Vm_Memory Bitgen Prime
begin

text \<open>
  The state the methods of the \<open>vm\<close> stressor (src/stress-vm.c) run on and the shape they share: a
  loop that moves a pointer through the buffer, stores or checks some words at each place and asks
  whether to stop.  The lemmas say what a pass of stores leaves in memory that works and what a
  pass of checks counts, so that each method only has to name the words of its passes.
\<close>

section \<open>State\<close>

text \<open>The static variables of the methods; they live as long as the process.\<close>

record vm_statics =
  gray_val :: u8
  grayflip_val :: u8
  incdec_val :: u8
  prime_incdec_val :: u8
  inc_nybble_val :: u8
  flush_offset :: nat
  prime_zero_offset :: nat
  prime_one_offset :: nat
  prime_gray_zero_offset :: nat
  prime_gray_one_offset :: nat
  cache_lines_offset :: nat
  write64_val :: u64
  rowhammer_val :: u32
  vm_all_i :: nat

definition vm_statics_init :: vm_statics where
  "vm_statics_init = \<lparr>gray_val = 0, grayflip_val = 0, incdec_val = 0, prime_incdec_val = 0, inc_nybble_val = 0,
     flush_offset = 0, prime_zero_offset = 0, prime_one_offset = 0, prime_gray_zero_offset = 0,
     prime_gray_one_offset = 0, cache_lines_offset = 0, write64_val = 0, rowhammer_val = 0xff5a00a5, vm_all_i = 1\<rparr>"

text \<open>
  \<open>vm_bogo\<close> is the shared counter of bogo operations; \<open>vm_c\<close> and \<open>vm_errs\<close> are the local variables
  \<open>c\<close> and \<open>bit_errors\<close>; \<open>vm_reads\<close> counts the reads of the continue flag and \<open>vm_fails\<close> the messages
  of \<open>pr_fail\<close>.
\<close>

record 'm vm =
  vm_mem :: 'm
  vm_mwc :: mwc
  vm_bogo :: u64
  vm_c :: u64
  vm_errs :: nat
  vm_reads :: nat
  vm_fails :: nat
  vm_static :: vm_statics

text \<open>
  \<open>stress_vm_info_t\<close> and what the methods read of the program: the hardware, the value of the
  continue flag at each read, whether the program is built with \<open>INJECT_BIT_ERRORS\<close>, the seed, the cache line size, what
  the prime search and the pattern generator use, and whether \<open>calloc\<close> succeeds.
  The non-temporal stores, the memory barriers, the cache flushes and the touching of pages store
  the same values; \<open>vi_nt\<close> is kept where the branches differ in more than that.
\<close>

record 'm vm_info =
  vi_hw :: "'m hw"
  vi_base :: u64
  vi_sz :: nat
  vi_max_ops :: u64
  vi_nt :: bool
  vi_verify :: bool
  vi_cont :: "nat \<Rightarrow> bool"
  vi_inject :: bool
  vi_reseed :: "mwc \<Rightarrow> mwc"
  vi_line :: nat
  vi_page :: u64
  vi_calloc :: bool
  vi_isqrt :: "u64 \<Rightarrow> u64"
  vi_prime_reads :: nat
  vi_knobs :: bitgen_knobs
  vi_bg :: stress_bitgen

section \<open>Steps\<close>

definition vm_enter :: "'m vm \<Rightarrow> 'm vm" where
  "vm_enter s = s\<lparr>vm_c := vm_bogo s, vm_errs := 0\<rparr>"

text \<open>\<open>info->max_ops \<and> (c \<ge> info->max_ops)\<close> and \<open>!stress_continue_flag()\<close>.\<close>

definition vm_full :: "'m vm_info \<Rightarrow> 'm vm \<Rightarrow> bool" where
  "vm_full info s = (vi_max_ops info \<noteq> 0 \<and> vm_c s \<ge> vi_max_ops info)"

definition vm_halt :: "'m vm_info \<Rightarrow> 'm vm \<Rightarrow> bool \<times> 'm vm" where
  "vm_halt info s = (\<not> vi_cont info (vm_reads s), s\<lparr>vm_reads := vm_reads s + 1\<rparr>)"

text \<open>The two tests in the order most loops have them; the flag is not read when the first one stops.\<close>

definition vm_done :: "'m vm_info \<Rightarrow> 'm vm \<Rightarrow> bool \<times> 'm vm" where
  "vm_done info s = (if vm_full info s then (True, s) else vm_halt info s)"

definition vm_count :: "u64 \<Rightarrow> 'm vm \<Rightarrow> 'm vm" where
  "vm_count k s = s\<lparr>vm_c := vm_c s + k\<rparr>"

text \<open>Stores and checks of one body, in order: the address relative to the buffer and the value.\<close>

definition store_all :: "'m hw \<Rightarrow> (nat \<times> 'w::len word) list \<Rightarrow> 'm \<Rightarrow> 'm" where
  "store_all hw ps m = fold (\<lambda>(i, v). store hw i v) ps m"

text \<open>
  How much a word counts that was expected to be \<open>v\<close> and reads as \<open>x\<close>: one when it differs, or the
  number of bits that differ.
\<close>

definition differ :: "'w::len word \<Rightarrow> 'w word \<Rightarrow> nat" where
  "differ x v = (if x \<noteq> v then 1 else 0)"

definition stress_vm_count_bits8 :: "u8 \<Rightarrow> nat" where
  "stress_vm_count_bits8 v = bitcount (unat v)"

definition stress_vm_count_bits :: "'w::len word \<Rightarrow> nat" where
  "stress_vm_count_bits v = bitcount (unat v)"

definition bits_differ :: "'w::len word \<Rightarrow> 'w word \<Rightarrow> nat" where
  "bits_differ x v = stress_vm_count_bits (x XOR v)"

definition errors :: "('w::len word \<Rightarrow> 'w word \<Rightarrow> nat) \<Rightarrow> 'm hw \<Rightarrow> (nat \<times> 'w word) list \<Rightarrow> 'm \<Rightarrow> nat" where
  "errors wt hw ps m = sum_list (map (\<lambda>(i, v). wt (load hw m i) v) ps)"

definition puts :: "'m vm_info \<Rightarrow> (nat \<times> 'w::len word) list \<Rightarrow> 'm vm \<Rightarrow> 'm vm" where
  "puts info ps s = s\<lparr>vm_mem := store_all (vi_hw info) ps (vm_mem s)\<rparr>"

definition checks ::
    "'m vm_info \<Rightarrow> ('w::len word \<Rightarrow> 'w word \<Rightarrow> nat) \<Rightarrow> (nat \<times> 'w word) list \<Rightarrow> 'm vm \<Rightarrow> 'm vm" where
  "checks info wt ps s = s\<lparr>vm_errs := vm_errs s + errors wt (vi_hw info) ps (vm_mem s)\<rparr>"

text \<open>\<open>SET_AND_TEST\<close>.\<close>

definition SET_AND_TEST :: "'m vm_info \<Rightarrow> nat \<Rightarrow> u8 \<Rightarrow> 'm vm \<Rightarrow> 'm vm" where
  "SET_AND_TEST info i v s = checks info differ [(i, v)] (puts info [(i, v)] s)"

text \<open>A read, a change and a write of one byte: \<open>*ptr = f(*ptr)\<close>.\<close>

definition change :: "'m vm_info \<Rightarrow> (u8 \<Rightarrow> u8) \<Rightarrow> nat \<Rightarrow> 'm vm \<Rightarrow> 'm vm" where
  "change info f i s = s\<lparr>vm_mem := hw_write (vi_hw info) i (f (hw_read (vi_hw info) (vm_mem s) i)) (vm_mem s)\<rparr>"

definition vm_memset :: "'m vm_info \<Rightarrow> u8 \<Rightarrow> 'm vm \<Rightarrow> 'm vm" where
  "vm_memset info v s = puts info (map (\<lambda>i. (i, v)) [0..<vi_sz info]) s"

definition stress_vm_check :: "'m vm_info \<Rightarrow> 'm vm \<Rightarrow> 'm vm" where
  "stress_vm_check info s = (if vm_errs s \<noteq> 0 \<and> vi_verify info then s\<lparr>vm_fails := vm_fails s + 1\<rparr> else s)"

text \<open>The ends of a method: with and without the report of the errors.\<close>

definition vm_abort :: "'m vm \<Rightarrow> nat \<times> 'm vm" where
  "vm_abort s = (vm_errs s, s\<lparr>vm_bogo := vm_c s\<rparr>)"

definition vm_finish :: "'m vm_info \<Rightarrow> 'm vm \<Rightarrow> nat \<times> 'm vm" where
  "vm_finish info s = vm_abort (stress_vm_check info s)"

text \<open>The generator is drawn from in the middle of the loops.\<close>

definition with_mwc :: "(mwc \<Rightarrow> 'v \<times> mwc) \<Rightarrow> 'm vm \<Rightarrow> 'v \<times> 'm vm" where
  "with_mwc draw s = (let (v, m) = draw (vm_mwc s) in (v, s\<lparr>vm_mwc := m\<rparr>))"

text \<open>
  The errors of a program that is built with \<open>INJECT_BIT_ERRORS\<close>: masks of one, two and three bits at
  every place of a byte, each of which flips, sets and clears its bits in a random byte of the buffer.
\<close>

definition inject_masks :: "u8 list" where
  "inject_masks = map (\<lambda>i. push_bit i 1) [0..<8] @ map (\<lambda>i. push_bit i 3) [0..<7] @ map (\<lambda>i. push_bit i 7) [0..<6]"

definition inject_change :: "'m vm_info \<Rightarrow> (u8 \<Rightarrow> u8) \<Rightarrow> 'm vm \<Rightarrow> 'm vm" where
  "inject_change info f s =
     (let (offset, s) = with_mwc (stress_mwc64modn (of_nat (vi_sz info))) s in change info f (unat offset) s)"

definition inject_mask :: "'m vm_info \<Rightarrow> u8 \<Rightarrow> 'm vm \<Rightarrow> 'm vm" where
  "inject_mask info b s =
     inject_change info (\<lambda>x. x AND NOT b) (inject_change info (\<lambda>x. x OR b) (inject_change info (\<lambda>x. x XOR b) s))"

definition inject_random_bit_errors :: "'m vm_info \<Rightarrow> 'm vm \<Rightarrow> 'm vm" where
  "inject_random_bit_errors info s = (if vi_inject info then fold (inject_mask info) inject_masks s else s)"

definition vm_seed :: "u32 \<Rightarrow> u32 \<Rightarrow> 'm vm \<Rightarrow> 'm vm" where
  "vm_seed w z s = s\<lparr>vm_mwc := stress_mwc_seed_set w z (vm_mwc s)\<rparr>"

text \<open>\<open>stress_mwc_reseed\<close> and the two draws that pick a seed to return to.\<close>

definition vm_reseed :: "'m vm_info \<Rightarrow> 'm vm \<Rightarrow> u32 \<times> u32 \<times> 'm vm" where
  "vm_reseed info s =
     (let s = s\<lparr>vm_mwc := vi_reseed info (vm_mwc s)\<rparr>; (w, s) = with_mwc stress_mwc32 s; (z, s) = with_mwc stress_mwc32 s
      in (w, z, s))"

text \<open>
  \<open>for (ptr = buf + i; ptr < buf_end; ptr += step)\<close>; the body says whether the loop is left.
\<close>

function vm_for :: "nat \<Rightarrow> nat \<Rightarrow> (nat \<Rightarrow> 's \<Rightarrow> bool \<times> 's) \<Rightarrow> nat \<Rightarrow> 's \<Rightarrow> bool \<times> 's" where
  "vm_for step n body i s =
     (if i < n \<and> 0 < step
      then case body i s of (True, s) \<Rightarrow> (True, s) | (False, s) \<Rightarrow> vm_for step n body (i + step) s
      else (False, s))"
  by pat_completeness auto
termination
  by (relation "measure (\<lambda>(step, n, body, i, s). n - i)") auto

declare vm_for.simps [simp del]

text \<open>The loop of a method that keeps no variable of its own.\<close>

definition vm_each :: "nat \<Rightarrow> nat \<Rightarrow> (nat \<Rightarrow> 'm vm \<Rightarrow> bool \<times> 'm vm) \<Rightarrow> nat \<Rightarrow> 'm vm \<Rightarrow> bool \<times> 'm vm" where
  "vm_each step n body i s =
     (let (b, _, s) = vm_for step n (\<lambda>i (u, s). let (b, s) = body i s in (b, u, s)) i ((), s) in (b, s))"

section \<open>Loops\<close>

text \<open>What holds before each turn holds at the end, and what a turn that leaves the loop promises too.\<close>

lemma vm_for_inv:
  assumes "0 < step" "\<And>i s. I i s \<Longrightarrow> i < n \<Longrightarrow>
      case body i s of (b, t) \<Rightarrow> if b then Q t else I (i + step) t"
    and "I i s"
  shows "case vm_for step n body i s of (b, t) \<Rightarrow> if b then Q t else \<exists>j. n \<le> j \<and> I j t"
  using assms(3)
proof (induction "n - i" arbitrary: i s rule: less_induct)
  case less
  show ?case
  proof (cases "i < n")
    case True
    then have *: "case body i s of (b, t) \<Rightarrow> if b then Q t else I (i + step) t"
      by (rule assms(2) [OF less.prems])
    obtain b t where bt: "body i s = (b, t)" by fastforce
    show ?thesis
    proof (cases b)
      case True
      then show ?thesis using bt * \<open>i < n\<close> assms(1) by (simp add: vm_for.simps)
    next
      case False
      then have "I (i + step) t" using * bt by simp
      then have "case vm_for step n body (i + step) t of (b, t) \<Rightarrow> if b then Q t else \<exists>j. n \<le> j \<and> I j t"
        using assms(1) True by (intro less.hyps) simp_all
      then show ?thesis using bt False True assms(1) by (subst vm_for.simps) simp
    qed
  qed (use less.prems in \<open>auto simp: vm_for.simps intro: exI [of _ i]\<close>)
qed

text \<open>The turns are counted: the loop from \<open>i\<close> makes \<open>turns step n i\<close> of them unless it is left.\<close>

definition turns :: "nat \<Rightarrow> nat \<Rightarrow> nat \<Rightarrow> nat" where
  "turns step n i = (n - i + step - 1) div step"

lemma turns_unit [simp]: "turns (Suc 0) n i = n - i"
  by (simp add: turns_def)

lemma turns_less: "0 < step \<Longrightarrow> q < turns step n i \<longleftrightarrow> i + q * step < n"
proof -
  assume "0 < step"
  then have "q < turns step n i \<longleftrightarrow> Suc q * step \<le> n - i + step - 1"
    unfolding turns_def by (simp add: less_eq_div_iff_mult_less_eq Suc_le_eq [symmetric])
  also have "\<dots> \<longleftrightarrow> i + q * step < n" using \<open>0 < step\<close> by auto
  finally show ?thesis .
qed

lemma turns_dvd [simp]: "0 < step \<Longrightarrow> step dvd n \<Longrightarrow> turns step n 0 = n div step"
proof -
  assume "0 < step" "step dvd n"
  then have "q < turns step n 0 \<longleftrightarrow> q < n div step" for q
    by (auto simp: turns_less dvd_def)
  then show ?thesis by (meson linorder_neqE_nat less_irrefl)
qed

lemma vm_for_turns:
  assumes "0 < step" "I 0 s"
    and "\<And>q s. I q s \<Longrightarrow> i + q * step < n \<Longrightarrow>
      case body (i + q * step) s of (b, t) \<Rightarrow> if b then Q t else I (Suc q) t"
  shows "case vm_for step n body i s of (b, t) \<Rightarrow> if b then Q t else I (turns step n i) t"
proof -
  have "case vm_for step n body i s of (b, t) \<Rightarrow> if b then Q t
      else \<exists>j. n \<le> j \<and> (\<exists>q. j = i + q * step \<and> q \<le> turns step n i \<and> I q t)"
  proof (rule vm_for_inv [OF assms(1)])
    fix j s assume "\<exists>q. j = i + q * step \<and> q \<le> turns step n i \<and> I q s" "j < n"
    then obtain q where q: "j = i + q * step" "I q s" by blast
    then have "q < turns step n i" using \<open>j < n\<close> assms(1) by (simp add: turns_less)
    with assms(3) [OF q(2)] q(1) \<open>j < n\<close>
    show "case body j s of (b, t) \<Rightarrow> if b then Q t else \<exists>q. j + step = i + q * step \<and> q \<le> turns step n i \<and> I q t"
      by (auto split: if_splits intro!: exI [of _ "Suc q"])
  qed (use assms(2) in auto)
  moreover have "q = turns step n i" if "n \<le> i + q * step" "q \<le> turns step n i" for q
    using that turns_less [OF assms(1), of q n i] by linarith
  ultimately show ?thesis by (auto split: prod.splits if_splits)
qed

section \<open>Passes\<close>

text \<open>
  A pass is a loop each turn of which treats a list of words that depends on the place and on the
  loop's own variables, which \<open>loc\<close> picks from the state and \<open>nxt\<close> moves on.  \<open>pass_words\<close> are
  the words of the first \<open>k\<close> turns.
\<close>

definition pass_words ::
    "(nat \<Rightarrow> 'k \<Rightarrow> (nat \<times> 'w) list) \<Rightarrow> ('k \<Rightarrow> 'k) \<Rightarrow> nat \<Rightarrow> nat \<Rightarrow> 'k \<Rightarrow> nat \<Rightarrow> (nat \<times> 'w) list" where
  "pass_words ps nxt step i l k = concat (map (\<lambda>q. ps (i + q * step) ((nxt ^^ q) l)) [0..<k])"

definition same_local :: "'m vm \<Rightarrow> 'm vm \<Rightarrow> bool" where
  "same_local s t \<longleftrightarrow> vm_errs t = vm_errs s \<and> vm_static t = vm_static s \<and> vm_fails t = vm_fails s
     \<and> vm_bogo t = vm_bogo s"

definition scans ::
    "'m hw \<Rightarrow> ('w::len word \<Rightarrow> 'w word \<Rightarrow> nat) \<Rightarrow> (nat \<Rightarrow> 'k \<Rightarrow> (nat \<times> 'w word) list) \<Rightarrow> ('k \<Rightarrow> 'k) \<Rightarrow>
     ('l \<times> 'm vm \<Rightarrow> 'k) \<Rightarrow> (nat \<Rightarrow> 'l \<times> 'm vm \<Rightarrow> bool \<times> 'l \<times> 'm vm) \<Rightarrow> bool" where
  "scans hw wt ps nxt loc body \<longleftrightarrow>
     (\<forall>i l s. case body i (l, s) of (b, l', t) \<Rightarrow>
        vm_mem t = vm_mem s \<and> vm_static t = vm_static s \<and> vm_fails t = vm_fails s \<and> vm_bogo t = vm_bogo s
        \<and> (vm_errs t = vm_errs s + errors wt hw (ps i (loc (l, s))) (vm_mem s) \<or> b \<and> vm_errs t = vm_errs s)
        \<and> (\<not> b \<longrightarrow> loc (l', t) = nxt (loc (l, s))))"

lemma store_all_append [simp]: "store_all hw (ps @ qs) m = store_all hw qs (store_all hw ps m)"
  by (simp add: store_all_def)

lemma store_all_Nil [simp]: "store_all hw [] m = m"
  by (simp add: store_all_def)

lemma store_all_Cons [simp]: "store_all hw (p # ps) m = store_all hw ps (store hw (fst p) (snd p) m)"
  by (simp add: store_all_def case_prod_beta)

lemma errors_append [simp]: "errors wt hw (ps @ qs) m = errors wt hw ps m + errors wt hw qs m"
  by (simp add: errors_def)

lemma errors_Nil [simp]: "errors wt hw [] m = 0"
  by (simp add: errors_def)

lemma errors_Cons [simp]: "errors wt hw (p # ps) m = wt (load hw m (fst p)) (snd p) + errors wt hw ps m"
  by (simp add: errors_def case_prod_beta)

lemma errors_0: "errors wt hw ps m = 0 \<longleftrightarrow> (\<forall>(i, v) \<in> set ps. wt (load hw m i) v = 0)"
  by (induction ps) auto

lemma differ_0 [simp]: "differ x v = 0 \<longleftrightarrow> x = v"
  by (simp add: differ_def)

lemma bitcount_0_iff [simp]: "bitcount k = 0 \<longleftrightarrow> k = 0"
proof (induction k rule: bitcount.induct)
  case (1 k)
  then show ?case by (cases "k = 0") (auto simp: bitcount.simps [of k])
qed

lemma bits_differ_0 [simp]: "bits_differ x v = 0 \<longleftrightarrow> x = v"
proof -
  have "x = v" if "x XOR v = 0" using arg_cong [OF that, of "\<lambda>y. y XOR v"] by (simp add: xor.assoc)
  then show ?thesis by (auto simp: bits_differ_def stress_vm_count_bits_def unat_eq_zero)
qed

lemma pass_words_0 [simp]: "pass_words ps nxt step i l 0 = []"
  by (simp add: pass_words_def)

lemma pass_words_Suc [simp]:
  "pass_words ps nxt step i l (Suc k) = pass_words ps nxt step i l k @ ps (i + k * step) ((nxt ^^ k) l)"
  by (simp add: pass_words_def)

lemma scan_pass:
  assumes "scans hw wt ps nxt loc body" "0 < step"
  shows "case vm_for step n body i (l, s) of (b, l', t) \<Rightarrow>
    vm_mem t = vm_mem s \<and> vm_static t = vm_static s \<and> vm_fails t = vm_fails s \<and> vm_bogo t = vm_bogo s
    \<and> (\<exists>k \<le> turns step n i. vm_errs t = vm_errs s + errors wt hw (pass_words ps nxt step i (loc (l, s)) k) (vm_mem s)
        \<and> (\<not> b \<longrightarrow> k = turns step n i))"
proof -
  let ?F = "\<lambda>t. vm_mem t = vm_mem s \<and> vm_static t = vm_static s \<and> vm_fails t = vm_fails s \<and> vm_bogo t = vm_bogo s"
  let ?E = "\<lambda>q t. vm_errs t = vm_errs s + errors wt hw (pass_words ps nxt step i (loc (l, s)) q) (vm_mem s)"
  let ?I = "\<lambda>q (l', t). ?F t \<and> ?E q t \<and> loc (l', t) = (nxt ^^ q) (loc (l, s))"
  let ?Q = "\<lambda>(l', t). ?F t \<and> (\<exists>k \<le> turns step n i. ?E k t)"
  have "case vm_for step n body i (l, s) of (b, t) \<Rightarrow> if b then ?Q t else ?I (turns step n i) t"
  proof (rule vm_for_turns [OF assms(2)])
    fix q t assume I: "?I q t" and q: "i + q * step < n"
    obtain l1 s1 where t: "t = (l1, s1)" by fastforce
    obtain b l2 s2 where body: "body (i + q * step) t = (b, l2, s2)" by (metis prod.exhaust)
    have *: "?F s2" "?E (Suc q) s2 \<or> b \<and> ?E q s2" "\<not> b \<Longrightarrow> loc (l2, s2) = (nxt ^^ Suc q) (loc (l, s))"
      using assms(1) [unfolded scans_def, rule_format, where i = "i + q * step" and l = l1 and s = s1] I body t by auto
    then show "case body (i + q * step) t of (b, t) \<Rightarrow> if b then ?Q t else ?I (Suc q) t"
      using q turns_less [OF assms(2), of q n i] body by (auto intro: exI [of _ "Suc q"] exI [of _ q] simp del: pass_words_Suc simp: Suc_leI)
  qed simp
  then show ?thesis by (auto split: prod.splits if_splits)
qed

section \<open>Frames\<close>

lemmas vm_step_defs = vm_enter_def vm_full_def vm_halt_def vm_done_def vm_count_def puts_def checks_def
  stress_vm_check_def vm_abort_def vm_finish_def with_mwc_def vm_seed_def vm_reseed_def

lemma same_local_simps [simp]:
  "same_local s (snd (vm_halt info s))" "same_local s (snd (vm_done info s))" "same_local s (vm_count k s)"
  "same_local s (puts info ps s)" "same_local s (change info f i s)" "same_local s (snd (with_mwc d s))"
  "same_local s (vm_seed w z s)" "same_local s (vm_memset info v s)"
  by (simp_all add: same_local_def vm_step_defs vm_memset_def change_def Let_def case_prod_beta)

lemma same_local_refl [simp]: "same_local s s"
  by (simp add: same_local_def)

lemma same_local_trans [trans]: "same_local s t \<Longrightarrow> same_local t u \<Longrightarrow> same_local s u"
  by (simp add: same_local_def)

lemma vm_mem_steps [simp]:
  "vm_mem (snd (vm_halt info s)) = vm_mem s" "vm_mem (snd (vm_done info s)) = vm_mem s"
  "vm_mem (vm_count k s) = vm_mem s" "vm_mem (puts info ps s) = store_all (vi_hw info) ps (vm_mem s)"
  "vm_mem (checks info wt qs s) = vm_mem s" "vm_mem (snd (with_mwc d s)) = vm_mem s" "vm_mem (vm_seed w z s) = vm_mem s"
  "vm_mem (vm_enter s) = vm_mem s"
  by (simp_all add: vm_step_defs Let_def case_prod_beta)

lemma vm_errs_steps [simp]:
  "vm_errs (snd (vm_halt info s)) = vm_errs s" "vm_errs (snd (vm_done info s)) = vm_errs s"
  "vm_errs (vm_count k s) = vm_errs s" "vm_errs (puts info ps s) = vm_errs s"
  "vm_errs (checks info wt qs s) = vm_errs s + errors wt (vi_hw info) qs (vm_mem s)"
  "vm_errs (snd (with_mwc d s)) = vm_errs s" "vm_errs (vm_seed w z s) = vm_errs s" "vm_errs (vm_enter s) = 0"
  by (simp_all add: vm_step_defs Let_def case_prod_beta)

lemma vm_mwc_steps [simp]:
  "vm_mwc (snd (vm_halt info s)) = vm_mwc s" "vm_mwc (snd (vm_done info s)) = vm_mwc s"
  "vm_mwc (vm_count k s) = vm_mwc s" "vm_mwc (puts info ps s) = vm_mwc s" "vm_mwc (checks info wt qs s) = vm_mwc s"
  "vm_mwc (snd (with_mwc d s)) = snd (d (vm_mwc s))" "fst (with_mwc d s) = fst (d (vm_mwc s))"
  "vm_mwc (vm_seed w z s) = stress_mwc_seed_set w z (vm_mwc s)"
  by (simp_all add: vm_step_defs Let_def case_prod_beta)

lemma vm_rest_steps [simp]:
  "vm_static (snd (vm_halt info s)) = vm_static s" "vm_static (snd (vm_done info s)) = vm_static s"
  "vm_static (vm_count k s) = vm_static s" "vm_static (puts info ps s) = vm_static s" "vm_static (checks info wt qs s) = vm_static s"
  "vm_static (snd (with_mwc d s)) = vm_static s" "vm_static (vm_seed w z s) = vm_static s" "vm_static (vm_enter s) = vm_static s"
  "vm_fails (snd (vm_halt info s)) = vm_fails s" "vm_fails (snd (vm_done info s)) = vm_fails s"
  "vm_fails (vm_count k s) = vm_fails s" "vm_fails (puts info ps s) = vm_fails s" "vm_fails (checks info wt qs s) = vm_fails s"
  "vm_fails (snd (with_mwc d s)) = vm_fails s" "vm_fails (vm_seed w z s) = vm_fails s" "vm_fails (vm_enter s) = vm_fails s"
  "vm_bogo (snd (vm_halt info s)) = vm_bogo s" "vm_bogo (snd (vm_done info s)) = vm_bogo s"
  "vm_bogo (vm_count k s) = vm_bogo s" "vm_bogo (puts info ps s) = vm_bogo s" "vm_bogo (checks info wt qs s) = vm_bogo s"
  "vm_bogo (snd (with_mwc d s)) = vm_bogo s" "vm_bogo (vm_seed w z s) = vm_bogo s" "vm_bogo (vm_enter s) = vm_bogo s"
  by (simp_all add: vm_step_defs Let_def case_prod_beta)

section \<open>Passes over memory that works\<close>

definition slot :: "nat \<Rightarrow> nat \<Rightarrow> nat \<Rightarrow> bool" where
  "slot w n i \<longleftrightarrow> w dvd i \<and> i + w \<le> n"

text \<open>The words of a pass: at distinct aligned places inside the buffer.\<close>

definition proper :: "nat \<Rightarrow> (nat \<times> 'w::len word) list \<Rightarrow> bool" where
  "proper n ps \<longleftrightarrow> distinct (map fst ps) \<and> (\<forall>i \<in> set (map fst ps). slot (LENGTH('w) div 8) n i)"

lemma slots_apart:
  "slot w n i \<Longrightarrow> slot w n j \<Longrightarrow> i \<noteq> j \<Longrightarrow> i + w \<le> j \<or> j + w \<le> i"
proof -
  assume s: "slot w n i" "slot w n j" "i \<noteq> j"
  then obtain a b where ab: "i = w * a" "j = w * b" by (auto simp: slot_def dvd_def)
  then have "a \<noteq> b" using s(3) by auto
  then have "a < b \<or> b < a" by linarith
  then have "Suc a \<le> b \<or> Suc b \<le> a" by auto
  then have "w * Suc a \<le> w * b \<or> w * Suc b \<le> w * a" by (meson mult_le_mono2)
  then show ?thesis by (simp add: ab add.commute)
qed

lemma pass_words_split: "k \<le> k' \<Longrightarrow> \<exists>qs. pass_words ps nxt step i l k' = pass_words ps nxt step i l k @ qs"
  by (induction k' rule: dec_induct) auto

lemma pass_words_prefix: "k \<le> k' \<Longrightarrow> set (pass_words ps nxt step i l k) \<subseteq> set (pass_words ps nxt step i l k')"
  using pass_words_split [of k k' ps nxt step i l] by auto

lemma proper_append [simp]:
  "proper n (ps @ qs) \<longleftrightarrow> proper n ps \<and> proper n qs \<and> fst ` set ps \<inter> fst ` set qs = {}"
  by (auto simp: proper_def)

lemma proper_mono: "proper n ps \<Longrightarrow> n \<le> n' \<Longrightarrow> proper n' ps"
  by (force simp: proper_def slot_def)

text \<open>Turn by turn: each turn keeps to its own stretch of the buffer.\<close>

lemma proper_pass:
  fixes ps :: "nat \<Rightarrow> 'k \<Rightarrow> (nat \<times> 'w::len word) list"
  assumes turn: "\<And>q l. i + q * step < n \<Longrightarrow> distinct (map fst (ps (i + q * step) l))
      \<and> (\<forall>j \<in> fst ` set (ps (i + q * step) l). LENGTH('w) div 8 dvd j \<and> i + q * step \<le> j
          \<and> j + LENGTH('w) div 8 \<le> i + Suc q * step \<and> j + LENGTH('w) div 8 \<le> n)"
    and "0 < LENGTH('w) div 8" "0 < step"
  shows "k \<le> turns step n i \<Longrightarrow> proper n (pass_words ps nxt step i l k)
    \<and> (\<forall>j \<in> fst ` set (pass_words ps nxt step i l k). j + LENGTH('w) div 8 \<le> i + k * step)"
proof (induction k)
  case (Suc k)
  then have k: "i + k * step < n" using turns_less [OF assms(3), of k n i] by simp
  note old = conjunct2 [OF Suc.IH [OF Suc_leD [OF Suc.prems]]]
  note new = turn [OF k, of "(nxt ^^ k) l"]
  have "fst ` set (pass_words ps nxt step i l k) \<inter> fst ` set (ps (i + k * step) ((nxt ^^ k) l)) = {}"
  proof (rule ccontr)
    assume "\<not> ?thesis"
    then obtain j where j: "j \<in> fst ` set (pass_words ps nxt step i l k)" "j \<in> fst ` set (ps (i + k * step) ((nxt ^^ k) l))"
      by blast
    then have "i + k * step \<le> j" using new by blast
    then show False using old j(1) assms(2) by fastforce
  qed
  moreover have "proper n (ps (i + k * step) ((nxt ^^ k) l))"
    unfolding proper_def slot_def set_map using new by blast
  ultimately show ?case
    using Suc new old by (fastforce simp: image_Un)
qed (simp add: proper_def)

text \<open>The usual case: whole turns from the start of the buffer.\<close>

lemma proper_turns:
  fixes ps :: "nat \<Rightarrow> 'k \<Rightarrow> (nat \<times> 'w::len word) list"
  assumes "\<And>i l. step dvd i \<Longrightarrow> distinct (map fst (ps i l))
      \<and> (\<forall>j \<in> fst ` set (ps i l). LENGTH('w) div 8 dvd j \<and> i \<le> j \<and> j + LENGTH('w) div 8 \<le> i + step)"
    and "0 < LENGTH('w) div 8" "0 < step" "step dvd n"
  shows "proper n (pass_words ps nxt step 0 l (n div step))"
proof -
  have fits: "q * step + step \<le> n" if "q * step < n" for q
  proof -
    obtain k where k: "n = k * step" using assms(4) by (auto simp: dvd_def mult.commute)
    then have "Suc q \<le> k" using that by auto
    then have "Suc q * step \<le> k * step" by (rule mult_le_mono1)
    then show ?thesis by (simp add: k)
  qed
  have "distinct (map fst (ps (0 + q * step) l))
      \<and> (\<forall>j \<in> fst ` set (ps (0 + q * step) l). LENGTH('w) div 8 dvd j \<and> 0 + q * step \<le> j
          \<and> j + LENGTH('w) div 8 \<le> 0 + Suc q * step \<and> j + LENGTH('w) div 8 \<le> n)"
    if "0 + q * step < n" for q l
    using assms(1) [of "q * step" l] fits [of q] that by (auto simp: add.commute dest: bspec intro: order_trans)
  from proper_pass [of 0 step n ps, OF this assms(2,3) order_refl]
  show ?thesis using assms by simp
qed

text \<open>
  What a pass of stores does to memory: the words that were stored read back, the other words of
  that width are as they were.
\<close>

definition sets :: "'m hw \<Rightarrow> nat \<Rightarrow> (nat \<times> 'w::len word) list \<Rightarrow> 'm \<Rightarrow> 'm \<Rightarrow> bool" where
  "sets hw n ps m m' \<longleftrightarrow>
     (\<forall>(i, v) \<in> set ps. load hw m' i = v)
     \<and> (\<forall>j. slot (LENGTH('w) div 8) n j \<longrightarrow> j \<notin> fst ` set ps \<longrightarrow> load hw m' j = (load hw m j :: 'w word))"

lemma sets_Nil [simp]: "sets hw n [] m m"
  by (simp add: sets_def)

lemma sets_append:
  fixes ps qs :: "(nat \<times> 'w::len word) list"
  assumes "sets hw n ps m m'" "sets hw n qs m' m''" "proper n (ps @ qs)"
  shows "sets hw n (ps @ qs) m m''"
proof -
  have "load hw m'' i = v" if "(i, v) \<in> set ps" for i v
  proof -
    have "i \<in> fst ` set ps" using that by force
    then have "slot (LENGTH('w) div 8) n i" "i \<notin> fst ` set qs" using assms(3) by (auto simp: proper_def)
    then show ?thesis using assms(1,2) that by (force simp: sets_def)
  qed
  moreover have "load hw m'' j = (load hw m j :: 'w word)"
    if "slot (LENGTH('w) div 8) n j" "j \<notin> fst ` set (ps @ qs)" for j
    using that assms(1,2) unfolding sets_def set_append image_Un Un_iff by metis
  ultimately show ?thesis using assms(2) by (auto simp: sets_def)
qed

lemma sets_errors: "sets hw n ps m m' \<Longrightarrow> (\<And>v. wt v v = 0) \<Longrightarrow> errors wt hw ps m' = 0"
  by (auto simp: sets_def errors_0)

lemma fill_pass:
  fixes ps :: "nat \<Rightarrow> 'k \<Rightarrow> (nat \<times> 'w::len word) list"
  assumes body: "\<And>q l s. i + q * step < n' \<Longrightarrow> case body (i + q * step) (l, s) of (b, l', t) \<Rightarrow>
      same_local s t \<and> (\<not> b \<longrightarrow> sets hw n (ps (i + q * step) (loc (l, s))) (vm_mem s) (vm_mem t)
        \<and> loc (l', t) = nxt (loc (l, s)))"
    and "0 < step" and proper: "\<And>k. k \<le> turns step n' i \<Longrightarrow> proper n (pass_words ps nxt step i (loc (l, s)) k)"
  shows "case vm_for step n' body i (l, s) of (b, l', t) \<Rightarrow>
    same_local s t \<and> (\<not> b \<longrightarrow> sets hw n (pass_words ps nxt step i (loc (l, s)) (turns step n' i)) (vm_mem s) (vm_mem t)
      \<and> loc (l', t) = (nxt ^^ turns step n' i) (loc (l, s)))"
proof -
  let ?w = "pass_words ps nxt step i (loc (l, s))"
  let ?I = "\<lambda>q (l', t). same_local s t \<and> sets hw n (?w q) (vm_mem s) (vm_mem t) \<and> loc (l', t) = (nxt ^^ q) (loc (l, s))"
  have "case vm_for step n' body i (l, s) of (b, t) \<Rightarrow> if b then same_local s (snd t) else ?I (turns step n' i) t"
  proof (rule vm_for_turns [OF assms(2)])
    fix q t assume I: "?I q t" and q: "i + q * step < n'"
    obtain l1 s1 where t: "t = (l1, s1)" by fastforce
    obtain b l2 s2 where b: "body (i + q * step) t = (b, l2, s2)" by (metis prod.exhaust)
    have *: "same_local s1 s2" "\<not> b \<Longrightarrow> sets hw n (ps (i + q * step) (loc t)) (vm_mem s1) (vm_mem s2) \<and> loc (l2, s2) = nxt (loc t)"
      using body [OF q, where l = l1 and s = s1] b t by auto
    have "Suc q \<le> turns step n' i" using q turns_less [OF assms(2), of q n' i] by simp
    then have "proper n (?w q @ ps (i + q * step) ((nxt ^^ q) (loc (l, s))))" using proper [of "Suc q"] by simp
    then show "case body (i + q * step) t of (b, t) \<Rightarrow> if b then same_local s (snd t) else ?I (Suc q) t"
      using I b t * sets_append [of hw n "?w q" "vm_mem s" "vm_mem s1" _ "vm_mem s2"]
      by (auto simp: same_local_def simp del: proper_append)
  qed (simp add: same_local_def)
  then show ?thesis by (auto split: prod.splits if_splits)
qed

text \<open>The words of a turn keep to the stretch of the turn.\<close>

definition within :: "nat \<Rightarrow> (nat \<Rightarrow> 'k \<Rightarrow> (nat \<times> 'w::len word) list) \<Rightarrow> bool" where
  "within step ps \<longleftrightarrow> (\<forall>i l. step dvd i \<longrightarrow> distinct (map fst (ps i l))
     \<and> (\<forall>j \<in> fst ` set (ps i l). LENGTH('w) div 8 dvd j \<and> i \<le> j \<and> j + LENGTH('w) div 8 \<le> i + step))"

lemma scan_clean:
  assumes "scans hw wt ps nxt loc body" "0 < step"
    and "errors wt hw (pass_words ps nxt step i (loc (l, s)) (turns step n i)) (vm_mem s) = 0"
  shows "case vm_for step n body i (l, s) of (b, l', t) \<Rightarrow> vm_mem t = vm_mem s \<and> same_local s t"
proof -
  have "errors wt hw (pass_words ps nxt step i (loc (l, s)) k) (vm_mem s) = 0" if "k \<le> turns step n i" for k
    using that assms(3) pass_words_prefix [of k "turns step n i" ps nxt step i "loc (l, s)"]
    unfolding errors_0 by blast
  then show ?thesis
    using scan_pass [OF assms(1,2), where n = n and i = i and l = l and s = s] by (auto simp: same_local_def split: prod.splits)
qed

context sound_memory
begin

lemma load_store_all:
  fixes ps :: "(nat \<times> 'w::len word) list"
  assumes "8 dvd LENGTH('w)" "\<forall>i \<in> fst ` set ps. slot (LENGTH('w) div 8) n i" "slot (LENGTH('w) div 8) n i"
  shows "load hw (store_all hw ps m) i = (case map_of (rev ps) i of Some v \<Rightarrow> v | None \<Rightarrow> (load hw m i :: 'w word))"
  using assms(2)
proof (induction ps rule: rev_induct)
  case (snoc p ps)
  show ?case
  proof (cases "fst p = i")
    case True
    then show ?thesis using snoc.prems assms(1) by (simp add: load_store_same slot_def)
  next
    case False
    then have "fst p + LENGTH('w) div 8 \<le> i \<or> i + LENGTH('w) div 8 \<le> fst p"
      using snoc.prems assms(3) by (intro slots_apart [of _ n]) auto
    then have "load hw (store_all hw (ps @ [p]) m) i = (load hw (store_all hw ps m) i :: 'w word)"
      using snoc.prems assms(3) by (simp add: load_store_other slot_def)
    then show ?thesis using snoc False by simp
  qed
qed simp

lemma sets_store_all:
  fixes ps :: "(nat \<times> 'w::len word) list"
  assumes "8 dvd LENGTH('w)" "proper n ps"
  shows "sets hw n ps m (store_all hw ps m)"
  unfolding sets_def
proof (intro conjI ballI allI impI, clarify)
  fix i v assume "(i, v) \<in> set ps"
  moreover from this have "map_of (rev ps) i = Some v"
    using assms(2) by (simp add: proper_def map_of_eq_Some_iff rev_map [symmetric])
  ultimately show "load hw (store_all hw ps m) i = v"
    using assms by (subst load_store_all) (auto simp: proper_def)
next
  fix j assume "slot (LENGTH('w) div 8) n j" "j \<notin> fst ` set ps"
  moreover from this have "map_of (rev ps) j = None" by (simp add: map_of_eq_None_iff)
  ultimately show "load hw (store_all hw ps m) j = (load hw m j :: 'w word)"
    using assms by (subst load_store_all) (auto simp: proper_def)
qed

lemma fill_turns:
  fixes ps :: "nat \<Rightarrow> 'k \<Rightarrow> (nat \<times> 'w::len word) list"
  assumes body: "\<And>i l s. case body i (l, s) of (b, l', t) \<Rightarrow>
      same_local s t \<and> (\<not> b \<longrightarrow> vm_mem t = store_all hw (ps i (loc (l, s))) (vm_mem s) \<and> loc (l', t) = nxt (loc (l, s)))"
    and "within step ps" "8 dvd LENGTH('w)" "0 < step" "step dvd n"
  shows "case vm_for step n body 0 (l, s) of (b, l', t) \<Rightarrow>
    same_local s t \<and> (\<not> b \<longrightarrow> sets hw n (pass_words ps nxt step 0 (loc (l, s)) (n div step)) (vm_mem s) (vm_mem t)
      \<and> loc (l', t) = (nxt ^^ (n div step)) (loc (l, s)))"
proof -
  have w: "0 < LENGTH('w) div 8" using dvd_imp_le [OF assms(3) len_gt_0] by (simp add: div_greater_zero_iff)
  have all: "proper n (pass_words ps nxt step 0 l (n div step))" for l
    using assms(2) unfolding within_def by (intro proper_turns w assms) blast+
  have prefix: "proper n (pass_words ps nxt step 0 l k)" if k: "k \<le> turns step n 0" for k l
  proof -
    obtain qs where "pass_words ps nxt step 0 l (turns step n 0) = pass_words ps nxt step 0 l k @ qs"
      using pass_words_split [OF k, of ps nxt step 0 l] by blast
    then have "proper n (pass_words ps nxt step 0 l k @ qs)" using all [of l] assms(4,5) by simp
    then show ?thesis by simp
  qed
  have chunk: "proper n (ps (0 + q * step) l)" if q: "0 + q * step < n" for q l
  proof -
    obtain k where k: "n = k * step" using assms(5) by (auto simp: dvd_def mult.commute)
    then have "Suc q \<le> k" using q by auto
    then have "Suc q * step \<le> k * step" by (rule mult_le_mono1)
    then show ?thesis
      using assms(2) [unfolded within_def, rule_format, of "q * step" l] k unfolding proper_def slot_def by fastforce
  qed
  have "case vm_for step n body 0 (l, s) of (b, l', t) \<Rightarrow>
    same_local s t \<and> (\<not> b \<longrightarrow> sets hw n (pass_words ps nxt step 0 (loc (l, s)) (turns step n 0)) (vm_mem s) (vm_mem t)
      \<and> loc (l', t) = (nxt ^^ turns step n 0) (loc (l, s)))"
  proof (rule fill_pass [OF _ assms(4) prefix])
    fix q l s assume "0 + q * step < n"
    from sets_store_all [OF assms(3) chunk [OF this]]
    show "case body (0 + q * step) (l, s) of (b, l', t) \<Rightarrow>
        same_local s t \<and> (\<not> b \<longrightarrow> sets hw n (ps (0 + q * step) (loc (l, s))) (vm_mem s) (vm_mem t)
          \<and> loc (l', t) = nxt (loc (l, s)))"
      using body [where i = "0 + q * step" and l = l and s = s] by (auto split: prod.splits)
  qed
  then show ?thesis using assms(4,5) by simp
qed

end

end
