(* ===== verification/Vm_Methods.thy ===== *)
theory Vm_Methods
  imports Vm_Loops
begin

text \<open>
  The methods of the \<open>vm\<close> stressor (src/stress-vm.c) and their table.  A method takes the info
  record and the state and returns the number of errors it counted; each loop of the source is a
  \<open>vm_for\<close> or \<open>vm_each\<close> whose body is the body of the source, with the unrolled statements of a
  body as the list of the places and values they treat, in order.
\<close>

section \<open>Bytes\<close>

definition shim_ror8 :: "u8 \<Rightarrow> u8" where
  "shim_ror8 x = drop_bit 1 x OR push_bit 7 x"

definition INC_LO_NYBBLE :: "u8 \<Rightarrow> u8" where
  "INC_LO_NYBBLE v = (v AND 0xf0) OR ((v + 1) AND 0xf)"

definition INC_HI_NYBBLE :: "u8 \<Rightarrow> u8" where
  "INC_HI_NYBBLE v = (v AND 0x0f) OR ((v + 0xf0) AND 0xf0)"

definition stress_vm_mod :: "u64 \<Rightarrow> u64 \<Rightarrow> u64" where
  "stress_vm_mod a b = (let a = (if a \<ge> b then a - b else a) in if a \<ge> b then a - b else a)"

section \<open>Walking bits\<close>

definition walking_data :: "u8 list \<Rightarrow> 'm vm_info \<Rightarrow> 'm vm \<Rightarrow> nat \<times> 'm vm" where
  "walking_data vs info s =
     (let s = vm_enter s;
          (_, s) = vm_each 1 (vi_sz info)
            (\<lambda>i s. vm_done info (vm_count 1 (fold (SET_AND_TEST info i) vs s))) 0 s
      in vm_finish info s)"

definition stress_vm_walking_one_data :: "'m vm_info \<Rightarrow> 'm vm \<Rightarrow> nat \<times> 'm vm" where
  "stress_vm_walking_one_data = walking_data [0x01, 0x02, 0x04, 0x08, 0x10, 0x20, 0x40, 0x80]"

definition stress_vm_walking_zero_data :: "'m vm_info \<Rightarrow> 'm vm \<Rightarrow> nat \<times> 'm vm" where
  "stress_vm_walking_zero_data = walking_data [0xfe, 0xfd, 0xfb, 0xf7, 0xef, 0xdf, 0xbf, 0x7f]"

text \<open>
  The address tests from byte \<open>i\<close>: \<open>k\<close> more turns with the mask; \<open>flip\<close> is what the address is
  combined with.  A turn whose address is outside the buffer leaves the mask as it is.
\<close>

primrec walking_addrs :: "'m vm_info \<Rightarrow> (u64 \<Rightarrow> u64) \<Rightarrow> nat \<Rightarrow> nat \<Rightarrow> u64 \<Rightarrow> 'm vm \<Rightarrow> 'm vm" where
  "walking_addrs info flip i 0 msk s = s"
| "walking_addrs info flip i (Suc k) msk s =
     (let ptr = vi_base info + of_nat i; addr = ptr XOR flip msk
      in if addr < vi_base info \<or> addr \<ge> vi_base info + of_nat (vi_sz info) \<or> addr = ptr
         then walking_addrs info flip i k msk s
         else walking_addrs info flip i k (push_bit 1 msk)
                (checks info differ [(i, 0 :: u8)] (puts info [(unat (addr - vi_base info), 0xff :: u8)] s)))"

definition walking_addr :: "(u64 \<Rightarrow> u64) \<Rightarrow> 'm vm_info \<Rightarrow> 'm vm \<Rightarrow> nat \<times> 'm vm" where
  "walking_addr flip info s =
     (let s = vm_memset info 0 (vm_enter s);
          (_, s) = vm_each 256 (vi_sz info)
            (\<lambda>i s. vm_done info (vm_count 1 (walking_addrs info flip i 63 1 (puts info [(i, 0 :: u8)] s)))) 0 s
      in vm_finish info s)"

definition stress_vm_walking_one_addr :: "'m vm_info \<Rightarrow> 'm vm \<Rightarrow> nat \<times> 'm vm" where
  "stress_vm_walking_one_addr = walking_addr (\<lambda>msk. msk)"

text \<open>The smallest power of two that is not less than \<open>sz\<close>; \<open>64\<close> doublings reach any size below \<open>2^63\<close>.\<close>

primrec sz_mask_loop :: "nat \<Rightarrow> u64 \<Rightarrow> u64 \<Rightarrow> u64" where
  "sz_mask_loop 0 sz m = m"
| "sz_mask_loop (Suc k) sz m = (if m < sz then sz_mask_loop k sz (push_bit 1 m) else m)"

definition stress_vm_walking_zero_addr :: "'m vm_info \<Rightarrow> 'm vm \<Rightarrow> nat \<times> 'm vm" where
  "stress_vm_walking_zero_addr info =
     (let sz_mask = sz_mask_loop 64 (of_nat (vi_sz info)) 1 - 1
      in walking_addr (\<lambda>msk. NOT msk AND sz_mask) info)"

definition flush_words :: "nat \<Rightarrow> u8 \<Rightarrow> (nat \<times> u8) list" where
  "flush_words i v = [(i, v), (i + 1, v + 1), (i + 2, v + 2), (i + 3, v + 3),
     (i + 4, v + 4), (i + 5, v + 5), (i + 6, v + 6), (i + 7, v + 7)]"

definition stress_vm_walking_flush_data :: "'m vm_info \<Rightarrow> 'm vm \<Rightarrow> nat \<times> 'm vm" where
  "stress_vm_walking_flush_data info s =
     (let s = vm_enter s; (v, s) = with_mwc stress_mwc8 s; offset = flush_offset (vm_static s);
          (_, _, s) = vm_for 64 (vi_sz info - 7)
            (\<lambda>i (v, s). let s = checks info differ (flush_words i v) (puts info (flush_words i v) s);
                           (b, s) = vm_done info (vm_count 1 s)
                       in (b, v + 8, s)) offset (v, s);
          offset = offset + 8; offset = (if offset \<ge> 64 then 0 else offset);
          s = s\<lparr>vm_static := (vm_static s)\<lparr>flush_offset := offset\<rparr>\<rparr>
      in vm_finish info s)"

section \<open>Gray codes\<close>

definition gray :: "u8 \<Rightarrow> u8" where
  "gray v = drop_bit 1 v XOR v"

definition gray_words :: "nat \<Rightarrow> u8 \<Rightarrow> (nat \<times> u8) list" where
  "gray_words i v = [(i, gray v), (i + 1, gray (v + 1)), (i + 2, gray (v + 2)), (i + 3, gray (v + 3))]"

definition stress_vm_gray :: "'m vm_info \<Rightarrow> 'm vm \<Rightarrow> nat \<times> 'm vm" where
  "stress_vm_gray info s =
     (let s = vm_enter s; v = gray_val (vm_static s);
          (b, _, s) = vm_for 4 (vi_sz info)
            (\<lambda>i (v, s). let (b, s) = vm_halt info (puts info (gray_words i v) s) in (b, v + 4, s)) 0 (v, s)
      in if b then (0, s)
         else let s = inject_random_bit_errors info s;
                  (_, _, s) = vm_for 4 (vi_sz info)
                    (\<lambda>i (v, s). let s = vm_count 4 (checks info differ (gray_words i v) s); (b, s) = vm_halt info s
                               in (b \<or> vm_full info s, v + 4, s)) 0 (v, s);
                  s = s\<lparr>vm_static := (vm_static s)\<lparr>gray_val := v + 1\<rparr>\<rparr>
              in vm_finish info s)"

definition grayflip_words :: "nat \<Rightarrow> u8 \<Rightarrow> (nat \<times> u8) list" where
  "grayflip_words i v = [(i, gray v), (i + 1, NOT (gray v)), (i + 2, gray v), (i + 3, NOT (gray v))]"

definition stress_vm_grayflip :: "'m vm_info \<Rightarrow> 'm vm \<Rightarrow> nat \<times> 'm vm" where
  "stress_vm_grayflip info s =
     (let s = vm_enter s; v = grayflip_val (vm_static s);
          (b, _, s) = vm_for 4 (vi_sz info)
            (\<lambda>i (v, s). let (b, s) = vm_halt info s
                       in if b then (True, v, s) else (False, v + 1, puts info (grayflip_words i v) s)) 0 (v, s)
      in if b then (0, s)
         else let s = inject_random_bit_errors info s;
                  (_, _, s) = vm_for 4 (vi_sz info)
                    (\<lambda>i (v, s). let (b, s) = vm_halt info s
                               in if b then (True, v, s)
                                  else let s = vm_count 4 (checks info differ (grayflip_words i v) s)
                                       in (vm_full info s, v + 1, s)) 0 (v, s);
                  s = s\<lparr>vm_static := (vm_static s)\<lparr>grayflip_val := v + 1\<rparr>\<rparr>
              in vm_finish info s)"

section \<open>Increments and decrements\<close>

text \<open>A loop over all bytes that is never left.\<close>

definition vm_sweep :: "'m vm_info \<Rightarrow> (nat \<Rightarrow> 'm vm \<Rightarrow> 'm vm) \<Rightarrow> 'm vm \<Rightarrow> 'm vm" where
  "vm_sweep info f s = snd (vm_each 1 (vi_sz info) (\<lambda>i s. (False, f i s)) 0 s)"

definition stress_vm_incdec :: "'m vm_info \<Rightarrow> 'm vm \<Rightarrow> nat \<times> 'm vm" where
  "stress_vm_incdec info s =
     (let s = vm_enter s; v = incdec_val (vm_static s) + 1;
          s = s\<lparr>vm_static := (vm_static s)\<lparr>incdec_val := v\<rparr>\<rparr>;
          s = vm_sweep info (change info (\<lambda>x. x + v)) (vm_memset info 0 s);
          s = vm_sweep info (change info (\<lambda>x. x - v)) (inject_random_bit_errors info s);
          s = vm_count (of_nat (vi_sz info)) s;
          s = (if vm_full info s then s\<lparr>vm_c := vi_max_ops info\<rparr> else s);
          s = vm_sweep info (\<lambda>i. checks info differ [(i, 0 :: u8)]) s
      in vm_finish info s)"

definition stress_vm_prime_incdec :: "'m vm_info \<Rightarrow> 'm vm \<Rightarrow> nat \<times> 'm vm" where
  "stress_vm_prime_incdec info s =
     (let s = s\<lparr>vm_errs := 0\<rparr>; v = prime_incdec_val (vm_static s); sz = of_nat (vi_sz info);
          prime = stress_prime64_get (vi_isqrt info) (vi_prime_reads info) (sz + 4096)
      in if sz > push_bit 63 1 then (0, s)
         else let s = vm_enter (vm_memset info 0 s);
                  (_, s) = vm_each 1 (vi_sz info)
                    (\<lambda>i s. let s = vm_count 1 (change info (\<lambda>x. x + v) i s) in (vm_full info s, s)) 0 s;
                  s = inject_random_bit_errors info s; s = s\<lparr>vm_c := vm_bogo s\<rparr>;
                  (_, _, s) = vm_for 1 (vi_sz info)
                    (\<lambda>i (j, s). let j = stress_vm_mod j sz; s = vm_count 1 (change info (\<lambda>x. x - v) (unat j) s)
                               in (vm_full info s, j + prime, s)) 0 (prime, s);
                  s = vm_sweep info (\<lambda>i. checks info differ [(i, 0 :: u8)]) s
              in vm_finish info s)"

text \<open>The eight bytes at a place are read, changed and written one after the other.\<close>

definition change_all :: "'m vm_info \<Rightarrow> (u8 \<Rightarrow> u8) \<Rightarrow> 'm vm \<Rightarrow> bool \<times> 'm vm" where
  "change_all info f =
     vm_each 8 (vi_sz info) (\<lambda>i s. vm_done info (vm_count 1 (fold (\<lambda>j. change info f (i + j)) [0..<8] s))) 0"

definition stress_vm_inc_nybble :: "'m vm_info \<Rightarrow> 'm vm \<Rightarrow> nat \<times> 'm vm" where
  "stress_vm_inc_nybble info s =
     (let s = vm_enter s; v = inc_nybble_val (vm_static s); s = vm_memset info v s;
          v = INC_HI_NYBBLE (INC_LO_NYBBLE v); s = s\<lparr>vm_static := (vm_static s)\<lparr>inc_nybble_val := v\<rparr>\<rparr>;
          s = s\<lparr>vm_mwc := vi_reseed info (vm_mwc s)\<rparr>;
          (b, s) = change_all info INC_LO_NYBBLE s
      in if b then vm_abort s
         else let (b, s) = change_all info INC_HI_NYBBLE s
              in if b then vm_abort s
                 else let s = inject_random_bit_errors info s;
                          (_, s) = vm_each 8 (vi_sz info)
                            (\<lambda>i s. vm_halt info (checks info differ (map (\<lambda>j. (i + j, v)) [0..<8]) s)) 0 s
                      in vm_finish info s)"

section \<open>Moving data\<close>

definition swap_byte :: "'m vm_info \<Rightarrow> nat \<Rightarrow> nat \<Rightarrow> 'm vm \<Rightarrow> 'm vm" where
  "swap_byte info src dst s =
     (let hw = vi_hw info; tmp = hw_read hw (vm_mem s) src; m = hw_write hw src (hw_read hw (vm_mem s) dst) (vm_mem s)
      in s\<lparr>vm_mem := hw_write hw dst tmp m\<rparr>)"

definition swap_chunk :: "'m vm_info \<Rightarrow> nat list \<Rightarrow> nat \<Rightarrow> 'm vm \<Rightarrow> bool \<times> 'm vm" where
  "swap_chunk info swaps i s =
     vm_done info (vm_count 1 (fold (\<lambda>j. swap_byte info (i + j) (swaps ! (i div 64) + j)) [0..<64] s))"

definition chunk_words :: "nat \<Rightarrow> u8 \<Rightarrow> (nat \<times> u8) list" where
  "chunk_words i v = map (\<lambda>j. (i + j, v)) [0..<64]"

definition stress_vm_swap :: "'m vm_info \<Rightarrow> 'm vm \<Rightarrow> nat \<times> 'm vm" where
  "stress_vm_swap info s =
     (let s = vm_enter s; n = vi_sz info; chunks = n div 64; (z1, w1, s) = vm_reseed info s
      in if \<not> vi_calloc info then (0, s\<lparr>vm_fails := vm_fails s + 1\<rparr>)
         else let (vs, s) = with_mwc (draws (stress_mwc64modn (of_nat chunks)) chunks) s;
                  swaps = map (\<lambda>v. unat v * 64) vs;
                  (_, s) = vm_each 64 n
                    (\<lambda>i s. let (v, s) = with_mwc stress_mwc8 s in (False, puts info (chunk_words i v) s)) 0 (vm_seed w1 z1 s);
                  (b, s) = vm_each 64 n (swap_chunk info swaps) 0 s
              in if b then vm_abort s
                 else let (b, s) = vm_each 64 n (\<lambda>i. swap_chunk info swaps (n - 64 - i)) 0 s
                      in if b then vm_abort s
                         else let s = vm_seed w1 z1 (inject_random_bit_errors info s);
                                  (_, s) = vm_each 64 n
                                    (\<lambda>i s. let (v, s) = with_mwc stress_mwc8 s
                                          in vm_halt info (checks info differ (chunk_words i v) s)) 0 s
                              in vm_finish info s)"

text \<open>
  The pages in random order; the two handles draw the same words.  A byte that differs is an
  error of its own and a message of its own.
\<close>

definition page_words :: "bitgen_knobs \<Rightarrow> nat \<Rightarrow> stress_bitgen \<Rightarrow> (nat \<times> u8) list \<times> stress_bitgen" where
  "page_words k i bg =
     (let (vs, bg) = draws (stress_bitgen_u64 k) 512 bg
      in (concat (map (\<lambda>(q, v). map (\<lambda>j. (i + 8 * q + j, ucast (drop_bit (8 * j) v))) [0..<8]) (enumerate 0 vs)), bg))"

definition rand_offset_order :: "nat \<Rightarrow> mwc \<Rightarrow> nat list \<times> mwc" where
  "rand_offset_order pages m =
     fold (\<lambda>i (order, m). let (j, m) = stress_mwc64modn (of_nat (i + 1)) m
            in (order[i := order ! unat j, unat j := order ! i], m)) (rev [1..<pages]) ([0..<pages], m)"

definition stress_vm_rand_offset :: "'m vm_info \<Rightarrow> 'm vm \<Rightarrow> nat \<times> 'm vm" where
  "stress_vm_rand_offset info s =
     (let pages = vi_sz info div 4096; touch = pages div 2; s = vm_enter s; k = vi_knobs info
      in if touch < 2 then (0, s)
         else if \<not> vi_calloc info then (0, s\<lparr>vm_fails := vm_fails s + 1\<rparr>)
         else let s = s\<lparr>vm_mwc := vi_reseed info (vm_mwc s)\<rparr>;
                  (order, s) = with_mwc (rand_offset_order pages) s;
                  (bg, s) = with_mwc (stress_bitgen_init k (vi_bg info)) s;
                  (_, _, s) = vm_for 1 touch
                    (\<lambda>i (bg, s). let (ws, bg) = page_words k (order ! i * 4096) bg in (False, bg, puts info ws s)) 0 (bg, s);
                  s = s\<lparr>vm_bogo := vm_c s + of_nat touch\<rparr>;
                  (_, _, s) = vm_for 1 touch
                    (\<lambda>i (bg, s). let (ws, bg) = page_words k (order ! i * 4096) bg in (False, bg, checks info differ ws s)) 0 (bg, s)
              in (vm_errs s, s\<lparr>vm_fails := vm_fails s + vm_errs s\<rparr>))"

section \<open>Random bytes\<close>

text \<open>
  With non-temporal stores the eight bytes are one word of eight equal bytes.
\<close>

definition repeat8 :: "u8 \<Rightarrow> u64" where
  "repeat8 v =
     (let v16 = push_bit 8 (ucast v :: u16) OR ucast v; v32 = push_bit 16 (ucast v16 :: u32) OR ucast v16
      in push_bit 32 (ucast v32) OR ucast v32)"

definition eight :: "nat \<Rightarrow> (nat \<Rightarrow> u8) \<Rightarrow> (nat \<times> u8) list" where
  "eight i f = map (\<lambda>j. (i + j, f j)) [0..<8]"

definition rand_fill :: "'m vm_info \<Rightarrow> 'm vm \<Rightarrow> bool \<times> 'm vm" where
  "rand_fill info =
     vm_each 8 (vi_sz info)
       (\<lambda>i s. let (v, s) = with_mwc stress_mwc8 s;
                 s = (if vi_nt info then puts info [(i, repeat8 v)] s else puts info (eight i (\<lambda>_. v)) s)
             in vm_done info (vm_count 1 s)) 0"

definition rand_check :: "'m vm_info \<Rightarrow> (nat \<Rightarrow> u8 \<Rightarrow> u8) \<Rightarrow> 'm vm \<Rightarrow> bool \<times> 'm vm" where
  "rand_check info f =
     vm_each 8 (vi_sz info)
       (\<lambda>i s. let (v, s) = with_mwc stress_mwc8 s in vm_halt info (checks info differ (eight i (\<lambda>j. f j v)) s)) 0"

definition stress_vm_rand_set :: "'m vm_info \<Rightarrow> 'm vm \<Rightarrow> nat \<times> 'm vm" where
  "stress_vm_rand_set info s =
     (let (w, z, s) = vm_reseed info (vm_enter s); (b, s) = rand_fill info (vm_seed w z s)
      in if b then vm_abort s
         else let (_, s) = rand_check info (\<lambda>_ v. v) (vm_seed w z (inject_random_bit_errors info s))
              in vm_finish info s)"

definition stress_vm_ror :: "'m vm_info \<Rightarrow> 'm vm \<Rightarrow> nat \<times> 'm vm" where
  "stress_vm_ror info s =
     (let (w, z, s) = vm_reseed info (vm_enter s); (b, s) = rand_fill info (vm_seed w z s)
      in if b then vm_abort s
         else let (b, s) = change_all info shim_ror8 s
              in if b then vm_abort s
                 else let (_, s) = rand_check info (\<lambda>_. shim_ror8) (vm_seed w z (inject_random_bit_errors info s))
                      in vm_finish info s)"

definition stress_vm_flip :: "'m vm_info \<Rightarrow> 'm vm \<Rightarrow> nat \<times> 'm vm" where
  "stress_vm_flip info s =
     (let (w, z, s) = vm_reseed info (vm_enter s);
          (b, s) = vm_each 8 (vi_sz info)
            (\<lambda>i s. let (v, s) = with_mwc stress_mwc8 s
                  in vm_done info (vm_count 1 (puts info (eight i (\<lambda>j. (shim_ror8 ^^ j) v)) s))) 0 (vm_seed w z s)
      in if b then vm_abort s
         else let (b, _, s) = vm_for 1 8
                    (\<lambda>i (bt, s). let bt = shim_ror8 bt; (b, s) = change_all info (\<lambda>x. x XOR bt) s in (b, bt, s)) 0 (0x03, s)
              in if b then vm_abort s
                 else let (_, s) = rand_check info (\<lambda>j. shim_ror8 ^^ j) (vm_seed w z (inject_random_bit_errors info s))
                      in vm_finish info s)"

section \<open>Ones and zeros\<close>

definition count_ones :: "'w::len word \<Rightarrow> 'w word \<Rightarrow> nat" where
  "count_ones x v = stress_vm_count_bits x"

definition count_zeros :: "'w::len word \<Rightarrow> 'w word \<Rightarrow> nat" where
  "count_zeros x v = stress_vm_count_bits (NOT x)"

definition eight_words :: "nat \<Rightarrow> u64 \<Rightarrow> (nat \<times> u64) list" where
  "eight_words i v = map (\<lambda>j. (i + 8 * j, v)) [0..<8]"

definition words_check :: "'m vm_info \<Rightarrow> (u64 \<Rightarrow> u64 \<Rightarrow> nat) \<Rightarrow> u64 \<Rightarrow> 'm vm \<Rightarrow> bool \<times> 'm vm" where
  "words_check info wt v = vm_each 64 (vi_sz info) (\<lambda>i s. vm_halt info (checks info wt (eight_words i v) s)) 0"

definition stress_vm_one_zero :: "'m vm_info \<Rightarrow> 'm vm \<Rightarrow> nat \<times> 'm vm" where
  "stress_vm_one_zero info s =
     (let k = of_nat (vi_sz info) div 8;
          s = vm_count k (inject_random_bit_errors info (vm_memset info 0xff (vm_enter s)));
          (b, s) = words_check info count_zeros (NOT 0) s
      in if b then vm_abort s
         else let s = vm_count k (inject_random_bit_errors info (vm_memset info 0x00 s));
                  (_, s) = words_check info count_ones 0 s
              in vm_finish info s)"

definition stress_vm_zero_one :: "'m vm_info \<Rightarrow> 'm vm \<Rightarrow> nat \<times> 'm vm" where
  "stress_vm_zero_one info s =
     (let k = of_nat (vi_sz info) div 8;
          s = vm_count k (inject_random_bit_errors info (vm_memset info 0x00 (vm_enter s)));
          (b, s) = words_check info count_ones 0 s
      in if b then vm_abort s
         else let s = vm_count k (inject_random_bit_errors info (vm_memset info 0xff s));
                  (_, s) = words_check info count_zeros (NOT 0) s
              in vm_finish info s)"

section \<open>Galloping patterns\<close>

text \<open>
  Random bytes are drawn until one still has its first value \<open>free\<close>; nothing bounds the number of
  draws, and \<open>None\<close> is a search that does not end.
\<close>

partial_function (option) galpat_pick ::
    "'m vm_info \<Rightarrow> u8 \<Rightarrow> (u8 \<Rightarrow> u8 \<Rightarrow> u8) \<Rightarrow> 'm vm \<Rightarrow> 'm vm option" where
  "galpat_pick info free f s =
     (let (offset, s) = with_mwc (stress_mwc64modn (of_nat (vi_sz info))) s; (r, s) = with_mwc stress_mwc32 s;
          bt = unat (r AND 3)
      in if hw_read (vi_hw info) (vm_mem s) (unat offset) = free
         then Some (change info (\<lambda>x. f x (push_bit bt 1)) (unat offset) s)
         else galpat_pick info free f s)"

primrec galpat_picks :: "'m vm_info \<Rightarrow> u8 \<Rightarrow> (u8 \<Rightarrow> u8 \<Rightarrow> u8) \<Rightarrow> nat \<Rightarrow> 'm vm \<Rightarrow> 'm vm option" where
  "galpat_picks info free f 0 s = Some s"
| "galpat_picks info free f (Suc k) s =
     (case galpat_pick info free f s of None \<Rightarrow> None | Some s \<Rightarrow> galpat_picks info free f k s)"

definition galpat ::
    "u8 \<Rightarrow> (u8 \<Rightarrow> u8 \<Rightarrow> u8) \<Rightarrow> (u64 \<Rightarrow> nat) \<Rightarrow> 'm vm_info \<Rightarrow> 'm vm \<Rightarrow> (nat \<times> 'm vm) option" where
  "galpat free f bits info s =
     (let bits_bad = vi_sz info div 4096; s = vm_memset info free (vm_enter s);
          s = s\<lparr>vm_mwc := vi_reseed info (vm_mwc s)\<rparr>
      in case galpat_picks info free f bits_bad s of
           None \<Rightarrow> None
         | Some s \<Rightarrow>
             let s = inject_random_bit_errors info s;
                 (b, bits_set, s) = vm_for 64 (vi_sz info)
                   (\<lambda>i (bits_set, s).
                      let bits_set = bits_set + sum_list (map (\<lambda>j. bits (load (vi_hw info) (vm_mem s) (i + 8 * j))) [0..<8]);
                          (b, s) = vm_halt info (vm_count 1 s)
                      in (b, bits_set, s)) 0 (0, s);
                 s = (if b then s
                      else stress_vm_check info (s\<lparr>vm_errs := vm_errs s +
                        (if bits_set > bits_bad then bits_set - bits_bad else bits_bad - bits_set)\<rparr>));
                 s = (if vm_full info s then s\<lparr>vm_c := vi_max_ops info\<rparr> else s)
             in Some (vm_abort s))"

definition stress_vm_galpat_zero :: "'m vm_info \<Rightarrow> 'm vm \<Rightarrow> (nat \<times> 'm vm) option" where
  "stress_vm_galpat_zero = galpat 0x00 (\<lambda>x b. x OR b) stress_vm_count_bits"

definition stress_vm_galpat_one :: "'m vm_info \<Rightarrow> 'm vm \<Rightarrow> (nat \<times> 'm vm) option" where
  "stress_vm_galpat_one = galpat 0xff (\<lambda>x b. x AND NOT b) (\<lambda>x. stress_vm_count_bits (NOT x))"

section \<open>Random words\<close>

definition sum_words :: "nat \<Rightarrow> mwc \<Rightarrow> (nat \<times> u64) list \<times> mwc" where
  "sum_words i m = (let (vs, m) = draws stress_mwc64 8 m in (zip (map (\<lambda>j. i + 8 * j) [0..<8]) vs, m))"

text \<open>The pointer to words moves by \<open>64\<close> words a turn.\<close>

definition stress_vm_rand_sum :: "'m vm_info \<Rightarrow> 'm vm \<Rightarrow> nat \<times> 'm vm" where
  "stress_vm_rand_sum info s =
     (let (w, z, s) = vm_reseed info (vm_enter s);
          (b, s) = vm_each 512 (vi_sz info)
            (\<lambda>i s. let (ws, s) = with_mwc (sum_words i) s in vm_done info (vm_count 1 (puts info ws s))) 0 (vm_seed w z s)
      in if b then vm_abort s
         else let s = vm_seed w z (inject_random_bit_errors info s);
                  (_, s) = vm_each 512 (vi_sz info)
                    (\<lambda>i s. let (ws, s) = with_mwc (sum_words i) s in vm_halt info (checks info bits_differ ws s)) 0 s
              in vm_finish info s)"

definition lfsr_next :: "u32 \<Rightarrow> u32" where
  "lfsr_next l = drop_bit 1 l XOR (- (l AND 1) AND 0xd0000001)"

definition lfsr_words :: "nat \<Rightarrow> u32 \<Rightarrow> (nat \<times> u32) list" where
  "lfsr_words i l = map (\<lambda>j. (i + 4 * j, (lfsr_next ^^ j) l)) [0..<8]"

text \<open>The pointer to words of 32 bits moves by \<open>32\<close> words a turn.\<close>

definition stress_vm_lfsr32 :: "'m vm_info \<Rightarrow> 'm vm \<Rightarrow> nat \<times> 'm vm" where
  "stress_vm_lfsr32 info s =
     (let s = vm_enter s;
          (b, _, s) = vm_for 128 (vi_sz info)
            (\<lambda>i (l, s). let (b, s) = vm_done info (vm_count 1 (puts info (lfsr_words i l) s))
                       in (b, (lfsr_next ^^ 8) l, s)) 0 (0xf63acb01, s)
      in if b then vm_abort s
         else let s = inject_random_bit_errors info s;
                  (_, _, s) = vm_for 128 (vi_sz info)
                    (\<lambda>i (l, s). let (b, s) = vm_halt info (checks info bits_differ (lfsr_words i l) s)
                               in (b, (lfsr_next ^^ 8) l, s)) 0 (0xf63acb01, s)
              in vm_finish info s)"

text \<open>Words of 64 bits filled, inverted and checked upwards, then filled and inverted downwards.\<close>

definition stress_vm_moving_inversion :: "'m vm_info \<Rightarrow> 'm vm \<Rightarrow> nat \<times> 'm vm" where
  "stress_vm_moving_inversion info s =
     (let n = vi_sz info; k = of_nat n div 8;
          (w, z, s) = vm_reseed info (vm_enter s);
          end = (\<lambda>s. vm_finish info (if vm_full info s then s\<lparr>vm_c := vi_max_ops info\<rparr> else s));
          fill = (\<lambda>i s. let (v, s) = with_mwc stress_mwc64 s in (False, puts info [(i, v)] s));
          invert = (\<lambda>i s. let (v, s) = with_mwc stress_mwc64 s
                         in (False, puts info [(i, NOT v)] (checks info differ [(i, v)] s)));
          verify = (\<lambda>i s. let (v, s) = with_mwc stress_mwc64 s in (False, checks info differ [(i, NOT v)] s));
          (_, s) = vm_each 8 n fill 0 (vm_seed w z s);
          (_, s) = vm_each 8 n invert 0 ((vm_seed w z s)\<lparr>vm_errs := 0\<rparr>);
          (b, s) = vm_done info (vm_count k s)
      in if b then end s
         else let s = vm_seed w z (inject_random_bit_errors info s);
                  (_, s) = vm_each 8 n verify 0 (s\<lparr>vm_errs := 0\<rparr>);
                  (b, s) = vm_done info (vm_count k s)
              in if b then end s
                 else let (_, s) = vm_each 8 n (\<lambda>i. fill (n - 8 - i)) 0 (vm_seed w z s);
                          (b, s) = vm_halt info s
                      in if b then end s
                         else let s = vm_seed w z (inject_random_bit_errors info s);
                                  (_, s) = vm_each 8 n (\<lambda>i. invert (n - 8 - i)) 0 s;
                                  (b, s) = vm_done info (vm_count k s)
                              in if b then end s
                                 else let (_, s) = vm_each 8 n (\<lambda>i. verify (n - 8 - i)) 0 (vm_seed w z s);
                                          (_, s) = vm_done info (vm_count k s)
                                      in end s)"

section \<open>Prime steps\<close>

text \<open>
  The four methods that step by 61 bytes from an offset that moves on with each call: the first
  value, the change of turn \<open>i\<close> of eight, what a byte counts at the end and the offset.
\<close>

primrec prime_rounds :: "'m vm_info \<Rightarrow> (nat \<Rightarrow> u8 \<Rightarrow> u8) \<Rightarrow> nat \<Rightarrow> nat list \<Rightarrow> 'm vm \<Rightarrow> bool \<times> 'm vm" where
  "prime_rounds info f offset [] s = (False, s)"
| "prime_rounds info f offset (r # rs) s =
     (let (b, s) = vm_each 61 (vi_sz info)
            (\<lambda>i s. let s = vm_count 1 (change info (f r) i s) in (vm_full info s, s)) offset s
      in if b then (True, s)
         else let (b, s) = vm_halt info s in if b then (True, s) else prime_rounds info f offset rs s)"

definition prime_walk ::
    "u8 \<Rightarrow> (nat \<Rightarrow> u8 \<Rightarrow> u8) \<Rightarrow> (u8 \<Rightarrow> u8 \<Rightarrow> nat) \<Rightarrow> u8 \<Rightarrow> (vm_statics \<Rightarrow> nat) \<Rightarrow> (nat \<Rightarrow> vm_statics \<Rightarrow> vm_statics) \<Rightarrow>
     'm vm_info \<Rightarrow> 'm vm \<Rightarrow> nat \<times> 'm vm" where
  "prime_walk first f wt last_val get put_offset info s =
     (let s = vm_enter s; offset = get (vm_static s)
      in if (of_nat (vi_sz info) :: u64) > push_bit 63 1 then (0, s)
         else let (_, s) = vm_each 61 (vi_sz info) (\<lambda>i s. (False, puts info [(i, first)] s)) offset s;
                  (b, s) = prime_rounds info f offset [0..<8] s;
                  s = (if b then s
                       else let (_, s) = vm_each 61 (vi_sz info)
                              (\<lambda>i s. (False, checks info wt [(i, last_val)] s)) offset (inject_random_bit_errors info s)
                            in stress_vm_check info s);
                  offset = offset + 1; offset = (if offset \<ge> 61 then 0 else offset)
              in vm_abort (s\<lparr>vm_static := put_offset offset (vm_static s)\<rparr>))"

text \<open>\<open>8 - stress_vm_count_bits8(x)\<close>.\<close>

definition count_clear8 :: "u8 \<Rightarrow> u8 \<Rightarrow> nat" where
  "count_clear8 x v = 8 - stress_vm_count_bits8 x"

definition count_set8 :: "u8 \<Rightarrow> u8 \<Rightarrow> nat" where
  "count_set8 x v = stress_vm_count_bits8 x"

definition stress_vm_prime_zero :: "'m vm_info \<Rightarrow> 'm vm \<Rightarrow> nat \<times> 'm vm" where
  "stress_vm_prime_zero =
     prime_walk 0xff (\<lambda>i x. x AND NOT (push_bit i 1)) count_set8 0 prime_zero_offset (\<lambda>k st. st\<lparr>prime_zero_offset := k\<rparr>)"

definition stress_vm_prime_one :: "'m vm_info \<Rightarrow> 'm vm \<Rightarrow> nat \<times> 'm vm" where
  "stress_vm_prime_one =
     prime_walk 0x00 (\<lambda>i x. x OR push_bit i 1) count_clear8 0xff prime_one_offset (\<lambda>k st. st\<lparr>prime_one_offset := k\<rparr>)"

definition stress_vm_prime_gray_zero :: "'m vm_info \<Rightarrow> 'm vm \<Rightarrow> nat \<times> 'm vm" where
  "stress_vm_prime_gray_zero =
     prime_walk 0xff (\<lambda>i x. x AND gray (of_nat i)) count_set8 0
       prime_gray_zero_offset (\<lambda>k st. st\<lparr>prime_gray_zero_offset := k\<rparr>)"

definition stress_vm_prime_gray_one :: "'m vm_info \<Rightarrow> 'm vm \<Rightarrow> nat \<times> 'm vm" where
  "stress_vm_prime_gray_one =
     prime_walk 0x00 (\<lambda>i x. x OR NOT (gray (of_nat i))) count_clear8 0xff
       prime_gray_one_offset (\<lambda>k st. st\<lparr>prime_gray_one_offset := k\<rparr>)"

section \<open>Plain writes and reads\<close>

text \<open>
  The loop over \<open>n\<close> blocks counts them in \<open>i\<close>; it reads the continue flag before it looks at
  \<open>max_ops\<close>.
\<close>

definition block_loop :: "'m vm_info \<Rightarrow> nat \<Rightarrow> (nat \<Rightarrow> 'm vm \<Rightarrow> 'm vm) \<Rightarrow> 'm vm \<Rightarrow> 'm vm" where
  "block_loop info n f s =
     (let (_, k, s) = vm_for 1 n
            (\<lambda>i (k, s). let k = k + 1; (b, s) = vm_halt info (f i s)
                       in (b \<or> vi_max_ops info \<noteq> 0 \<and> k \<ge> vi_max_ops info, k, s)) 0 (0 :: u64, s)
      in s\<lparr>vm_bogo := vm_bogo s + k\<rparr>)"

definition stress_vm_write64 :: "'m vm_info \<Rightarrow> 'm vm \<Rightarrow> nat \<times> 'm vm" where
  "stress_vm_write64 info s =
     (let v = write64_val (vm_static s);
          s = block_loop info (vi_sz info div 256) (\<lambda>i. puts info (map (\<lambda>j. (256 * i + 8 * j, v)) [0..<32])) s
      in (0, s\<lparr>vm_static := (vm_static s)\<lparr>write64_val := v + 1\<rparr>\<rparr>))"

definition stress_vm_read64 :: "'m vm_info \<Rightarrow> 'm vm \<Rightarrow> nat \<times> 'm vm" where
  "stress_vm_read64 info s = (0, block_loop info (vi_sz info div 256) (\<lambda>i s. s) s)"

definition VM_ROWHAMMER_LOOPS :: u64 where "VM_ROWHAMMER_LOOPS = 1000000"

text \<open>The hammering only reads and flushes the two places that are picked.\<close>

definition stress_vm_rowhammer :: "'m vm_info \<Rightarrow> 'm vm \<Rightarrow> nat \<times> 'm vm" where
  "stress_vm_rowhammer info s =
     (let s = s\<lparr>vm_errs := 0\<rparr>; n = vi_sz info div 4; v = rowhammer_val (vm_static s)
      in if n = 0 then (0, s)
         else let (_, s) = vm_each 1 n (\<lambda>j s. (False, puts info [(4 * j, v)] s)) 0 s;
                  (_, s) = with_mwc (stress_mwc64modn (of_nat n)) s;
                  (_, s) = with_mwc (stress_mwc64modn (of_nat n)) s;
                  (_, s) = vm_each 1 n (\<lambda>j s. (False, checks info differ [(4 * j, v)] s)) 0 s;
                  s = s\<lparr>vm_bogo := vm_bogo s + VM_ROWHAMMER_LOOPS,
                    vm_static := (vm_static s)\<lparr>rowhammer_val := drop_bit 31 v OR push_bit 1 v\<rparr>\<rparr>
              in (vm_errs s, stress_vm_check info s))"

section \<open>Scans, stripes and lines\<close>

definition mscan_loop :: "'m vm_info \<Rightarrow> (u8 \<Rightarrow> u8) list \<Rightarrow> 'm vm \<Rightarrow> bool \<times> nat \<times> 'm vm" where
  "mscan_loop info fs s =
     vm_for 1 (vi_sz info)
       (\<lambda>i (_, s). let (b, s) = vm_halt info (fold (\<lambda>f. change info f i) fs s)
                  in if b \<or> vm_full info s then (True, i, s) else (False, i + 1, vm_count 1 s)) 0 (0, s)"

text \<open>The local of the loop is where the pointer stops; the bytes before it are checked.\<close>

definition stress_vm_mscan :: "'m vm_info \<Rightarrow> 'm vm \<Rightarrow> nat \<times> 'm vm" where
  "stress_vm_mscan info s =
     (let s = vm_enter s;
          (_, stop, s) = mscan_loop info (map (\<lambda>k x. x OR push_bit k 1) [0..<8]) s;
          s = s\<lparr>vm_bogo := vm_bogo s + vm_c s\<rparr>;
          (_, s) = vm_each 1 stop (\<lambda>i s. (False, checks info count_clear8 [(i, 0xff)] s)) 0 s;
          (b, _, s) = mscan_loop info (map (\<lambda>k x. x AND NOT (push_bit k 1)) [0..<8]) s
      in if b then vm_finish info s
         else let s = s\<lparr>vm_bogo := vm_bogo s + vm_c s\<rparr>;
                  (_, s) = vm_each 1 (vi_sz info) (\<lambda>i s. (False, checks info count_set8 [(i, 0)] s)) 0 s
              in vm_finish info s)"

text \<open>Place and value of the bytes of a stripe of 64, from both ends to the middle.\<close>

definition stripe_words :: "nat \<Rightarrow> (nat \<times> u8) list" where
  "stripe_words i =
     concat (map (\<lambda>k. [(i + k, 0xa0 + of_nat k), (i + 0x3f - k, 0xcf - of_nat k)]) [0..<16])
     @ concat (map (\<lambda>k. [(i + 0x10 + k, 0x50 + of_nat k), (i + 0x2f - k, 0x3f - of_nat k)]) [0..<16])"

definition stress_vm_cache_stripe :: "'m vm_info \<Rightarrow> 'm vm \<Rightarrow> nat \<times> 'm vm" where
  "stress_vm_cache_stripe info s =
     (let (b, s) = vm_each 64 (vi_sz info) (\<lambda>i s. vm_done info (vm_count 1 (puts info (stripe_words i) s))) 0 (vm_enter s)
      in if b then vm_abort s
         else let (_, s) = vm_each 64 (vi_sz info) (\<lambda>i s. (False, checks info differ (stripe_words i) s)) 0 s
              in vm_finish info (inject_random_bit_errors info s))"

definition stress_vm_cache_lines :: "'m vm_info \<Rightarrow> 'm vm \<Rightarrow> nat \<times> 'm vm" where
  "stress_vm_cache_lines info s =
     (let s = vm_enter s; n = vi_sz info; line = vi_line info; offset = cache_lines_offset (vm_static s);
          (_, _, s) = vm_for line n (\<lambda>i (v, s). (False, v + 1, puts info [(i, v)] s)) offset (0 :: u8, s);
          (b, s) = vm_done info (vm_count (of_nat (n div line)) s);
          s = (if b then s
               else let (_, _, s) = vm_for line n
                          (\<lambda>i (v, s). (False, v + 1, checks info differ [(i, v)] s)) offset (0 :: u8, s)
                    in stress_vm_check info (inject_random_bit_errors info s))
      in vm_abort (s\<lparr>vm_static := (vm_static s)\<lparr>cache_lines_offset := (offset + 1) mod 64\<rparr>\<rparr>))"

text \<open>Four words of 128 bits a turn, written four times over and read four times over.\<close>

definition quad_words :: "nat \<Rightarrow> u128 \<Rightarrow> (nat \<times> u128) list" where
  "quad_words i v = [(i, v), (i + 16, v + 1), (i + 32, v + 2), (i + 48, v + 3)]"

definition stress_vm_wrrd128nt :: "'m vm_info \<Rightarrow> 'm vm \<Rightarrow> nat \<times> 'm vm" where
  "stress_vm_wrrd128nt info s =
     (let (_, _, s) = vm_for 64 (vi_sz info)
            (\<lambda>i (v, s). (False, v + 1, vm_count 1 (puts info (concat (replicate 4 (quad_words i v))) s))) 0 (0, vm_enter s);
          (b, s) = vm_done info s
      in if b then vm_abort s
         else let (_, _, s) = vm_for 64 (vi_sz info)
                    (\<lambda>i (v, s). (False, v + 1, checks info differ (concat (replicate 4 (quad_words i v))) s)) 0 (0, s)
              in vm_finish info (inject_random_bit_errors info s))"

text \<open>The even bytes from the front and the odd bytes from the back.\<close>

definition fwdrev_words :: "nat \<Rightarrow> u32 \<Rightarrow> nat \<Rightarrow> (nat \<times> u8) list" where
  "fwdrev_words n rnd i =
     concat (map (\<lambda>k. [(i + 4 * k, ucast rnd), (n - i - (4 * k + 1), ucast (drop_bit 8 rnd)),
       (i + 4 * k + 2, ucast (drop_bit 16 rnd)), (n - i - (4 * k + 3), ucast (drop_bit 24 rnd))]) [0..<4])"

definition stress_vm_fwdrev :: "'m vm_info \<Rightarrow> 'm vm \<Rightarrow> nat \<times> 'm vm" where
  "stress_vm_fwdrev info s =
     (let n = vi_sz info; (rnd, s) = with_mwc stress_mwc32 (vm_enter s);
          (b, s) = vm_each 16 n (\<lambda>i s. vm_done info (vm_count 1 (puts info (fwdrev_words n rnd i) s))) 0 s
      in if b then vm_abort s
         else let (b, s) = vm_each 16 n
                    (\<lambda>i s. vm_done info (vm_count 1 (checks info differ (fwdrev_words n rnd i) s))) 0 s
              in if b then vm_abort s else vm_finish info s)"

section \<open>Checkerboard\<close>

definition board :: "u64 list" where
  "board = [0x5555aaaa5555aaaa, 0xaaaa5555aaaa5555, 0x5a5a5a5a5a5a5a5a, 0xa5a5a5a5a5a5a5a5,
     0x55aa55aa55aa55aa, 0xaa55aa55aa55aa55, 0x5a5a5a5a5a5a5a5a, 0xa5a5a5a5a5a5a5a5]"

text \<open>The words \<open>v0\<close> to \<open>v7\<close> in their order, and with each pair exchanged.\<close>

definition board_words :: "nat \<Rightarrow> (nat \<times> u64) list" where
  "board_words i = map (\<lambda>j. (i + 8 * j, board ! j)) [0..<8]"

definition swapped_words :: "nat \<Rightarrow> (nat \<times> u64) list" where
  "swapped_words i = map (\<lambda>j. (i + 8 * j, board ! (if even j then j + 1 else j - 1))) [0..<8]"

definition STRESS_VM_CHECKERBOARD_SWAP :: "'m vm_info \<Rightarrow> nat \<Rightarrow> nat \<Rightarrow> 'm vm \<Rightarrow> 'm vm" where
  "STRESS_VM_CHECKERBOARD_SWAP info p1 p2 s =
     (let hw = vi_hw info; tmp = (load hw (vm_mem s) p1 :: u64); m = store hw p1 (load hw (vm_mem s) p2 :: u64) (vm_mem s)
      in s\<lparr>vm_mem := store hw p2 tmp m\<rparr>)"

definition stress_vm_checkerboard :: "'m vm_info \<Rightarrow> 'm vm \<Rightarrow> nat \<times> 'm vm" where
  "stress_vm_checkerboard info s =
     (let n = vi_sz info;
          (b, s) = vm_each 64 n
            (\<lambda>i s. let (b, s) = vm_halt info s
                  in if b then (True, s) else (False, puts info (board_words i) (puts info (swapped_words i) s))) 0 (vm_enter s)
      in if b then (0, s)
         else let (_, s) = vm_each 64 n
                    (\<lambda>i s. let (b, s) = vm_halt info s
                          in if b then (True, s)
                             else (False, fold (\<lambda>j. STRESS_VM_CHECKERBOARD_SWAP info (i + 16 * j) (i + 16 * j + 8)) [0..<4] s)) 0 s;
                  s = inject_random_bit_errors info s;
                  (b, ret, s) = vm_for 64 n
                    (\<lambda>i (_, s). let (b, s) = vm_halt info s
                               in if b then (True, True, s)
                                  else let s = vm_count 1 (checks info differ (swapped_words i) s)
                                       in (vm_full info s, False, s)) 0 (False, s)
              in if ret then (0, s) else vm_finish info s)"

section \<open>Modulo\<close>

text \<open>\<open>for (j = a; j < b && ptr < end; j++, c++) *ptr++ = compliment\<close>, with the number of turns left.\<close>

primrec modulo_run :: "'m vm_info \<Rightarrow> u8 \<Rightarrow> nat \<Rightarrow> nat \<Rightarrow> 'm vm \<Rightarrow> nat \<times> 'm vm" where
  "modulo_run info v 0 ptr s = (ptr, s)"
| "modulo_run info v (Suc k) ptr s =
     (if ptr < vi_sz info then modulo_run info v k (ptr + 1) (vm_count 1 (puts info [(ptr, v)] s)) else (ptr, s))"

lemma modulo_run_ptr: "ptr \<le> fst (modulo_run info v k ptr s)"
  by (induction k arbitrary: ptr s) (auto intro: Suc_leD)

text \<open>One turn of the loop over the blocks: whether it goes to the end and where the pointer is.\<close>

definition modulo_block :: "'m vm_info \<Rightarrow> u8 \<Rightarrow> nat \<Rightarrow> nat \<Rightarrow> 'm vm \<Rightarrow> bool \<times> nat \<times> 'm vm" where
  "modulo_block info v i ptr s =
     (let (ptr, s) = modulo_run info v i ptr s; (b, s) = vm_halt info s
      in if b then (True, ptr, s)
         else let (ptr, s) = modulo_run info v (22 - i) (ptr + 1) s; (b, s) = vm_halt info s in (b, ptr, s))"

lemma modulo_block_ptr: "ptr \<le> fst (snd (modulo_block info v i ptr s))"
  using modulo_run_ptr [of ptr info v i s]
    modulo_run_ptr [of "fst (modulo_run info v i ptr s) + 1" info v "22 - i" "snd (vm_halt info (snd (modulo_run info v i ptr s)))"]
  by (auto simp: modulo_block_def Let_def case_prod_beta)

text \<open>The loop over the blocks adds the stride to the pointer that the turn has moved already.\<close>

function modulo_blocks :: "'m vm_info \<Rightarrow> u8 \<Rightarrow> nat \<Rightarrow> nat \<Rightarrow> 'm vm \<Rightarrow> bool \<times> 'm vm" where
  "modulo_blocks info v i ptr s =
     (if ptr < vi_sz info
      then let r = modulo_block info v i ptr s
           in if fst r then (True, snd (snd r)) else modulo_blocks info v i (fst (snd r) + 23) (snd (snd r))
      else (False, s))"
  by pat_completeness auto
termination
proof (relation "measure (\<lambda>(info, v, i, ptr, s). vi_sz info - ptr)")
  fix info :: "'a vm_info" and v i ptr s r
  assume "ptr < vi_sz info" "r = modulo_block info v i ptr s"
  then show "((info, v, i, fst (snd r) + 23, snd (snd r)), info, v, i, ptr, s)
      \<in> measure (\<lambda>(info, v, i, ptr, s). vi_sz info - ptr)"
    using modulo_block_ptr [of ptr info v i s] by simp
qed simp

declare modulo_blocks.simps [simp del]

text \<open>A turn for byte \<open>i\<close> of every block; the local says that the method returns at once.\<close>

definition modulo_turn :: "'m vm_info \<Rightarrow> u8 \<Rightarrow> nat \<Rightarrow> bool \<times> 'm vm \<Rightarrow> bool \<times> bool \<times> 'm vm" where
  "modulo_turn info pattern i r =
     (let (_, s) = vm_each 23 (vi_sz info) (\<lambda>p s. (False, puts info [(p, pattern)] s)) i (snd r); (b, s) = vm_halt info s
      in if b then (True, True, s)
         else let (b, s) = modulo_blocks info (NOT pattern) i 0 s
              in if b then (True, True, s)
                 else let s = inject_random_bit_errors info s;
                          (_, s) = vm_each 23 (vi_sz info) (\<lambda>p s. (False, checks info differ [(p, pattern)] s)) i s;
                          (b, s) = vm_halt info s
                      in (b \<or> vm_full info s, False, s))"

definition stress_vm_modulo_x :: "'m vm_info \<Rightarrow> 'm vm \<Rightarrow> nat \<times> 'm vm" where
  "stress_vm_modulo_x info s =
     (let s = vm_enter s; s = s\<lparr>vm_mwc := vi_reseed info (vm_mwc s)\<rparr>; (pattern, s) = with_mwc stress_mwc8 s;
          (_, ret, s) = vm_for 1 23 (modulo_turn info pattern) 0 (False, s)
      in if ret then vm_abort s
         else vm_finish info (if vm_full info s then s\<lparr>vm_c := vi_max_ops info\<rparr> else s))"

section \<open>The table\<close>

definition returns :: "('m vm_info \<Rightarrow> 'm vm \<Rightarrow> nat \<times> 'm vm) \<Rightarrow> 'm vm_info \<Rightarrow> 'm vm \<Rightarrow> (nat \<times> 'm vm) option" where
  "returns f info s = Some (f info s)"

text \<open>The methods after the first entry, without those that only some machines have.\<close>

definition vm_tests :: "(string \<times> ('m vm_info \<Rightarrow> 'm vm \<Rightarrow> (nat \<times> 'm vm) option)) list" where
  "vm_tests = [
     (''cache-lines'', returns stress_vm_cache_lines), (''cache-stripe'', returns stress_vm_cache_stripe),
     (''checkerboard'', returns stress_vm_checkerboard), (''flip'', returns stress_vm_flip),
     (''fwdrev'', returns stress_vm_fwdrev), (''galpat-0'', stress_vm_galpat_zero), (''galpat-1'', stress_vm_galpat_one),
     (''gray'', returns stress_vm_gray), (''grayflip'', returns stress_vm_grayflip), (''incdec'', returns stress_vm_incdec),
     (''inc-nybble'', returns stress_vm_inc_nybble), (''lfsr32'', returns stress_vm_lfsr32),
     (''modulo-x'', returns stress_vm_modulo_x), (''move-inv'', returns stress_vm_moving_inversion),
     (''mscan'', returns stress_vm_mscan), (''one-zero'', returns stress_vm_one_zero),
     (''prime-0'', returns stress_vm_prime_zero), (''prime-1'', returns stress_vm_prime_one),
     (''prime-gray-0'', returns stress_vm_prime_gray_zero), (''prime-gray-1'', returns stress_vm_prime_gray_one),
     (''prime-incdec'', returns stress_vm_prime_incdec), (''rand-set'', returns stress_vm_rand_set),
     (''rand-offset'', returns stress_vm_rand_offset), (''rand-sum'', returns stress_vm_rand_sum),
     (''read64'', returns stress_vm_read64), (''ror'', returns stress_vm_ror), (''rowhammer'', returns stress_vm_rowhammer),
     (''swap'', returns stress_vm_swap), (''walk-0a'', returns stress_vm_walking_zero_addr),
     (''walk-0d'', returns stress_vm_walking_zero_data), (''walk-1a'', returns stress_vm_walking_one_addr),
     (''walk-1d'', returns stress_vm_walking_one_data), (''walk-flush'', returns stress_vm_walking_flush_data),
     (''write64'', returns stress_vm_write64), (''wrrd128nt'', returns stress_vm_wrrd128nt),
     (''zero-one'', returns stress_vm_zero_one)]"

text \<open>\<open>stress_vm_all\<close> calls the methods in turn; its static index starts at one and goes back to one.\<close>

definition stress_vm_all :: "'m vm_info \<Rightarrow> 'm vm \<Rightarrow> (nat \<times> 'm vm) option" where
  "stress_vm_all info s =
     (let i = vm_all_i (vm_static s)
      in case snd (vm_tests ! (i - 1)) info s of
           None \<Rightarrow> None
         | Some (e, s) \<Rightarrow>
             let i = i + 1; i = (if i \<ge> 1 + length (vm_tests :: (string \<times> ('m vm_info \<Rightarrow> _)) list) then 1 else i)
             in Some (e, s\<lparr>vm_static := (vm_static s)\<lparr>vm_all_i := i\<rparr>\<rparr>))"

definition vm_methods :: "(string \<times> ('m vm_info \<Rightarrow> 'm vm \<Rightarrow> (nat \<times> 'm vm) option)) list" where
  "vm_methods = (''all'', stress_vm_all) # vm_tests"

end
