(* ===== verification/Vm_Rules.thy ===== *)
theory Vm_Rules
  imports Vm_Methods
begin

text \<open>
  Rules for the loops of the \<open>vm\<close> methods (src/stress-vm.c): what follows a loop may use what its pass
  promises.  A fill leaves its words in memory, a scan of words that are there counts nothing, a
  change maps the bytes it visits.  The locale \<open>vm_buffer\<close> is a buffer of memory that works, \<open>vm_run\<close> a
  run on it with no injected errors; \<open>silent\<close> is what its methods are shown to be.
\<close>

section \<open>Loops\<close>

lemma vm_finish_fst [simp]: "fst (vm_finish info s) = vm_errs s"
  by (simp add: vm_finish_def vm_abort_def stress_vm_check_def)

text \<open>Loops without a variable of their own.\<close>

lemma vm_each_scan:
  assumes "\<And>i s. case body i s of (b, t) \<Rightarrow>
      vm_mem t = vm_mem s \<and> vm_static t = vm_static s \<and> vm_fails t = vm_fails s \<and> vm_bogo t = vm_bogo s
      \<and> (vm_errs t = vm_errs s + errors wt hw (ps i (loc s)) (vm_mem s) \<or> b \<and> vm_errs t = vm_errs s)
      \<and> (\<not> b \<longrightarrow> loc t = nxt (loc s))"
  shows "scans hw wt ps nxt (loc \<circ> snd) (\<lambda>i (u :: unit, s). let (b, s) = body i s in (b, u, s))"
  unfolding scans_def using assms by (fastforce split: prod.splits)

context sound_memory
begin

text \<open>What follows a loop may use what the loop promises.\<close>

lemma fill_rule:
  fixes ps :: "nat \<Rightarrow> 'k \<Rightarrow> (nat \<times> 'w::len word) list"
  assumes body: "\<And>i l s. case body i (l, s) of (b, l', t) \<Rightarrow>
      same_local s t \<and> (\<not> b \<longrightarrow> vm_mem t = store_all hw (ps i (loc (l, s))) (vm_mem s) \<and> loc (l', t) = nxt (loc (l, s)))"
    and "within step ps" "8 dvd LENGTH('w)" "0 < step" "step dvd n"
    and rest: "\<And>b l' t. same_local s t \<Longrightarrow>
      (\<not> b \<Longrightarrow> sets hw n (pass_words ps nxt step 0 (loc (l, s)) (n div step)) (vm_mem s) (vm_mem t)) \<Longrightarrow> P (b, l', t)"
  shows "P (vm_for step n body 0 (l, s))"
  using fill_turns [where ps = ps and loc = loc and nxt = nxt and l = l and s = s, OF body assms(2-5)] rest
  by (auto split: prod.splits)

lemma fill_rule_sets:
  fixes ps :: "nat \<Rightarrow> 'k \<Rightarrow> (nat \<times> 'w::len word) list"
  assumes body: "\<And>q l s. i + q * step < k \<Longrightarrow> case body (i + q * step) (l, s) of (b, l', t) \<Rightarrow>
      same_local s t \<and> (\<not> b \<longrightarrow> sets hw n (ps (i + q * step) (loc (l, s))) (vm_mem s) (vm_mem t)
        \<and> loc (l', t) = nxt (loc (l, s)))"
    and "0 < step" "proper n (pass_words ps nxt step i (loc (l, s)) (turns step k i))"
    and rest: "\<And>b l' t. same_local s t \<Longrightarrow>
      (\<not> b \<Longrightarrow> sets hw n (pass_words ps nxt step i (loc (l, s)) (turns step k i)) (vm_mem s) (vm_mem t)) \<Longrightarrow> P (b, l', t)"
  shows "P (vm_for step k body i (l, s))"
proof -
  have "proper n (pass_words ps nxt step i (loc (l, s)) j)" if "j \<le> turns step k i" for j
    using pass_words_split [OF that, of ps nxt step i "loc (l, s)"] assms(3) by auto
  from fill_pass [where n' = k and ps = ps and loc = loc and nxt = nxt and l = l and s = s, OF body assms(2) this]
  show ?thesis using rest by (auto split: prod.splits)
qed

lemma scan_rule:
  assumes "scans hw wt ps nxt loc body" "0 < step"
    and "errors wt hw (pass_words ps nxt step i (loc (l, s)) (turns step k i)) (vm_mem s) = 0"
    and rest: "\<And>b l' t. same_local s t \<Longrightarrow> vm_mem t = vm_mem s \<Longrightarrow> P (b, l', t)"
  shows "P (vm_for step k body i (l, s))"
  using scan_clean [where l = l and s = s, OF assms(1-3)] rest by (auto split: prod.splits)

end

text \<open>Each byte of \<open>A\<close> is changed by \<open>f\<close>, the others stay.\<close>

definition maps :: "'m hw \<Rightarrow> nat \<Rightarrow> nat set \<Rightarrow> (u8 \<Rightarrow> u8) \<Rightarrow> 'm \<Rightarrow> 'm \<Rightarrow> bool" where
  "maps hw n A f m m' \<longleftrightarrow> (\<forall>j < n. hw_read hw m' j = (if j \<in> A then f (hw_read hw m j) else hw_read hw m j))"

lemma maps_empty [simp]: "maps hw n {} f m m"
  by (simp add: maps_def)

lemma maps_Un: "maps hw n A f m m' \<Longrightarrow> maps hw n B f m' m'' \<Longrightarrow> A \<inter> B = {} \<Longrightarrow> maps hw n (A \<union> B) f m m''"
  by (auto simp: maps_def)

text \<open>An invariant of the state alone.\<close>

lemma pair_rule:
  assumes "\<And>j t. i \<le> j \<Longrightarrow> j < k \<Longrightarrow> J t \<Longrightarrow> J (snd (body j t))" "J t" "\<And>b t. J t \<Longrightarrow> P (b, t)"
  shows "P (vm_for step k body i t)"
proof (cases "0 < step")
  case True
  have "case vm_for step k body i t of (b, t) \<Rightarrow> if b then J t else \<exists>j. k \<le> j \<and> i \<le> j \<and> J t"
  proof (rule vm_for_inv [where I = "\<lambda>j t. i \<le> j \<and> J t" and Q = J, OF True])
    fix j t assume "i \<le> j \<and> J t" "j < k"
    then have "J (snd (body j t))" using assms(1) by simp
    then show "case body j t of (b, t) \<Rightarrow> if b then J t else i \<le> j + step \<and> J t"
      using \<open>i \<le> j \<and> J t\<close> by (auto split: prod.splits)
  qed (simp add: assms(2))
  then show ?thesis using assms(3) by (auto split: prod.splits if_splits)
next
  case False
  then show ?thesis using assms(2,3) by (simp add: vm_for.simps)
qed

lemma keep_rule:
  assumes "\<And>j l s. i \<le> j \<Longrightarrow> j < k \<Longrightarrow> J s \<Longrightarrow> J (snd (snd (body j (l, s))))" "J s" "\<And>b l' t. J t \<Longrightarrow> P (b, l', t)"
  shows "P (vm_for step k body i (l, s))"
  by (rule pair_rule [where J = "\<lambda>t. J (snd t)"]) (use assms in auto)

text \<open>The turns change disjoint sets of bytes.\<close>

lemma maps_rule:
  fixes body :: "nat \<Rightarrow> 'l \<times> 'm vm \<Rightarrow> bool \<times> 'l \<times> 'm vm"
  assumes body: "\<And>q l s. i + q * step < k \<Longrightarrow> case body (i + q * step) (l, s) of (b, l', t) \<Rightarrow>
      same_local s t \<and> (\<not> b \<longrightarrow> maps hw n (A (i + q * step)) f (vm_mem s) (vm_mem t))"
    and "\<And>q. A (i + q * step) \<subseteq> {i + q * step..<i + Suc q * step}" "0 < step"
    and rest: "\<And>b l' t. same_local s t \<Longrightarrow>
      (\<not> b \<Longrightarrow> maps hw n (\<Union>q<turns step k i. A (i + q * step)) f (vm_mem s) (vm_mem t)) \<Longrightarrow> P (b, l', t)"
  shows "P (vm_for step k body i (l, s))"
proof -
  let ?I = "\<lambda>q (l', t). same_local s t \<and> maps hw n (\<Union>r<q. A (i + r * step)) f (vm_mem s) (vm_mem t)"
  have "case vm_for step k body i (l, s) of (b, t) \<Rightarrow> if b then same_local s (snd t) else ?I (turns step k i) t"
  proof (rule vm_for_turns [OF assms(3)])
    fix q and t :: "'l \<times> 'm vm" assume I: "?I q t" and q: "i + q * step < k"
    obtain l1 s1 where t: "t = (l1, s1)" by fastforce
    obtain b l2 s2 where b: "body (i + q * step) t = (b, l2, s2)" by (metis prod.exhaust)
    have *: "same_local s1 s2" "\<not> b \<Longrightarrow> maps hw n (A (i + q * step)) f (vm_mem s1) (vm_mem s2)"
      using body [OF q, where l = l1 and s = s1] b t by auto
    have "A (i + r * step) \<inter> A (i + q * step) = {}" if "r < q" for r
    proof -
      have "Suc r * step \<le> q * step" using that by (intro mult_le_mono1) simp
      then show ?thesis using assms(2) [of r] assms(2) [of q] by fastforce
    qed
    then have "(\<Union>r<q. A (i + r * step)) \<inter> A (i + q * step) = {}" by blast
    moreover have "(\<Union>r<Suc q. A (i + r * step)) = (\<Union>r<q. A (i + r * step)) \<union> A (i + q * step)"
      by (auto simp: less_Suc_eq)
    ultimately show "case body (i + q * step) t of (b, t) \<Rightarrow> if b then same_local s (snd t) else ?I (Suc q) t"
      using I b t * maps_Un [of hw n "\<Union>r<q. A (i + r * step)" f "vm_mem s" "vm_mem s1" "A (i + q * step)" "vm_mem s2"]
      by (auto simp: same_local_def)
  qed (simp add: same_local_def)
  moreover obtain b l' t where e: "vm_for step k body i (l, s) = (b, l', t)" by (metis prod.exhaust)
  ultimately have "P (b, l', t)" by (intro rest) (auto split: if_splits)
  then show ?thesis by (simp add: e)
qed

context sound_memory
begin

lemma maps_change: "i < n \<Longrightarrow> maps hw n {i} f m (hw_write hw i (f (hw_read hw m i)) m)"
  by (auto simp: maps_def read_write)

lemma maps_change_fold:
  assumes "vi_hw info = hw" "i + k \<le> n"
  shows "maps hw n {i..<i + k} f (vm_mem s) (vm_mem (fold (\<lambda>j. change info f (i + j)) [0..<k] s))
    \<and> same_local s (fold (\<lambda>j. change info f (i + j)) [0..<k] s)"
  using assms(2)
proof (induction k)
  case (Suc k)
  let ?t = "fold (\<lambda>j. change info f (i + j)) [0..<k] s"
  have IH: "maps hw n {i..<i + k} f (vm_mem s) (vm_mem ?t)" "same_local s ?t" using Suc by simp_all
  have "vm_mem (change info f (i + k) ?t) = hw_write hw (i + k) (f (hw_read hw (vm_mem ?t) (i + k))) (vm_mem ?t)"
    by (simp add: change_def assms(1))
  then have "maps hw n {i + k} f (vm_mem ?t) (vm_mem (change info f (i + k) ?t))"
    using maps_change [of "i + k" f "vm_mem ?t"] Suc.prems by simp
  then have "maps hw n ({i..<i + k} \<union> {i + k}) f (vm_mem s) (vm_mem (change info f (i + k) ?t))"
    by (rule maps_Un [OF IH(1)]) auto
  moreover have "{i..<i + Suc k} = {i..<i + k} \<union> {i + k}" by auto
  moreover have "same_local s (change info f (i + k) ?t)"
    by (rule same_local_trans [OF IH(2) same_local_simps(5)])
  ultimately show ?case by simp
qed simp

end

text \<open>A buffer of whole pages of memory that works.\<close>

locale vm_buffer = sound_memory "vi_hw info" "vi_sz info" for info :: "'m vm_info" +
  assumes pages: "4096 dvd vi_sz info"
begin

lemma dvd_sz [simp]: "64 dvd vi_sz info" "8 dvd vi_sz info" "4 dvd vi_sz info" "512 dvd vi_sz info" "128 dvd vi_sz info"
  "16 dvd vi_sz info" "256 dvd vi_sz info"
  using pages by (auto elim!: dvd_trans [rotated])

end

text \<open>A run with nothing injected; the flag stays off.\<close>

locale vm_run = vm_buffer info for info :: "'m vm_info" +
  assumes no_errors [simp]: "\<not> vi_inject info"
    and alloc [simp]: "vi_calloc info"
    and stays_off: "\<not> vi_cont info i \<Longrightarrow> i \<le> j \<Longrightarrow> \<not> vi_cont info j"
begin

lemma inject_simps [simp]:
  "vm_mem (inject_random_bit_errors info s) = vm_mem s" "vm_errs (inject_random_bit_errors info s) = vm_errs s"
  "vm_fails (inject_random_bit_errors info s) = vm_fails s" "vm_static (inject_random_bit_errors info s) = vm_static s"
  "vm_mwc (inject_random_bit_errors info s) = vm_mwc s"
  by (simp_all add: inject_random_bit_errors_def)

end

text \<open>
  A method that finds nothing: no errors, no message, and the value of prime-incdec and the index of
  \<open>stress_vm_all\<close> as they were.
\<close>

abbreviation kept :: "vm_statics \<Rightarrow> u8 \<times> nat" where
  "kept st \<equiv> (prime_incdec_val st, vm_all_i st)"

definition silent :: "'m vm \<Rightarrow> nat \<times> 'm vm \<Rightarrow> bool" where
  "silent s r \<longleftrightarrow> fst r = 0 \<and> vm_fails (snd r) = vm_fails s
     \<and> kept (vm_static (snd r)) = kept (vm_static s)"

lemma silent_finish:
  "vm_errs t = 0 \<Longrightarrow> vm_fails t = vm_fails s \<Longrightarrow> kept (vm_static t) = kept (vm_static s) \<Longrightarrow>
    silent s (vm_finish info t)"
  by (simp add: silent_def vm_finish_def vm_abort_def stress_vm_check_def)

lemma silent_abort:
  "vm_errs t = 0 \<Longrightarrow> vm_fails t = vm_fails s \<Longrightarrow> kept (vm_static t) = kept (vm_static s) \<Longrightarrow>
    silent s (vm_abort t)"
  by (simp add: silent_def vm_abort_def)

lemma silent_zero:
  "vm_fails t = vm_fails s \<Longrightarrow> kept (vm_static t) = kept (vm_static s) \<Longrightarrow> silent s (0, t)"
  by (simp add: silent_def)

lemma same_localD:
  "same_local s t \<Longrightarrow> vm_errs t = vm_errs s" "same_local s t \<Longrightarrow> vm_fails t = vm_fails s"
  "same_local s t \<Longrightarrow> vm_static t = vm_static s" "same_local s t \<Longrightarrow> vm_bogo t = vm_bogo s"
  by (simp_all add: same_local_def)

end
