(* ===== verification/Vm_Sound_Bytes.thy ===== *)
theory Vm_Sound_Bytes
  imports Vm_Rules
begin

text \<open>
  The methods of the \<open>vm\<close> stressor that treat bytes (src/stress-vm.c) count no error on memory that
  works: walking bits, gray codes, stripes, ones and zeros, random bytes and nybbles.
\<close>

section \<open>Walking bits and gray codes\<close>

lemmas silent_intros = silent_finish silent_abort silent_zero

lemma same_local_iff [simp]:
  "same_local r (snd (vm_halt info s)) = same_local r s" "same_local r (snd (vm_done info s)) = same_local r s"
  "same_local r (vm_count k s) = same_local r s" "same_local r (puts info ps s) = same_local r s"
  "same_local r (change info f i s) = same_local r s" "same_local r (snd (with_mwc d s)) = same_local r s"
  "same_local r (vm_seed w z s) = same_local r s" "same_local r (vm_memset info v s) = same_local r s"
  by (simp_all add: same_local_def vm_step_defs vm_memset_def change_def Let_def case_prod_beta)

lemma weights_same [simp]: "differ v v = 0" "bits_differ v v = 0"
  by simp_all

lemma same_local_right: "same_local s t \<Longrightarrow> same_local r t = same_local r s"
  by (simp add: same_local_def)

lemma within_gray: "within 4 gray_words"
  by (auto simp: within_def gray_words_def)

lemma within_grayflip: "within 4 grayflip_words"
  by (auto simp: within_def grayflip_words_def)

lemma word_offset_less: "b \<le> a \<Longrightarrow> a < b + n \<Longrightarrow> a - b < (n :: u64)"
proof -
  assume *: "b \<le> a" "a < b + n"
  have "unat (b + n) \<le> unat b + unat n" by (simp add: unat_word_ariths)
  then have "unat (a - b) < unat n" using * by (simp add: word_less_nat_alt word_le_nat_alt unat_sub)
  then show ?thesis by (simp add: word_less_nat_alt)
qed

context vm_run
begin

lemma puts_checks_same:
  fixes ps :: "(nat \<times> 'w::len word) list"
  assumes "8 dvd LENGTH('w)" "proper (vi_sz info) ps"
  shows "same_local r (checks info differ ps (puts info ps s)) = same_local r s"
proof -
  have "errors differ (vi_hw info) ps (store_all (vi_hw info) ps (vm_mem s)) = 0"
    by (rule sets_errors [OF sets_store_all [OF assms]]) simp
  then show ?thesis by (simp add: same_local_def)
qed

lemma SET_AND_TEST_same: "i < vi_sz info \<Longrightarrow> same_local r (SET_AND_TEST info i v s) = same_local r s"
  unfolding SET_AND_TEST_def by (rule puts_checks_same) (simp_all add: proper_def slot_def)

lemma SET_AND_TESTs_same: "i < vi_sz info \<Longrightarrow> same_local r (fold (SET_AND_TEST info i) vs s) = same_local r s"
  by (induction vs arbitrary: s) (simp_all add: SET_AND_TEST_same)

lemma walking_data_silent: "silent s (walking_data vs info s)"
  unfolding walking_data_def vm_each_def Let_def case_prod_beta
  by (rule keep_rule [where J = "same_local (vm_enter s)"])
    (auto simp: SET_AND_TESTs_same same_localD intro!: silent_finish)

lemma gray_silent: "silent s (stress_vm_gray info s)"
  unfolding stress_vm_gray_def Let_def
  apply (rule fill_rule [where ps = gray_words and nxt = "\<lambda>v. v + 4" and loc = fst, OF _ within_gray])
      apply (simp_all add: case_prod_beta)
  apply (intro conjI impI)
   apply (simp add: silent_zero same_localD)
  apply (rule scan_rule [where wt = differ and ps = gray_words and nxt = "\<lambda>v. v + 4" and loc = fst])
     apply (auto simp: scans_def case_prod_beta sets_errors same_localD intro!: silent_finish)
  done

lemma grayflip_silent: "silent s (stress_vm_grayflip info s)"
  unfolding stress_vm_grayflip_def Let_def
  apply (rule fill_rule [where ps = grayflip_words and nxt = "\<lambda>v. v + 1" and loc = fst, OF _ within_grayflip])
      apply (simp_all add: case_prod_beta)
  apply (intro conjI impI)
   apply (simp add: silent_zero same_localD)
  apply (rule scan_rule [where wt = differ and ps = grayflip_words and nxt = "\<lambda>v. v + 1" and loc = fst])
     apply (auto simp: scans_def case_prod_beta sets_errors same_localD intro!: silent_finish)
  done

lemma flush_words_same:
  "i < vi_sz info - 7 \<Longrightarrow>
    same_local r (checks info differ (flush_words i v) (puts info (flush_words i v) s)) = same_local r s"
  by (rule puts_checks_same) (auto simp: proper_def flush_words_def slot_def)

lemma walking_flush_silent: "silent s (stress_vm_walking_flush_data info s)"
  unfolding stress_vm_walking_flush_data_def Let_def case_prod_beta
  by (rule keep_rule [where J = "same_local (vm_enter s)"])
    (auto simp: flush_words_same same_localD intro!: silent_finish)

lemma walking_addrs_same:
  assumes "i < vi_sz info" "hw_read (vi_hw info) (vm_mem s) i = 0"
  shows "same_local r (walking_addrs info flip i k msk s) = same_local r s"
  using assms(2)
proof (induction k arbitrary: msk s)
  case (Suc k)
  let ?ptr = "vi_base info + of_nat i" let ?addr = "?ptr XOR flip msk"
  let ?t = "checks info differ [(i, 0 :: u8)] (puts info [(unat (?addr - vi_base info), 0xff :: u8)] s)"
  show ?case
  proof (cases "?addr < vi_base info \<or> ?addr \<ge> vi_base info + of_nat (vi_sz info) \<or> ?addr = ?ptr")
    case False
    then have "?addr - vi_base info < of_nat (vi_sz info)" by (intro word_offset_less) (simp_all add: not_less not_le)
    then have "unat (?addr - vi_base info) < vi_sz info"
      by (metis unat_of_nat word_less_nat_alt mod_less_eq_dividend less_le_trans)
    moreover have "unat (?addr - vi_base info) \<noteq> i"
    proof
      assume "unat (?addr - vi_base info) = i"
      then have "of_nat i = (of_nat (unat (?addr - vi_base info)) :: u64)" by simp
      then have "?addr - vi_base info = of_nat i" by simp
      then show False using False by (simp add: algebra_simps)
    qed
    ultimately have "hw_read (vi_hw info) (vm_mem ?t) i = 0" "same_local r ?t = same_local r s"
      using Suc.prems assms(1) by (simp_all add: read_write same_local_def)
    then have "same_local r (walking_addrs info flip i k (push_bit 1 msk) ?t) = same_local r s"
      using Suc.IH by blast
    then show ?thesis using False by (simp add: Let_def)
  qed (use Suc in \<open>simp add: Let_def\<close>)
qed simp

lemma walking_addr_silent: "silent s (walking_addr flip info s)"
  unfolding walking_addr_def vm_each_def Let_def case_prod_beta
  by (rule keep_rule [where J = "same_local (vm_enter s)"])
    (auto simp: walking_addrs_same read_write same_localD intro!: silent_finish)

end

section \<open>Ones and zeros\<close>

lemma double_bits:
  assumes "LENGTH('b) = 2 * LENGTH('a)"
  shows "bit (push_bit LENGTH('a) (ucast (x :: 'a::len word)) OR ucast x :: 'b::len word) k
    \<longleftrightarrow> k < LENGTH('b) \<and> bit x (k mod LENGTH('a))"
proof (cases "k < LENGTH('a)")
  case True
  then show ?thesis using assms by (simp add: bit_simps)
next
  case False
  then show ?thesis
    using assms by (auto simp: bit_simps le_mod_geq dest: bit_imp_le_length)
qed

lemma bit_repeat8: "bit (repeat8 v) k \<longleftrightarrow> k < 64 \<and> bit v (k mod 8)"
  using double_bits [where x = v and 'b = 16]
    double_bits [where x = "push_bit 8 (ucast v :: u16) OR ucast v" and 'b = 32]
    double_bits [where x = "push_bit 16 (ucast (push_bit 8 (ucast v :: u16) OR ucast v) :: u32) OR ucast (push_bit 8 (ucast v :: u16) OR ucast v)" and 'b = 64]
  by (simp add: repeat8_def Let_def mod_mod_cancel)

lemma word_bytes_repeat8: "word_bytes 8 (repeat8 v) = replicate 8 v"
proof -
  have "(ucast (drop_bit (8 * j) (repeat8 v)) :: u8) = v" if "j < 8" for j
    using that by (intro bit_word_eqI) (auto simp: bit_simps bit_repeat8)
  from this [of 0] this [of 1] this [of 2] this [of 3] this [of 4] this [of 5] this [of 6] this [of 7]
  show ?thesis by (simp add: numeral_eq_Suc)
qed

lemma within_eight: "within 8 (\<lambda>i l. eight i (f l))"
  by (auto simp: within_def eight_def distinct_map inj_on_def comp_def)

lemma within_eight_words: "within 64 (\<lambda>i l. eight_words i (f l))"
  by (auto simp: within_def eight_words_def distinct_map inj_on_def comp_def)

lemma within_chunk: "within 64 (\<lambda>i l. chunk_words i (f l))"
  by (auto simp: within_def chunk_words_def distinct_map inj_on_def comp_def)

lemma within_lfsr: "within 128 (\<lambda>i l. lfsr_words i l)"
  by (auto simp: within_def lfsr_words_def distinct_map inj_on_def comp_def)

lemma upto_16: "[0..<16] = [0, 1, 2, 3, 4, 5, 6, 7, 8, 9, 10, 11, 12, 13, 14, 15 :: nat]"
  by code_simp

lemma within_stripe: "within 64 (\<lambda>i l. stripe_words i)"
  by (simp add: within_def stripe_words_def upto_16)

lemma within_quad: "within 64 quad_words"
  by (auto simp: within_def quad_words_def)

lemma within_board: "within 64 (\<lambda>i l. board_words i)" "within 64 (\<lambda>i l. swapped_words i)"
  by (auto simp: within_def board_words_def swapped_words_def distinct_map inj_on_def comp_def)

context vm_run
begin

lemma lfsr32_silent: "silent s (stress_vm_lfsr32 info s)"
  unfolding stress_vm_lfsr32_def Let_def
  apply (rule fill_rule [where ps = lfsr_words and nxt = "lfsr_next ^^ 8" and loc = fst, OF _ within_lfsr])
      apply (simp_all add: case_prod_beta)
  apply (intro conjI impI)
   apply (simp add: silent_abort same_localD)
  apply (rule scan_rule [where wt = bits_differ and ps = lfsr_words and nxt = "lfsr_next ^^ 8" and loc = fst])
     apply (auto simp: scans_def case_prod_beta sets_errors same_localD intro!: silent_finish)
  done

lemma cache_stripe_silent: "silent s (stress_vm_cache_stripe info s)"
  unfolding stress_vm_cache_stripe_def Let_def vm_each_def
  apply (rule fill_rule [where ps = "\<lambda>i _. stripe_words i" and nxt = id and loc = fst, OF _ within_stripe])
      apply (simp_all add: case_prod_beta)
  apply (intro conjI impI)
   apply (simp add: silent_abort same_localD)
  apply (rule scan_rule [where wt = differ and ps = "\<lambda>i _. stripe_words i" and nxt = id and loc = fst])
     apply (auto simp: scans_def case_prod_beta sets_errors same_localD intro!: silent_finish)
  done

end

context vm_buffer
begin

lemma words_check_rule:
  assumes "errors wt (vi_hw info) (pass_words (\<lambda>i _. eight_words i v) id 64 0 () (vi_sz info div 64)) (vm_mem s) = 0"
    and "\<And>b t. same_local s t \<Longrightarrow> P (b, t)"
  shows "P (words_check info wt v s)"
  unfolding words_check_def Let_def vm_each_def case_prod_beta
  by (rule scan_rule [where wt = wt and ps = "\<lambda>i _. eight_words i v" and nxt = id and loc = fst])
    (use assms in \<open>auto simp: scans_def\<close>)

lemma memset_read: "i < vi_sz info \<Longrightarrow> hw_read (vi_hw info) (vm_mem (vm_memset info v s)) i = v"
proof -
  assume i: "i < vi_sz info"
  let ?ps = "map (\<lambda>i. (i, v)) [0..<vi_sz info]"
  have "proper (vi_sz info) ?ps" by (auto simp: proper_def slot_def distinct_map inj_on_def comp_def)
  then have "sets (vi_hw info) (vi_sz info) ?ps (vm_mem s) (vm_mem (vm_memset info v s))"
    using sets_store_all [of ?ps] by (simp add: vm_memset_def)
  moreover have "(i, v) \<in> set ?ps" using i by simp
  ultimately show ?thesis unfolding sets_def by fastforce
qed

lemma load_equal_bytes:
  assumes "i + LENGTH('w) div 8 \<le> vi_sz info" "\<And>j. j < vi_sz info \<Longrightarrow> hw_read (vi_hw info) m j = b"
  shows "(load (vi_hw info) m i :: 'w::len word) = bytes_word (replicate (LENGTH('w) div 8) b)"
proof -
  have "map (\<lambda>j. hw_read (vi_hw info) m (i + j)) [0..<LENGTH('w) div 8] = replicate (LENGTH('w) div 8) b"
    using assms by (intro nth_equalityI) simp_all
  then show ?thesis by (simp add: load_def)
qed

lemma bytes_word_extremes: "(bytes_word (replicate 8 0) :: u64) = 0" "(bytes_word (replicate 8 0xff) :: u64) = NOT 0"
proof -
  have "bit (0xff :: u8) (i mod 8)" for i
  proof -
    have "(0xff :: u8) = NOT 0" by simp
    then show ?thesis by (simp only: bit_simps) simp
  qed
  then show "(bytes_word (replicate 8 0xff) :: u64) = NOT 0"
    by (intro bit_word_eqI) (simp add: bit_bytes_word bit_not_iff)
  show "(bytes_word (replicate 8 0) :: u64) = 0"
    by (intro bit_word_eqI) (simp add: bit_bytes_word)
qed

lemma slots_in_pass:
  assumes "k = vi_sz info div 64" "(i, x) \<in> set (pass_words (\<lambda>i _. eight_words i v) id 64 0 () k)"
  shows "i + 8 \<le> vi_sz info \<and> x = v"
proof -
  have "proper (vi_sz info) (pass_words (\<lambda>i (_ :: unit). eight_words i v) id 64 0 () (vi_sz info div 64))"
    using within_eight_words [of "\<lambda>_. v"] unfolding within_def by (intro proper_turns) auto
  moreover have "x = v" using assms(2) by (auto simp: pass_words_def eight_words_def)
  ultimately show ?thesis using assms by (force simp: proper_def slot_def)
qed

lemma words_clean:
  assumes "\<And>i. i < vi_sz info \<Longrightarrow> hw_read (vi_hw info) m i = b" "wt (bytes_word (replicate 8 b)) v = 0"
  shows "errors wt (vi_hw info) (pass_words (\<lambda>i _. eight_words i v) id 64 0 () (vi_sz info div 64)) m = 0"
  unfolding errors_0 using slots_in_pass [OF refl] load_equal_bytes [where 'w = 64, of _ m b] assms by fastforce

lemma memset_same [simp]: "vm_errs (vm_memset info v s) = vm_errs s" "vm_fails (vm_memset info v s) = vm_fails s"
  "vm_static (vm_memset info v s) = vm_static s"
  by (simp_all add: vm_memset_def)

lemma counts_none [simp]: "count_ones 0 v = 0" "count_zeros (- 1) v = 0"
  by (simp_all add: count_ones_def count_zeros_def stress_vm_count_bits_def)

lemma memset_clean:
  "errors count_ones (vi_hw info) (pass_words (\<lambda>i _. eight_words i 0) id 64 0 () (vi_sz info div 64)) (vm_mem (vm_memset info 0 s)) = 0"
  "errors count_zeros (vi_hw info) (pass_words (\<lambda>i _. eight_words i (NOT 0)) id 64 0 () (vi_sz info div 64)) (vm_mem (vm_memset info 0xff s)) = 0"
  by (rule words_clean [OF memset_read]; simp add: bytes_word_extremes)+

end

context vm_run
begin

lemma one_zero_silent: "silent s (stress_vm_one_zero info s)"
  unfolding stress_vm_one_zero_def Let_def
  apply (rule words_check_rule)
   apply (simp add: memset_clean del: bit.compl_zero)
  apply (simp split del: if_split)
  apply (rule if_split [THEN iffD2], intro conjI impI)
   apply (simp add: silent_abort same_localD)
  apply (rule words_check_rule)
   apply (simp add: memset_clean)
  apply (auto simp: same_localD intro!: silent_finish)
  done

lemma zero_one_silent: "silent s (stress_vm_zero_one info s)"
  unfolding stress_vm_zero_one_def Let_def
  apply (rule words_check_rule)
   apply (simp add: memset_clean)
  apply (simp split del: if_split)
  apply (rule if_split [THEN iffD2], intro conjI impI)
   apply (simp add: silent_abort same_localD)
  apply (rule words_check_rule)
   apply (simp add: memset_clean del: bit.compl_zero)
  apply (auto simp: same_localD intro!: silent_finish)
  done

end

section \<open>Random bytes\<close>

lemma seed_set_const: "stress_mwc_seed_set w z m = stress_mwc_seed_set w z m'"
  by (simp add: stress_mwc_seed_set_def mwc_flush_def)

text \<open>The byte that the draws give to place \<open>j\<close>, eight places a draw.\<close>

definition rand_byte :: "mwc \<Rightarrow> nat \<Rightarrow> u8" where
  "rand_byte m j = fst (stress_mwc8 (((snd \<circ> stress_mwc8) ^^ (j div 8)) m))"

lemma set_pass_eight:
  assumes "8 dvd n"
  shows "set (pass_words (\<lambda>i l. eight i (f l)) nxt 8 0 l (n div 8))
    = (\<lambda>j. (j, f ((nxt ^^ (j div 8)) l) (j mod 8))) ` {..<n}"
proof (intro equalityI subsetI)
  fix p assume "p \<in> set (pass_words (\<lambda>i l. eight i (f l)) nxt 8 0 l (n div 8))"
  then obtain q j where "q < n div 8" "j < 8" "p = (q * 8 + j, f ((nxt ^^ q) l) j)"
    by (auto simp: pass_words_def eight_def)
  then show "p \<in> (\<lambda>j. (j, f ((nxt ^^ (j div 8)) l) (j mod 8))) ` {..<n}"
    by (intro image_eqI [of _ _ "q * 8 + j"]) auto
next
  fix p assume "p \<in> (\<lambda>j. (j, f ((nxt ^^ (j div 8)) l) (j mod 8))) ` {..<n}"
  then obtain j where j: "j < n" "p = (j, f ((nxt ^^ (j div 8)) l) (j mod 8))" by auto
  have "j div 8 < n div 8" using j(1) assms by (auto simp: dvd_def div_less_iff_less_mult mult.commute)
  then show "p \<in> set (pass_words (\<lambda>i l. eight i (f l)) nxt 8 0 l (n div 8))"
    using j(2) by (auto simp: pass_words_def eight_def intro!: bexI [of _ "j div 8"] image_eqI [of _ _ "j mod 8"])
qed

context vm_buffer
begin

lemma rand_fill_rule:
  assumes "\<And>b t. same_local s t \<Longrightarrow>
      (\<not> b \<Longrightarrow> \<forall>j < vi_sz info. hw_read (vi_hw info) (vm_mem t) j = rand_byte (vm_mwc s) j) \<Longrightarrow> P (b, t)"
  shows "P (rand_fill info s)"
proof -
  let ?ps = "\<lambda>i m. eight i (\<lambda>_. fst (stress_mwc8 m))"
  have fits: "q * 8 + 8 \<le> vi_sz info" if "q * 8 < vi_sz info" for q
  proof -
    obtain k where k: "vi_sz info = 8 * k" using dvd_sz(2) by (auto simp: dvd_def)
    have "q < k" using that unfolding k by simp
    then show ?thesis unfolding k by simp
  qed
  have bytes: "sets (vi_hw info) (vi_sz info) (eight i (\<lambda>_. v)) m (store_all (vi_hw info) (eight i (\<lambda>_. v)) m)"
    if "i + 8 \<le> vi_sz info" for i v m
    using that by (intro sets_store_all) (auto simp: proper_def slot_def eight_def distinct_map inj_on_def comp_def)
  have word: "sets (vi_hw info) (vi_sz info) (eight i (\<lambda>_. v)) m (store (vi_hw info) i (repeat8 v) m)"
    if "i + 8 \<le> vi_sz info" for i v m
  proof -
    have hw: "hw_read (vi_hw info) (store (vi_hw info) i (repeat8 v) m) j = (if i \<le> j \<and> j < i + 8 then v else hw_read (vi_hw info) m j)"
      if "j < vi_sz info" for j
      using that \<open>i + 8 \<le> vi_sz info\<close> by (auto simp: store_def word_bytes_repeat8 read_write_bytes)
    show ?thesis
      unfolding sets_def
    proof (intro conjI ballI allI impI, clarify)
      fix j x assume "(j, x) \<in> set (eight i (\<lambda>_. v))"
      then have "i \<le> j \<and> j < i + 8 \<and> x = v" by (auto simp: eight_def)
      then show "load (vi_hw info) (store (vi_hw info) i (repeat8 v) m) j = x"
        using \<open>i + 8 \<le> vi_sz info\<close> by (simp add: hw)
    next
      fix j assume j: "slot (LENGTH(8) div 8) (vi_sz info) j" "j \<notin> fst ` set (eight i (\<lambda>_. v))"
      have "j \<in> fst ` set (eight i (\<lambda>_. v))" if "i \<le> j" "j < i + 8"
        using that by (intro image_eqI [of _ _ "(j, v)"]) (auto simp: eight_def intro!: image_eqI [of _ _ "j - i"])
      then show "load (vi_hw info) (store (vi_hw info) i (repeat8 v) m) j = (load (vi_hw info) m j :: u8)"
        using j by (auto simp: hw slot_def)
    qed
  qed
  have read: "\<forall>j < vi_sz info. hw_read (vi_hw info) m' j = rand_byte r j"
    if "sets (vi_hw info) (vi_sz info) (pass_words ?ps (snd \<circ> stress_mwc8) 8 0 r (vi_sz info div 8)) m m'" for r m m'
    using that set_pass_eight [OF dvd_sz(2), of "\<lambda>m _. fst (stress_mwc8 m)" "snd \<circ> stress_mwc8" r]
    by (auto simp: sets_def rand_byte_def)
  have all: "proper (vi_sz info) (pass_words ?ps (snd \<circ> stress_mwc8) 8 0 r (turns 8 (vi_sz info) 0))" for r
    using within_eight [of "\<lambda>m _. fst (stress_mwc8 m)"] unfolding within_def
    by (simp add: proper_turns)
  show ?thesis
    unfolding rand_fill_def Let_def vm_each_def case_prod_beta
  proof (rule fill_rule_sets [where ps = ?ps and nxt = "snd \<circ> stress_mwc8" and loc = "vm_mwc \<circ> snd", OF _ _ all])
    fix b l t assume "same_local s t"
      and *: "\<not> b \<Longrightarrow> sets (vi_hw info) (vi_sz info)
        (pass_words ?ps (snd \<circ> stress_mwc8) 8 0 ((vm_mwc \<circ> snd) ((), s)) (turns 8 (vi_sz info) 0)) (vm_mem s) (vm_mem t)"
    then show "P (fst (b, l, t), snd (snd (b, l, t)))"
      using read [of "vm_mwc s" "vm_mem s" "vm_mem t"] by (intro assms) simp_all
  qed (use fits bytes word in \<open>simp_all add: case_prod_beta\<close>)
qed

lemma change_all_rule:
  assumes "\<And>b t. same_local s t \<Longrightarrow>
      (\<not> b \<Longrightarrow> \<forall>j < vi_sz info. hw_read (vi_hw info) (vm_mem t) j = f (hw_read (vi_hw info) (vm_mem s) j)) \<Longrightarrow> P (b, t)"
  shows "P (change_all info f s)"
proof -
  obtain k where k: "vi_sz info = 8 * k" using dvd_sz(2) by (auto simp: dvd_def)
  have U: "(\<Union>q<turns 8 (vi_sz info) 0. {0 + q * 8..<0 + q * 8 + 8}) = {..<vi_sz info}"
  proof (intro equalityI subsetI)
    fix j assume "j \<in> {..<vi_sz info}"
    then have "j div 8 < vi_sz info div 8" "j div 8 * 8 \<le> j" "j < j div 8 * 8 + 8"
      using k by (auto simp: div_less_iff_less_mult mult.commute)
    then show "j \<in> (\<Union>q<turns 8 (vi_sz info) 0. {0 + q * 8..<0 + q * 8 + 8})"
      by (intro UN_I [of "j div 8"]) simp_all
  qed (auto simp: k)
  show ?thesis
    unfolding change_all_def Let_def vm_each_def case_prod_beta
  proof (rule maps_rule [where A = "\<lambda>i. {i..<i + 8}" and f = f and hw = "vi_hw info" and n = "vi_sz info"])
    fix q l s assume "0 + q * 8 < vi_sz info"
    then have "q < k" unfolding k by simp
    then have "0 + q * 8 + 8 \<le> vi_sz info" unfolding k by simp
    from maps_change_fold [OF refl this, of f s]
    show "case (fst (vm_done info (vm_count 1 (fold (\<lambda>j. change info f (0 + q * 8 + j)) [0..<8] (snd (l, s))))),
          fst (l, s), snd (vm_done info (vm_count 1 (fold (\<lambda>j. change info f (0 + q * 8 + j)) [0..<8] (snd (l, s)))))) of
        (b, l', t) \<Rightarrow> same_local s t \<and> (\<not> b \<longrightarrow> maps (vi_hw info) (vi_sz info) {0 + q * 8..<0 + q * 8 + 8} f (vm_mem s) (vm_mem t))"
      by simp
  next
    fix b l t assume "same_local s t"
      and "\<not> b \<Longrightarrow> maps (vi_hw info) (vi_sz info) (\<Union>q<turns 8 (vi_sz info) 0. {0 + q * 8..<0 + q * 8 + 8}) f (vm_mem s) (vm_mem t)"
    then show "P (fst (b, l, t), snd (snd (b, l, t)))"
      unfolding U by (intro assms) (simp_all add: maps_def)
  qed auto
qed

lemma rand_check_rule:
  assumes "\<forall>j < vi_sz info. hw_read (vi_hw info) (vm_mem s) j = f (j mod 8) (rand_byte (vm_mwc s) j)"
    and "\<And>b t. same_local s t \<Longrightarrow> P (b, t)"
  shows "P (rand_check info f s)"
proof -
  have "errors differ (vi_hw info) (pass_words (\<lambda>i m. eight i (\<lambda>j. f j (fst (stress_mwc8 m)))) (snd \<circ> stress_mwc8) 8 0 (vm_mwc s) (vi_sz info div 8)) (vm_mem s) = 0"
    unfolding errors_0 set_pass_eight [OF dvd_sz(2)] using assms(1) by (simp add: rand_byte_def)
  then have "errors differ (vi_hw info) (pass_words (\<lambda>i m. eight i (\<lambda>j. f j (fst (stress_mwc8 m)))) (snd \<circ> stress_mwc8) 8 0
      ((vm_mwc \<circ> snd) ((), s)) (turns 8 (vi_sz info) 0)) (vm_mem s) = 0" by simp
  note clean = this
  show ?thesis
    unfolding rand_check_def Let_def vm_each_def case_prod_beta
    by (rule scan_rule [where wt = differ and ps = "\<lambda>i m. eight i (\<lambda>j. f j (fst (stress_mwc8 m)))" and nxt = "snd \<circ> stress_mwc8"
          and loc = "vm_mwc \<circ> snd", OF _ _ clean]) (simp_all add: scans_def assms(2))
qed

end

lemma shim_ror8_comm: "bit (shim_ror8 x) k = (k < 8 \<and> bit x (Suc k mod 8))"
proof (cases "k < 8")
  case True
  then have "k = 7 \<or> k < 7" by linarith
  then show ?thesis
    by (auto simp: shim_ror8_def bit_or_iff bit_drop_bit_eq bit_push_bit_iff dest: bit_imp_le_length)
qed (use bit_imp_le_length in force)

lemma vm_reseed_simps [simp]:
  "vm_mem (snd (snd (vm_reseed info s))) = vm_mem s" "vm_errs (snd (snd (vm_reseed info s))) = vm_errs s"
  "vm_fails (snd (snd (vm_reseed info s))) = vm_fails s" "vm_static (snd (snd (vm_reseed info s))) = vm_static s"
  by (simp_all add: vm_reseed_def with_mwc_def Let_def case_prod_beta)

lemma nybbles: "INC_HI_NYBBLE (INC_LO_NYBBLE v) = INC_HI_NYBBLE (INC_LO_NYBBLE v)" ..

context vm_run
begin

lemma rand_set_silent: "silent s (stress_vm_rand_set info s)"
  unfolding stress_vm_rand_set_def Let_def case_prod_beta
  apply (rule rand_fill_rule)
  apply (simp split del: if_split)
  apply (rule if_split [THEN iffD2], intro conjI impI)
   apply (simp add: silent_abort same_localD)
  apply (rule rand_check_rule)
   apply (simp add: seed_set_const [of _ _ "vm_mwc _"])
   apply (metis seed_set_const)
  apply (auto simp: same_localD intro!: silent_finish)
  done

lemma ror_silent: "silent s (stress_vm_ror info s)"
  unfolding stress_vm_ror_def Let_def case_prod_beta
  apply (rule rand_fill_rule)
  apply (simp split del: if_split)
  apply (rule if_split [THEN iffD2], intro conjI impI)
   apply (simp add: silent_abort same_localD)
  apply (rule change_all_rule)
  apply (simp split del: if_split)
  apply (rule if_split [THEN iffD2], intro conjI impI)
   apply (simp add: silent_abort same_localD)
  apply (rule rand_check_rule)
   apply simp
   apply (metis seed_set_const)
  apply (auto simp: same_localD intro!: silent_finish)
  done

lemma inc_nybble_silent: "silent s (stress_vm_inc_nybble info s)"
  unfolding stress_vm_inc_nybble_def Let_def case_prod_beta vm_each_def
  apply (rule change_all_rule [where f = INC_LO_NYBBLE])
  apply (simp split del: if_split)
  apply (rule if_split [THEN iffD2], intro conjI impI)
   apply (simp add: silent_abort same_localD)
  apply (rule change_all_rule [where f = INC_HI_NYBBLE])
  apply (simp split del: if_split)
  apply (rule if_split [THEN iffD2], intro conjI impI)
   apply (simp add: silent_abort same_localD)
  apply (rule scan_rule [where wt = differ and nxt = id and loc = fst and
     ps = "\<lambda>i _. eight i (\<lambda>_. INC_HI_NYBBLE (INC_LO_NYBBLE (inc_nybble_val (vm_static s))))"])
     apply (simp add: scans_def eight_def)
    apply simp
   apply (simp add: errors_0 set_pass_eight memset_read)
  apply (auto simp: same_localD intro!: silent_finish)
  done

end

end
