(* ===== verification/Vm_Sound_Words.thy ===== *)
theory Vm_Sound_Words
  imports Vm_Sound_Bytes
begin

text \<open>
  The methods of the \<open>vm\<close> stressor that treat words (src/stress-vm.c) count no error on memory that
  works: increments, sums, lines, scans and the moving inversion.  A pass that changes what it
  reads may use that the words of a turn are still as they were before the pass.
\<close>

section \<open>Sweeps and plain words\<close>

text \<open>The generator after a seed does not depend on what it was before.\<close>

definition seeded :: "u32 \<Rightarrow> u32 \<Rightarrow> mwc" where
  "seeded w z = stress_mwc_seed_set w z mwc_initial"

lemma seeded_simp: "stress_mwc_seed_set w z m = seeded w z"
  by (simp add: seeded_def seed_set_const [of w z m mwc_initial])

lemma vm_mwc_seed [simp]: "vm_mwc (vm_seed w z s) = seeded w z"
  by (simp add: seeded_simp)

declare vm_mwc_steps(8) [simp del]

text \<open>The single steps as rules.\<close>

lemma halt_rule:
  "(\<And>b t. same_local s t \<Longrightarrow> vm_mem t = vm_mem s \<Longrightarrow> vm_mwc t = vm_mwc s \<Longrightarrow> P (b, t)) \<Longrightarrow> P (vm_halt info s)"
  "(\<And>b t. same_local s t \<Longrightarrow> vm_mem t = vm_mem s \<Longrightarrow> vm_mwc t = vm_mwc s \<Longrightarrow> P (b, t)) \<Longrightarrow> P (vm_done info s)"
  by (simp_all add: vm_done_def vm_halt_def same_local_def)

lemma reseed_rule:
  "(\<And>w z t. same_local s t \<Longrightarrow> vm_mem t = vm_mem s \<Longrightarrow> P (w, z, t)) \<Longrightarrow> P (vm_reseed info s)"
  by (simp add: vm_reseed_def with_mwc_def same_local_def case_prod_beta Let_def)

lemma mwc_rule:
  "(\<And>v m. d (vm_mwc s) = (v, m) \<Longrightarrow> P (v, s\<lparr>vm_mwc := m\<rparr>)) \<Longrightarrow> P (with_mwc d s)"
  by (simp add: with_mwc_def case_prod_beta Let_def)

lemma vm_mem_change: "vm_mem (change info f i s) = hw_write (vi_hw info) i (f (hw_read (vi_hw info) (vm_mem s) i)) (vm_mem s)"
  by (simp add: change_def)

lemma each_rule: "(case vm_for step n (\<lambda>i (u, s). case body i s of (b, s) \<Rightarrow> (b, u, s)) i ((), s) of (b, u, s) \<Rightarrow> P (b, s))
    \<Longrightarrow> P (vm_each step n body i s)"
  by (auto simp: vm_each_def Let_def split: prod.splits)

context sound_memory
begin

text \<open>A turn may use that the words it treats are still as they were before the loop.\<close>

lemma update_rule:
  fixes ps :: "nat \<Rightarrow> 'k \<Rightarrow> (nat \<times> 'w::len word) list"
  assumes body: "\<And>q l' s'. i + q * step < k \<Longrightarrow> loc (l', s') = (nxt ^^ q) (loc (l, s)) \<Longrightarrow> same_local s s' \<Longrightarrow>
      \<forall>p \<in> set (ps (i + q * step) (loc (l', s'))). load hw (vm_mem s') (fst p) = (load hw (vm_mem s) (fst p) :: 'w word) \<Longrightarrow>
      case body (i + q * step) (l', s') of (b, l'', t) \<Rightarrow>
        same_local s' t \<and> (\<not> b \<longrightarrow> sets hw n (ps (i + q * step) (loc (l', s'))) (vm_mem s') (vm_mem t)
          \<and> loc (l'', t) = nxt (loc (l', s')))"
    and "0 < step" and proper: "proper n (pass_words ps nxt step i (loc (l, s)) (turns step k i))"
    and rest: "\<And>b l' t. same_local s t \<Longrightarrow>
      (\<not> b \<Longrightarrow> sets hw n (pass_words ps nxt step i (loc (l, s)) (turns step k i)) (vm_mem s) (vm_mem t)) \<Longrightarrow> P (b, l', t)"
  shows "P (vm_for step k body i (l, s))"
proof -
  let ?w = "pass_words ps nxt step i (loc (l, s))"
  let ?I = "\<lambda>q (l', t). same_local s t \<and> sets hw n (?w q) (vm_mem s) (vm_mem t) \<and> loc (l', t) = (nxt ^^ q) (loc (l, s))"
  have "case vm_for step k body i (l, s) of (b, t) \<Rightarrow> if b then same_local s (snd t) else ?I (turns step k i) t"
  proof (rule vm_for_turns [OF assms(2)])
    fix q t assume I: "?I q t" and q: "i + q * step < k"
    obtain l1 s1 where t: "t = (l1, s1)" by fastforce
    obtain b l2 s2 where b: "body (i + q * step) t = (b, l2, s2)" by (metis prod.exhaust)
    have "Suc q \<le> turns step k i" using q turns_less [OF assms(2), of q k i] by simp
    from pass_words_split [OF this, of ps nxt step i "loc (l, s)"] obtain qs where "?w (turns step k i) = ?w (Suc q) @ qs" by blast
    then have "proper n (?w (Suc q) @ qs)" using proper by simp
    then have "proper n (?w (Suc q))" by (simp only: proper_append)
    then have pr: "proper n (?w q @ ps (i + q * step) (loc t))" using I t by (simp del: proper_append)
    have "load hw (vm_mem s1) (fst p) = (load hw (vm_mem s) (fst p) :: 'w word)" if "p \<in> set (ps (i + q * step) (loc t))" for p
    proof -
      have "slot (LENGTH('w) div 8) n (fst p)" "fst p \<notin> fst ` set (?w q)"
        using pr that unfolding proper_def by auto
      then show ?thesis using I t unfolding sets_def by auto
    qed
    then have *: "same_local s1 s2" "\<not> b \<Longrightarrow> sets hw n (ps (i + q * step) (loc t)) (vm_mem s1) (vm_mem s2) \<and> loc (l2, s2) = nxt (loc t)"
      using body [OF q, where l' = l1 and s' = s1] b t I by auto
    show "case body (i + q * step) t of (b, t) \<Rightarrow> if b then same_local s (snd t) else ?I (Suc q) t"
      using I b t * pr sets_append [of hw n "?w q" "vm_mem s" "vm_mem s1" _ "vm_mem s2"]
      by (auto simp: same_local_def simp del: proper_append)
  qed (simp add: same_local_def)
  moreover obtain b l' t where e: "vm_for step k body i (l, s) = (b, l', t)" by (metis prod.exhaust)
  ultimately have "P (b, l', t)" by (intro rest) (auto split: if_splits)
  then show ?thesis by (simp add: e)
qed

end

context vm_buffer
begin

text \<open>Sweeps over all bytes.\<close>

lemma sweep_change_rule:
  assumes "\<And>t. same_local s t \<Longrightarrow> \<forall>j < vi_sz info. hw_read (vi_hw info) (vm_mem t) j = f (hw_read (vi_hw info) (vm_mem s) j) \<Longrightarrow> P t"
  shows "P (vm_sweep info (change info f) s)"
proof -
  have "case vm_for 1 (vi_sz info) (\<lambda>i (u, s). (False, u, change info f i s)) 0 ((), s) of (b, u, t) \<Rightarrow> \<not> b"
    using vm_for_inv [where step = 1 and n = "vi_sz info" and body = "\<lambda>i (u, s). (False, u, change info f i s)" and i = 0 and s = "((), s)"
      and I = "\<lambda>_ _. True" and Q = "\<lambda>_. False"] by (auto split: prod.splits)
  moreover have "(\<Union>q<vi_sz info. {q}) = {..<vi_sz info}" by auto
  moreover have "case vm_for 1 (vi_sz info) (\<lambda>i (u, s). (False, u, change info f i s)) 0 ((), s) of (b, u, t) \<Rightarrow>
      same_local s t \<and> (\<not> b \<longrightarrow> maps (vi_hw info) (vi_sz info) (\<Union>q<vi_sz info. {q}) f (vm_mem s) (vm_mem t))"
    by (rule maps_rule [where A = "\<lambda>i. {i}" and f = f and hw = "vi_hw info" and n = "vi_sz info"])
      (auto simp: vm_mem_change maps_change)
  ultimately show ?thesis
    unfolding vm_sweep_def vm_each_def Let_def using assms by (auto simp: maps_def split: prod.splits)
qed

lemma sweep_check_rule:
  assumes "\<forall>j < vi_sz info. hw_read (vi_hw info) (vm_mem s) j = v" "\<And>v. wt v v = 0" "\<And>t. same_local s t \<Longrightarrow> P t"
  shows "P (vm_sweep info (\<lambda>i. checks info wt [(i, v)]) s)"
proof -
  have "case vm_for 1 (vi_sz info) (\<lambda>i (u, s). (False, u, checks info wt [(i, v)] s)) 0 ((), s) of (b, u, t) \<Rightarrow> same_local s t"
    by (rule scan_rule [where wt = wt and ps = "\<lambda>i _. [(i, v)]" and nxt = id and loc = fst])
      (auto simp: scans_def errors_0 pass_words_def assms(1,2))
  then show ?thesis
    unfolding vm_sweep_def vm_each_def Let_def using assms by (auto split: prod.splits)
qed

end

context vm_run
begin

lemma incdec_silent: "silent s (stress_vm_incdec info s)"
  unfolding stress_vm_incdec_def Let_def
  apply (rule sweep_change_rule [where f = "\<lambda>x. x + (incdec_val (vm_static (vm_enter s)) + 1)"])
  apply (rule sweep_change_rule [where f = "\<lambda>x. x - (incdec_val (vm_static (vm_enter s)) + 1)"])
  apply (rule sweep_check_rule)
    apply (simp add: memset_read)
   apply simp
  apply (auto simp: same_localD intro!: silent_finish)
  done

lemma read64_silent: "silent s (stress_vm_read64 info s)"
  unfolding stress_vm_read64_def block_loop_def Let_def
  by (rule keep_rule [where J = "same_local s"])
    (auto simp: same_local_def vm_halt_def intro!: silent_zero split: prod.splits)

end

section \<open>Passes without a way out\<close>

lemma proper_disjoint:
  fixes ps :: "nat \<Rightarrow> 'k \<Rightarrow> (nat \<times> 'w::len word) list"
  assumes "\<And>q l. q < k \<Longrightarrow> proper n (ps (i + q * step) l)"
    and "\<And>q r l l'. q < r \<Longrightarrow> r < k \<Longrightarrow> fst ` set (ps (i + q * step) l) \<inter> fst ` set (ps (i + r * step) l') = {}"
  shows "proper n (pass_words ps nxt step i l k)"
proof -
  have "proper n (pass_words ps nxt step i l k')" if "k' \<le> k" for k'
    using that
  proof (induction k')
    case (Suc k')
    have "fst ` set (pass_words ps nxt step i l k') = (\<Union>q<k'. fst ` set (ps (i + q * step) ((nxt ^^ q) l)))"
      by (simp add: pass_words_def image_UN lessThan_atLeast0)
    moreover have "fst ` set (ps (i + q * step) ((nxt ^^ q) l)) \<inter> fst ` set (ps (i + k' * step) ((nxt ^^ k') l)) = {}"
      if "q < k'" for q
      by (rule assms(2) [OF that]) (use Suc.prems in simp)
    ultimately have "fst ` set (pass_words ps nxt step i l k') \<inter> fst ` set (ps (i + k' * step) ((nxt ^^ k') l)) = {}"
      by (simp only: Int_UN_distrib2) blast
    then show ?case using assms(1) [of k'] Suc by simp
  qed (simp add: proper_def)
  then show ?thesis by simp
qed

lemma proper_bytes [simp]: "0 < step \<Longrightarrow> proper n (pass_words (\<lambda>i l. [(i, f l :: u8)]) nxt step i l (turns step n i))"
  by (rule proper_disjoint) (auto simp: proper_def slot_def turns_less Suc_leI)

lemma sets_over:
  fixes ps qs :: "(nat \<times> 'w::len word) list"
  assumes "sets hw n ps m m'" "sets hw n qs m' m''" "fst ` set ps \<subseteq> fst ` set qs"
  shows "sets hw n qs m m''"
  using assms unfolding sets_def by (metis (no_types, lifting) subsetD)

lemma sets_word: "sets hw n ps m m' \<Longrightarrow> (i, v) \<in> set ps \<Longrightarrow> load hw m' i = v"
  by (auto simp: sets_def)

text \<open>A loop whose body never leaves it runs to its end.\<close>

lemma vm_for_runs: "(\<And>i s. \<not> fst (body i s)) \<Longrightarrow> \<not> fst (vm_for step n body i s)"
proof (cases "0 < step")
  assume *: "\<And>i s. \<not> fst (body i s)"
  case True
  have "case vm_for step n body i s of (b, t) \<Rightarrow> if b then False else \<exists>j. n \<le> j \<and> True"
    by (rule vm_for_inv [OF True]) (use * in \<open>auto split: prod.splits\<close>, metis fst_conv)
  then show ?thesis by (auto split: prod.splits if_splits)
qed (simp add: vm_for.simps)

lemma runs_rule:
  "(\<And>i s. \<not> fst (body i s)) \<Longrightarrow> (case vm_for step n body i s of (b, t) \<Rightarrow> \<not> b \<longrightarrow> P (b, t)) \<Longrightarrow> P (vm_for step n body i s)"
  using vm_for_runs [of body step n i s] by (auto split: prod.splits)

lemma runs_each:
  "(\<And>i s. \<not> fst (body i s)) \<Longrightarrow> (case vm_each step n body i s of (b, t) \<Rightarrow> \<not> b \<longrightarrow> P (b, t)) \<Longrightarrow> P (vm_each step n body i s)"
  using vm_for_runs [of "\<lambda>i (u, s). case body i s of (b, s) \<Rightarrow> (b, u, s)" step n i "((), s)"]
  by (auto simp: vm_each_def case_prod_beta)

lemma if_rule: "(b \<Longrightarrow> P x) \<Longrightarrow> (\<not> b \<Longrightarrow> P y) \<Longrightarrow> P (if b then x else y)"
  by simp

context sound_memory
begin

lemma sets_store [simp]:
  "8 dvd LENGTH('w) \<Longrightarrow> slot (LENGTH('w) div 8) n i \<Longrightarrow> sets hw n [(i, v)] m (store hw i (v :: 'w::len word) m)"
  using sets_store_all [of "[(i, v)]" m] by (simp add: proper_def)

lemma sets_write [simp]: "i < n \<Longrightarrow> sets hw n [(i, v)] m (hw_write hw i (v :: u8) m)"
  using sets_store [of i v m] by (simp add: slot_def)

lemma each_fill_rule:
  fixes ps :: "nat \<Rightarrow> 'k \<Rightarrow> (nat \<times> 'w::len word) list"
  assumes body: "\<And>q s. i + q * step < k \<Longrightarrow> case body (i + q * step) s of (b, t) \<Rightarrow>
      same_local s t \<and> (\<not> b \<longrightarrow> sets hw n (ps (i + q * step) (loc s)) (vm_mem s) (vm_mem t) \<and> loc t = nxt (loc s))"
    and "0 < step" "proper n (pass_words ps nxt step i (loc s) (turns step k i))"
    and rest: "\<And>b t. same_local s t \<Longrightarrow>
      (\<not> b \<Longrightarrow> sets hw n (pass_words ps nxt step i (loc s) (turns step k i)) (vm_mem s) (vm_mem t)) \<Longrightarrow> P (b, t)"
  shows "P (vm_each step k body i s)"
  unfolding vm_each_def Let_def
proof (rule fill_rule_sets [where ps = ps and loc = "loc \<circ> snd" and nxt = nxt])
  fix q and l :: unit and s :: "'m vm" assume "i + q * step < k"
  from body [OF this, where s = s]
  show "case (case (l, s) of (u, s) \<Rightarrow> case body (i + q * step) s of (b, s) \<Rightarrow> (b, u, s)) of (b, l', t) \<Rightarrow>
      same_local s t \<and> (\<not> b \<longrightarrow> sets hw n (ps (i + q * step) ((loc \<circ> snd) (l, s))) (vm_mem s) (vm_mem t)
        \<and> (loc \<circ> snd) (l', t) = nxt ((loc \<circ> snd) (l, s)))"
    by (simp split: prod.splits)
qed (use assms(2,3) rest in simp_all)

lemma each_fill_within:
  fixes ps :: "nat \<Rightarrow> 'k \<Rightarrow> (nat \<times> 'w::len word) list"
  assumes body: "\<And>i s. case body i s of (b, t) \<Rightarrow>
      same_local s t \<and> (\<not> b \<longrightarrow> vm_mem t = store_all hw (ps i (loc s)) (vm_mem s) \<and> loc t = nxt (loc s))"
    and "within step ps" "8 dvd LENGTH('w)" "0 < step" "step dvd n"
    and rest: "\<And>b t. same_local s t \<Longrightarrow>
      (\<not> b \<Longrightarrow> sets hw n (pass_words ps nxt step 0 (loc s) (n div step)) (vm_mem s) (vm_mem t)) \<Longrightarrow> P (b, t)"
  shows "P (vm_each step n body 0 s)"
  unfolding vm_each_def Let_def
proof (rule fill_rule [where ps = ps and loc = "loc \<circ> snd" and nxt = nxt])
  fix i and l :: unit and s :: "'m vm"
  from body [where i = i and s = s]
  show "case (case (l, s) of (u, s) \<Rightarrow> case body i s of (b, s) \<Rightarrow> (b, u, s)) of (b, l', t) \<Rightarrow>
      same_local s t \<and> (\<not> b \<longrightarrow> vm_mem t = store_all hw (ps i ((loc \<circ> snd) (l, s))) (vm_mem s)
        \<and> (loc \<circ> snd) (l', t) = nxt ((loc \<circ> snd) (l, s)))"
    by (simp split: prod.splits)
qed (use assms(2-5) rest in simp_all)

lemma each_scan_rule:
  assumes "\<And>i s. case body i s of (b, t) \<Rightarrow>
      vm_mem t = vm_mem s \<and> vm_static t = vm_static s \<and> vm_fails t = vm_fails s \<and> vm_bogo t = vm_bogo s
      \<and> (vm_errs t = vm_errs s + errors wt hw (ps i (loc s)) (vm_mem s) \<or> b \<and> vm_errs t = vm_errs s)
      \<and> (\<not> b \<longrightarrow> loc t = nxt (loc s))"
    and "0 < step" "errors wt hw (pass_words ps nxt step i (loc s) (turns step k i)) (vm_mem s) = 0"
    and "\<And>b t. same_local s t \<Longrightarrow> vm_mem t = vm_mem s \<Longrightarrow> P (b, t)"
  shows "P (vm_each step k body i s)"
  unfolding vm_each_def Let_def
  by (rule scan_rule [OF vm_each_scan [unfolded Let_def, where ps = ps and loc = loc and nxt = nxt]])
    (use assms in \<open>auto split: prod.splits\<close>)

end

lemma within_sum: "within 512 (\<lambda>i l. fst (sum_words i l))"
  by (auto simp: within_def sum_words_def case_prod_beta Let_def set_zip map_fst_zip_take distinct_map inj_on_def comp_def)

lemma sum_words_next [simp]: "snd (sum_words i m) = snd (draws stress_mwc64 8 m)"
  by (simp add: sum_words_def case_prod_beta Let_def)

context vm_run
begin

lemma write64_silent: "silent s (stress_vm_write64 info s)"
  unfolding stress_vm_write64_def block_loop_def Let_def
  by (rule keep_rule [where J = "same_local s"])
    (auto simp: same_local_def vm_halt_def intro!: silent_zero split: prod.splits)

lemma rand_sum_silent: "silent s (stress_vm_rand_sum info s)"
  unfolding stress_vm_rand_sum_def Let_def
  apply (rule reseed_rule, simp only: prod.case)
  apply (rule each_fill_within [where ps = "\<lambda>i m. fst (sum_words i m)" and nxt = "\<lambda>m. snd (draws stress_mwc64 8 m)" and loc = vm_mwc, OF _ within_sum])
      apply (simp add: case_prod_beta)
     apply simp_all [3]
  apply (simp only: prod.case)
  apply (rule if_rule)
   apply (simp add: silent_abort same_localD)
  apply (rule each_scan_rule [where wt = bits_differ and ps = "\<lambda>i m. fst (sum_words i m)" and nxt = "\<lambda>m. snd (draws stress_mwc64 8 m)" and loc = vm_mwc])
     apply (simp add: case_prod_beta)
    apply simp
   apply (simp add: sets_errors)
  apply (simp add: same_localD silent_finish)
  done

end

context vm_run
begin

lemma rowhammer_silent: "silent s (stress_vm_rowhammer info s)"
proof -
  have all: "proper (vi_sz info) (pass_words (\<lambda>j _. [(4 * j, v :: u32)]) id (Suc 0) 0 l (vi_sz info div 4))" for v and l :: unit
    by (rule proper_disjoint) (auto simp: proper_def slot_def less_eq_div_iff_mult_less_eq Suc_le_eq [symmetric])
  show ?thesis
    unfolding stress_vm_rowhammer_def Let_def
    apply (rule if_rule)
     apply (simp add: silent_zero)
    apply (rule runs_each, simp)
    apply (rule each_fill_rule [where ps = "\<lambda>j _. [(4 * j, rowhammer_val (vm_static (s\<lparr>vm_errs := 0\<rparr>)))]" and nxt = id and loc = "\<lambda>_. ()"])
       apply (simp add: slot_def less_eq_div_iff_mult_less_eq Suc_le_eq [symmetric])
      apply (simp_all add: all)[2]
    apply (simp only: prod.case, rule impI)
    apply (rule mwc_rule, simp only: prod.case)
    apply (rule mwc_rule, simp only: prod.case)
    apply (rule each_scan_rule [where wt = differ and ps = "\<lambda>j _. [(4 * j, rowhammer_val (vm_static (s\<lparr>vm_errs := 0\<rparr>)))]" and nxt = id and loc = "\<lambda>_. ()"])
       apply simp_all [2]
     apply (simp add: sets_errors)
    apply (simp add: silent_def stress_vm_check_def same_local_def)
    done
qed

lemma cache_lines_silent: "silent s (stress_vm_cache_lines info s)"
proof (cases "vi_line info = 0")
  case True
  then show ?thesis
    by (auto simp: stress_vm_cache_lines_def Let_def vm_for.simps vm_abort_def silent_def stress_vm_check_def case_prod_beta)
next
  case False
  then show ?thesis
    unfolding stress_vm_cache_lines_def Let_def
    apply -
    apply (rule runs_rule, simp add: case_prod_beta)
    apply (rule fill_rule_sets [where ps = "\<lambda>i v. [(i, v)]" and nxt = "\<lambda>v. v + 1" and loc = fst])
       apply simp
      apply simp
     apply simp
    apply (simp only: prod.case, rule impI)
    apply (rule halt_rule(2), simp only: prod.case)
    apply (rule if_rule)
     apply (simp add: silent_abort same_local_def)
    apply (rule scan_rule [where wt = differ and ps = "\<lambda>i v. [(i, v)]" and nxt = "\<lambda>v. v + 1" and loc = fst])
       apply (simp add: scans_def)
      apply simp
     apply (simp add: sets_errors)
    apply (auto simp: stress_vm_check_def same_local_def intro!: silent_abort)
    done
qed

end

section \<open>Repeated stores and scans\<close>

context sound_memory
begin

lemma sets_again:
  fixes ps :: "(nat \<times> 'w::len word) list"
  assumes "8 dvd LENGTH('w)" "proper n ps"
  shows "sets hw n ps m (store_all hw (concat (replicate (Suc k) ps)) m)"
proof (induction k arbitrary: m)
  case (Suc k)
  have "sets hw n ps m (store_all hw (concat (replicate (Suc k) ps)) (store_all hw ps m))"
    by (rule sets_over [OF sets_store_all [OF assms] Suc]) simp
  then show ?case by simp
qed (simp add: sets_store_all [OF assms])

text \<open>Several changes of one byte, one after the other.\<close>

lemma change_fold:
  assumes "vi_hw info = hw" "i < n"
  shows "same_local s (fold (\<lambda>f. change info f i) fs s)
    \<and> (\<forall>j < n. hw_read hw (vm_mem (fold (\<lambda>f. change info f i) fs s)) j =
        (if j = i then fold (\<lambda>f. f) fs (hw_read hw (vm_mem s) i) else hw_read hw (vm_mem s) j))"
proof (induction fs arbitrary: s)
  case (Cons f fs)
  have "same_local s (fold (\<lambda>f. change info f i) fs (change info f i s))"
    using Cons.IH [of "change info f i s"] same_local_simps(5) same_local_trans by blast
  then show ?case
    using Cons.IH [of "change info f i s"] assms by (auto simp: vm_mem_change read_write)
qed simp

end

lemma errors_again: "errors wt hw (concat (replicate k ps)) m = k * errors wt hw ps m"
  by (induction k) simp_all

lemma upto_8: "[0..<8] = [0, 1, 2, 3, 4, 5, 6, 7 :: nat]"
  by code_simp

lemma mscan_folds:
  "fold (\<lambda>f. f) (map (\<lambda>k x. x OR push_bit k 1) [0..<8]) x = (0xff :: u8)"
  "fold (\<lambda>f. f) (map (\<lambda>k x. x AND NOT (push_bit k 1)) [0..<8]) x = (0 :: u8)"
proof -
  have "fold (\<lambda>f. f) (map (\<lambda>k x. x OR push_bit k 1) [0..<8]) x = x OR 0xff"
    by (simp add: upto_8 or.assoc)
  also have "\<dots> = 0xff"
  proof -
    have "(0xff :: u8) = - 1" by simp
    then show ?thesis by (simp only: bit.disj_one_right)
  qed
  finally show "fold (\<lambda>f. f) (map (\<lambda>k x. x OR push_bit k 1) [0..<8]) x = (0xff :: u8)" .
  show "fold (\<lambda>f. f) (map (\<lambda>k x. x AND NOT (push_bit k 1)) [0..<8]) x = (0 :: u8)"
  proof -
    have "fold (\<lambda>f. f) (map (\<lambda>k x. x AND NOT (push_bit k 1)) [0..<8]) x = x AND NOT 0xff"
      by (simp add: upto_8 and.assoc)
    moreover have "NOT 0xff = (0 :: u8)" by simp
    ultimately show ?thesis by (simp only: bit.conj_zero_right)
  qed
qed

lemma bitcount_bytes [simp]: "bitcount 0 = 0" "bitcount 255 = 8"
  by (simp_all add: bitcount.simps)

lemma count_silent [simp]: "count_clear8 0xff v = 0" "count_set8 0 v = 0"
  by (simp_all add: count_clear8_def count_set8_def stress_vm_count_bits8_def)

context vm_run
begin

lemma wrrd128nt_silent: "silent s (stress_vm_wrrd128nt info s)"
proof -
  have chunk: "proper (vi_sz info) (quad_words (q * 64) l)" if "q * 64 < vi_sz info" for q l
  proof -
    obtain k where k: "vi_sz info = 64 * k" using dvd_sz(1) by (auto simp: dvd_def)
    then have "Suc q \<le> k" using that by auto
    then have "Suc q * 64 \<le> vi_sz info" unfolding k by simp
    then show ?thesis by (auto simp: proper_def slot_def quad_words_def)
  qed
  have all: "proper (vi_sz info) (pass_words quad_words nxt 64 0 l (vi_sz info div 64))" for nxt l
    using within_quad unfolding within_def by (intro proper_turns) auto
  have again: "sets (vi_hw info) (vi_sz info) (quad_words (q * 64) l) m
      (store_all (vi_hw info) (concat (replicate 4 (quad_words (q * 64) l))) m)" if "q * 64 < vi_sz info" for q l m
    using sets_again [OF _ chunk [OF that], where m = m and k = 3] by (simp del: replicate_Suc)
  have none: "errors differ (vi_hw info) (pass_words (\<lambda>i v. concat (replicate 4 (quad_words i v))) nxt 64 0 l k) m = 0"
    if "errors differ (vi_hw info) (pass_words quad_words nxt 64 0 l k) m = 0" for nxt l k m
    using that by (induction k) (simp_all add: errors_again)
  show ?thesis
    unfolding stress_vm_wrrd128nt_def Let_def
    apply (rule runs_rule, simp add: case_prod_beta)
    apply (rule fill_rule_sets [where ps = quad_words and nxt = "\<lambda>v. v + 1" and loc = fst])
       apply (simp add: again)
      apply simp
     apply (simp add: all)
    apply (simp only: prod.case, rule impI)
    apply (rule halt_rule(2), simp only: prod.case)
    apply (rule if_rule)
     apply (simp add: silent_abort same_local_def)
    apply (rule scan_rule [where wt = differ and ps = "\<lambda>i v. concat (replicate 4 (quad_words i v))" and nxt = "\<lambda>v. v + 1" and loc = fst])
       apply (simp add: scans_def)
      apply simp
     apply (simp add: none sets_errors)
    apply (auto simp: same_local_def intro!: silent_finish)
    done
qed

lemma mscan_rule:
  assumes "\<And>x. fold (\<lambda>f. f) fs x = c"
    and "\<And>b stop t. same_local s t \<Longrightarrow> stop \<le> vi_sz info \<Longrightarrow> \<forall>j < stop. hw_read (vi_hw info) (vm_mem t) j = c \<Longrightarrow>
      (\<not> b \<Longrightarrow> stop = vi_sz info) \<Longrightarrow> P (b, stop, t)"
  shows "P (mscan_loop info fs s)"
proof -
  let ?n = "vi_sz info" and ?hw = "vi_hw info"
  let ?body = "\<lambda>i (_ :: nat, s). case vm_halt info (fold (\<lambda>f. change info f i) fs s) of
    (b, s) \<Rightarrow> if b \<or> vm_full info s then (True, i, s) else (False, i + 1, vm_count 1 s)"
  let ?I = "\<lambda>q (l, t). l = q \<and> same_local s t \<and> (\<forall>j < q. hw_read ?hw (vm_mem t) j = c)"
  let ?Q = "\<lambda>(l, t). l \<le> ?n \<and> same_local s t \<and> (\<forall>j < l. hw_read ?hw (vm_mem t) j = c)"
  have "case vm_for 1 ?n ?body 0 (0, s) of (b, t) \<Rightarrow> if b then ?Q t else ?I (turns 1 ?n 0) t"
  proof (rule vm_for_turns [where I = ?I and Q = ?Q])
    fix q t assume I: "?I q t" and q: "0 + q * 1 < ?n"
    obtain l s' where t: "t = (l, s')" by fastforce
    from change_fold [OF refl, where i = q and fs = fs and s = s'] q assms(1)
    have *: "same_local s' (fold (\<lambda>f. change info f q) fs s')"
      "\<forall>j < ?n. hw_read ?hw (vm_mem (fold (\<lambda>f. change info f q) fs s')) j = (if j = q then c else hw_read ?hw (vm_mem s') j)"
      by simp_all
    let ?u = "fold (\<lambda>f. change info f q) fs s'"
    have u: "same_local s ?u" "\<forall>j < Suc q. hw_read ?hw (vm_mem ?u) j = c"
      using I t * q same_local_trans by (auto simp: less_Suc_eq)
    moreover have "same_local s (snd (vm_halt info ?u))" "same_local s (vm_count 1 (snd (vm_halt info ?u)))"
      using u(1) by simp_all
    ultimately show "case ?body (0 + q * 1) t of (b, t) \<Rightarrow> if b then ?Q t else ?I (Suc q) t"
      using q by (simp add: t case_prod_beta)
  qed auto
  moreover obtain b l t where e: "vm_for 1 ?n ?body 0 (0, s) = (b, l, t)" by (rule prod_cases3)
  ultimately have "same_local s t \<and> l \<le> ?n \<and> (\<forall>j < l. hw_read ?hw (vm_mem t) j = c) \<and> (b \<or> l = ?n)"
    by (auto split: if_splits)
  then have "P (b, l, t)" using assms(2) by blast
  then show ?thesis unfolding mscan_loop_def Let_def by (simp only: e)
qed

lemma mscan_silent: "silent s (stress_vm_mscan info s)"
  unfolding stress_vm_mscan_def Let_def
  apply (rule mscan_rule [OF mscan_folds(1)], simp only: prod.case)
  apply (rule each_scan_rule [where wt = count_clear8 and ps = "\<lambda>i _. [(i, 0xff)]" and nxt = id and loc = "\<lambda>_. ()"])
     apply simp
    apply simp
   apply (simp add: errors_0 pass_words_def)
  apply (simp only: prod.case)
  apply (rule mscan_rule [OF mscan_folds(2)], simp only: prod.case)
  apply (rule if_rule)
   apply (simp add: silent_finish same_local_def)
  apply (rule each_scan_rule [where wt = count_set8 and ps = "\<lambda>i _. [(i, 0)]" and nxt = id and loc = "\<lambda>_. ()"])
     apply simp
    apply simp
   apply (simp add: errors_0 pass_words_def)
  apply (simp add: silent_finish same_local_def)
  done

end

section \<open>Moving inversion\<close>

context sound_memory
begin

lemma each_update_rule:
  fixes ps :: "nat \<Rightarrow> 'k \<Rightarrow> (nat \<times> 'w::len word) list"
  assumes body: "\<And>q s'. i + q * step < k \<Longrightarrow> loc s' = (nxt ^^ q) (loc s) \<Longrightarrow> same_local s s' \<Longrightarrow>
      \<forall>p \<in> set (ps (i + q * step) (loc s')). load hw (vm_mem s') (fst p) = (load hw (vm_mem s) (fst p) :: 'w word) \<Longrightarrow>
      case body (i + q * step) s' of (b, t) \<Rightarrow>
        same_local s' t \<and> (\<not> b \<longrightarrow> sets hw n (ps (i + q * step) (loc s')) (vm_mem s') (vm_mem t) \<and> loc t = nxt (loc s'))"
    and "0 < step" "proper n (pass_words ps nxt step i (loc s) (turns step k i))"
    and rest: "\<And>b t. same_local s t \<Longrightarrow>
      (\<not> b \<Longrightarrow> sets hw n (pass_words ps nxt step i (loc s) (turns step k i)) (vm_mem s) (vm_mem t)) \<Longrightarrow> P (b, t)"
  shows "P (vm_each step k body i s)"
  unfolding vm_each_def Let_def
proof (rule update_rule [where ps = ps and loc = "loc \<circ> snd" and nxt = nxt])
  fix q and l' :: unit and s' assume "i + q * step < k" "(loc \<circ> snd) (l', s') = (nxt ^^ q) ((loc \<circ> snd) ((), s))" "same_local s s'"
    "\<forall>p \<in> set (ps (i + q * step) ((loc \<circ> snd) (l', s'))). load hw (vm_mem s') (fst p) = (load hw (vm_mem s) (fst p) :: 'w word)"
  then show "case (case (l', s') of (u, s) \<Rightarrow> case body (i + q * step) s of (b, s) \<Rightarrow> (b, u, s)) of (b, l'', t) \<Rightarrow>
      same_local s' t \<and> (\<not> b \<longrightarrow> sets hw n (ps (i + q * step) ((loc \<circ> snd) (l', s'))) (vm_mem s') (vm_mem t)
        \<and> (loc \<circ> snd) (l'', t) = nxt ((loc \<circ> snd) (l', s')))"
    using body [where q = q and s' = s'] by (simp split: prod.splits)
qed (use assms(2,3) rest in simp_all)

end

text \<open>One word a turn, at the place that \<open>g\<close> picks, from the next draw.\<close>

definition drawn :: "(nat \<Rightarrow> nat) \<Rightarrow> (u64 \<Rightarrow> u64) \<Rightarrow> nat \<Rightarrow> mwc \<Rightarrow> (nat \<times> u64) list" where
  "drawn g h i m = [(g i, h (fst (stress_mwc64 m)))]"

definition drawn_pass :: "nat \<Rightarrow> (nat \<Rightarrow> nat) \<Rightarrow> (u64 \<Rightarrow> u64) \<Rightarrow> mwc \<Rightarrow> (nat \<times> u64) list" where
  "drawn_pass n g h m = pass_words (drawn g h) (snd \<circ> stress_mwc64) 8 0 m (n div 8)"

definition places :: "nat \<Rightarrow> (nat \<Rightarrow> nat) \<Rightarrow> bool" where
  "places n g \<longleftrightarrow> inj_on g {i. 8 dvd i \<and> i < n} \<and> (\<forall>i. 8 dvd i \<longrightarrow> i < n \<longrightarrow> slot 8 n (g i))"

context vm_run
begin

lemma sz_8: "q < vi_sz info div 8 \<longleftrightarrow> q * 8 < vi_sz info"
  using dvd_sz(2) by (auto simp: dvd_def)

lemma places_both: "places (vi_sz info) (\<lambda>i. i)" "places (vi_sz info) (\<lambda>i. vi_sz info - 8 - i)"
proof -
  obtain k where k: "vi_sz info = 8 * k" using dvd_sz(2) by (auto simp: dvd_def)
  have *: "i + 8 \<le> vi_sz info" if "8 dvd i" "i < vi_sz info" for i using that k by (auto simp: dvd_def)
  then show "places (vi_sz info) (\<lambda>i. i)" by (auto simp: places_def slot_def)
  show "places (vi_sz info) (\<lambda>i. vi_sz info - 8 - i)"
    using * k by (fastforce simp: places_def slot_def inj_on_def intro: dvd_diff_nat)
qed

lemma proper_drawn: "places (vi_sz info) g \<Longrightarrow> proper (vi_sz info) (pass_words (drawn g h) nxt 8 0 l (vi_sz info div 8))"
proof (rule proper_disjoint)
  assume g: "places (vi_sz info) g"
  fix q r l l' assume "q < r" "r < vi_sz info div 8"
  then have "q * 8 < vi_sz info" "r * 8 < vi_sz info" by (simp_all add: sz_8)
  then have "g (q * 8) \<noteq> g (r * 8)"
    using g \<open>q < r\<close> inj_on_eq_iff [of g "{i. 8 dvd i \<and> i < vi_sz info}" "q * 8" "r * 8"] by (simp add: places_def)
  then show "fst ` set (drawn g h (0 + q * 8) l) \<inter> fst ` set (drawn g h (0 + r * 8) l') = {}"
    by (simp add: drawn_def)
qed (simp add: proper_def drawn_def places_def sz_8)

lemma drawn_fill:
  assumes "places (vi_sz info) g" "\<And>t. same_local s t \<Longrightarrow> sets (vi_hw info) (vi_sz info) (drawn_pass (vi_sz info) g id (vm_mwc s)) (vm_mem s) (vm_mem t) \<Longrightarrow> P (False, t)"
  shows "P (vm_each 8 (vi_sz info) (\<lambda>i s. case with_mwc stress_mwc64 s of (v, s) \<Rightarrow> (False, puts info [(g i, v)] s)) 0 s)"
  apply (rule runs_each, simp add: case_prod_beta)
  apply (rule each_update_rule [where ps = "drawn g id" and nxt = "snd \<circ> stress_mwc64" and loc = vm_mwc])
     apply (use assms(1) in \<open>simp add: case_prod_beta drawn_def places_def\<close>)
    apply simp
   apply (simp add: proper_drawn assms(1))
  apply (use assms(2) in \<open>auto simp: drawn_pass_def\<close>)
  done

lemma drawn_invert:
  assumes "places (vi_sz info) g" "sets (vi_hw info) (vi_sz info) (drawn_pass (vi_sz info) g id (vm_mwc s)) m (vm_mem s)"
    "\<And>t. same_local s t \<Longrightarrow> sets (vi_hw info) (vi_sz info) (drawn_pass (vi_sz info) g (\<lambda>v. NOT v) (vm_mwc s)) (vm_mem s) (vm_mem t) \<Longrightarrow> P (False, t)"
  shows "P (vm_each 8 (vi_sz info) (\<lambda>i s. case with_mwc stress_mwc64 s of
    (v, s) \<Rightarrow> (False, puts info [(g i, NOT v)] (checks info differ [(g i, v)] s))) 0 s)"
  apply (rule runs_each, simp add: case_prod_beta)
  apply (rule each_update_rule [where ps = "drawn g (\<lambda>v. NOT v)" and nxt = "snd \<circ> stress_mwc64" and loc = vm_mwc])
     defer
    apply simp
   apply (simp add: proper_drawn assms(1))
  apply (use assms(3) in \<open>auto simp: drawn_pass_def\<close>) [1]
  subgoal for q s'
  proof -
    assume a: "0 + q * 8 < vi_sz info" "vm_mwc s' = ((snd \<circ> stress_mwc64) ^^ q) (vm_mwc s)"
      "\<forall>p \<in> set (drawn g (\<lambda>v. NOT v) (0 + q * 8) (vm_mwc s')). load (vi_hw info) (vm_mem s') (fst p) = (load (vi_hw info) (vm_mem s) (fst p) :: u64)"
    then have "(g (q * 8), fst (stress_mwc64 (vm_mwc s'))) \<in> set (drawn_pass (vi_sz info) g id (vm_mwc s))"
      by (auto simp: drawn_pass_def pass_words_def drawn_def sz_8 intro!: bexI [of _ q])
    then have "load (vi_hw info) (vm_mem s') (g (q * 8)) = fst (stress_mwc64 (vm_mwc s'))"
      using assms(2) a by (simp add: drawn_def sets_word)
    then show ?thesis
      using assms(1) a by (simp add: case_prod_beta drawn_def places_def same_local_def)
  qed
  done

lemma drawn_verify:
  assumes "sets (vi_hw info) (vi_sz info) (drawn_pass (vi_sz info) g h (vm_mwc s)) m (vm_mem s)" "\<And>t. same_local s t \<Longrightarrow> P (False, t)"
  shows "P (vm_each 8 (vi_sz info) (\<lambda>i s. case with_mwc stress_mwc64 s of (v, s) \<Rightarrow> (False, checks info differ [(g i, h v)] s)) 0 s)"
  apply (rule runs_each, simp add: case_prod_beta)
  apply (rule each_scan_rule [where wt = differ and ps = "drawn g h" and nxt = "snd \<circ> stress_mwc64" and loc = vm_mwc])
     apply (simp add: case_prod_beta drawn_def)
    apply simp
   apply (use sets_errors [OF assms(1)] in \<open>simp add: drawn_pass_def\<close>)
  apply (simp add: assms(2))
  done

lemma moving_inversion_silent: "silent s (stress_vm_moving_inversion info s)"
proof -
  have fin: "silent s (vm_finish info (if vm_full info t then t\<lparr>vm_c := vi_max_ops info\<rparr> else t))"
    if "vm_errs t = 0" "vm_fails t = vm_fails s" "vm_static t = vm_static s" for t
    using that by (simp add: silent_finish)
  show ?thesis
    unfolding stress_vm_moving_inversion_def Let_def
    apply (rule reseed_rule, simp only: prod.case)
    apply (rule drawn_fill [OF places_both(1)], simp only: prod.case)
    apply (rule drawn_invert [OF places_both(1)])
     apply simp
    apply (simp only: prod.case)
    apply (rule halt_rule(2), simp only: prod.case)
    apply (rule if_rule)
     apply (rule fin; simp add: same_local_def)
    apply (rule drawn_verify [where g = "\<lambda>i. i" and h = "\<lambda>v. NOT v"])
     apply simp
    apply (simp only: prod.case)
    apply (rule halt_rule(2), simp only: prod.case)
    apply (rule if_rule)
     apply (rule fin; simp add: same_local_def)
    apply (rule drawn_fill [OF places_both(2)], simp only: prod.case)
    apply (rule halt_rule(1), simp only: prod.case)
    apply (rule if_rule)
     apply (rule fin; simp add: same_local_def)
    apply (rule drawn_invert [OF places_both(2)])
     apply simp
    apply (simp only: prod.case)
    apply (rule halt_rule(2), simp only: prod.case)
    apply (rule if_rule)
     apply (rule fin; simp add: same_local_def)
    apply (rule drawn_verify [where g = "\<lambda>i. vi_sz info - 8 - i" and h = "\<lambda>v. NOT v"])
     apply simp
    apply (simp only: prod.case)
    apply (rule halt_rule(2), simp only: prod.case)
    apply (rule fin; simp add: same_local_def)
    done
qed

end

end
