(* ===== verification/Vm_Sound_Blocks.thy ===== *)
theory Vm_Sound_Blocks
  imports Vm_Sound_Words
begin

text \<open>
  The methods of the \<open>vm\<close> stressor whose passes leave their stretch of the buffer or move data
  (src/stress-vm.c) count no error on memory that works.
\<close>

section \<open>fwdrev\<close>

lemma upto_4: "[0..<4] = [0, 1, 2, 3 :: nat]"
  by code_simp

lemma fwdrev_distinct: "distinct (map fst (fwdrev_words (16 * (a + Suc b)) rnd (16 * a)))"
  by (simp add: fwdrev_words_def upto_4) (intro conjI; presburger)

lemma fwdrev_places:
  "fst ` set (fwdrev_words (16 * (a + Suc b)) rnd (16 * a)) \<subseteq>
    {j. even j \<and> 16 * a \<le> j \<and> j < 16 * Suc a} \<union> {j. odd j \<and> 16 * b \<le> j \<and> j < 16 * Suc b}"
  by (auto simp: fwdrev_words_def upto_4)

context vm_run
begin

lemma sz_16: "q < vi_sz info div 16 \<longleftrightarrow> q * 16 < vi_sz info"
  using dvd_sz(6) by (auto simp: dvd_def)

lemma fwdrev_chunk:
  assumes "q < vi_sz info div 16"
  shows "proper (vi_sz info) (fwdrev_words (vi_sz info) rnd (q * 16))"
    and "fst ` set (fwdrev_words (vi_sz info) rnd (q * 16)) \<subseteq> {j. even j \<and> 16 * q \<le> j \<and> j < 16 * Suc q}
      \<union> {j. odd j \<and> vi_sz info - 16 * Suc q \<le> j \<and> j < vi_sz info - 16 * q}"
proof -
  obtain k where k: "vi_sz info = 16 * k" using dvd_sz(6) by (auto simp: dvd_def)
  then have "q < k" using assms by simp
  then obtain b where "k = q + Suc b" by (auto simp: less_iff_Suc_add add.commute)
  then have e: "vi_sz info = 16 * (q + Suc b)" using k by simp
  show "fst ` set (fwdrev_words (vi_sz info) rnd (q * 16)) \<subseteq> {j. even j \<and> 16 * q \<le> j \<and> j < 16 * Suc q}
      \<union> {j. odd j \<and> vi_sz info - 16 * Suc q \<le> j \<and> j < vi_sz info - 16 * q}"
    using fwdrev_places [of q b rnd] by (auto simp: e mult.commute [of q])
  then show "proper (vi_sz info) (fwdrev_words (vi_sz info) rnd (q * 16))"
    using fwdrev_distinct [of q b rnd] e by (fastforce simp: proper_def slot_def mult.commute [of q])
qed

lemma fwdrev_proper: "proper (vi_sz info) (pass_words (\<lambda>i _. fwdrev_words (vi_sz info) rnd i) nxt 16 0 l (vi_sz info div 16))"
proof (rule proper_disjoint)
  fix q r assume "q < r" "r < vi_sz info div 16"
  moreover from this have "16 * Suc q \<le> 16 * r" "16 * r < vi_sz info" by simp_all
  ultimately show "fst ` set (fwdrev_words (vi_sz info) rnd (0 + q * 16)) \<inter> fst ` set (fwdrev_words (vi_sz info) rnd (0 + r * 16)) = {}"
    using fwdrev_chunk(2) [of q rnd] fwdrev_chunk(2) [of r rnd] by fastforce
qed (simp add: fwdrev_chunk)

lemma fwdrev_silent: "silent s (stress_vm_fwdrev info s)"
  unfolding stress_vm_fwdrev_def Let_def
  apply (rule mwc_rule, simp only: prod.case)
  subgoal for rnd m
    apply (rule each_fill_rule [where ps = "\<lambda>i _. fwdrev_words (vi_sz info) rnd i" and nxt = id and loc = "\<lambda>_. ()"])
       apply (simp add: case_prod_beta sets_store_all fwdrev_chunk sz_16)
      apply simp
     apply (simp add: fwdrev_proper)
    apply (simp only: prod.case)
    apply (rule if_rule)
     apply (simp add: silent_abort same_local_def)
    apply (rule each_scan_rule [where wt = differ and ps = "\<lambda>i _. fwdrev_words (vi_sz info) rnd i" and nxt = id and loc = "\<lambda>_. ()"])
       apply (simp add: case_prod_beta)
      apply simp
     apply (simp add: sets_errors)
    apply (auto simp: same_local_def intro!: silent_abort silent_finish)
    done
  done

end

section \<open>flip\<close>

text \<open>The change of all bytes by the first \<open>k\<close> masks.\<close>

definition flips :: "nat \<Rightarrow> u8" where
  "flips k = fold (\<lambda>j x. x XOR (shim_ror8 ^^ Suc j) 0x03) [0..<k] 0"

lemma flips_8: "flips 8 = 0"
  by code_simp

lemma flips_Suc: "flips (Suc k) = flips k XOR (shim_ror8 ^^ Suc k) 0x03"
  by (simp add: flips_def)

context vm_buffer
begin

lemma flip_rule:
  assumes "\<And>b l t. same_local s t \<Longrightarrow>
      (\<not> b \<Longrightarrow> \<forall>j < vi_sz info. hw_read (vi_hw info) (vm_mem t) j = hw_read (vi_hw info) (vm_mem s) j) \<Longrightarrow> P (b, l, t)"
  shows "P (vm_for 1 8 (\<lambda>i (bt, s). case change_all info (\<lambda>x. x XOR shim_ror8 bt) s of (b, s) \<Rightarrow> (b, shim_ror8 bt, s)) 0 (0x03, s))"
proof -
  let ?body = "\<lambda>i (bt, s). case change_all info (\<lambda>x. x XOR shim_ror8 bt) s of (b, s) \<Rightarrow> (b, shim_ror8 bt, s)"
  let ?I = "\<lambda>q (l, t). l = (shim_ror8 ^^ q) 0x03 \<and> same_local s t
    \<and> (\<forall>j < vi_sz info. hw_read (vi_hw info) (vm_mem t) j = hw_read (vi_hw info) (vm_mem s) j XOR flips q)"
  have "case vm_for 1 8 ?body 0 (0x03, s) of (b, t) \<Rightarrow> if b then same_local s (snd t) else ?I (turns 1 8 0) t"
  proof (rule vm_for_turns [where I = ?I and Q = "\<lambda>t. same_local s (snd t)"])
    fix q t assume I: "?I q t"
    obtain l s' where t: "t = (l, s')" by fastforce
    have "case change_all info (\<lambda>x. x XOR shim_ror8 l) s' of (b, u) \<Rightarrow> same_local s u
        \<and> (\<not> b \<longrightarrow> (\<forall>j < vi_sz info. hw_read (vi_hw info) (vm_mem u) j = hw_read (vi_hw info) (vm_mem s) j XOR flips (Suc q)))"
      by (rule change_all_rule) (use I t in \<open>auto simp: same_local_def flips_Suc xor.assoc\<close>)
    then show "case ?body (0 + q * 1) t of (b, t) \<Rightarrow> if b then same_local s (snd t) else ?I (Suc q) t"
      using I t by (auto split: prod.splits)
  qed (simp_all add: flips_def)
  moreover obtain b l t where e: "vm_for 1 8 ?body 0 (0x03, s) = (b, l, t)" by (rule prod_cases3)
  ultimately have "P (b, l, t)" by (intro assms) (auto simp: flips_8 split: if_splits)
  then show ?thesis by (simp only: e)
qed

end

context vm_run
begin

lemma flip_silent: "silent s (stress_vm_flip info s)"
  unfolding stress_vm_flip_def Let_def
  apply (rule reseed_rule, simp only: prod.case)
  apply (rule each_fill_within [where ps = "\<lambda>i m. eight i (\<lambda>j. (shim_ror8 ^^ j) (fst (stress_mwc8 m)))" and nxt = "snd \<circ> stress_mwc8"
    and loc = vm_mwc, OF _ within_eight])
      apply (simp add: case_prod_beta)
     apply simp_all [3]
  apply (simp only: prod.case)
  apply (rule if_rule)
   apply (simp add: silent_abort same_local_def)
  apply (rule flip_rule)
  apply (simp only: prod.case)
  apply (rule if_rule)
   apply (simp add: silent_abort same_local_def)
  apply (rule rand_check_rule)
   apply (simp add: sets_def set_pass_eight rand_byte_def)
  apply (auto simp: same_local_def intro!: silent_finish)
  done

end

section \<open>Checkerboard\<close>

lemma board_places: "fst ` set (swapped_words i) = fst ` set (board_words i)" "map fst (swapped_words i) = map fst (board_words i)"
  by (simp_all add: board_words_def swapped_words_def image_image comp_def)

text \<open>Exchanging the pairs of a block that holds the board words gives the swapped words.\<close>

lemma swap_store:
  "vm_mem (STRESS_VM_CHECKERBOARD_SWAP info p1 p2 s) =
    store_all (vi_hw info) [(p1, load (vi_hw info) (vm_mem s) p2 :: u64), (p2, load (vi_hw info) (vm_mem s) p1)] (vm_mem s)"
  by (simp add: STRESS_VM_CHECKERBOARD_SWAP_def Let_def)

lemma same_local_swap [simp]: "same_local r (STRESS_VM_CHECKERBOARD_SWAP info p1 p2 s) = same_local r s"
  by (simp add: STRESS_VM_CHECKERBOARD_SWAP_def Let_def same_local_def)

lemma vm_mwc_swap [simp]: "vm_mwc (STRESS_VM_CHECKERBOARD_SWAP info p1 p2 s) = vm_mwc s"
  by (simp add: STRESS_VM_CHECKERBOARD_SWAP_def Let_def)

lemma same_local_swaps [simp]: "same_local r (fold (\<lambda>j. STRESS_VM_CHECKERBOARD_SWAP info (f j) (g j)) js s) = same_local r s"
  by (induction js arbitrary: s) simp_all

context sound_memory
begin

lemma swaps_board:
  assumes "vi_hw info = hw" "8 dvd i" "i + 64 \<le> n"
    and "\<And>j. j < 8 \<Longrightarrow> load hw (vm_mem s) (i + 8 * j) = board ! j"
  shows "vm_mem (fold (\<lambda>j. STRESS_VM_CHECKERBOARD_SWAP info (i + 16 * j) (i + 16 * j + 8)) [0..<4] s)
    = store_all hw (swapped_words i) (vm_mem s)"
proof -
  have l: "load hw (vm_mem s) i = board ! 0" "load hw (vm_mem s) (i + 8) = board ! 1" "load hw (vm_mem s) (i + 16) = board ! 2"
    "load hw (vm_mem s) (i + 24) = board ! 3" "load hw (vm_mem s) (i + 32) = board ! 4" "load hw (vm_mem s) (i + 40) = board ! 5"
    "load hw (vm_mem s) (i + 48) = board ! 6" "load hw (vm_mem s) (i + 56) = board ! 7"
    using assms(4) [of 0] assms(4) [of 1] assms(4) [of 2] assms(4) [of 3] assms(4) [of 4] assms(4) [of 5] assms(4) [of 6] assms(4) [of 7]
    by simp_all
  have "[0..<4] = [0, 1, 2, 3 :: nat]" by (rule upto_4)
  then show ?thesis
    using assms(3)
    by (simp add: swap_store assms(1) swapped_words_def upto_8 l load_store_other add.commute [of _ i] del: upt_Suc)
qed

end

text \<open>The flag was seen to be off; then it stays off.\<close>

definition vm_off :: "'m vm_info \<Rightarrow> 'm vm \<Rightarrow> bool" where
  "vm_off info t \<longleftrightarrow> (\<exists>i < vm_reads t. \<not> vi_cont info i)"

lemma halt_off: "fst (vm_halt info s) \<Longrightarrow> vm_off info (snd (vm_halt info s))"
  by (auto simp: vm_halt_def vm_off_def)

lemma halted_rule:
  assumes "\<And>i s. fst (body i s) \<Longrightarrow> vm_off info (snd (body i s))"
    and "case vm_each step n body i s of (b, t) \<Rightarrow> (b \<longrightarrow> vm_off info t) \<longrightarrow> P (b, t)" "0 < step"
  shows "P (vm_each step n body i s)"
proof -
  let ?body = "\<lambda>i (u, s). case body i s of (b, s) \<Rightarrow> (b, u, s)"
  have "case vm_for step n ?body i ((), s) of (b, t) \<Rightarrow> if b then vm_off info (snd t) else \<exists>j. n \<le> j \<and> True"
  proof (rule vm_for_inv [OF assms(3)])
    fix i and t :: "unit \<times> 'a vm"
    show "case ?body i t of (b, t) \<Rightarrow> if b then vm_off info (snd t) else True"
      using assms(1) [of i "snd t"] by (simp add: case_prod_beta)
  qed simp
  then show ?thesis using assms(2) by (auto simp: vm_each_def Let_def split: prod.splits if_splits)
qed

context vm_run
begin

lemma sz_64: "q < vi_sz info div 64 \<longleftrightarrow> q * 64 < vi_sz info"
  using dvd_sz(1) by (auto simp: dvd_def)

lemma block_64:
  assumes "q * 64 < vi_sz info"
  shows "q * 64 + 64 \<le> vi_sz info"
proof -
  obtain k where k: "vi_sz info = 64 * k" using dvd_sz(1) by (auto simp: dvd_def)
  then have "Suc q \<le> k" using assms by auto
  then have "Suc q * 64 \<le> vi_sz info" unfolding k by simp
  then show ?thesis by simp
qed

lemma board_proper:
  "q * 64 < vi_sz info \<Longrightarrow> proper (vi_sz info) (board_words (q * 64))"
  "q * 64 < vi_sz info \<Longrightarrow> proper (vi_sz info) (swapped_words (q * 64))"
  using block_64 [of q] by (simp_all add: proper_def slot_def board_words_def swapped_words_def upto_8)

lemma board_pass_proper:
  "proper (vi_sz info) (pass_words (\<lambda>i _. board_words i) nxt 64 0 l (vi_sz info div 64))"
  "proper (vi_sz info) (pass_words (\<lambda>i _. swapped_words i) nxt 64 0 l (vi_sz info div 64))"
  using within_board unfolding within_def by (intro proper_turns; auto)+

lemma off_halts: "vm_off info t \<Longrightarrow> fst (vm_halt info t)"
  using stays_off by (auto simp: vm_halt_def vm_off_def dest: less_imp_le)

lemma board_read:
  assumes "sets (vi_hw info) (vi_sz info) (pass_words (\<lambda>i _. board_words i) id 64 0 () (vi_sz info div 64)) m m'"
    and "q * 64 < vi_sz info" "j < 8"
  shows "load (vi_hw info) m' (q * 64 + 8 * j) = board ! j"
  using assms by (intro sets_word [OF assms(1)]) (auto simp: pass_words_def sz_64 board_words_def intro!: bexI [of _ q])

lemma board_swap:
  assumes "q * 64 < vi_sz info" "\<And>j. j < 8 \<Longrightarrow> load (vi_hw info) (vm_mem s) (q * 64 + 8 * j) = board ! j"
  shows "sets (vi_hw info) (vi_sz info) (swapped_words (q * 64)) (vm_mem s)
    (vm_mem (fold (\<lambda>j. STRESS_VM_CHECKERBOARD_SWAP info (q * 64 + 16 * j) (q * 64 + 16 * j + 8)) [0..<4] s))"
proof -
  have "8 dvd q * 64" by (simp add: dvd_mult)
  from swaps_board [OF refl this block_64 [OF assms(1)] assms(2)]
  show ?thesis by (simp add: sets_store_all board_proper assms(1))
qed

text \<open>The last loop: when the flag is off it returns at once, otherwise it finds the swapped words.\<close>

lemma board_verify:
  assumes "vm_errs t = 0" "vm_fails t = vm_fails s" "vm_static t = vm_static s"
    and "vm_off info t \<or> errors differ (vi_hw info) (pass_words (\<lambda>i _. swapped_words i) id 64 0 () (vi_sz info div 64)) (vm_mem t) = 0"
  shows "silent s (case vm_for 64 (vi_sz info) (\<lambda>i (_, s). case vm_halt info s of (b, s) \<Rightarrow>
      if b then (True, True, s)
      else (vm_full info (vm_count 1 (checks info differ (swapped_words i) s)), False, vm_count 1 (checks info differ (swapped_words i) s)))
      0 (False, t) of (b, ret, s) \<Rightarrow> if ret then (0, s) else vm_finish info s)"
  using assms(4)
proof
  assume "vm_off info t"
  moreover obtain u where u: "vm_halt info t = (True, u)"
    using off_halts [OF \<open>vm_off info t\<close>] by (cases "vm_halt info t") auto
  then have "u = snd (vm_halt info t)" by simp
  then have "vm_errs u = 0 \<and> vm_fails u = vm_fails s \<and> vm_static u = vm_static s" using assms by simp
  ultimately show ?thesis
    using assms(1-3) u by (auto simp: vm_for.simps intro!: silent_zero silent_finish)
next
  assume e: "errors differ (vi_hw info) (pass_words (\<lambda>i _. swapped_words i) id 64 0 () (vi_sz info div 64)) (vm_mem t) = 0"
  show ?thesis
    apply (rule scan_rule [where wt = differ and ps = "\<lambda>i _. swapped_words i" and nxt = id and loc = "\<lambda>_. ()"])
       apply (simp add: scans_def case_prod_beta)
      apply simp
     apply (simp add: e)
    apply (use assms(1-3) in \<open>auto simp: same_local_def intro!: silent_zero silent_finish\<close>)
    done
qed

lemma checkerboard_silent: "silent s (stress_vm_checkerboard info s)"
  unfolding stress_vm_checkerboard_def Let_def
  apply (rule each_fill_rule [where ps = "\<lambda>i _. board_words i" and nxt = id and loc = "\<lambda>_. ()"])
     apply (simp add: case_prod_beta sets_over [OF sets_store_all sets_store_all] board_proper board_places)
    apply simp
   apply (simp add: board_pass_proper)
  apply (simp only: prod.case)
  apply (rule if_rule)
   apply (simp add: silent_zero same_local_def)
  apply (rule halted_rule [where info = info])
    apply (simp add: case_prod_beta halt_off split: if_splits)
   apply (rule each_update_rule [where ps = "\<lambda>i _. swapped_words i" and nxt = id and loc = "\<lambda>_. ()"])
      defer
      apply simp
     apply (simp add: board_pass_proper)
    apply (simp only: prod.case, rule impI)
    apply (rule board_verify)
       apply (simp_all add: same_local_def) [3]
    apply (simp add: vm_off_def inject_random_bit_errors_def sets_errors)
    apply (metis sets_errors weights_same(1))
   apply simp
  subgoal for b t q s'
  proof -
    assume "same_local (vm_enter s) t" "\<not> b" and a: "0 + q * 64 < vi_sz info"
      "\<not> b \<Longrightarrow> sets (vi_hw info) (vi_sz info) (pass_words (\<lambda>i _. board_words i) id 64 0 () (turns 64 (vi_sz info) 0)) (vm_mem (vm_enter s)) (vm_mem t)"
      "\<forall>p \<in> set (swapped_words (0 + q * 64)). load (vi_hw info) (vm_mem s') (fst p) = (load (vi_hw info) (vm_mem t) (fst p) :: u64)"
    have "load (vi_hw info) (vm_mem s') (q * 64 + 8 * j) = board ! j" if "j < 8" for j
    proof -
      have "load (vi_hw info) (vm_mem t) (q * 64 + 8 * j) = board ! j"
        using board_read [of "vm_mem (vm_enter s)" "vm_mem t" q j] a(1,2) \<open>\<not> b\<close> that by simp
      moreover have "q * 64 + 8 * j \<in> fst ` set (swapped_words (q * 64))"
        unfolding board_places using that by (auto simp: board_words_def image_image)
      ultimately show ?thesis using a(3) by force
    qed
    then show ?thesis using board_swap [of q "snd (vm_halt info s')"] a(1) by (auto simp: case_prod_beta)
  qed
  done

end

section \<open>Prime steps\<close>

definition steps_61 :: "nat \<Rightarrow> nat \<Rightarrow> nat set" where
  "steps_61 n offset = (\<Union>q<turns 61 n offset. {offset + q * 61})"

lemma steps_61_less: "j \<in> steps_61 n offset \<Longrightarrow> j < n"
  by (auto simp: steps_61_def turns_less)

lemma set_pass_61: "set (pass_words (\<lambda>i _. [(i, v)]) id 61 offset () (turns 61 n offset)) = (\<lambda>j. (j, v)) ` steps_61 n offset"
  by (auto simp: pass_words_def steps_61_def)

context vm_run
begin

lemma round_rule:
  assumes "\<forall>j \<in> steps_61 (vi_sz info) offset. hw_read (vi_hw info) (vm_mem s) j = v"
    and "\<And>b t. same_local s t \<Longrightarrow> (\<not> b \<Longrightarrow> \<forall>j \<in> steps_61 (vi_sz info) offset. hw_read (vi_hw info) (vm_mem t) j = g v) \<Longrightarrow> P (b, t)"
  shows "P (vm_each 61 (vi_sz info)
    (\<lambda>i s. (vm_full info (vm_count 1 (change info g i s)), vm_count 1 (change info g i s))) offset s)"
  apply (rule each_rule)
  apply (rule maps_rule [where A = "\<lambda>i. {i}" and f = g and hw = "vi_hw info" and n = "vi_sz info"])
     apply (simp add: vm_mem_change maps_change)
    apply simp
   apply simp
  apply (simp only: prod.case)
  apply (rule assms(2), assumption)
  apply (use assms(1) in \<open>auto simp: maps_def steps_61_def [symmetric] dest: steps_61_less\<close>)
  done

lemma prime_rounds_rule:
  assumes "\<forall>j \<in> steps_61 (vi_sz info) offset. hw_read (vi_hw info) (vm_mem s) j = v"
    and "\<And>b t. same_local s t \<Longrightarrow> (\<not> b \<Longrightarrow> \<forall>j \<in> steps_61 (vi_sz info) offset. hw_read (vi_hw info) (vm_mem t) j = fold f rs v) \<Longrightarrow> P (b, t)"
  shows "P (prime_rounds info f offset rs s)"
proof -
  have "case prime_rounds info f offset rs s of (b, t) \<Rightarrow> same_local s t
      \<and> (\<not> b \<longrightarrow> (\<forall>j \<in> steps_61 (vi_sz info) offset. hw_read (vi_hw info) (vm_mem t) j = fold f rs v))"
    using assms(1)
  proof (induction rs arbitrary: s v)
    case (Cons r rs)
    show ?case
      unfolding prime_rounds.simps Let_def
      apply (rule round_rule [where v = v], rule Cons.prems)
      apply (simp only: prod.case)
      apply (rule if_rule)
       apply simp
      apply (rule halt_rule(1), simp only: prod.case)
      apply (rule if_rule)
       apply (simp add: same_local_def)
      subgoal for b t b' t'
        using Cons.IH [of t' "f r v"] by (auto simp: same_local_def)
      done
  qed simp
  then show ?thesis using assms(2) by (cases "prime_rounds info f offset rs s") auto
qed

lemma prime_walk_silent:
  assumes "fold f [0..<8] first = last_val" "wt last_val last_val = 0"
    and "\<And>st k. prime_incdec_val (put_offset k st) = prime_incdec_val st" "\<And>st k. vm_all_i (put_offset k st) = vm_all_i st"
  shows "silent s (prime_walk first f wt last_val get put_offset info s)"
  unfolding prime_walk_def Let_def
  apply (rule if_rule)
   apply (simp add: silent_zero)
  apply (rule runs_each, simp)
  apply (rule each_fill_rule [where ps = "\<lambda>i _. [(i, first)]" and nxt = id and loc = "\<lambda>_. ()"])
     apply simp
    apply simp
   apply simp
  apply (simp only: prod.case, rule impI)
  apply (rule prime_rounds_rule [where v = first])
   apply (simp add: sets_def set_pass_61)
  apply (simp only: prod.case)
  apply (rule if_rule)
   apply (simp add: silent_abort same_local_def assms(3,4))
  apply (rule each_scan_rule [where wt = wt and ps = "\<lambda>i _. [(i, last_val)]" and nxt = id and loc = "\<lambda>_. ()"])
     apply simp
    apply simp
   apply (simp add: errors_0 set_pass_61 assms(1,2))
  apply (auto simp: same_local_def stress_vm_check_def assms(3,4) intro!: silent_abort)
  done

lemma prime_zero_silent: "silent s (stress_vm_prime_zero info s)"
  unfolding stress_vm_prime_zero_def
  by (rule prime_walk_silent) (simp_all add: upto_8)

lemma prime_one_silent: "silent s (stress_vm_prime_one info s)"
  unfolding stress_vm_prime_one_def
  by (rule prime_walk_silent) (simp_all add: upto_8)

lemma prime_gray_zero_silent: "silent s (stress_vm_prime_gray_zero info s)"
  unfolding stress_vm_prime_gray_zero_def
  by (rule prime_walk_silent) (simp_all add: upto_8 gray_def)

lemma prime_gray_one_silent: "silent s (stress_vm_prime_gray_one info s)"
  unfolding stress_vm_prime_gray_one_def
  by (rule prime_walk_silent) (simp_all add: upto_8 gray_def)

end

section \<open>prime-incdec\<close>

lemma stress_vm_mod_less:
  "unat a < 3 * unat b \<Longrightarrow> unat (stress_vm_mod a b) < unat b"
  by (auto simp: stress_vm_mod_def Let_def word_le_nat_alt unat_sub)

lemma change_frame [simp]: "vm_errs (change info f i s) = vm_errs s" "vm_fails (change info f i s) = vm_fails s"
  "vm_static (change info f i s) = vm_static s"
  by (simp_all add: change_def)

context vm_run
begin

lemma prime_incdec_silent:
  assumes "prime_incdec_val (vm_static s) = 0" "vi_sz info < 2 ^ 62"
    and "unat (stress_prime64_get (vi_isqrt info) (vi_prime_reads info) (of_nat (vi_sz info) + 4096)) \<le> 2 * vi_sz info"
  shows "silent s (stress_vm_prime_incdec info s)"
proof -
  let ?p = "stress_prime64_get (vi_isqrt info) (vi_prime_reads info) (of_nat (vi_sz info) + 4096)"
  let ?n = "vi_sz info" and ?hw = "vi_hw info"
  let ?clean = "\<lambda>t. (vm_errs t = 0 \<and> vm_fails t = vm_fails s \<and> vm_static t = vm_static s) \<and> (\<forall>j < ?n. hw_read ?hw (vm_mem t) j = 0)"
  have sz: "unat (of_nat ?n :: u64) = ?n" using assms(2) by (simp add: unat_of_nat)
  have step: "unat (j + ?p) < 3 * ?n" if "unat j < ?n" for j :: u64
  proof -
    have "unat (j + ?p) \<le> unat j + unat ?p" by (simp only: unat_word_ariths) simp
    then show ?thesis using that assms(3) by linarith
  qed
  have mod: "unat (stress_vm_mod j (of_nat ?n)) < ?n" if "unat j < 3 * ?n" for j :: u64
    using stress_vm_mod_less [of j "of_nat ?n"] that by (simp only: sz)
  show ?thesis
    unfolding stress_vm_prime_incdec_def Let_def
    apply (rule if_rule)
     apply (simp add: silent_zero)
    apply (rule each_rule)
    apply (rule keep_rule [where J = ?clean])
      apply (simp add: vm_mem_change read_write assms(1))
     apply (simp add: memset_read)
    apply (simp only: prod.case)
    apply (rule pair_rule [where J = "\<lambda>(j, t). (?n = 0 \<or> unat j < 3 * ?n) \<and> ?clean t"])
      apply (auto simp: vm_mem_change read_write assms(1) mod step split: prod.splits) [1]
     apply (use assms(3) in auto) [1]
    apply (simp only: prod.case case_prod_beta)
    apply (rule sweep_check_rule)
      apply simp
     apply simp
    apply (auto simp: same_local_def assms(1) intro!: silent_finish)
    done
qed

end

section \<open>swap\<close>

text \<open>Where the byte at place \<open>x\<close> comes from when \<open>k\<close> bytes from \<open>a\<close> and from \<open>b\<close> are exchanged.\<close>

definition exch :: "nat \<Rightarrow> nat \<Rightarrow> nat \<Rightarrow> nat \<Rightarrow> nat" where
  "exch k a b x = (if a \<le> x \<and> x < a + k then b + (x - a) else if b \<le> x \<and> x < b + k then a + (x - b) else x)"

definition apart :: "nat \<Rightarrow> nat \<Rightarrow> nat \<Rightarrow> bool" where
  "apart k a b \<longleftrightarrow> a = b \<or> a + k \<le> b \<or> b + k \<le> a"

lemma exch_exch: "apart k a b \<Longrightarrow> exch k a b (exch k a b x) = x"
  by (auto simp: exch_def apart_def)

lemma exch_less: "a + k \<le> n \<Longrightarrow> b + k \<le> n \<Longrightarrow> x < n \<Longrightarrow> exch k a b x < n"
  by (auto simp: exch_def)

primrec exchs :: "(nat \<Rightarrow> nat) \<Rightarrow> (nat \<Rightarrow> nat) \<Rightarrow> nat \<Rightarrow> nat \<Rightarrow> nat" where
  "exchs f g 0 x = x"
| "exchs f g (Suc q) x = exchs f g q (exch 64 (f q) (g q) x)"

lemma same_local_swap_byte [simp]: "same_local r (swap_byte info a b s) = same_local r s"
  by (simp add: swap_byte_def Let_def same_local_def)

lemma same_local_swap_bytes [simp]: "same_local r (fold (\<lambda>j. swap_byte info (a + j) (b + j)) js s) = same_local r s"
  by (induction js arbitrary: s) simp_all

context sound_memory
begin

lemma swap_bytes:
  assumes "vi_hw info = hw" "a + k \<le> n" "b + k \<le> n" "apart k a b" "x < n"
  shows "hw_read hw (vm_mem (fold (\<lambda>j. swap_byte info (a + j) (b + j)) [0..<k] s)) x = hw_read hw (vm_mem s) (exch k a b x)"
  using assms(2-)
proof (induction k arbitrary: x)
  case (Suc k)
  let ?t = "fold (\<lambda>j. swap_byte info (a + j) (b + j)) [0..<k] s"
  have IH: "hw_read hw (vm_mem ?t) y = hw_read hw (vm_mem s) (exch k a b y)" if "y < n" for y
    using Suc.IH [OF _ _ _ that] Suc.prems by (auto simp: apart_def)
  have "hw_read hw (vm_mem (swap_byte info (a + k) (b + k) ?t)) x =
      hw_read hw (vm_mem ?t) (if x = b + k then a + k else if x = a + k then b + k else x)"
    using Suc.prems by (simp add: swap_byte_def Let_def assms(1) read_write)
  also have "\<dots> = hw_read hw (vm_mem s) (exch (Suc k) a b x)"
    using Suc.prems by (auto simp: IH exch_def apart_def)
  finally show ?case by simp
qed (auto simp: exch_def)

end

lemma modn_less_nat: "0 < k \<Longrightarrow> unat (fst (stress_mwc64modn (of_nat k) m)) < k"
proof -
  assume "0 < k"
  show ?thesis
  proof (cases "(of_nat k :: u64) = 0")
    case True
    then show ?thesis using \<open>0 < k\<close> by (simp add: stress_mwc64modn_def Let_def case_prod_beta)
  next
    case False
    then have "fst (stress_mwc64modn (of_nat k) m) < of_nat k" by (intro mwc64modn_less) (simp add: word_gt_0)
    then have "unat (fst (stress_mwc64modn (of_nat k) m)) < unat (of_nat k :: u64)" by (simp add: word_less_nat_alt)
    also have "\<dots> \<le> k" by (simp add: unat_of_nat)
    finally show ?thesis .
  qed
qed

lemma draws_elem: "v \<in> set (fst (draws f n s)) \<Longrightarrow> \<exists>s'. v = fst (f s')"
  by (induction n arbitrary: s) (auto simp: Let_def case_prod_beta)

context vm_run
begin

lemma swap_chunk_rule:
  assumes "swaps ! (i div 64) + 64 \<le> vi_sz info" "64 dvd swaps ! (i div 64)" "64 dvd i" "i + 64 \<le> vi_sz info"
    and "\<And>b t. same_local s t \<Longrightarrow>
      \<forall>x < vi_sz info. hw_read (vi_hw info) (vm_mem t) x = hw_read (vi_hw info) (vm_mem s) (exch 64 i (swaps ! (i div 64)) x) \<Longrightarrow> P (b, t)"
  shows "P (swap_chunk info swaps i s)"
proof -
  have "apart 64 i (swaps ! (i div 64))"
    using assms(2,3) by (auto simp: apart_def dvd_def)
  then have "hw_read (vi_hw info) (vm_mem (fold (\<lambda>j. swap_byte info (i + j) (swaps ! (i div 64) + j)) [0..<64] s)) x
      = hw_read (vi_hw info) (vm_mem s) (exch 64 i (swaps ! (i div 64)) x)" if "x < vi_sz info" for x
    by (rule swap_bytes [OF refl assms(4,1) _ that])
  then show ?thesis
    unfolding swap_chunk_def
    apply -
    apply (rule halt_rule(2), rule assms(5))
     apply (simp add: same_local_def)
     apply (metis same_local_def same_local_refl same_local_swap_bytes)
    apply simp
    done
qed

definition swaps_ok :: "nat list \<Rightarrow> bool" where
  "swaps_ok swaps \<longleftrightarrow> (\<forall>q < vi_sz info div 64. swaps ! q + 64 \<le> vi_sz info \<and> 64 dvd swaps ! q)"

abbreviation swapped :: "nat list \<Rightarrow> nat \<Rightarrow> nat \<Rightarrow> nat" where
  "swapped swaps \<equiv> exchs (\<lambda>q. q * 64) (\<lambda>q. swaps ! q)"

lemma swap_turn:
  assumes "swaps_ok swaps" "q < vi_sz info div 64"
    and "\<And>b t. same_local s t \<Longrightarrow>
      \<forall>x < vi_sz info. hw_read (vi_hw info) (vm_mem t) x = hw_read (vi_hw info) (vm_mem s) (exch 64 (q * 64) (swaps ! q) x) \<Longrightarrow> P (b, t)"
  shows "P (swap_chunk info swaps (q * 64) s)"
  by (rule swap_chunk_rule) (use assms block_64 [of q] in \<open>simp_all add: swaps_ok_def sz_64\<close>)

lemma swap_turn_less:
  "swaps_ok swaps \<Longrightarrow> q < vi_sz info div 64 \<Longrightarrow> x < vi_sz info \<Longrightarrow> exch 64 (q * 64) (swaps ! q) x < vi_sz info"
  using block_64 [of q] by (intro exch_less) (simp_all add: swaps_ok_def sz_64)

lemma swap_forward:
  assumes "swaps_ok swaps"
    and "\<And>b t. same_local s t \<Longrightarrow> (\<not> b \<Longrightarrow> \<forall>x < vi_sz info. hw_read (vi_hw info) (vm_mem t) x =
        hw_read (vi_hw info) (vm_mem s) (swapped swaps (vi_sz info div 64) x)) \<Longrightarrow> P (b, t)"
  shows "P (vm_each 64 (vi_sz info) (swap_chunk info swaps) 0 s)"
proof (rule each_rule)
  let ?n = "vi_sz info" and ?hw = "vi_hw info"
  let ?body = "\<lambda>i (u :: unit, s). case swap_chunk info swaps i s of (b, s) \<Rightarrow> (b, u, s)"
  let ?I = "\<lambda>q (t :: unit \<times> 'm vm). same_local s (snd t) \<and> (\<forall>x < ?n. hw_read ?hw (vm_mem (snd t)) x = hw_read ?hw (vm_mem s) (swapped swaps q x))"
  have "case vm_for 64 ?n ?body 0 ((), s) of (b, t) \<Rightarrow> if b then same_local s (snd t) else ?I (turns 64 ?n 0) t"
  proof (rule vm_for_turns [where I = ?I and Q = "\<lambda>t. same_local s (snd t)"])
    fix q t assume I: "?I q t" and q: "0 + q * 64 < ?n"
    then have "q < ?n div 64" by (simp add: sz_64)
    then have "case swap_chunk info swaps (q * 64) (snd t) of (b, t') \<Rightarrow>
        same_local s t' \<and> (\<forall>x < ?n. hw_read ?hw (vm_mem t') x = hw_read ?hw (vm_mem s) (swapped swaps (Suc q) x))"
      by (rule swap_turn [OF assms(1)]) (use I \<open>q < ?n div 64\<close> assms(1) in \<open>auto simp: swap_turn_less same_local_def\<close>)
    then show "case ?body (0 + q * 64) t of (b, t) \<Rightarrow> if b then same_local s (snd t) else ?I (Suc q) t"
      by (auto split: prod.splits)
  qed simp_all
  moreover obtain b u t where e: "vm_for 64 ?n ?body 0 ((), s) = (b, u, t)" by (rule prod_cases3)
  ultimately have "P (b, t)" by (intro assms(2)) (auto split: if_splits)
  then show "case vm_for 64 ?n ?body 0 ((), s) of (b, u, t) \<Rightarrow> P (b, t)" by (simp only: e prod.case)
qed

lemma swap_back:
  assumes "swaps_ok swaps" "\<forall>x < vi_sz info. hw_read (vi_hw info) (vm_mem s) x = c (swapped swaps (vi_sz info div 64) x)"
    and "\<And>b t. same_local s t \<Longrightarrow> (\<not> b \<Longrightarrow> \<forall>x < vi_sz info. hw_read (vi_hw info) (vm_mem t) x = c x) \<Longrightarrow> P (b, t)"
  shows "P (vm_each 64 (vi_sz info) (\<lambda>i. swap_chunk info swaps (vi_sz info - 64 - i)) 0 s)"
proof (rule each_rule)
  let ?n = "vi_sz info" and ?hw = "vi_hw info"
  let ?body = "\<lambda>i (u :: unit, s). case swap_chunk info swaps (?n - 64 - i) s of (b, s) \<Rightarrow> (b, u, s)"
  let ?I = "\<lambda>q (t :: unit \<times> 'm vm). same_local s (snd t) \<and> (\<forall>x < ?n. hw_read ?hw (vm_mem (snd t)) x = c (swapped swaps (?n div 64 - q) x))"
  obtain k where k: "?n = 64 * k" using dvd_sz(1) by (auto simp: dvd_def)
  have "case vm_for 64 ?n ?body 0 ((), s) of (b, t) \<Rightarrow> if b then same_local s (snd t) else ?I (turns 64 ?n 0) t"
  proof (rule vm_for_turns [where I = ?I and Q = "\<lambda>t. same_local s (snd t)"])
    fix q t assume I: "?I q t" and "0 + q * 64 < ?n"
    then have q: "q < k" by (simp add: k)
    let ?r = "k - Suc q"
    have r: "?r < ?n div 64" "?n - 64 - q * 64 = ?r * 64" "?n div 64 - q = Suc ?r" "?n div 64 - Suc q = ?r"
      using q by (simp_all add: k diff_mult_distrib)
    have apart: "apart 64 (?r * 64) (swaps ! ?r)"
      using assms(1) r(1) by (auto simp: swaps_ok_def apart_def dvd_def)
    have "case swap_chunk info swaps (?r * 64) (snd t) of (b, t') \<Rightarrow>
        same_local s t' \<and> (\<forall>x < ?n. hw_read ?hw (vm_mem t') x = c (swapped swaps ?r x))"
      by (rule swap_turn [OF assms(1) r(1)])
        (use I in \<open>auto simp: r(3) swap_turn_less assms(1) r(1) same_local_def exch_exch [OF apart]\<close>)
    then show "case ?body (0 + q * 64) t of (b, t) \<Rightarrow> if b then same_local s (snd t) else ?I (Suc q) t"
      using r(2,4) by (auto split: prod.splits)
  qed (use assms(2) in simp_all)
  moreover obtain b u t where e: "vm_for 64 ?n ?body 0 ((), s) = (b, u, t)" by (rule prod_cases3)
  ultimately have "P (b, t)" by (intro assms(3)) (auto split: if_splits)
  then show "case vm_for 64 ?n ?body 0 ((), s) of (b, u, t) \<Rightarrow> P (b, t)" by (simp only: e prod.case)
qed

lemma swap_targets:
  "swaps_ok (map (\<lambda>v. unat v * 64) (fst (draws (stress_mwc64modn (of_nat (vi_sz info div 64))) (vi_sz info div 64) m)))"
proof -
  let ?k = "vi_sz info div 64"
  let ?vs = "fst (draws (stress_mwc64modn (of_nat ?k)) ?k m)"
  have "unat (?vs ! q) < ?k" if "q < ?k" for q
  proof -
    have "?vs ! q \<in> set ?vs" using that by simp
    then obtain m' where v: "?vs ! q = fst (stress_mwc64modn (of_nat ?k) m')" by (auto dest: draws_elem)
    show ?thesis unfolding v by (rule modn_less_nat) (use that in simp)
  qed
  then show ?thesis
    using block_64 by (auto simp: swaps_ok_def sz_64)
qed

lemma errors_moved:
  fixes ps :: "(nat \<times> u8) list"
  assumes "sets hw n ps m m'" "\<And>i v. (i, v) \<in> set ps \<Longrightarrow> hw_read hw m'' i = hw_read hw m' i"
  shows "errors differ hw ps m'' = 0"
  using assms unfolding errors_0 sets_def by force

lemma chunk_less:
  assumes "(i, v) \<in> set (pass_words (\<lambda>i m. chunk_words i (f m)) nxt 64 0 l (vi_sz info div 64))"
  shows "i < vi_sz info"
  using assms by (auto simp: pass_words_def chunk_words_def sz_64 dest!: block_64)

lemma swap_silent: "silent s (stress_vm_swap info s)"
  unfolding stress_vm_swap_def Let_def
  apply (rule reseed_rule, simp only: prod.case)
  apply (rule if_rule)
   apply simp
  apply (rule mwc_rule, simp only: prod.case)
  apply (rule runs_each, simp add: case_prod_beta)
  apply (rule each_fill_within [where ps = "\<lambda>i m. chunk_words i (fst (stress_mwc8 m))" and nxt = "snd \<circ> stress_mwc8" and loc = vm_mwc, OF _ within_chunk])
      apply (simp add: case_prod_beta)
     apply simp_all [3]
  apply (simp only: prod.case, rule impI)
  apply (rule swap_forward)
   apply (metis swap_targets fst_conv)
  apply (simp only: prod.case)
  apply (rule if_rule)
   apply (simp add: silent_abort same_local_def)
  apply (rule swap_back)
    apply (metis swap_targets fst_conv)
   apply (erule meta_mp, assumption)
  apply (simp only: prod.case)
  apply (rule if_rule)
   apply (simp add: silent_abort same_local_def)
  apply (rule each_scan_rule [where wt = differ and ps = "\<lambda>i m. chunk_words i (fst (stress_mwc8 m))" and nxt = "snd \<circ> stress_mwc8" and loc = vm_mwc])
     apply (simp add: case_prod_beta)
    apply simp
   apply (simp, rule errors_moved, assumption)
   apply (drule chunk_less, simp)
  apply (auto simp: same_local_def intro!: silent_finish)
  done

end

end
