(* ===== verification/Vm_Sound.thy ===== *)
theory Vm_Sound
  imports Vm_Sound_Blocks
begin

text \<open>
  The last methods of the \<open>vm\<close> stressor (src/stress-vm.c) and the table: no method raises a false
  alarm.
\<close>

section \<open>Modulo\<close>

context vm_run
begin

lemma modulo_run_keeps:
  "case modulo_run info v k ptr s of (p, t) \<Rightarrow>
    same_local s t \<and> (p = ptr + k \<or> vi_sz info \<le> p) \<and> (\<forall>x < vi_sz info. x < ptr \<or> ptr + k \<le> x \<longrightarrow> hw_read (vi_hw info) (vm_mem t) x = hw_read (vi_hw info) (vm_mem s) x)"
proof (induction k arbitrary: ptr s)
  case (Suc k)
  show ?case
    using Suc.IH [where ptr = "ptr + 1" and s = "vm_count 1 (puts info [(ptr, v)] s)"]
    by (auto simp: same_local_def read_write split: prod.splits)
qed simp

lemma modulo_block_keeps:
  assumes "i < 23" "ptr = 23 * c"
  shows "case modulo_block info v i ptr s of (b, p, t) \<Rightarrow>
    same_local s t \<and> (b \<or> p = 23 * Suc c \<or> vi_sz info \<le> p)
    \<and> (\<forall>x < vi_sz info. x mod 23 = i \<longrightarrow> hw_read (vi_hw info) (vm_mem t) x = hw_read (vi_hw info) (vm_mem s) x)"
proof -
  obtain p s1 where r1: "modulo_run info v i ptr s = (p, s1)" by fastforce
  obtain b s2 where h1: "vm_halt info s1 = (b, s2)" by fastforce
  obtain p' s3 where r2: "modulo_run info v (22 - i) (p + 1) s2 = (p', s3)" by fastforce
  have k1: "same_local s s1" "p = ptr + i \<or> vi_sz info \<le> p"
      "\<forall>x < vi_sz info. x < ptr \<or> ptr + i \<le> x \<longrightarrow> hw_read (vi_hw info) (vm_mem s1) x = hw_read (vi_hw info) (vm_mem s) x"
    using modulo_run_keeps [where v = v and k = i and ptr = ptr and s = s] r1 by simp_all
  have k2: "same_local s2 s3" "p' = p + 1 + (22 - i) \<or> vi_sz info \<le> p'"
      "\<forall>x < vi_sz info. x < p + 1 \<or> p + 1 + (22 - i) \<le> x \<longrightarrow> hw_read (vi_hw info) (vm_mem s3) x = hw_read (vi_hw info) (vm_mem s2) x"
    using modulo_run_keeps [where v = v and k = "22 - i" and ptr = "p + 1" and s = s2] r2 by simp_all
  have kh: "same_local s1 s2" "vm_mem s2 = vm_mem s1"
    using h1 by (auto simp: vm_halt_def same_local_def)
  have one: "x < ptr \<or> ptr + i \<le> x" if "x mod 23 = i" for x
  proof (cases "x div 23 < c")
    case True
    then have "x < 23 * c" by (simp add: div_less_iff_less_mult mult.commute)
    then show ?thesis by (simp add: assms(2))
  next
    case False
    then have "23 * c \<le> 23 * (x div 23)" by simp
    then show ?thesis using mult_div_mod_eq [of 23 x] that assms(2) by linarith
  qed
  have two: "x < p + 1 \<or> p + 1 + (22 - i) \<le> x" if "x < vi_sz info" "x mod 23 = i" for x
  proof (cases "x div 23 \<le> c")
    case True
    then have "23 * (x div 23) \<le> 23 * c" by simp
    then show ?thesis using mult_div_mod_eq [of 23 x] that assms k1(2) by linarith
  next
    case False
    then have "23 * Suc c \<le> 23 * (x div 23)" by (intro mult_le_mono2) simp
    then show ?thesis using mult_div_mod_eq [of 23 x] that assms k1(2) by fastforce
  qed
  obtain b' s4 where h2: "vm_halt info s3 = (b', s4)" by fastforce
  have kh2: "same_local s3 s4" "vm_mem s4 = vm_mem s3"
    using h2 by (auto simp: vm_halt_def same_local_def)
  have e: "modulo_block info v i ptr s = (if b then (True, p, s2) else (b', p', s4))"
    by (simp add: modulo_block_def Let_def r1 h1 r2 [simplified] h2)
  have same: "same_local s s2" "same_local s s4"
    using k1(1) k2(1) kh(1) kh2(1) by (simp_all add: same_local_def)
  have "hw_read (vi_hw info) (vm_mem s2) x = hw_read (vi_hw info) (vm_mem s) x" if "x < vi_sz info" "x mod 23 = i" for x
    using one [OF that(2)] k1(3) kh(2) that(1) by auto
  moreover from this have "hw_read (vi_hw info) (vm_mem s4) x = hw_read (vi_hw info) (vm_mem s) x" if "x < vi_sz info" "x mod 23 = i" for x
    using two [OF that] k2(3) kh2(2) that by auto
  moreover have "p' = 23 * Suc c \<or> vi_sz info \<le> p'" using k1(2) k2(2) assms by auto
  ultimately show ?thesis using same by (simp add: e)
qed

lemma modulo_blocks_keep:
  assumes "i < 23"
  shows "23 dvd ptr \<or> vi_sz info \<le> ptr \<Longrightarrow> case modulo_blocks info v i ptr s of (b, t) \<Rightarrow>
    same_local s t \<and> (\<forall>x < vi_sz info. x mod 23 = i \<longrightarrow> hw_read (vi_hw info) (vm_mem t) x = hw_read (vi_hw info) (vm_mem s) x)"
proof (induction "vi_sz info - ptr" arbitrary: ptr s rule: less_induct)
  case less
  show ?case
  proof (cases "ptr < vi_sz info")
    case True
    then obtain c where c: "ptr = 23 * c" using less.prems by auto
    obtain b p t where m: "modulo_block info v i ptr s = (b, p, t)" by (rule prod_cases3)
    have k: "same_local s t" "b \<or> p = 23 * Suc c \<or> vi_sz info \<le> p"
      "\<forall>x < vi_sz info. x mod 23 = i \<longrightarrow> hw_read (vi_hw info) (vm_mem t) x = hw_read (vi_hw info) (vm_mem s) x"
      using modulo_block_keeps [OF assms c, where v = v and s = s] m by simp_all
    show ?thesis
    proof (cases b)
      case True
      then show ?thesis using k m \<open>ptr < vi_sz info\<close> by (subst modulo_blocks.simps) simp
    next
      case False
      have "ptr \<le> p" using modulo_block_ptr [of ptr info v i s] m by simp
      have "23 dvd p + 23 \<or> vi_sz info \<le> p + 23" using k(2) False by auto
      then have "case modulo_blocks info v i (p + 23) t of (b, u) \<Rightarrow>
        same_local t u \<and> (\<forall>x < vi_sz info. x mod 23 = i \<longrightarrow> hw_read (vi_hw info) (vm_mem u) x = hw_read (vi_hw info) (vm_mem t) x)"
        using \<open>ptr \<le> p\<close> True by (intro less.hyps) simp_all
      then show ?thesis
        using k m \<open>ptr < vi_sz info\<close> False by (subst modulo_blocks.simps) (auto simp: same_local_def)
    qed
  qed (simp add: modulo_blocks.simps)
qed

lemma set_pass_23: "i < 23 \<Longrightarrow> (x, w) \<in> set (pass_words (\<lambda>p _. [(p, v)]) id 23 i () (turns 23 (vi_sz info) i)) \<Longrightarrow>
    x < vi_sz info \<and> x mod 23 = i"
  by (auto simp: pass_words_def turns_less)

definition modulo_ok :: "'m vm \<Rightarrow> 'm vm \<Rightarrow> bool" where
  "modulo_ok s t \<longleftrightarrow> vm_errs t = 0 \<and> vm_fails t = vm_fails s \<and> vm_static t = vm_static s"

lemma modulo_turn_ok:
  assumes "modulo_ok s (snd r)" "i < 23"
  shows "case modulo_turn info pattern i r of (b, ret, t) \<Rightarrow> modulo_ok s t"
  unfolding modulo_turn_def Let_def
  apply (rule runs_each, simp)
  apply (rule each_fill_rule [where ps = "\<lambda>p _. [(p, pattern)]" and nxt = id and loc = "\<lambda>_. ()"])
     apply simp
    apply simp
   apply simp
  apply (simp only: prod.case, rule impI)
  apply (rule halt_rule(1), simp only: prod.case)
  apply (rule if_rule)
   apply (use assms in \<open>simp add: modulo_ok_def same_local_def\<close>)
  subgoal premises p for b t b' t'
  proof -
    obtain c u where u: "modulo_blocks info (NOT pattern) i 0 t' = (c, u)" by fastforce
    have k: "same_local t' u" "\<forall>x < vi_sz info. x mod 23 = i \<longrightarrow> hw_read (vi_hw info) (vm_mem u) x = hw_read (vi_hw info) (vm_mem t) x"
      using modulo_blocks_keep [OF assms(2), where ptr = 0 and v = "NOT pattern" and s = t'] u p by simp_all
    have "errors differ (vi_hw info) (pass_words (\<lambda>p _. [(p, pattern)]) id 23 i () (turns 23 (vi_sz info) i)) (vm_mem u) = 0"
    proof (rule errors_moved)
      show "sets (vi_hw info) (vi_sz info) (pass_words (\<lambda>p _. [(p, pattern)]) id 23 i () (turns 23 (vi_sz info) i)) (vm_mem (snd r)) (vm_mem t)"
        using p by simp
      fix x w assume "(x, w) \<in> set (pass_words (\<lambda>p _. [(p, pattern)]) id 23 i () (turns 23 (vi_sz info) i))"
      from set_pass_23 [OF assms(2) this] k(2) show "hw_read (vi_hw info) (vm_mem u) x = hw_read (vi_hw info) (vm_mem t) x"
        by simp
    qed
    moreover have "vm_errs u = 0" "vm_fails u = vm_fails s" "vm_static u = vm_static s"
      using p k(1) assms(1) by (simp_all add: modulo_ok_def same_local_def)
    ultimately show ?thesis
      unfolding u prod.case
      apply -
      apply (rule if_rule)
       apply (simp add: modulo_ok_def)
      apply (rule runs_each, simp)
      apply (rule each_scan_rule [where wt = differ and ps = "\<lambda>p _. [(p, pattern)]" and nxt = id and loc = "\<lambda>_. ()"])
         apply simp
        apply simp
       apply simp
      apply (simp add: case_prod_beta modulo_ok_def same_local_def)
      done
  qed
  done

lemma modulo_x_silent: "silent s (stress_vm_modulo_x info s)"
  unfolding stress_vm_modulo_x_def Let_def
  apply (rule mwc_rule, simp only: prod.case)
  apply (rule pair_rule [where J = "\<lambda>t. modulo_ok s (snd t)"])
    apply (drule modulo_turn_ok, assumption)
    apply (simp add: case_prod_beta)
   apply (simp add: modulo_ok_def)
  apply (auto simp: modulo_ok_def intro!: silent_abort silent_finish split: prod.splits)
  done

end

section \<open>rand-offset\<close>

lemma page_places:
  "map fst (concat (map (\<lambda>(q, v :: u64). map (\<lambda>j. (i + 8 * q + j, ucast (drop_bit (8 * j) v) :: u8)) [0..<8]) (enumerate 0 vs)))
    = map (\<lambda>x. i + x) [0..<8 * length vs]"
proof (induction vs rule: rev_induct)
  case (snoc v vs)
  have "map (\<lambda>j. i + 8 * length vs + j) [0..<8] = map (\<lambda>x. i + x) [8 * length vs..<8 * length vs + 8]"
    by (intro nth_equalityI) simp_all
  moreover have "[0..<8 + 8 * length vs] = [0..<8 * length vs] @ [8 * length vs..<8 * length vs + 8]"
    using upt_add_eq_append [of 0 "8 * length vs" 8] by (simp add: add.commute)
  ultimately show ?case
    using snoc by (simp add: enumerate_append_eq comp_def del: upt_Suc)
qed simp

lemma page_words_places: "map fst (fst (page_words k i bg)) = map (\<lambda>x. i + x) [0..<4096]"
  using page_places [of i "fst (draws (stress_bitgen_u64 k) 512 bg)"]
  by (simp add: page_words_def case_prod_beta Let_def del: upt_Suc)

lemma page_words_next: "snd (page_words k i bg) = snd (draws (stress_bitgen_u64 k) 512 bg)"
  by (simp add: page_words_def case_prod_beta Let_def)

lemma order_fold:
  fixes order order' :: "nat list"
  assumes "fold (\<lambda>i (order, m). let (j, m) = stress_mwc64modn (of_nat (i + 1)) m
      in (order[i := order ! unat j, unat j := order ! i], m)) js (order, m) = (order', m')"
    and "\<forall>i \<in> set js. i < length order" "distinct order"
  shows "distinct order' \<and> set order' = set order"
  using assms
proof (induction js arbitrary: order m)
  case (Cons i js)
  obtain j m1 where j: "stress_mwc64modn (of_nat (i + 1)) m = (j, m1)" by fastforce
  have "unat j < i + 1" using modn_less_nat [of "i + 1" m] j by simp
  then have l: "unat j < length order" "i < length order" using Cons.prems(2) by simp_all
  let ?o = "order[i := order ! unat j, unat j := order ! i]"
  have "distinct ?o" "set ?o = set order" using l Cons.prems(3) by (simp_all add: distinct_swap set_swap)
  then show ?case using Cons.IH [where order = ?o and m = m1] Cons.prems j by simp
qed simp

lemma order_permutes: "distinct (fst (rand_offset_order pages m)) \<and> set (fst (rand_offset_order pages m)) = {..<pages}"
proof -
  obtain order m' where o: "rand_offset_order pages m = (order, m')" by fastforce
  have "distinct order \<and> set order = set [0..<pages]"
    by (rule order_fold [OF o [unfolded rand_offset_order_def]]) simp_all
  then show ?thesis by (simp add: o lessThan_atLeast0)
qed

context vm_run
begin

lemma rand_offset_silent: "silent s (stress_vm_rand_offset info s)"
proof -
  let ?pages = "vi_sz info div 4096" and ?k = "vi_knobs info"
  let ?ps = "\<lambda>order i bg. fst (page_words ?k (order ! i * 4096) bg)"
  have one: "proper (vi_sz info) (?ps order i bg)" if "distinct order \<and> set order = {..<?pages}" "i < ?pages div 2" for order i bg
  proof -
    have "length order = ?pages" using that(1) distinct_card [of order] by simp
    then have "order ! i \<in> set order" using that(2) by (intro nth_mem) simp
    then have "Suc (order ! i) \<le> ?pages" using that(1) by auto
    then have "Suc (order ! i) * 4096 \<le> vi_sz info" by (simp add: less_eq_div_iff_mult_less_eq)
    then show ?thesis by (auto simp: proper_def slot_def page_words_places distinct_map inj_on_def simp del: upt_Suc)
  qed
  have all: "proper (vi_sz info) (pass_words (?ps order) nxt (Suc 0) 0 bg (?pages div 2))"
    if o: "distinct order \<and> set order = {..<?pages}" for order nxt bg
  proof (rule proper_disjoint)
    fix q r and l l' :: stress_bitgen assume q: "q < r" "r < ?pages div 2"
    have "length order = ?pages" using o distinct_card [of order] by simp
    then have "order ! q \<noteq> order ! r" using o q by (simp add: nth_eq_iff_index_eq)
    then have "order ! q * 4096 + 4096 \<le> order ! r * 4096 \<or> order ! r * 4096 + 4096 \<le> order ! q * 4096" by linarith
    moreover have "fst ` set (?ps order i bg) = (\<lambda>x. order ! i * 4096 + x) ` {0..<4096}" for i bg
      by (simp only: set_map [symmetric] page_words_places) simp
    ultimately show "fst ` set (?ps order (0 + q * Suc 0) l) \<inter> fst ` set (?ps order (0 + r * Suc 0) l') = {}"
      by auto
  qed (use one [OF o] in simp)
  show ?thesis
    unfolding stress_vm_rand_offset_def Let_def
    apply (rule if_rule)
     apply (simp add: silent_zero)
    apply (rule if_rule)
     apply simp
    apply (rule mwc_rule, simp only: prod.case)
    apply (rule mwc_rule, simp only: prod.case)
    subgoal premises p for order m bg m'
    proof -
      have o: "distinct order \<and> set order = {..<?pages}" using order_permutes [of ?pages] p(3) by (metis fst_conv)
      show ?thesis
        apply (rule runs_rule, simp add: case_prod_beta)
        apply (rule fill_rule_sets [where ps = "?ps order" and nxt = "\<lambda>bg. snd (draws (stress_bitgen_u64 ?k) 512 bg)" and loc = fst])
           apply (simp add: case_prod_beta sets_store_all one [OF o] page_words_next)
          apply simp
         apply (simp add: all [OF o])
        apply (simp only: prod.case, rule impI)
        apply (rule scan_rule [where wt = differ and ps = "?ps order" and nxt = "\<lambda>bg. snd (draws (stress_bitgen_u64 ?k) 512 bg)" and loc = fst])
           apply (simp add: scans_def case_prod_beta page_words_next)
          apply simp
         apply (simp add: sets_errors)
        apply (auto simp: silent_def same_local_def)
        done
    qed
    done
qed

end

section \<open>Galloping patterns\<close>

lemma bitcount_sum: "n < 2 ^ k \<Longrightarrow> bitcount n = (\<Sum>i<k. of_bool (bit n i))"
proof (induction k arbitrary: n)
  case (Suc k)
  have "bitcount n = of_bool (odd n) + bitcount (n div 2)"
    using bitcount_rec [of n] by (simp add: mod2_eq_if)
  also have "bitcount (n div 2) = (\<Sum>i<k. of_bool (bit (n div 2) i))"
    using Suc.prems by (intro Suc.IH) simp
  finally show ?case by (simp only: sum.lessThan_Suc_shift bit_0 bit_Suc comp_def)
qed simp

text \<open>What the bits of a word count, one by one.\<close>

definition weighs :: "(bool \<Rightarrow> nat) \<Rightarrow> ('w::len word \<Rightarrow> nat) \<Rightarrow> bool" where
  "weighs g bits \<longleftrightarrow> (\<forall>v. bits v = (\<Sum>i<LENGTH('w). g (bit v i)))"

lemma weighs_counts: "weighs of_bool stress_vm_count_bits" "weighs (\<lambda>b. of_bool (\<not> b)) (\<lambda>v. stress_vm_count_bits (NOT v))"
  by (auto simp: weighs_def stress_vm_count_bits_def bitcount_sum [OF unsigned_less] bit_unat_iff bit_not_iff intro!: sum.cong)

lemma sum_blocks: "(\<Sum>i<k * m. f i) = (\<Sum>q<k. \<Sum>r<m. f (q * m + r))" for f :: "nat \<Rightarrow> nat"
proof -
  have "(\<Sum>r<m. f (q * m + r)) = sum f {q * m..<q * m + m}" for q
    using sum.shift_bounds_nat_ivl [of f 0 "q * m" m] by (simp add: lessThan_atLeast0 add.commute)
  then show ?thesis using sum.nat_group [of f m k] by simp
qed

lemma weighs_load:
  assumes "weighs g (bits :: u64 \<Rightarrow> nat)" "weighs g (bw :: u8 \<Rightarrow> nat)"
  shows "bits (load hw m i) = (\<Sum>j<8. bw (hw_read hw m (i + j)))"
proof -
  have "bits (load hw m i) = (\<Sum>b<8 * 8. g (bit (hw_read hw m (i + b div 8)) (b mod 8)))"
    using assms(1) by (auto simp: weighs_def load_def bit_bytes_word less_mult_imp_div_less intro!: sum.cong)
  also have "\<dots> = (\<Sum>j<8. \<Sum>r<8. g (bit (hw_read hw m (i + j)) r))"
    unfolding sum_blocks by (intro sum.cong refl) simp
  also have "\<dots> = (\<Sum>j<8. bw (hw_read hw m (i + j)))"
    using assms(2) by (simp add: weighs_def)
  finally show ?thesis .
qed

text \<open>The weight of the buffer and what a pick adds to it.\<close>

definition weight :: "'m hw \<Rightarrow> nat \<Rightarrow> (u8 \<Rightarrow> nat) \<Rightarrow> 'm \<Rightarrow> nat" where
  "weight hw n bw m = (\<Sum>j<n. bw (hw_read hw m j))"


lemma pick_result:
  assumes "galpat_pick info free f s = Some t" "0 < vi_sz info"
  shows "\<exists>i b. i < vi_sz info \<and> b < 4 \<and> hw_read (vi_hw info) (vm_mem s) i = free \<and> same_local s t
    \<and> vm_mem t = hw_write (vi_hw info) i (f free (push_bit b 1)) (vm_mem s)"
proof -
  let ?P = "\<lambda>info free f s t. 0 < vi_sz info \<longrightarrow> (\<exists>i b. i < vi_sz info \<and> b < 4 \<and> hw_read (vi_hw info) (vm_mem s) i = free
      \<and> same_local s t \<and> vm_mem t = hw_write (vi_hw info) i (f free (push_bit b 1)) (vm_mem s))"
  have "?P info free f s t"
  proof (rule galpat_pick.raw_induct [where P = ?P, OF _ assms(1)])
    fix pick and info :: "'a vm_info" and free f s t
    assume IH: "\<And>info free f s t. pick info free f s = Some t \<Longrightarrow> ?P info free f s t"
      and e: "(let (offset, s) = with_mwc (stress_mwc64modn (of_nat (vi_sz info))) s; (r, s) = with_mwc stress_mwc32 s;
          bt = unat (r AND 3)
        in if hw_read (vi_hw info) (vm_mem s) (unat offset) = free
           then Some (change info (\<lambda>x. f x (push_bit bt 1)) (unat offset) s)
           else pick info free f s) = Some t"
    obtain v s1 where d1: "with_mwc (stress_mwc64modn (of_nat (vi_sz info))) s = (v, s1)" by fastforce
    obtain r s2 where d2: "with_mwc stress_mwc32 s1 = (r, s2)" by fastforce
    have s2: "vm_mem s2 = vm_mem s" "same_local s s2" "v = fst (stress_mwc64modn (of_nat (vi_sz info)) (vm_mwc s))"
      using d1 d2 by (auto simp: with_mwc_def same_local_def split: prod.splits)
    show "?P info free f s t"
    proof (cases "hw_read (vi_hw info) (vm_mem s2) (unat v) = free")
      case True
      then have t: "t = change info (\<lambda>x. f x (push_bit (unat (r AND 3)) 1)) (unat v) s2"
        using e by (simp add: d1 d2 Let_def)
      have "r AND 3 \<le> 3" by (rule word_and_le1)
      then have "unat (r AND 3) < 4" by (simp add: word_le_nat_alt)
      then show ?thesis
        using True s2 modn_less_nat [of "vi_sz info" "vm_mwc s"]
        by (intro impI exI [of _ "unat v"] exI [of _ "unat (r AND 3)"]) (simp add: t vm_mem_change same_local_right)
    next
      case False
      then have "pick info free f s2 = Some t" using e by (simp add: d1 d2 Let_def)
      from IH [OF this] show ?thesis using s2(1,2) same_local_trans [OF s2(2)] by metis
    qed
  qed
  then show ?thesis using assms(2) by blast
qed

context sound_memory
begin

lemma weight_pick:
  assumes "i < n" "bw (hw_read hw m i) = 0" "bw v = 1"
  shows "weight hw n bw (hw_write hw i v m) = Suc (weight hw n bw m)"
proof -
  have "weight hw n bw (hw_write hw i v m) = bw v + (\<Sum>j\<in>{..<n} - {i}. bw (hw_read hw (hw_write hw i v m) j))"
    using assms(1) by (simp add: weight_def sum.remove [of "{..<n}" i] read_write)
  also have "(\<Sum>j\<in>{..<n} - {i}. bw (hw_read hw (hw_write hw i v m) j)) = (\<Sum>j\<in>{..<n} - {i}. bw (hw_read hw m j))"
    using assms(1) by (intro sum.cong refl) (simp add: read_write)
  also have "bw v + \<dots> = Suc (weight hw n bw m)"
    using assms by (simp add: weight_def sum.remove [of "{..<n}" i])
  finally show ?thesis .
qed

end

context vm_run
begin

lemma picks_weight:
  assumes "bw free = 0" "\<And>b. b < 4 \<Longrightarrow> bw (f free (push_bit b 1)) = 1" "0 < vi_sz info"
  shows "galpat_picks info free f k s = Some t \<Longrightarrow>
    same_local s t \<and> weight (vi_hw info) (vi_sz info) bw (vm_mem t) = weight (vi_hw info) (vi_sz info) bw (vm_mem s) + k"
proof (induction k arbitrary: s)
  case (Suc k)
  then obtain u where u: "galpat_pick info free f s = Some u" "galpat_picks info free f k u = Some t"
    by (auto split: option.splits)
  from pick_result [OF u(1) assms(3)] obtain i b where "i < vi_sz info" "b < 4" "hw_read (vi_hw info) (vm_mem s) i = free"
    "same_local s u" "vm_mem u = hw_write (vi_hw info) i (f free (push_bit b 1)) (vm_mem s)" by blast
  then show ?case
    using Suc.IH [OF u(2)] weight_pick [of i bw "vm_mem s"] assms(1,2) same_local_trans by fastforce
qed simp

lemma count_loop:
  fixes bits :: "u64 \<Rightarrow> nat"
  assumes "weighs g bits" "weighs g bw"
    and "\<And>b l t. same_local s t \<Longrightarrow> (\<not> b \<Longrightarrow> l = weight (vi_hw info) (vi_sz info) bw (vm_mem s)) \<Longrightarrow> P (b, l, t)"
  shows "P (vm_for 64 (vi_sz info) (\<lambda>i (bits_set, s).
      case vm_halt info (vm_count 1 s) of (b, t) \<Rightarrow>
        (b, bits_set + sum_list (map (\<lambda>j. bits (load (vi_hw info) (vm_mem s) (i + 8 * j))) [0..<8]), t)) 0 (0, s))"
proof -
  let ?hw = "vi_hw info"
  let ?body = "\<lambda>i (bits_set, s). case vm_halt info (vm_count 1 s) of (b, t) \<Rightarrow>
      (b, bits_set + sum_list (map (\<lambda>j. bits (load ?hw (vm_mem s) (i + 8 * j))) [0..<8]), t)"
  let ?I = "\<lambda>q (l, t). same_local s t \<and> vm_mem t = vm_mem s \<and> l = weight ?hw (q * 64) bw (vm_mem s)"
  have turn: "sum_list (map (\<lambda>j. bits (load ?hw m (i + 8 * j))) [0..<8]) = (\<Sum>x<64. bw (hw_read ?hw m (i + x)))" for m i
  proof -
    have "sum_list (map (\<lambda>j. bits (load ?hw m (i + 8 * j))) [0..<8]) = (\<Sum>j<8. bits (load ?hw m (i + 8 * j)))"
      by (simp only: interv_sum_list_conv_sum_set_nat set_upt atLeast0LessThan)
    also have "\<dots> = (\<Sum>j<8. \<Sum>r<8. bw (hw_read ?hw m (i + (j * 8 + r))))"
      by (simp add: weighs_load [OF assms(1,2)] algebra_simps)
    also have "\<dots> = (\<Sum>x<8 * 8. bw (hw_read ?hw m (i + x)))" by (simp only: sum_blocks)
    finally show ?thesis by simp
  qed
  have "case vm_for 64 (vi_sz info) ?body 0 (0, s) of (b, t) \<Rightarrow> if b then same_local s (snd t) else ?I (turns 64 (vi_sz info) 0) t"
  proof (rule vm_for_turns [where I = ?I and Q = "\<lambda>t. same_local s (snd t)"])
    fix q t assume I: "?I q t"
    obtain l s' where t: "t = (l, s')" by fastforce
    have "weight ?hw (Suc q * 64) bw (vm_mem s) = weight ?hw (q * 64) bw (vm_mem s) + (\<Sum>x<64. bw (hw_read ?hw (vm_mem s) (q * 64 + x)))"
      using sum_blocks [of _ "Suc q" 64] sum_blocks [of _ q 64] by (simp add: weight_def del: mult_Suc)
    then show "case ?body (0 + q * 64) t of (b, t) \<Rightarrow> if b then same_local s (snd t) else ?I (Suc q) t"
      using I t turn [of "vm_mem s" "q * 64"] by (simp add: case_prod_beta del: mult_Suc)
  qed (simp_all add: weight_def)
  moreover obtain b l t where e: "vm_for 64 (vi_sz info) ?body 0 (0, s) = (b, l, t)" by (rule prod_cases3)
  ultimately have "P (b, l, t)" by (intro assms(3)) (auto split: if_splits)
  then show ?thesis by (simp only: e)
qed

lemma weight_free: "bw free = 0 \<Longrightarrow> weight (vi_hw info) (vi_sz info) bw (vm_mem (vm_memset info free s)) = 0"
  by (simp add: weight_def memset_read)

lemma galpat_silent:
  assumes "weighs g bits" "weighs g bw" "bw free = 0" "\<And>b. b < 4 \<Longrightarrow> bw (f free (push_bit b 1)) = 1"
    and "galpat free f bits info s = Some r"
  shows "silent s r"
proof -
  let ?s = "(vm_memset info free (vm_enter s))\<lparr>vm_mwc := vi_reseed info (vm_mwc (vm_memset info free (vm_enter s)))\<rparr>"
  let ?bad = "vi_sz info div 4096"
  obtain t where t: "galpat_picks info free f ?bad ?s = Some t"
    using assms(5) by (auto simp: galpat_def Let_def split: option.splits)
  have w: "weight (vi_hw info) (vi_sz info) bw (vm_mem t) = ?bad" and l: "same_local ?s t"
  proof (atomize (full), cases "vi_sz info = 0")
    case True
    then show "weight (vi_hw info) (vi_sz info) bw (vm_mem t) = ?bad \<and> same_local ?s t"
      using t by (simp add: weight_def)
  next
    case False
    then show "weight (vi_hw info) (vi_sz info) bw (vm_mem t) = ?bad \<and> same_local ?s t"
      using picks_weight [where f = f and bw = bw and free = free, OF assms(3,4) _ t] by (simp add: weight_free assms(3))
  qed
  have r: "r = (case vm_for 64 (vi_sz info) (\<lambda>i (bits_set, s).
      case vm_halt info (vm_count 1 s) of (b, t) \<Rightarrow>
        (b, bits_set + sum_list (map (\<lambda>j. bits (load (vi_hw info) (vm_mem s) (i + 8 * j))) [0..<8]), t)) 0 (0, inject_random_bit_errors info t) of
      (b, bits_set, s) \<Rightarrow>
        let s = (if b then s else stress_vm_check info (s\<lparr>vm_errs := vm_errs s +
              (if bits_set > ?bad then bits_set - ?bad else ?bad - bits_set)\<rparr>));
            s = (if vm_full info s then s\<lparr>vm_c := vi_max_ops info\<rparr> else s)
        in vm_abort s)"
    using assms(5) by (auto simp: galpat_def Let_def t split: prod.splits)
  show ?thesis
    unfolding r Let_def
    apply (rule count_loop [OF assms(1,2)])
    apply (use l w in \<open>auto simp: same_local_def stress_vm_check_def intro!: silent_abort\<close>)
    done
qed

lemma pick_counts:
  "b < 4 \<Longrightarrow> stress_vm_count_bits (0 OR push_bit b 1 :: u8) = 1"
  "b < 4 \<Longrightarrow> stress_vm_count_bits (NOT (0xff AND NOT (push_bit b 1)) :: u8) = 1"
proof -
  have "\<forall>b \<in> set [0..<4]. stress_vm_count_bits (0 OR push_bit b 1 :: u8) = 1
      \<and> stress_vm_count_bits (NOT (0xff AND NOT (push_bit b 1)) :: u8) = 1"
    by code_simp
  then show "b < 4 \<Longrightarrow> stress_vm_count_bits (0 OR push_bit b 1 :: u8) = 1"
    "b < 4 \<Longrightarrow> stress_vm_count_bits (NOT (0xff AND NOT (push_bit b 1)) :: u8) = 1" by simp_all
qed

lemma galpat_zero_silent: "stress_vm_galpat_zero info s = Some r \<Longrightarrow> silent s r"
  unfolding stress_vm_galpat_zero_def
  apply (erule galpat_silent [where bw = stress_vm_count_bits, rotated -1, OF _ weighs_counts(1) weighs_counts(1)])
   apply (simp add: stress_vm_count_bits_def)
  apply (erule pick_counts(1))
  done

lemma galpat_one_silent: "stress_vm_galpat_one info s = Some r \<Longrightarrow> silent s r"
  unfolding stress_vm_galpat_one_def
  apply (erule galpat_silent [where bw = "\<lambda>v. stress_vm_count_bits (NOT v)", rotated -1, OF _ weighs_counts(2) weighs_counts(2)])
   apply (simp add: stress_vm_count_bits_def)
  apply (erule pick_counts(2))
  done

end

section \<open>The table\<close>

text \<open>The prime that prime-incdec steps by is at most twice the size of the buffer.\<close>

definition prime_fits :: "'m vm_info \<Rightarrow> bool" where
  "prime_fits info \<longleftrightarrow> vi_sz info < 2 ^ 62 \<and>
     unat (stress_prime64_get (vi_isqrt info) (vi_prime_reads info) (of_nat (vi_sz info) + 4096)) \<le> 2 * vi_sz info"

text \<open>The static variables that the methods rely on.\<close>

definition statics_ok :: "vm_statics \<Rightarrow> bool" where
  "statics_ok st \<longleftrightarrow> prime_incdec_val st = 0 \<and> 1 \<le> vm_all_i st \<and> vm_all_i st \<le> 36"

context vm_run
begin

lemma walking_silent:
  "silent s (stress_vm_walking_zero_addr info s)" "silent s (stress_vm_walking_zero_data info s)"
  "silent s (stress_vm_walking_one_addr info s)" "silent s (stress_vm_walking_one_data info s)"
  by (simp_all add: stress_vm_walking_zero_addr_def stress_vm_walking_zero_data_def stress_vm_walking_one_addr_def
      stress_vm_walking_one_data_def walking_addr_silent walking_data_silent Let_def)

lemmas method_silent = cache_lines_silent cache_stripe_silent checkerboard_silent flip_silent fwdrev_silent gray_silent
  grayflip_silent incdec_silent inc_nybble_silent lfsr32_silent modulo_x_silent moving_inversion_silent mscan_silent
  one_zero_silent prime_zero_silent prime_one_silent prime_gray_zero_silent prime_gray_one_silent rand_set_silent
  rand_offset_silent rand_sum_silent read64_silent ror_silent rowhammer_silent swap_silent walking_silent
  walking_flush_silent write64_silent wrrd128nt_silent zero_one_silent

lemma table_silent:
  assumes "(name, f) \<in> set vm_tests" "f info s = Some r" "prime_incdec_val (vm_static s) = 0"
    and "name = ''prime-incdec'' \<Longrightarrow> prime_fits info"
  shows "silent s r"
  using assms(1,2,4) prime_incdec_silent [of s] assms(3)
  by (auto simp: vm_tests_def returns_def method_silent galpat_zero_silent galpat_one_silent prime_fits_def)

lemma all_silent:
  assumes "stress_vm_all info s = Some (e, t)" "statics_ok (vm_static s)" "prime_fits info"
  shows "e = 0 \<and> vm_fails t = vm_fails s \<and> statics_ok (vm_static t)"
proof -
  let ?tests = "vm_tests :: (string \<times> ('m vm_info \<Rightarrow> 'm vm \<Rightarrow> (nat \<times> 'm vm) option)) list"
  let ?i = "vm_all_i (vm_static s)"
  have len: "length ?tests = 36" by (simp add: vm_tests_def)
  then have "?i - 1 < length ?tests" using assms(2) unfolding statics_ok_def by linarith
  then have "?tests ! (?i - 1) \<in> set ?tests" by (rule nth_mem)
  moreover obtain u where u: "snd (?tests ! (?i - 1)) info s = Some (e, u)"
    "t = u\<lparr>vm_static := (vm_static u)\<lparr>vm_all_i := if ?i + 1 \<ge> 1 + length ?tests then 1 else ?i + 1\<rparr>\<rparr>"
    using assms(1) by (auto simp: stress_vm_all_def Let_def split: option.splits)
  ultimately have "silent s (e, u)"
    using assms(2,3) by (intro table_silent [of "fst (?tests ! (?i - 1))" "snd (?tests ! (?i - 1))"]) (simp_all add: statics_ok_def)
  then show ?thesis
    using assms(2) u(2) len by (auto simp: silent_def statics_ok_def)
qed

lemma method_quiet:
  assumes "(name, f) \<in> set vm_methods" "f info s = Some (e, t)" "statics_ok (vm_static s)"
    and "name \<in> {''all'', ''prime-incdec''} \<Longrightarrow> prime_fits info"
  shows "e = 0 \<and> vm_fails t = vm_fails s \<and> statics_ok (vm_static t)"
proof (cases "(name, f) \<in> set vm_tests")
  case True
  have "silent s (e, t)"
    by (rule table_silent [OF True assms(2)]) (use assms(3,4) in \<open>auto simp: statics_ok_def\<close>)
  then show ?thesis using assms(3) by (simp add: silent_def statics_ok_def)
next
  case False
  then have "name = ''all'' \<and> f = stress_vm_all" using assms(1) by (simp add: vm_methods_def)
  then show ?thesis using all_silent assms(2-4) by simp
qed

end

text \<open>
  C2: on memory that works, built without \<open>INJECT_BIT_ERRORS\<close> and with a \<open>calloc\<close> that succeeds, no
  method of the table counts an error or logs a failure, wherever its loops are stopped; for \<open>prime-incdec\<close>, and for \<open>all\<close>, which calls it, when the
  prime it steps by is at most twice the size of the buffer.
\<close>

theorem vm_no_false_alarm:
  assumes "sound_memory (vi_hw info) (vi_sz info)" "\<not> vi_inject info" "4096 dvd vi_sz info" "vi_calloc info"
    and "\<forall>i j. i \<le> j \<longrightarrow> vi_cont info j \<longrightarrow> vi_cont info i"
    and "(name, f) \<in> set vm_methods" "f info s = Some (e, t)"
    and "prime_incdec_val (vm_static s) = 0" "vm_all_i (vm_static s) \<in> {1..36}"
    and "name \<in> {''all'', ''prime-incdec''} \<longrightarrow> prime_fits info"
  shows "e = 0 \<and> vm_fails t = vm_fails s"
proof -
  have "vm_run info"
    using assms(1-5) by (auto simp: vm_run_def vm_run_axioms_def vm_buffer_def vm_buffer_axioms_def)
  from vm_run.method_quiet [OF this assms(6,7)] show ?thesis using assms(8-10) by (simp add: statics_ok_def)
qed

text \<open>A run on plain memory, whole pages of it, that is not stopped.\<close>

definition plain_info :: "u64 \<Rightarrow> nat \<Rightarrow> stress_bitgen \<Rightarrow> cells vm_info" where
  "plain_info buf pages bg = \<lparr>vi_hw = plain_memory, vi_base = buf, vi_sz = 4096 * pages, vi_max_ops = 0, vi_nt = False,
     vi_verify = True, vi_cont = (\<lambda>_. True), vi_inject = False, vi_reseed = id, vi_line = 64, vi_page = 4096,
     vi_calloc = True, vi_isqrt = id, vi_prime_reads = 0, vi_knobs = bitgen_default_knobs, vi_bg = bg\<rparr>"

interpretation plain_run: vm_run "plain_info buf pages bg"
  by unfold_locales (simp_all add: plain_info_def plain_memory_def)

theorem vm_no_false_alarm_witness:
  "\<forall>bg s. fst (stress_vm_gray (plain_info 0x10000 4 bg) (s\<lparr>vm_static := vm_statics_init\<rparr>)) = 0"
proof (intro allI)
  fix bg and s :: "cells vm"
  let ?i = "plain_info 0x10000 4 bg" and ?s = "s\<lparr>vm_static := vm_statics_init\<rparr>"
  show "fst (stress_vm_gray ?i ?s) = 0"
    using vm_no_false_alarm [of ?i "''gray''" "returns stress_vm_gray" ?s "fst (stress_vm_gray ?i ?s)" "snd (stress_vm_gray ?i ?s)"]
      plain_run.sound_memory_axioms [of "0x10000" 4 bg]
    by (simp add: plain_info_def vm_statics_init_def vm_methods_def vm_tests_def returns_def)
qed

end
