(* ===== verification/Vm_Reads.thy ===== *)
theory Vm_Reads
  imports Vm_Rules
begin

text \<open>
  How often a method of the \<open>vm\<close> stressor (src/stress-vm.c) has read the continue flag: never less
  often at its end than at its start.  The driver, which reads the flag in every turn, then comes
  to the read at which it is off.  The rules follow the shape of the code; a goal is about a state
  or about a result with the state as its last component.
\<close>

section \<open>Rules\<close>

definition reads_from :: "nat \<Rightarrow> 'm vm \<Rightarrow> bool" where
  "reads_from r s \<longleftrightarrow> r \<le> vm_reads s"

text \<open>Bindings of a state, of another value and of a result, and branches.\<close>

lemma reads_let:
  "reads_from r a \<Longrightarrow> (\<And>s. reads_from r s \<Longrightarrow> reads_from r (F0 s)) \<Longrightarrow> reads_from r (Let a F0)"
  "reads_from r a \<Longrightarrow> (\<And>s. reads_from r s \<Longrightarrow> reads_from r (snd (F1 s))) \<Longrightarrow> reads_from r (snd (Let a F1))"
  "reads_from r a \<Longrightarrow> (\<And>s. reads_from r s \<Longrightarrow> reads_from r (snd (snd (F2 s)))) \<Longrightarrow> reads_from r (snd (snd (Let a F2)))"
  by (simp_all add: Let_def)

lemma reads_value:
  "(\<And>x. reads_from r (F0 x)) \<Longrightarrow> reads_from r (Let a F0)"
  "(\<And>x. reads_from r (snd (F1 x))) \<Longrightarrow> reads_from r (snd (Let a F1))"
  "(\<And>x. reads_from r (snd (snd (F2 x)))) \<Longrightarrow> reads_from r (snd (snd (Let a F2)))"
  by (simp_all add: Let_def)

lemma reads_function:
  "reads_from r (F0 a) \<Longrightarrow> reads_from r (let f = a :: 'x \<Rightarrow> 'y in F0 f)"
  "reads_from r (snd (F1 a)) \<Longrightarrow> reads_from r (snd (let f = a :: 'x \<Rightarrow> 'y in F1 f))"
  "reads_from r (snd (snd (F2 a))) \<Longrightarrow> reads_from r (snd (snd (let f = a :: 'x \<Rightarrow> 'y in F2 f)))"
  by (simp_all add: Let_def)

lemma reads_other:
  "(\<And>b x. reads_from r (F0 b x)) \<Longrightarrow> reads_from r (let (b, x) = p0 in F0 b x)"
  "(\<And>b x. reads_from r (snd (F1 b x))) \<Longrightarrow> reads_from r (snd (let (b, x) = p1 in F1 b x))"
  "(\<And>b x. reads_from r (snd (snd (F2 b x)))) \<Longrightarrow> reads_from r (snd (snd (let (b, x) = p2 in F2 b x)))"
  by (simp_all add: Let_def case_prod_beta)

lemma reads_pair:
  "reads_from r (snd p0) \<Longrightarrow> (\<And>b s. reads_from r s \<Longrightarrow> reads_from r (F0 b s)) \<Longrightarrow> reads_from r (let (b, s) = p0 in F0 b s)"
  "reads_from r (snd p1) \<Longrightarrow> (\<And>b s. reads_from r s \<Longrightarrow> reads_from r (snd (F1 b s))) \<Longrightarrow> reads_from r (snd (let (b, s) = p1 in F1 b s))"
  "reads_from r (snd p2) \<Longrightarrow> (\<And>b s. reads_from r s \<Longrightarrow> reads_from r (snd (snd (F2 b s)))) \<Longrightarrow> reads_from r (snd (snd (let (b, s) = p2 in F2 b s)))"
  by (simp_all add: Let_def case_prod_beta)

lemma reads_triple:
  "reads_from r (snd (snd p0)) \<Longrightarrow> (\<And>b x s. reads_from r s \<Longrightarrow> reads_from r (F0 b x s)) \<Longrightarrow> reads_from r (let (b, x, s) = p0 in F0 b x s)"
  "reads_from r (snd (snd p1)) \<Longrightarrow> (\<And>b x s. reads_from r s \<Longrightarrow> reads_from r (snd (F1 b x s))) \<Longrightarrow> reads_from r (snd (let (b, x, s) = p1 in F1 b x s))"
  "reads_from r (snd (snd p2)) \<Longrightarrow> (\<And>b x s. reads_from r s \<Longrightarrow> reads_from r (snd (snd (F2 b x s)))) \<Longrightarrow> reads_from r (snd (snd (let (b, x, s) = p2 in F2 b x s)))"
  by (simp_all add: Let_def case_prod_beta)

lemma reads_if:
  "reads_from r (a0) \<Longrightarrow> reads_from r (b0) \<Longrightarrow> reads_from r (if c then a0 else b0)"
  "reads_from r (snd (a1)) \<Longrightarrow> reads_from r (snd (b1)) \<Longrightarrow> reads_from r (snd (if c then a1 else b1))"
  "reads_from r (snd (snd (a2))) \<Longrightarrow> reads_from r (snd (snd (b2))) \<Longrightarrow> reads_from r (snd (snd (if c then a2 else b2)))"
  by simp_all
lemma reads_result:
  "reads_from r s \<Longrightarrow> reads_from r (snd (b, s))"
  "reads_from r (snd p) \<Longrightarrow> reads_from r (snd (snd (b, p)))"
  by simp_all

lemma reads_local: "reads_from r (snd (snd (F l t))) \<Longrightarrow> reads_from r (snd (snd (case (l, t) of (x, s) \<Rightarrow> F x s)))"
  by simp

lemma reads_update:
  "reads_from r s \<Longrightarrow> reads_from r (s\<lparr>vm_mem := m\<rparr>)" "reads_from r s \<Longrightarrow> reads_from r (s\<lparr>vm_mwc := g\<rparr>)"
  "reads_from r s \<Longrightarrow> reads_from r (s\<lparr>vm_bogo := k\<rparr>)" "reads_from r s \<Longrightarrow> reads_from r (s\<lparr>vm_c := k\<rparr>)"
  "reads_from r s \<Longrightarrow> reads_from r (s\<lparr>vm_errs := n\<rparr>)" "reads_from r s \<Longrightarrow> reads_from r (s\<lparr>vm_fails := n\<rparr>)"
  "reads_from r s \<Longrightarrow> reads_from r (s\<lparr>vm_static := st\<rparr>)"
  by (simp_all add: reads_from_def)

text \<open>Loops.\<close>

lemma reads_for:
  assumes "reads_from r s" "\<And>j l t. reads_from r t \<Longrightarrow> reads_from r (snd (snd (body j (l, t))))"
  shows "reads_from r (snd (snd (vm_for step n body i (l, s))))"
  by (rule keep_rule [where J = "reads_from r"]) (use assms in auto)

lemma reads_each:
  assumes "reads_from r s" "\<And>j t. reads_from r t \<Longrightarrow> reads_from r (snd (body j t))"
  shows "reads_from r (snd (vm_each step n body i s))"
  unfolding vm_each_def Let_def case_prod_beta snd_conv
  by (rule reads_for) (use assms in simp_all)

lemma reads_sweep:
  "reads_from r s \<Longrightarrow> (\<And>j t. reads_from r t \<Longrightarrow> reads_from r (f j t)) \<Longrightarrow> reads_from r (vm_sweep info f s)"
  unfolding vm_sweep_def by (rule reads_each) simp_all

lemma reads_fold:
  "reads_from r s \<Longrightarrow> (\<And>x t. reads_from r t \<Longrightarrow> reads_from r (f x t)) \<Longrightarrow> reads_from r (fold f xs s)"
  by (induction xs arbitrary: s) simp_all

section \<open>Steps\<close>

lemma reads_step:
  "reads_from r s \<Longrightarrow> reads_from r (vm_enter s)" "reads_from r s \<Longrightarrow> reads_from r (vm_count k s)"
  "reads_from r s \<Longrightarrow> reads_from r (puts info ps s)" "reads_from r s \<Longrightarrow> reads_from r (checks info wt ps s)"
  "reads_from r s \<Longrightarrow> reads_from r (SET_AND_TEST info i v s)" "reads_from r s \<Longrightarrow> reads_from r (change info f i s)"
  "reads_from r s \<Longrightarrow> reads_from r (vm_memset info v s)" "reads_from r s \<Longrightarrow> reads_from r (stress_vm_check info s)"
  "reads_from r s \<Longrightarrow> reads_from r (vm_seed w z s)" "reads_from r s \<Longrightarrow> reads_from r (swap_byte info src dst s)"
  "reads_from r s \<Longrightarrow> reads_from r (STRESS_VM_CHECKERBOARD_SWAP info p1 p2 s)"
  by (simp_all add: reads_from_def vm_enter_def vm_count_def puts_def checks_def SET_AND_TEST_def change_def vm_memset_def
      stress_vm_check_def vm_seed_def swap_byte_def STRESS_VM_CHECKERBOARD_SWAP_def Let_def)

lemma reads_end:
  "reads_from r s \<Longrightarrow> reads_from r (snd (vm_halt info s))" "reads_from r s \<Longrightarrow> reads_from r (snd (vm_done info s))"
  "reads_from r s \<Longrightarrow> reads_from r (snd (vm_abort s))" "reads_from r s \<Longrightarrow> reads_from r (snd (vm_finish info s))"
  "reads_from r s \<Longrightarrow> reads_from r (snd (with_mwc d s))" "reads_from r s \<Longrightarrow> reads_from r (snd (snd (vm_reseed info s)))"
  by (simp_all add: reads_from_def vm_halt_def vm_done_def vm_abort_def vm_finish_def stress_vm_check_def with_mwc_def vm_reseed_def
      Let_def case_prod_beta)

lemma reads_inject: "reads_from r s \<Longrightarrow> reads_from r (inject_random_bit_errors info s)"
proof -
  have "reads_from r (inject_change info f t)" if "reads_from r t" for f t
    unfolding inject_change_def by (rule reads_pair reads_end reads_step that | assumption)+
  then show "reads_from r s \<Longrightarrow> reads_from r (inject_random_bit_errors info s)"
    unfolding inject_random_bit_errors_def inject_mask_def by (intro reads_if reads_fold) simp_all
qed

lemma reads_chunk: "reads_from r s \<Longrightarrow> reads_from r (snd (swap_chunk info swaps i s))"
  unfolding swap_chunk_def by (rule reads_end reads_step reads_fold | assumption)+

lemmas onward = reads_let reads_pair reads_triple reads_other reads_local reads_function reads_value reads_if reads_result reads_update reads_for reads_each reads_sweep reads_fold
  reads_step reads_end reads_inject reads_chunk

lemma reads_change_all: "reads_from r s \<Longrightarrow> reads_from r (snd (change_all info f s))"
  unfolding change_all_def by (rule onward | assumption)+

lemma reads_rand:
  "reads_from r s \<Longrightarrow> reads_from r (snd (rand_fill info s))" "reads_from r s \<Longrightarrow> reads_from r (snd (rand_check info f s))"
  "reads_from r s \<Longrightarrow> reads_from r (snd (words_check info wt v s))"
  unfolding rand_fill_def rand_check_def words_check_def by (rule onward | assumption)+

lemma reads_walking_addrs: "reads_from r s \<Longrightarrow> reads_from r (walking_addrs info flip i k msk s)"
proof (induction k arbitrary: msk s)
  case (Suc k)
  show ?case unfolding walking_addrs.simps by (rule onward Suc | assumption)+
qed simp

lemma reads_prime_rounds: "reads_from r s \<Longrightarrow> reads_from r (snd (prime_rounds info f offset rs s))"
proof (induction rs arbitrary: s)
  case (Cons a rs)
  show ?case unfolding prime_rounds.simps by (rule onward Cons | assumption)+
qed simp

lemma reads_modulo_run: "reads_from r s \<Longrightarrow> reads_from r (snd (modulo_run info v k ptr s))"
proof (induction k arbitrary: ptr s)
  case (Suc k)
  show ?case unfolding modulo_run.simps by (rule onward Suc | assumption)+
qed simp

lemma reads_modulo_block: "reads_from r s \<Longrightarrow> reads_from r (snd (snd (modulo_block info v i ptr s)))"
  unfolding modulo_block_def by (rule onward reads_modulo_run | assumption)+

lemma reads_modulo_blocks: "reads_from r s \<Longrightarrow> reads_from r (snd (modulo_blocks info v i ptr s))"
proof (induction info v i ptr s rule: modulo_blocks.induct)
  case (1 info v i ptr s)
  then show ?case using reads_modulo_block [of r s info v i ptr] by (subst modulo_blocks.simps) (simp add: Let_def)
qed

lemma reads_modulo_turn: "reads_from r (snd t) \<Longrightarrow> reads_from r (snd (snd (modulo_turn info pattern i t)))"
  unfolding modulo_turn_def by (rule onward reads_modulo_blocks | assumption)+

lemma reads_mscan_loop: "reads_from r s \<Longrightarrow> reads_from r (snd (snd (mscan_loop info fs s)))"
  unfolding mscan_loop_def by (rule onward | assumption)+

lemma reads_block_loop:
  "reads_from r s \<Longrightarrow> (\<And>i t. reads_from r t \<Longrightarrow> reads_from r (f i t)) \<Longrightarrow> reads_from r (block_loop info n f s)"
  unfolding block_loop_def by (rule onward | assumption)+

lemmas inner = onward reads_change_all reads_rand reads_walking_addrs reads_prime_rounds reads_modulo_turn reads_mscan_loop reads_block_loop

section \<open>Methods\<close>

lemma reads_walking_addr: "reads_from r s \<Longrightarrow> reads_from r (snd (walking_addr flip info s))"
  unfolding walking_addr_def by (rule inner | assumption)+

lemma reads_walking_zero_addr: "reads_from r s \<Longrightarrow> reads_from r (snd (stress_vm_walking_zero_addr info s))"
  unfolding stress_vm_walking_zero_addr_def Let_def by (rule reads_walking_addr)

lemma reads_walking:
  "reads_from r s \<Longrightarrow> reads_from r (snd (stress_vm_walking_one_data info s))"
  "reads_from r s \<Longrightarrow> reads_from r (snd (stress_vm_walking_zero_data info s))"
  "reads_from r s \<Longrightarrow> reads_from r (snd (stress_vm_walking_one_addr info s))"
  "reads_from r s \<Longrightarrow> reads_from r (snd (stress_vm_walking_flush_data info s))"
  unfolding stress_vm_walking_one_data_def stress_vm_walking_zero_data_def stress_vm_walking_one_addr_def
    stress_vm_walking_flush_data_def walking_data_def
  by (rule inner reads_walking_addr | assumption)+

lemma reads_bytes:
  "reads_from r s \<Longrightarrow> reads_from r (snd (stress_vm_gray info s))"
  "reads_from r s \<Longrightarrow> reads_from r (snd (stress_vm_grayflip info s))"
  "reads_from r s \<Longrightarrow> reads_from r (snd (stress_vm_incdec info s))"
  "reads_from r s \<Longrightarrow> reads_from r (snd (stress_vm_prime_incdec info s))"
  "reads_from r s \<Longrightarrow> reads_from r (snd (stress_vm_inc_nybble info s))"
  unfolding stress_vm_gray_def stress_vm_grayflip_def stress_vm_incdec_def stress_vm_prime_incdec_def stress_vm_inc_nybble_def
  by (rule inner | assumption)+

lemma reads_random:
  "reads_from r s \<Longrightarrow> reads_from r (snd (stress_vm_swap info s))"
  "reads_from r s \<Longrightarrow> reads_from r (snd (stress_vm_rand_offset info s))"
  "reads_from r s \<Longrightarrow> reads_from r (snd (stress_vm_rand_set info s))"
  "reads_from r s \<Longrightarrow> reads_from r (snd (stress_vm_ror info s))"
  "reads_from r s \<Longrightarrow> reads_from r (snd (stress_vm_flip info s))"
  "reads_from r s \<Longrightarrow> reads_from r (snd (stress_vm_rand_sum info s))"
  "reads_from r s \<Longrightarrow> reads_from r (snd (stress_vm_lfsr32 info s))"
  unfolding stress_vm_swap_def stress_vm_rand_offset_def stress_vm_rand_set_def stress_vm_ror_def stress_vm_flip_def
    stress_vm_rand_sum_def stress_vm_lfsr32_def
  by (rule inner | assumption)+

lemma reads_inversion: "reads_from r s \<Longrightarrow> reads_from r (snd (stress_vm_moving_inversion info s))"
  unfolding stress_vm_moving_inversion_def
  by (rule inner | assumption)+

lemma reads_words:
  "reads_from r s \<Longrightarrow> reads_from r (snd (stress_vm_one_zero info s))"
  "reads_from r s \<Longrightarrow> reads_from r (snd (stress_vm_zero_one info s))"
  "reads_from r s \<Longrightarrow> reads_from r (snd (stress_vm_prime_zero info s))"
  "reads_from r s \<Longrightarrow> reads_from r (snd (stress_vm_prime_one info s))"
  "reads_from r s \<Longrightarrow> reads_from r (snd (stress_vm_prime_gray_zero info s))"
  "reads_from r s \<Longrightarrow> reads_from r (snd (stress_vm_prime_gray_one info s))"
  "reads_from r s \<Longrightarrow> reads_from r (snd (stress_vm_write64 info s))"
  "reads_from r s \<Longrightarrow> reads_from r (snd (stress_vm_read64 info s))"
  "reads_from r s \<Longrightarrow> reads_from r (snd (stress_vm_rowhammer info s))"
  unfolding stress_vm_one_zero_def stress_vm_zero_one_def stress_vm_prime_zero_def stress_vm_prime_one_def
    stress_vm_prime_gray_zero_def stress_vm_prime_gray_one_def prime_walk_def stress_vm_write64_def stress_vm_read64_def
    stress_vm_rowhammer_def
  by (rule inner | assumption)+

lemma reads_blocks:
  "reads_from r s \<Longrightarrow> reads_from r (snd (stress_vm_mscan info s))"
  "reads_from r s \<Longrightarrow> reads_from r (snd (stress_vm_cache_stripe info s))"
  "reads_from r s \<Longrightarrow> reads_from r (snd (stress_vm_cache_lines info s))"
  "reads_from r s \<Longrightarrow> reads_from r (snd (stress_vm_wrrd128nt info s))"
  "reads_from r s \<Longrightarrow> reads_from r (snd (stress_vm_fwdrev info s))"
  "reads_from r s \<Longrightarrow> reads_from r (snd (stress_vm_checkerboard info s))"
  "reads_from r s \<Longrightarrow> reads_from r (snd (stress_vm_modulo_x info s))"
  unfolding stress_vm_mscan_def stress_vm_cache_stripe_def stress_vm_cache_lines_def stress_vm_wrrd128nt_def stress_vm_fwdrev_def
    stress_vm_checkerboard_def stress_vm_modulo_x_def
  by (rule inner | assumption)+

text \<open>
  The methods of the table that always return: all but the galloping patterns, which may draw for ever,
  and \<open>all\<close>, which calls them.
\<close>

lemma method_returns:
  assumes "(name, f) \<in> set (vm_methods :: (string \<times> ('m vm_info \<Rightarrow> 'm vm \<Rightarrow> (nat \<times> 'm vm) option)) list)"
    and "name \<notin> {''all'', ''galpat-0'', ''galpat-1''}"
  shows "\<exists>e t. f info s = Some (e, t) \<and> vm_reads s \<le> vm_reads t"
proof -
  have M: "\<exists>e t. returns m info s = Some (e, t) \<and> vm_reads s \<le> vm_reads t"
    if "reads_from (vm_reads s) s \<Longrightarrow> reads_from (vm_reads s) (snd (m info s))" for m :: "'m vm_info \<Rightarrow> 'm vm \<Rightarrow> nat \<times> 'm vm"
    using that by (simp add: returns_def reads_from_def prod_eq_iff)
  note each = reads_walking reads_walking_zero_addr reads_bytes reads_random reads_inversion reads_words reads_blocks
  show ?thesis
    using assms unfolding vm_methods_def vm_tests_def by (auto intro!: M each)
qed

end
