(* ===== verification/Oomable.thy ===== *)
theory Oomable
  imports Stressor_Run
begin

text \<open>
  The wrapper that many stressors run in (\<open>stress_oomable_child\<close>, src/core-out-of-memory.c): the
  parent forks a child that does the work, waits for it and forks again when the child was killed by
  the OOM killer or died of a bus error or a segmentation fault.  What the forks, the waits, the
  clock and the signals do is input, a round for each time the code gets to its label \<open>again\<close>; the
  state \<open>'c\<close> is what parent and child share.
\<close>

section \<open>Inputs\<close>

text \<open>
  How a child ends: it runs to its end, or it dies of a signal with its shared state left as the
  function says; before that, calls of \<open>waitpid\<close> may fail, each with whether the child is gone
  (\<open>ECHILD\<close>) and whether the time to wait is over.
\<close>

datatype 'c child_fate = Completes | Dies "'c \<Rightarrow> 'c option" int

datatype 'c oom_fork = Fork_Retry | Fork_Fails | Fork_Child bool "'c child_fate" "(bool \<times> bool) list"

record 'f oom_round =
  or_stop :: bool
  or_late :: bool
  or_fork :: 'f

record oom_flags =
  of_no_child :: bool
  of_oomable :: bool
  of_timeout :: bool

record oom_count =
  ooms :: nat
  segvs :: nat
  buserrs :: nat
  possibly_oom_killed :: bool

definition oom_count_zero :: oom_count where
  "oom_count_zero = \<lparr>ooms = 0, segvs = 0, buserrs = 0, possibly_oom_killed = False\<rparr>"

definition SIGBUS :: int where "SIGBUS = 7"
definition SIGSEGV :: int where "SIGSEGV = 11"
definition SIGTERM :: int where "SIGTERM = 15"

definition oom_signals :: "int list" where
  "oom_signals = [SIGALRM, SIGALRM, SIGALRM, SIGALRM, SIGTERM, SIGKILL]"

section \<open>Child and parent\<close>

text \<open>
  The child: what the stressor returns, how many failures the process has logged by then, and the
  shared state; \<open>None\<close> when the stressor does not return.
\<close>

definition oom_child :: "bool \<Rightarrow> ('c \<Rightarrow> (int \<times> nat \<times> 'c) option) \<Rightarrow> 'c \<Rightarrow> (int \<times> 'c) option" where
  "oom_child stop func c =
     (if stop then Some (EXIT_SUCCESS, c)
      else case func c of
             None \<Rightarrow> None
           | Some (ret, fails, c) \<Rightarrow>
               let rc = pr_fail_check fails EXIT_SUCCESS; ret = (if rc \<noteq> EXIT_SUCCESS then rc else ret) in Some (ret, c))"

definition child_end :: "bool \<Rightarrow> 'c child_fate \<Rightarrow> ('c \<Rightarrow> (int \<times> nat \<times> 'c) option) \<Rightarrow> 'c \<Rightarrow> (wait_status \<times> 'c) option" where
  "child_end stop fate func c =
     (case fate of
        Completes \<Rightarrow> (case oom_child stop func c of None \<Rightarrow> None | Some (ret, c) \<Rightarrow> Some (Exited (ret mod 256), c))
      | Dies left sig \<Rightarrow> (case left c of None \<Rightarrow> None | Some c \<Rightarrow> Some (Signaled sig, c)))"

text \<open>The failed waits: the index of the next signal to send and whether the wait is given up.\<close>

fun failed_waits :: "nat \<Rightarrow> (bool \<times> bool) list \<Rightarrow> nat \<times> bool" where
  "failed_waits k [] = (k, False)"
| "failed_waits k ((gone, late) # ws) =
     (if gone then (k, True)
      else if k < length oom_signals - 1 then failed_waits (k + 1) ws
      else if late then (k, True) else failed_waits k ws)"

text \<open>What the parent does with the status: another round, or the result.\<close>

definition child_status :: "oom_flags \<Rightarrow> nat \<Rightarrow> wait_status \<Rightarrow> oom_count \<Rightarrow> int option \<times> oom_count" where
  "child_status fl k status n =
     (case status of
        Exited e \<Rightarrow> (Some e, n)
      | Signaled sig \<Rightarrow>
          if sig = SIGBUS then (None, n\<lparr>buserrs := buserrs n + 1\<rparr>)
          else if oom_signals ! k \<noteq> SIGKILL \<and> sig = SIGKILL then
            let n = n\<lparr>possibly_oom_killed := True\<rparr>
            in if of_oomable fl then (Some EXIT_SUCCESS, n) else (None, n\<lparr>ooms := ooms n + 1\<rparr>)
          else if sig = SIGSEGV then (None, n\<lparr>segvs := segvs n + 1\<rparr>)
          else (Some 0, n))"

text \<open>\<open>None\<close> is a run that is not over after the rounds.\<close>

fun oom_rounds ::
    "oom_flags \<Rightarrow> ('c \<Rightarrow> bool) \<Rightarrow> ('c \<Rightarrow> (int \<times> nat \<times> 'c) option) \<Rightarrow> nat \<Rightarrow> oom_count \<Rightarrow> 'c oom_fork oom_round list \<Rightarrow> 'c \<Rightarrow>
     (int \<times> oom_count \<times> 'c) option" where
  "oom_rounds fl continues func k n [] c = None"
| "oom_rounds fl continues func k n (r # rs) c =
     (if or_stop r \<or> \<not> continues c then Some (EXIT_SUCCESS, n, c)
      else if of_timeout fl \<and> or_late r then Some (EXIT_SUCCESS, n, c)
      else case or_fork r of
             Fork_Retry \<Rightarrow> oom_rounds fl continues func k n rs c
           | Fork_Fails \<Rightarrow> Some (-1, n, c)
           | Fork_Child stop fate fails \<Rightarrow>
               (case child_end stop fate func c of
                  None \<Rightarrow> None
                | Some (status, c) \<Rightarrow>
                    let (k, given_up) = failed_waits k fails
                    in if given_up then Some (EXIT_SUCCESS, n, c)
                       else case child_status fl k status n of
                              (Some rc, n) \<Rightarrow> Some (rc, n, c)
                            | (None, n) \<Rightarrow> oom_rounds fl continues func k n rs c))"

definition stress_oomable_child ::
    "oom_flags \<Rightarrow> ('c \<Rightarrow> bool) \<Rightarrow> ('c \<Rightarrow> (int \<times> nat \<times> 'c) option) \<Rightarrow> 'c oom_fork oom_round list \<Rightarrow> 'c \<Rightarrow>
     (int \<times> oom_count \<times> 'c) option" where
  "stress_oomable_child fl continues func rounds c =
     (if of_no_child fl
      then case func c of None \<Rightarrow> None | Some (ret, fails, c) \<Rightarrow> Some (ret, oom_count_zero, c)
      else oom_rounds fl continues func 0 oom_count_zero rounds c)"

section \<open>Crashes\<close>

text \<open>C8: a child that dies of any signal but a bus error, a segmentation fault or a kill makes the wrapper
  return success, in whatever round, where the supervisor counts an instance that dies of such a signal
  (other than its own alarm) as failed.\<close>

theorem crash_is_success:
  assumes "\<not> or_stop r" "continues c" "of_timeout fl \<longrightarrow> \<not> or_late r" "or_fork r = Fork_Child stop (Dies left sig) ws"
    and "left c = Some c'" "sig \<notin> {SIGBUS, SIGSEGV, SIGKILL}"
  shows "oom_rounds fl continues func k n (r # rs) c = Some (EXIT_SUCCESS, n, c')
    \<and> (sig \<noteq> SIGALRM \<and> \<not> oomed p \<longrightarrow> wait_exit_status oomed p (Signaled sig) = (EXIT_SIGNALED, True))"
proof -
  obtain k' g where w: "failed_waits k ws = (k', g)" by fastforce
  have "child_status fl k' (Signaled sig) n = (Some EXIT_SUCCESS, n)"
    using assms(6) by (simp add: child_status_def EXIT_SUCCESS_def)
  then have "oom_rounds fl continues func k n (r # rs) c = Some (EXIT_SUCCESS, n, c')"
    using assms(1-5) by (auto simp: child_end_def w)
  then show ?thesis using assms(6) by (auto simp: wait_exit_status_def)
qed

theorem crash_is_success_witness:
  "oom_rounds \<lparr>of_no_child = False, of_oomable = False, of_timeout = False\<rparr> (\<lambda>c. c < 5) (\<lambda>c. None) 0 oom_count_zero
     [\<lparr>or_stop = False, or_late = False, or_fork = Fork_Child False (Dies (\<lambda>c. Some (c + 1)) 4) []\<rparr>] (1 :: nat)
   = Some (EXIT_SUCCESS, oom_count_zero, 2)"
proof -
  let ?r = "\<lparr>or_stop = False, or_late = False, or_fork = Fork_Child False (Dies (\<lambda>c :: nat. Some (c + 1)) 4) []\<rparr>"
  have "oom_rounds \<lparr>of_no_child = False, of_oomable = False, of_timeout = False\<rparr> (\<lambda>c. c < 5) (\<lambda>c. None) 0 oom_count_zero [?r] 1
      = Some (EXIT_SUCCESS, oom_count_zero, 2)
    \<and> (4 \<noteq> SIGALRM \<and> \<not> (\<lambda>_. False) 1 \<longrightarrow> wait_exit_status (\<lambda>_. False) 1 (Signaled 4) = (EXIT_SIGNALED, True))"
    by (rule crash_is_success [where left = "\<lambda>c. Some (c + 1)" and stop = False and ws = "[]"]) (simp_all add: SIGBUS_def SIGSEGV_def SIGKILL_def)
  then show ?thesis by blast
qed

section \<open>Restarts\<close>

definition killed_round :: "('c \<Rightarrow> 'c) \<Rightarrow> int \<Rightarrow> 'c oom_fork oom_round" where
  "killed_round left sig = \<lparr>or_stop = False, or_late = False, or_fork = Fork_Child False (Dies (Some \<circ> left) sig) []\<rparr>"

definition full_round :: "'c oom_fork oom_round" where
  "full_round = \<lparr>or_stop = False, or_late = False, or_fork = Fork_Child False Completes []\<rparr>"

definition deaths :: "int \<Rightarrow> (('c \<Rightarrow> 'c) \<times> int) list \<Rightarrow> nat" where
  "deaths sig kills = length (filter (\<lambda>(_, s). s = sig) kills)"

text \<open>However often a child dies of a bus error or a segmentation fault, the wrapper forks it again on the
  shared state that it left, returns what the child that runs to its end exits with, and has counted the
  deaths.\<close>

theorem oom_restarts:
  assumes "\<forall>c. continues c" "\<forall>(f, sig) \<in> set kills. sig \<in> {SIGBUS, SIGSEGV}"
    and "oom_child False func (fold fst kills c) = Some (ret, c')"
  shows "oom_rounds fl continues func k n (map (\<lambda>(f, sig). killed_round f sig) kills @ full_round # rs) c
    = Some (ret mod 256, n\<lparr>buserrs := buserrs n + deaths SIGBUS kills, segvs := segvs n + deaths SIGSEGV kills\<rparr>, c')"
  using assms(2,3)
proof (induction kills arbitrary: n c)
  case Nil
  then show ?case
    using assms(1) by (simp add: full_round_def child_end_def child_status_def deaths_def)
next
  case (Cons p kills)
  obtain f sig where p: "p = (f, sig)" by fastforce
  have "sig = SIGBUS \<or> sig = SIGSEGV" using Cons.prems(1) p by auto
  moreover have "SIGBUS \<noteq> SIGSEGV" "SIGSEGV \<noteq> SIGKILL" by (simp_all add: SIGBUS_def SIGSEGV_def SIGKILL_def)
  ultimately show ?case
    using assms(1) Cons p by (auto simp: killed_round_def child_end_def child_status_def deaths_def)
qed

theorem oom_restarts_witness:
  "oom_rounds \<lparr>of_no_child = False, of_oomable = False, of_timeout = False\<rparr> (\<lambda>_. True) (\<lambda>c. Some (3, 0, c)) 0 oom_count_zero
     [killed_round (\<lambda>c. c + 1) SIGBUS, killed_round (\<lambda>c. c * 2) SIGSEGV, full_round] (1 :: nat)
   = Some (3, \<lparr>ooms = 0, segvs = 1, buserrs = 1, possibly_oom_killed = False\<rparr>, 4)"
proof -
  let ?kills = "[(\<lambda>c :: nat. c + 1, SIGBUS), (\<lambda>c. c * 2, SIGSEGV)]"
  have "oom_rounds \<lparr>of_no_child = False, of_oomable = False, of_timeout = False\<rparr> (\<lambda>_. True) (\<lambda>c. Some (3, 0, c)) 0 oom_count_zero
      (map (\<lambda>(f, sig). killed_round f sig) ?kills @ full_round # []) 1
    = Some (3 mod 256, oom_count_zero\<lparr>buserrs := buserrs oom_count_zero + deaths SIGBUS ?kills,
        segvs := segvs oom_count_zero + deaths SIGSEGV ?kills\<rparr>, 4)"
    by (rule oom_restarts) (simp_all add: oom_child_def pr_fail_check_def EXIT_SUCCESS_def ABORT_FAILURES_def)
  then show ?thesis by (simp add: oom_count_zero_def deaths_def SIGBUS_def SIGSEGV_def)
qed

end
