(* ===== verification/Vm_Run.thy ===== *)
theory Vm_Run
  imports Vm_Sound Vm_Reads Oomable
begin

text \<open>
  The driver of the \<open>vm\<close> stressor (\<open>stress_vm_child\<close> and \<open>stress_vm\<close>, src/stress-vm.c): the size
  of the buffer, the loop that maps it, runs the method and unmaps it, and the exit status with the
  errors that the child counted in shared memory.  What \<open>mmap\<close> returns is input; the advice, the page
  statistics and the durations that the driver takes do not change what is in the buffer.
\<close>

section \<open>Options and shared state\<close>

definition MIN_VM_BYTES :: u64 where "MIN_VM_BYTES = 4096"
definition MAX_32 :: u64 where "MAX_32 = 0xffffffff"
definition DEFAULT_VM_BYTES :: u64 where "DEFAULT_VM_BYTES = 0x10000000"
definition DEFAULT_VM_HANG :: u64 where "DEFAULT_VM_HANG = NOT 0"
definition VM_BOGO_SHIFT :: nat where "VM_BOGO_SHIFT = 12"
definition NO_MEM_RETRIES_MAX :: nat where "NO_MEM_RETRIES_MAX = 32"

record vm_options =
  vo_bytes :: "u64 option"
  vo_maximize :: bool
  vo_minimize :: bool
  vo_instances :: u64
  vo_method :: nat
  vo_hang :: u64
  vo_keep :: bool
  vo_nt :: bool
  vo_nt_store :: bool
  vo_max_ops :: u64

text \<open>What parent and child share, and the points in time that the environment is read at.\<close>

record vm_shared =
  sh_bogo :: u64
  sh_errors :: u64
  sh_mmaps :: u64
  sh_munmaps :: u64
  sh_reads :: nat
  sh_calls :: nat

text \<open>
  The rest of the machine: what the methods use of it and what the calls of \<open>mmap\<close> return, the
  address and what is in the pages, \<open>None\<close> also when memory is too low to try.
\<close>

record 'm vm_machine =
  vk_info :: "'m vm_info"
  vk_mmap :: "nat \<Rightarrow> u64 \<Rightarrow> (u64 \<times> 'm) option"

section \<open>Sizes\<close>

definition vm_total :: "vm_options \<Rightarrow> u64" where
  "vm_total vo =
     (case vo_bytes vo of
        Some b \<Rightarrow> b
      | None \<Rightarrow> let t = DEFAULT_VM_BYTES; t = (if vo_maximize vo then MAX_32 else t)
                in if vo_minimize vo then MIN_VM_BYTES else t)"

definition vm_bytes :: "u64 \<Rightarrow> vm_options \<Rightarrow> u64" where
  "vm_bytes page_size vo =
     (let b = vm_total vo div vo_instances vo; b = (if b < MIN_VM_BYTES then MIN_VM_BYTES else b)
      in if b < page_size then MIN_VM_BYTES else b)"

definition whole_pages :: "u64 \<Rightarrow> u64 \<Rightarrow> u64" where
  "whole_pages page_size b = b AND NOT (page_size - 1)"

section \<open>The child\<close>

text \<open>\<open>cx_sz\<close> is \<open>info.buf_sz\<close> and \<open>cx_buf\<close> is \<open>info.buf\<close>.\<close>

record 'm vm_child =
  cx_vm :: "'m vm"
  cx_buf :: "u64 option"
  cx_sz :: u64
  cx_retries :: nat
  cx_shared :: vm_shared

text \<open>The info record of a turn.\<close>

definition child_info :: "vm_options \<Rightarrow> 'm vm_machine \<Rightarrow> u64 \<Rightarrow> u64 \<Rightarrow> 'm vm_info" where
  "child_info vo mach buf sz = (vk_info mach)\<lparr>vi_base := buf, vi_sz := unat sz,
     vi_max_ops := push_bit VM_BOGO_SHIFT (vo_max_ops vo), vi_nt := (vo_nt vo \<and> vo_nt_store vo)\<rparr>"

text \<open>The flag is read by the driver and by the methods; the reads are counted together.\<close>

definition child_flag :: "'m vm_machine \<Rightarrow> 'm vm_child \<Rightarrow> bool \<times> 'm vm_child" where
  "child_flag mach cx =
     (vi_cont (vk_info mach) (vm_reads (cx_vm cx)), cx\<lparr>cx_vm := (cx_vm cx)\<lparr>vm_reads := vm_reads (cx_vm cx) + 1\<rparr>\<rparr>)"

definition stress_continue_vm :: "vm_options \<Rightarrow> 'm vm_machine \<Rightarrow> 'm vm_child \<Rightarrow> bool \<times> 'm vm_child" where
  "stress_continue_vm vo mach cx =
     (let (go, cx) = child_flag mach cx
      in (go \<and> (vo_max_ops vo = 0 \<or> drop_bit VM_BOGO_SHIFT (vm_bogo (cx_vm cx)) < vo_max_ops vo), cx))"

text \<open>The start of a turn: an exit code, another try, or the buffer is there.\<close>

datatype vm_start = Leave int | Retry | Mapped u64

definition child_map :: "vm_options \<Rightarrow> 'm vm_machine \<Rightarrow> 'm vm_child \<Rightarrow> vm_start \<times> 'm vm_child" where
  "child_map vo mach cx =
     (case (if vo_keep vo then cx_buf cx else None) of
        Some buf \<Rightarrow> (Mapped buf, cx)
      | None \<Rightarrow>
          let (go, cx) = child_flag mach cx; sh = cx_shared cx
          in if \<not> go then (Leave EXIT_SUCCESS, cx)
             else case vk_mmap mach (sh_calls sh) (cx_sz cx) of
                    None \<Rightarrow>
                      let cx = cx\<lparr>cx_buf := None, cx_retries := cx_retries cx + 1, cx_shared := sh\<lparr>sh_calls := sh_calls sh + 1\<rparr>\<rparr>
                      in if cx_retries cx \<ge> NO_MEM_RETRIES_MAX
                         then let cx = cx\<lparr>cx_sz := whole_pages (vi_page (vk_info mach)) ((cx_sz cx div 16) * 15), cx_retries := 0\<rparr>
                              in if cx_sz cx < vi_page (vk_info mach) then (Leave EXIT_NO_RESOURCE, cx) else (Retry, cx)
                         else (Retry, cx)
                  | Some (buf, m) \<Rightarrow>
                      (Mapped buf, cx\<lparr>cx_buf := Some buf, cx_vm := (cx_vm cx)\<lparr>vm_mem := m\<rparr>,
                         cx_shared := sh\<lparr>sh_calls := sh_calls sh + 1, sh_mmaps := sh_mmaps sh + 1\<rparr>\<rparr>))"

text \<open>With \<open>--vm-hang 0\<close> the child sleeps until it is to stop; \<open>k\<close> bounds the sleeps.\<close>

fun child_hang :: "nat \<Rightarrow> vm_options \<Rightarrow> 'm vm_machine \<Rightarrow> 'm vm_child \<Rightarrow> 'm vm_child option" where
  "child_hang 0 vo mach cx = None"
| "child_hang (Suc k) vo mach cx =
     (let (go, cx) = stress_continue_vm vo mach cx in if go then child_hang k vo mach cx else Some cx)"

definition child_unmap :: "'m vm_child \<Rightarrow> 'm vm_child" where
  "child_unmap cx = cx\<lparr>cx_shared := (cx_shared cx)\<lparr>sh_munmaps := sh_munmaps (cx_shared cx) + 1\<rparr>\<rparr>"

text \<open>The method and what follows it.\<close>

definition child_method :: "nat \<Rightarrow> vm_options \<Rightarrow> 'm vm_machine \<Rightarrow> u64 \<Rightarrow> 'm vm_child \<Rightarrow> 'm vm_child option" where
  "child_method k vo mach buf cx =
     (case snd (vm_methods ! vo_method vo) (child_info vo mach buf (cx_sz cx)) (cx_vm cx) of
        None \<Rightarrow> None
      | Some (errs, s) \<Rightarrow>
          let sh = cx_shared cx; sh = sh\<lparr>sh_errors := sh_errors sh + of_nat errs\<rparr>;
              cx = cx\<lparr>cx_vm := s, cx_retries := 0, cx_shared := sh\<rparr>
          in case (if vo_hang vo = 0 then child_hang k vo mach cx else Some cx) of
               None \<Rightarrow> None
             | Some cx \<Rightarrow> Some (if vo_keep vo then cx else child_unmap cx))"

datatype 'm vm_progress = Ended int "'m vm_child" | Going "'m vm_child"

definition child_turn :: "nat \<Rightarrow> vm_options \<Rightarrow> 'm vm_machine \<Rightarrow> 'm vm_child \<Rightarrow> 'm vm_progress option" where
  "child_turn k vo mach cx =
     (let again = (\<lambda>cx. let (go, cx) = stress_continue_vm vo mach cx
                       in if go then Going cx
                          else Ended EXIT_SUCCESS (if vo_keep vo \<and> cx_buf cx \<noteq> None then child_unmap cx else cx))
      in case child_map vo mach cx of
           (Leave rc, cx) \<Rightarrow> Some (Ended rc cx)
         | (Retry, cx) \<Rightarrow> Some (again cx)
         | (Mapped buf, cx) \<Rightarrow> map_option again (child_method k vo mach buf cx))"

text \<open>At most \<open>k\<close> turns.\<close>

fun child_turns :: "nat \<Rightarrow> vm_options \<Rightarrow> 'm vm_machine \<Rightarrow> 'm vm_child \<Rightarrow> 'm vm_progress option" where
  "child_turns 0 vo mach cx = Some (Going cx)"
| "child_turns (Suc k) vo mach cx =
     (case child_turn k vo mach cx of
        None \<Rightarrow> None
      | Some (Ended rc cx) \<Rightarrow> Some (Ended rc cx)
      | Some (Going cx) \<Rightarrow> child_turns k vo mach cx)"

text \<open>A child starts as a copy of the parent and shares what is shared.\<close>

definition child_start :: "vm_options \<Rightarrow> 'm vm_machine \<Rightarrow> 'm vm \<Rightarrow> vm_shared \<Rightarrow> 'm vm_child" where
  "child_start vo mach s sh =
     \<lparr>cx_vm = s\<lparr>vm_bogo := sh_bogo sh, vm_reads := sh_reads sh\<rparr>, cx_buf = None,
      cx_sz = whole_pages (vi_page (vk_info mach)) (vm_bytes (vi_page (vk_info mach)) vo), cx_retries = 0, cx_shared = sh\<rparr>"

definition child_leaves :: "'m vm_child \<Rightarrow> vm_shared" where
  "child_leaves cx = (cx_shared cx)\<lparr>sh_bogo := vm_bogo (cx_vm cx), sh_reads := vm_reads (cx_vm cx)\<rparr>"

definition stress_vm_child :: "nat \<Rightarrow> vm_options \<Rightarrow> 'm vm_machine \<Rightarrow> 'm vm \<Rightarrow> vm_shared \<Rightarrow> (int \<times> nat \<times> vm_shared) option" where
  "stress_vm_child k vo mach s sh =
     (case child_turns k vo mach (child_start vo mach s sh) of
        Some (Ended rc cx) \<Rightarrow> Some (rc, vm_fails (cx_vm cx), child_leaves cx)
      | _ \<Rightarrow> None)"

text \<open>What a child leaves that is killed in the turn after the first \<open>k\<close>.\<close>

definition killed_vm_child :: "nat \<Rightarrow> vm_options \<Rightarrow> 'm vm_machine \<Rightarrow> 'm vm \<Rightarrow> vm_shared \<Rightarrow> vm_shared option" where
  "killed_vm_child k vo mach s sh =
     (case child_turns k vo mach (child_start vo mach s sh) of Some (Going cx) \<Rightarrow> Some (child_leaves cx) | _ \<Rightarrow> None)"

section \<open>The stressor\<close>

text \<open>The rounds of the wrapper with the children of this stressor.\<close>

datatype vm_fate = Vm_Retry | Vm_Fails | Vm_Runs bool "(bool \<times> bool) list" | Vm_Dies bool nat int "(bool \<times> bool) list"

primrec vm_fork :: "vm_options \<Rightarrow> 'm vm_machine \<Rightarrow> 'm vm \<Rightarrow> vm_fate \<Rightarrow> vm_shared oom_fork" where
  "vm_fork vo mach s Vm_Retry = Fork_Retry"
| "vm_fork vo mach s Vm_Fails = Fork_Fails"
| "vm_fork vo mach s (Vm_Runs stop ws) = Fork_Child stop Completes ws"
| "vm_fork vo mach s (Vm_Dies stop k sig ws) = Fork_Child stop (Dies (killed_vm_child k vo mach s) sig) ws"

definition vm_rounds :: "vm_options \<Rightarrow> 'm vm_machine \<Rightarrow> 'm vm \<Rightarrow> vm_fate oom_round list \<Rightarrow> vm_shared oom_fork oom_round list" where
  "vm_rounds vo mach s rounds =
     map (\<lambda>r. \<lparr>or_stop = or_stop r, or_late = or_late r, or_fork = vm_fork vo mach s (or_fork r)\<rparr>) rounds"

text \<open>The attempts to map the page of the error counter: whether each succeeds, while the flag is on.\<close>

fun counter_page :: "nat \<Rightarrow> bool list \<Rightarrow> bool list \<Rightarrow> bool \<times> bool list" where
  "counter_page 0 tries flags = (False, flags)"
| "counter_page (Suc k) (m # tries) (f # flags) = (if \<not> f then (False, flags) else if m then (True, flags) else counter_page k tries flags)"
| "counter_page (Suc k) tries flags = (False, flags)"

record vm_result =
  vr_rc :: int
  vr_fails :: nat
  vr_bogo :: u64
  vr_metrics :: "(string \<times> u64) list"

text \<open>
  \<open>got_context\<close> is whether the shared context could be mapped; \<open>n\<close> counts the failures the process
  has logged before.
\<close>

definition stress_vm ::
    "nat \<Rightarrow> oom_flags \<Rightarrow> vm_options \<Rightarrow> 'm vm_machine \<Rightarrow> bool \<Rightarrow> bool list \<Rightarrow> bool list \<Rightarrow> vm_fate oom_round list \<Rightarrow>
     'm vm \<Rightarrow> vm_shared \<Rightarrow> vm_result option" where
  "stress_vm k fl vo mach got_context tries flags rounds s sh =
     (if \<not> got_context
      then Some \<lparr>vr_rc = EXIT_NO_RESOURCE, vr_fails = vm_fails s, vr_bogo = sh_bogo sh, vr_metrics = []\<rparr>
      else let sh = sh\<lparr>sh_mmaps := 0, sh_munmaps := 0\<rparr>; (mapped, flags) = counter_page 100 tries flags
           in if \<not> mapped
              then Some \<lparr>vr_rc = EXIT_NO_RESOURCE, vr_fails = vm_fails s, vr_bogo = sh_bogo sh, vr_metrics = []\<rparr>
              else let sh = sh\<lparr>sh_errors := 0\<rparr>
                   in case stress_oomable_child fl (\<lambda>sh. sh_bogo sh < vo_max_ops vo) (stress_vm_child k vo mach s)
                          (vm_rounds vo mach s rounds) sh of
                        None \<Rightarrow> None
                      | Some (ret, _, sh) \<Rightarrow>
                          let bad = (sh_errors sh > 0); ret = (if bad then EXIT_FAILURE else ret);
                              fails = vm_fails s + (if bad then 1 else 0)
                          in Some \<lparr>vr_rc = ret, vr_fails = fails, vr_bogo = drop_bit VM_BOGO_SHIFT (sh_bogo sh),
                               vr_metrics = (if sh_mmaps sh > 0 then [(''mmaps total'', sh_mmaps sh)] else [])
                                 @ (if sh_munmaps sh > 0 then [(''munmaps total'', sh_mmaps sh)] else [])\<rparr>)"

section \<open>A machine that works\<close>

definition machine_works :: "'m vm_machine \<Rightarrow> bool" where
  "machine_works mach \<longleftrightarrow> (\<forall>n. sound_memory (vi_hw (vk_info mach)) n) \<and> \<not> vi_inject (vk_info mach)
     \<and> vi_calloc (vk_info mach) \<and> (\<forall>i j. i \<le> j \<longrightarrow> vi_cont (vk_info mach) j \<longrightarrow> vi_cont (vk_info mach) i)
     \<and> (\<exists>p. 12 \<le> p \<and> p < 64 \<and> vi_page (vk_info mach) = 2 ^ p)"

lemma whole_pages_dvd: "12 \<le> p \<Longrightarrow> p < 64 \<Longrightarrow> 4096 dvd unat (whole_pages (2 ^ p) b)"
proof -
  assume p: "12 \<le> p" "p < 64"
  have "take_bit 12 (whole_pages (2 ^ p) b) = 0"
    using p by (intro bit_word_eqI) (auto simp: whole_pages_def mask_eq_exp_minus_1 [symmetric] bit_simps)
  then have "take_bit 12 (unat (whole_pages (2 ^ p) b)) = 0" by (metis unsigned_take_bit_eq unsigned_0)
  then show ?thesis by (simp add: take_bit_eq_0_iff)
qed

text \<open>
  The sizes that the child asks \<open>mmap\<close> for: the first one, and fifteen sixteenths of a size after 32
  calls in a row that failed for it.
\<close>

inductive asks_for :: "vm_options \<Rightarrow> 'm vm_machine \<Rightarrow> u64 \<Rightarrow> bool" for vo mach where
  asks_first: "asks_for vo mach (whole_pages (vi_page (vk_info mach)) (vm_bytes (vi_page (vk_info mach)) vo))"
| asks_less: "asks_for vo mach z \<Longrightarrow> \<forall>j < NO_MEM_RETRIES_MAX. vk_mmap mach (c + j) z = None \<Longrightarrow>
    asks_for vo mach (whole_pages (vi_page (vk_info mach)) ((z div 16) * 15))"

text \<open>The prime of the methods that use one fits the buffer at every size that is mapped.\<close>

definition primes_fit :: "vm_options \<Rightarrow> 'm vm_machine \<Rightarrow> bool" where
  "primes_fit vo mach \<longleftrightarrow>
     (fst ((vm_methods :: (string \<times> ('m vm_info \<Rightarrow> 'm vm \<Rightarrow> (nat \<times> 'm vm) option)) list) ! vo_method vo) \<in> {''all'', ''prime-incdec''} \<longrightarrow>
       (\<forall>z c. asks_for vo mach z \<longrightarrow> vk_mmap mach c z \<noteq> None \<longrightarrow> prime_fits (child_info vo mach 0 z)))"

text \<open>The calls that were tried since the last change of size have failed.\<close>

definition tries_failed :: "'m vm_machine \<Rightarrow> 'm vm_child \<Rightarrow> bool" where
  "tries_failed mach cx \<longleftrightarrow> (\<exists>c. sh_calls (cx_shared cx) = c + cx_retries cx
     \<and> (\<forall>j < cx_retries cx. vk_mmap mach (c + j) (cx_sz cx) = None))"

lemma tries_failed_0: "cx_retries cx = 0 \<Longrightarrow> tries_failed mach cx"
  by (simp add: tries_failed_def)

lemma tries_failed_once_more:
  assumes "tries_failed mach cx" "vk_mmap mach (sh_calls (cx_shared cx)) (cx_sz cx) = None"
  shows "\<exists>c. sh_calls (cx_shared cx) = c + cx_retries cx \<and> (\<forall>j < Suc (cx_retries cx). vk_mmap mach (c + j) (cx_sz cx) = None)"
  using assms by (auto simp: tries_failed_def less_Suc_eq)

definition child_ok :: "vm_options \<Rightarrow> 'm vm_machine \<Rightarrow> nat \<Rightarrow> 'm vm_child \<Rightarrow> bool" where
  "child_ok vo mach n cx \<longleftrightarrow> statics_ok (vm_static (cx_vm cx)) \<and> vm_fails (cx_vm cx) = n \<and> sh_errors (cx_shared cx) = 0
     \<and> 4096 dvd unat (cx_sz cx) \<and> asks_for vo mach (cx_sz cx) \<and> tries_failed mach cx
     \<and> (cx_buf cx \<noteq> None \<longrightarrow> (\<exists>c. vk_mmap mach c (cx_sz cx) \<noteq> None))"

lemma child_flag_ok: "child_ok vo mach n cx \<Longrightarrow> child_ok vo mach n (snd (child_flag mach cx))"
  by (simp add: child_ok_def child_flag_def tries_failed_def)

lemma continue_ok: "child_ok vo mach n cx \<Longrightarrow> child_ok vo mach n (snd (stress_continue_vm vo mach cx))"
  by (simp add: stress_continue_vm_def Let_def case_prod_beta child_flag_ok)

lemma child_hang_ok: "child_hang k vo mach cx = Some cx' \<Longrightarrow> child_ok vo mach n cx \<Longrightarrow> child_ok vo mach n cx'"
proof (induction k arbitrary: cx)
  case (Suc k)
  then show ?case
    using continue_ok [OF Suc.prems(2)] by (auto simp: Let_def case_prod_beta split: if_splits)
qed simp

lemma child_unmap_ok: "child_ok vo mach n cx \<Longrightarrow> child_ok vo mach n (child_unmap cx)"
  by (simp add: child_ok_def child_unmap_def tries_failed_def)

lemma child_map_ok:
  assumes "machine_works mach" "child_ok vo mach n cx"
  shows "case child_map vo mach cx of
      (Leave rc, cx') \<Rightarrow> rc \<in> {EXIT_SUCCESS, EXIT_NO_RESOURCE} \<and> child_ok vo mach n cx'
    | (Retry, cx') \<Rightarrow> child_ok vo mach n cx'
    | (Mapped buf, cx') \<Rightarrow> cx_buf cx' \<noteq> None \<and> child_ok vo mach n (cx'\<lparr>cx_retries := 0\<rparr>)"
proof -
  obtain p where p: "12 \<le> p" "p < 64" "vi_page (vk_info mach) = 2 ^ p"
    using assms(1) by (auto simp: machine_works_def)
  have less: "asks_for vo mach (whole_pages (vi_page (vk_info mach)) ((cx_sz cx div 16) * 15))"
    if failed: "vk_mmap mach (sh_calls (cx_shared cx)) (cx_sz cx) = None" and max: "NO_MEM_RETRIES_MAX \<le> Suc (cx_retries cx)"
  proof -
    obtain c where "\<forall>j < Suc (cx_retries cx). vk_mmap mach (c + j) (cx_sz cx) = None"
      using tries_failed_once_more [OF _ failed] assms(2) unfolding child_ok_def by blast
    then have "\<forall>j < NO_MEM_RETRIES_MAX. vk_mmap mach (c + j) (cx_sz cx) = None" using max by simp
    then show ?thesis using assms(2) by (intro asks_less [where z = "cx_sz cx" and c = c]) (simp_all add: child_ok_def)
  qed
  have more: "tries_failed mach (cx\<lparr>cx_vm := s, cx_buf := None, cx_retries := Suc (cx_retries cx),
      cx_shared := (cx_shared cx)\<lparr>sh_calls := Suc (sh_calls (cx_shared cx))\<rparr>\<rparr>)"
    if "vk_mmap mach (sh_calls (cx_shared cx)) (cx_sz cx) = None" for s
    using tries_failed_once_more [OF _ that] assms(2) by (simp add: child_ok_def tries_failed_def)
  have go: "child_ok vo mach n (snd (child_flag mach cx))" by (rule child_flag_ok) (rule assms(2))
  show ?thesis
  proof (cases "if vo_keep vo then cx_buf cx else None")
    case (Some buf)
    then show ?thesis
      using assms(2) by (simp add: child_map_def child_ok_def tries_failed_0 split: if_splits)
  next
    case None
    show ?thesis
    proof (cases "vk_mmap mach (sh_calls (cx_shared cx)) (cx_sz cx)")
      case failed: None
      then show ?thesis
        using assms(2) whole_pages_dvd [OF p(1,2)] less [OF failed] more [OF failed] go None
        by (auto simp: child_map_def child_flag_def Let_def p(3) child_ok_def tries_failed_0)
    next
      case (Some q)
      then show ?thesis
        using assms(2) go None
        by (cases q) (auto simp: child_map_def child_flag_def Let_def child_ok_def tries_failed_0)
    qed
  qed
qed

lemma child_method_ok:
  assumes "machine_works mach" "primes_fit vo mach" "vo_method vo < length (vm_methods :: (string \<times> ('m vm_info \<Rightarrow> 'm vm \<Rightarrow> (nat \<times> 'm vm) option)) list)"
    and "child_ok vo mach n (cx\<lparr>cx_retries := 0\<rparr>)" "cx_buf cx \<noteq> None" "child_method k vo mach buf cx = Some cx'"
  shows "child_ok vo (mach :: 'm vm_machine) n cx'"
proof -
  let ?f = "vm_methods ! vo_method vo :: string \<times> ('m vm_info \<Rightarrow> 'm vm \<Rightarrow> (nat \<times> 'm vm) option)"
  let ?i = "child_info vo mach buf (cx_sz cx)"
  have run: "vm_run ?i"
    using assms(1,4) by (auto simp: vm_run_def vm_run_axioms_def vm_buffer_def vm_buffer_axioms_def child_info_def machine_works_def child_ok_def)
  obtain e s where s: "snd ?f ?i (cx_vm cx) = Some (e, s)"
    using assms(6) by (auto simp: child_method_def split: option.splits)
  have "(fst ?f, snd ?f) \<in> set vm_methods" using assms(3) by simp
  moreover have "prime_fits ?i" if "fst ?f \<in> {''all'', ''prime-incdec''}"
  proof -
    have "prime_fits (child_info vo mach 0 (cx_sz cx))"
      using assms(2,4,5) that unfolding primes_fit_def child_ok_def by force
    then show ?thesis by (simp add: prime_fits_def child_info_def)
  qed
  ultimately have q: "e = 0" "vm_fails s = vm_fails (cx_vm cx)" "statics_ok (vm_static s)"
    using vm_run.method_quiet [where name = "fst ?f" and f = "snd ?f" and s = "cx_vm cx" and e = e and t = s, OF run] s assms(4)
    by (auto simp: child_ok_def)
  let ?cx = "cx\<lparr>cx_vm := s, cx_retries := 0, cx_shared := (cx_shared cx)\<lparr>sh_errors := sh_errors (cx_shared cx) + of_nat e\<rparr>\<rparr>"
  have "child_ok vo mach n ?cx" using assms(4) q by (simp add: child_ok_def tries_failed_0)
  moreover obtain cx3 where "(if vo_hang vo = 0 then child_hang k vo mach ?cx else Some ?cx) = Some cx3"
    "cx' = (if vo_keep vo then cx3 else child_unmap cx3)"
    using assms(6) unfolding child_method_def s by (simp add: Let_def split: option.splits)
  ultimately have "child_ok vo mach n cx3" by (auto intro: child_hang_ok split: if_splits)
  then show ?thesis using \<open>cx' = _\<close> by (simp add: child_unmap_ok)
qed

lemma child_turn_ok:
  assumes "machine_works mach" "primes_fit vo mach" "vo_method vo < length (vm_methods :: (string \<times> ('m vm_info \<Rightarrow> 'm vm \<Rightarrow> (nat \<times> 'm vm) option)) list)"
    and "child_ok vo mach n cx" "child_turn k vo mach cx = Some r"
  shows "case r of Ended rc cx' \<Rightarrow> rc \<in> {EXIT_SUCCESS, EXIT_NO_RESOURCE} \<and> child_ok vo (mach :: 'm vm_machine) n cx'
    | Going cx' \<Rightarrow> child_ok vo mach n cx'"
proof -
  define again where "again = (\<lambda>cx. let (go, cx) = stress_continue_vm vo mach cx
    in if go then Going cx else Ended EXIT_SUCCESS (if vo_keep vo \<and> cx_buf cx \<noteq> None then child_unmap cx else cx))"
  have again: "case again cx of Ended rc cx' \<Rightarrow> rc \<in> {EXIT_SUCCESS, EXIT_NO_RESOURCE} \<and> child_ok vo mach n cx'
    | Going cx' \<Rightarrow> child_ok vo mach n cx'" if "child_ok vo mach n cx" for cx
    using continue_ok [OF that] by (simp add: again_def Let_def case_prod_beta child_unmap_ok)
  obtain st cx1 where m: "child_map vo mach cx = (st, cx1)" by fastforce
  note cx1 = child_map_ok [OF assms(1,4), unfolded m prod.case]
  have r: "(case st of Leave rc \<Rightarrow> Some (Ended rc cx1) | Retry \<Rightarrow> Some (again cx1)
    | Mapped buf \<Rightarrow> map_option again (child_method k vo mach buf cx1)) = Some r"
    using assms(5) by (simp add: child_turn_def m again_def split: vm_start.splits)
  show ?thesis
  proof (cases st)
    case (Mapped buf)
    then obtain cx2 where "child_method k vo mach buf cx1 = Some cx2" "r = again cx2" using r by auto
    moreover have "child_ok vo mach n cx2"
      by (rule child_method_ok [OF assms(1-3) _ _ calculation(1)]) (use cx1 Mapped in simp_all)
    ultimately show ?thesis using again by simp
  qed (use r cx1 again in auto)
qed

lemma child_turns_ok:
  assumes "machine_works mach" "primes_fit vo mach" "vo_method vo < length (vm_methods :: (string \<times> ('m vm_info \<Rightarrow> 'm vm \<Rightarrow> (nat \<times> 'm vm) option)) list)"
  shows "child_ok vo mach n cx \<Longrightarrow> child_turns k vo mach cx = Some r \<Longrightarrow>
    case r of Ended rc cx' \<Rightarrow> rc \<in> {EXIT_SUCCESS, EXIT_NO_RESOURCE} \<and> child_ok vo (mach :: 'm vm_machine) n cx'
      | Going cx' \<Rightarrow> child_ok vo mach n cx'"
proof (induction k arbitrary: cx)
  case (Suc k)
  obtain q where q: "child_turn k vo mach cx = Some q" using Suc.prems(2) by (auto split: option.splits)
  show ?case
    using child_turn_ok [OF assms Suc.prems(1) q] Suc.IH Suc.prems(2) q by (cases q) auto
qed auto

lemma child_start_ok:
  assumes "machine_works mach" "statics_ok (vm_static s)" "sh_errors sh = 0"
  shows "child_ok vo mach (vm_fails s) (child_start vo mach s sh)"
  using assms whole_pages_dvd asks_first [of vo mach]
  by (auto simp: child_ok_def child_start_def machine_works_def tries_failed_0)

text \<open>What the wrapper returns when no child counts an error or fails.\<close>

lemma child_end_ok:
  assumes "\<And>c r. I c \<Longrightarrow> func c = Some r \<Longrightarrow> fst r \<in> ok \<and> fst (snd r) < ABORT_FAILURES \<and> I (snd (snd r))"
    and "\<And>left sig c'. fate = Dies left sig \<Longrightarrow> left c = Some c' \<Longrightarrow> I c'"
    and "EXIT_SUCCESS \<in> ok" "\<And>e. e \<in> ok \<Longrightarrow> e mod 256 = e" "I c" "child_end stop fate func c = Some (status, c')"
  shows "I c' \<and> (\<forall>e. status = Exited e \<longrightarrow> e \<in> ok)"
proof (cases fate)
  case Completes
  then obtain ret where ret: "oom_child stop func c = Some (ret, c')" "status = Exited (ret mod 256)"
    using assms(6) by (auto simp: child_end_def split: option.splits)
  have "ret \<in> ok \<and> I c'"
  proof (cases stop)
    case False
    then obtain r where r: "func c = Some r" using ret(1) by (auto simp: oom_child_def split: option.splits)
    then show ?thesis
      using assms(1) [OF assms(5) r] ret(1) False by (auto simp: oom_child_def pr_fail_check_def Let_def case_prod_beta)
  qed (use ret(1) assms(3,5) in \<open>auto simp: oom_child_def\<close>)
  then show ?thesis using ret(2) assms(4) by auto
next
  case (Dies left sig)
  then show ?thesis using assms(2) [OF Dies] assms(6) by (auto simp: child_end_def split: option.splits)
qed

lemma child_status_ok:
  "child_status fl k status n = (Some rc, n') \<Longrightarrow> (\<And>e. status = Exited e \<Longrightarrow> e \<in> ok) \<Longrightarrow> EXIT_SUCCESS \<in> ok \<Longrightarrow> rc \<in> ok"
  by (auto simp: child_status_def EXIT_SUCCESS_def Let_def split: wait_status.splits if_splits)

text \<open>A killed child leaves the shared state as the property wants it.\<close>

definition harmless :: "('c \<Rightarrow> bool) \<Rightarrow> 'c oom_fork \<Rightarrow> bool" where
  "harmless I f \<longleftrightarrow> (\<forall>stop left sig ws c c'. f = Fork_Child stop (Dies left sig) ws \<longrightarrow> I c \<longrightarrow> left c = Some c' \<longrightarrow> I c')"

lemma oom_rounds_pass:
  assumes func: "\<And>c r. I c \<Longrightarrow> func c = Some r \<Longrightarrow> fst r \<in> ok \<and> fst (snd r) < ABORT_FAILURES \<and> I (snd (snd r))"
    and ok: "EXIT_SUCCESS \<in> ok" "\<And>e. e \<in> ok \<Longrightarrow> e mod 256 = e"
  shows "oom_rounds fl continues func k n rounds c = Some (rc, n', c') \<Longrightarrow> I c \<Longrightarrow>
    \<forall>r \<in> set rounds. harmless I (or_fork r) \<Longrightarrow>
    rc \<in> insert (-1) ok \<and> I c'"
proof (induction rounds arbitrary: k n c)
  case (Cons r rs)
  have IH: "oom_rounds fl continues func k n rs c = Some (rc, n', c') \<Longrightarrow> I c \<Longrightarrow> rc \<in> insert (-1) ok \<and> I c'" for k n c
    using Cons.IH Cons.prems(3) by simp
  show ?case
  proof (cases "or_stop r \<or> \<not> continues c \<or> of_timeout fl \<and> or_late r")
    case True
    then show ?thesis using Cons.prems(1,2) ok(1) by (auto split: if_splits)
  next
    case False
    show ?thesis
    proof (cases "or_fork r")
      case Fork_Retry
      then show ?thesis using IH [of k n c] Cons.prems(1,2) False by (auto split: if_splits)
    next
      case Fork_Fails
      then show ?thesis using Cons.prems(1,2) False by (auto split: if_splits)
    next
      case (Fork_Child stop fate fails)
      obtain status c1 where e: "child_end stop fate func c = Some (status, c1)"
        using Cons.prems(1) False Fork_Child by (auto split: option.splits)
      obtain k1 g where w: "failed_waits k fails = (k1, g)" by fastforce
      obtain q n1 where st: "child_status fl k1 status n = (q, n1)" by fastforce
      have "I c1 \<and> (\<forall>e. status = Exited e \<longrightarrow> e \<in> ok)"
      proof (rule child_end_ok [where I = I and func = func and ok = ok, OF _ _ ok Cons.prems(2) e])
        show "I c'" if "fate = Dies left sig" "left c = Some c'" for left sig c'
          using Cons.prems(2,3) Fork_Child that unfolding harmless_def by auto
      qed (use func in auto)
      then have c1: "I c1" "\<And>e. status = Exited e \<Longrightarrow> e \<in> ok" by auto
      show ?thesis
        using Cons.prems(1) False Fork_Child e w st c1(1) IH [of k1 n1 c1] child_status_ok [OF _ c1(2) ok(1)] ok(1)
        by (auto split: if_splits option.splits)
    qed
  qed
qed simp

section \<open>More fuel\<close>

text \<open>A bound on the turns and sleeps that is enough can be raised: the result stays the same.\<close>

lemma child_hang_more: "child_hang k vo mach cx = Some cx' \<Longrightarrow> k \<le> k' \<Longrightarrow> child_hang k' vo mach cx = Some cx'"
proof (induction k arbitrary: cx k')
  case (Suc k)
  then show ?case by (cases k') (auto simp: Let_def case_prod_beta split: if_splits)
qed simp

lemma child_method_more:
  "child_method k vo mach buf cx = Some cx' \<Longrightarrow> k \<le> k' \<Longrightarrow> child_method k' vo mach buf cx = Some cx'"
proof -
  assume r: "child_method k vo mach buf cx = Some cx'" and k: "k \<le> k'"
  have more: "(if h then child_hang k' vo mach c else Some c) = Some d" if "(if h then child_hang k vo mach c else Some c) = Some d" for h c d
    using that child_hang_more [OF _ k] by (simp split: if_splits)
  obtain e s where m: "snd (vm_methods ! vo_method vo) (child_info vo mach buf (cx_sz cx)) (cx_vm cx) = Some (e, s)"
    using r by (auto simp: child_method_def split: option.splits)
  let ?cx = "cx\<lparr>cx_vm := s, cx_retries := 0, cx_shared := (cx_shared cx)\<lparr>sh_errors := sh_errors (cx_shared cx) + of_nat e\<rparr>\<rparr>"
  obtain d where d: "(if vo_hang vo = 0 then child_hang k vo mach ?cx else Some ?cx) = Some d"
      "cx' = (if vo_keep vo then d else child_unmap d)"
    using r unfolding child_method_def m by (simp only: option.case prod.case Let_def) (auto split: option.splits)
  show "child_method k' vo mach buf cx = Some cx'"
    unfolding child_method_def m by (simp only: option.case prod.case Let_def more [OF d(1)] d(2))
qed

lemma child_turn_more: "child_turn k vo mach cx = Some r \<Longrightarrow> k \<le> k' \<Longrightarrow> child_turn k' vo mach cx = Some r"
proof -
  assume r: "child_turn k vo mach cx = Some r" and k: "k \<le> k'"
  obtain st c where m: "child_map vo mach cx = (st, c)" by fastforce
  show "child_turn k' vo mach cx = Some r"
  proof (cases st)
    case (Mapped buf)
    then obtain d where d: "child_method k vo mach buf c = Some d"
      using r by (auto simp only: child_turn_def Let_def m prod.case vm_start.case map_option_eq_Some)
    show ?thesis
      using r unfolding child_turn_def Let_def m prod.case Mapped vm_start.case d child_method_more [OF d k] .
  qed (use r in \<open>simp_all add: child_turn_def Let_def m\<close>)
qed

lemma child_turns_more:
  "child_turns k vo mach cx = Some (Ended rc cx') \<Longrightarrow> k \<le> k' \<Longrightarrow> child_turns k' vo mach cx = Some (Ended rc cx')"
proof (induction k arbitrary: cx k')
  case (Suc k)
  obtain q where q: "child_turn k vo mach cx = Some q" using Suc.prems(1) by (auto split: option.splits)
  obtain j where j: "k' = Suc j" "k \<le> j" using Suc.prems(2) by (cases k') simp_all
  have t: "child_turn j vo mach cx = Some q" by (rule child_turn_more [OF q j(2)])
  show ?case
  proof (cases q)
    case (Going c)
    then have "child_turns k vo mach c = Some (Ended rc cx')" using Suc.prems(1) q by simp
    from Suc.IH [OF this j(2)] show ?thesis by (simp add: j(1) t Going)
  qed (use Suc.prems(1) q in \<open>simp add: j(1) t\<close>)
qed simp

lemma stress_vm_child_more:
  "stress_vm_child k vo mach s sh = Some r \<Longrightarrow> k \<le> k' \<Longrightarrow> stress_vm_child k' vo mach s sh = Some r"
proof -
  assume r: "stress_vm_child k vo mach s sh = Some r" and k: "k \<le> k'"
  obtain rc cx where t: "child_turns k vo mach (child_start vo mach s sh) = Some (Ended rc cx)"
    using r by (auto simp: stress_vm_child_def split: option.splits vm_progress.splits)
  show "stress_vm_child k' vo mach s sh = Some r"
    using r by (simp add: stress_vm_child_def t child_turns_more [OF t k])
qed

lemma oom_rounds_more:
  assumes "\<And>c x. func c = Some x \<Longrightarrow> func' c = Some x"
  shows "oom_rounds fl continues func k n rounds c = Some r \<Longrightarrow> oom_rounds fl continues func' k n rounds c = Some r"
proof (induction rounds arbitrary: k n c)
  case (Cons a rs)
  have same: "child_end stop fate func' c = Some x" if "child_end stop fate func c = Some x" for stop fate c x
    using that assms by (auto simp: child_end_def oom_child_def split: child_fate.splits option.splits if_splits)
  show ?case
  proof (cases "or_fork a")
    case (Fork_Child stop fate ws)
    show ?thesis
    proof (cases "or_stop a \<or> \<not> continues c \<or> of_timeout fl \<and> or_late a")
      case False
      then obtain status c1 where e: "child_end stop fate func c = Some (status, c1)"
        using Cons.prems Fork_Child by (auto split: option.splits)
      obtain k1 g where w: "failed_waits k ws = (k1, g)" by fastforce
      obtain q n1 where "child_status fl k1 status n = (q, n1)" by fastforce
      then show ?thesis
        using Cons False Fork_Child w e same [OF e] by (cases q) (auto split: if_splits)
    qed (use Cons.prems in \<open>auto split: if_splits\<close>)
  qed (use Cons in \<open>auto split: if_splits\<close>)
qed simp

lemma stress_vm_more:
  assumes "stress_vm k fl vo mach got_context tries flags rounds s sh = Some r" "k \<le> k'"
  shows "stress_vm k' fl vo mach got_context tries flags rounds s sh = Some r"
proof -
  have func: "stress_vm_child k vo mach s c = Some x \<Longrightarrow> stress_vm_child k' vo mach s c = Some x" for c x
    using stress_vm_child_more assms(2) by blast
  have more: "stress_oomable_child fl cont (stress_vm_child k' vo mach s) rs c = Some x"
    if x: "stress_oomable_child fl cont (stress_vm_child k vo mach s) rs c = Some x" for cont rs c x
  proof (cases "of_no_child fl")
    case True
    then obtain y where "stress_vm_child k vo mach s c = Some y" using x by (auto simp: stress_oomable_child_def split: option.splits)
    then show ?thesis using x True by (simp add: stress_oomable_child_def func)
  next
    case False
    then show ?thesis using x oom_rounds_more [OF func] by (simp add: stress_oomable_child_def)
  qed
  obtain m flags' where pg: "counter_page 100 tries flags = (m, flags')" by fastforce
  show ?thesis
  proof (cases "got_context \<and> m")
    case True
    let ?wrap = "\<lambda>k. stress_oomable_child fl (\<lambda>sh. sh_bogo sh < vo_max_ops vo) (stress_vm_child k vo mach s) (vm_rounds vo mach s rounds)
      (sh\<lparr>sh_mmaps := 0, sh_munmaps := 0, sh_errors := 0\<rparr>)"
    obtain x where x: "?wrap k = Some x" using assms(1) True by (auto simp: stress_vm_def pg split: option.splits)
    show ?thesis using assms(1) True more [OF x] x by (simp add: stress_vm_def pg)
  qed (use assms(1) in \<open>auto simp: stress_vm_def pg\<close>)
qed

section \<open>Runs that end\<close>

text \<open>
  Each turn of the child and each of its sleeps reads the flag, and no method but the galloping
  patterns can go on for ever: once the flag stays off, the child leaves.
\<close>

definition always_returns :: "vm_options \<Rightarrow> 'm vm_machine \<Rightarrow> bool" where
  "always_returns vo mach \<longleftrightarrow>
     fst ((vm_methods :: (string \<times> ('m vm_info \<Rightarrow> 'm vm \<Rightarrow> (nat \<times> 'm vm) option)) list) ! vo_method vo) \<notin> {''all'', ''galpat-0'', ''galpat-1''}"

lemma continue_reads:
  "vm_reads (cx_vm (snd (stress_continue_vm vo mach cx))) = Suc (vm_reads (cx_vm cx))"
  "fst (stress_continue_vm vo mach cx) \<Longrightarrow> vi_cont (vk_info mach) (vm_reads (cx_vm cx))"
  by (simp_all add: stress_continue_vm_def child_flag_def Let_def)

lemma child_hang_ends:
  assumes "\<forall>i \<ge> N. \<not> vi_cont (vk_info mach) i"
  shows "N \<le> vm_reads (cx_vm cx) + k \<Longrightarrow> \<exists>cx'. child_hang (Suc k) vo mach cx = Some cx' \<and> vm_reads (cx_vm cx) \<le> vm_reads (cx_vm cx')"
proof (induction k arbitrary: cx)
  case 0
  then have "\<not> fst (stress_continue_vm vo mach cx)" using continue_reads(2) [of vo mach cx] assms by auto
  then show ?case using continue_reads(1) [of vo mach cx] by (simp add: Let_def case_prod_beta)
next
  case (Suc k)
  show ?case
  proof (cases "fst (stress_continue_vm vo mach cx)")
    case True
    then show ?thesis
      using Suc.IH [of "snd (stress_continue_vm vo mach cx)"] Suc.prems continue_reads(1) [of vo mach cx]
      by (auto simp: Let_def case_prod_beta)
  next
    case False
    then show ?thesis using continue_reads(1) [of vo mach cx] by (simp add: Let_def case_prod_beta)
  qed
qed

lemma child_method_ends:
  fixes mach :: "'m vm_machine"
  assumes "\<forall>i \<ge> N. \<not> vi_cont (vk_info mach) i" "N < k" "always_returns vo mach"
    and "vo_method vo < length (vm_methods :: (string \<times> ('m vm_info \<Rightarrow> 'm vm \<Rightarrow> (nat \<times> 'm vm) option)) list)"
  shows "\<exists>cx'. child_method k vo mach buf cx = Some cx' \<and> vm_reads (cx_vm cx) \<le> vm_reads (cx_vm cx')"
proof -
  let ?f = "vm_methods ! vo_method vo :: string \<times> ('m vm_info \<Rightarrow> 'm vm \<Rightarrow> (nat \<times> 'm vm) option)"
  have "(fst ?f, snd ?f) \<in> set vm_methods" using assms(4) by simp
  then obtain e s where m: "snd ?f (child_info vo mach buf (cx_sz cx)) (cx_vm cx) = Some (e, s)" "vm_reads (cx_vm cx) \<le> vm_reads s"
    using method_returns [where name = "fst ?f" and f = "snd ?f"] assms(3) unfolding always_returns_def by blast
  let ?cx = "cx\<lparr>cx_vm := s, cx_retries := 0, cx_shared := (cx_shared cx)\<lparr>sh_errors := sh_errors (cx_shared cx) + of_nat e\<rparr>\<rparr>"
  obtain d where d: "(if vo_hang vo = 0 then child_hang k vo mach ?cx else Some ?cx) = Some d" "vm_reads s \<le> vm_reads (cx_vm d)"
  proof (cases "vo_hang vo = 0")
    case True
    obtain j where "k = Suc j" using assms(2) by (cases k) simp_all
    then show ?thesis using child_hang_ends [OF assms(1), of ?cx j vo] assms(2) that True by auto
  next
    case False
    then show ?thesis using that [of ?cx] by simp
  qed
  then show ?thesis using m unfolding child_method_def by (simp add: Let_def child_unmap_def)
qed

text \<open>A turn that is not the last one has read the flag while it was on.\<close>

lemma child_turn_ends:
  fixes mach :: "'m vm_machine"
  assumes "\<forall>i \<ge> N. \<not> vi_cont (vk_info mach) i" "N < k" "always_returns vo mach"
    and "vo_method vo < length (vm_methods :: (string \<times> ('m vm_info \<Rightarrow> 'm vm \<Rightarrow> (nat \<times> 'm vm) option)) list)"
  shows "\<exists>r. child_turn k vo mach cx = Some r \<and>
    (\<forall>cx'. r = Going cx' \<longrightarrow> vm_reads (cx_vm cx) < vm_reads (cx_vm cx') \<and> vm_reads (cx_vm cx') \<le> N)"
proof -
  define again where "again = (\<lambda>cx. let (go, cx) = stress_continue_vm vo mach cx
    in if go then Going cx else Ended EXIT_SUCCESS (if vo_keep vo \<and> cx_buf cx \<noteq> None then child_unmap cx else cx))"
  have again: "vm_reads (cx_vm cx) < vm_reads (cx_vm d) \<and> vm_reads (cx_vm d) \<le> N"
    if "again c = Going d" "vm_reads (cx_vm cx) \<le> vm_reads (cx_vm c)" for c d
  proof -
    have go: "fst (stress_continue_vm vo mach c)" "d = snd (stress_continue_vm vo mach c)"
      using that(1) by (auto simp: again_def Let_def case_prod_beta split: if_splits)
    then have "vm_reads (cx_vm c) < N" using continue_reads(2) assms(1) not_less by blast
    then show ?thesis using go(2) continue_reads(1) [of vo mach c] that(2) by simp
  qed
  obtain st c where m: "child_map vo mach cx = (st, c)" by fastforce
  then have c: "vm_reads (cx_vm cx) \<le> vm_reads (cx_vm c)"
    by (auto simp: child_map_def child_flag_def Let_def split: option.splits if_splits)
  have turn: "child_turn k vo mach cx = (case st of Leave rc \<Rightarrow> Some (Ended rc c) | Retry \<Rightarrow> Some (again c)
    | Mapped buf \<Rightarrow> map_option again (child_method k vo mach buf c))"
    by (simp add: child_turn_def m again_def split: vm_start.splits)
  show ?thesis
  proof (cases st)
    case (Mapped buf)
    obtain d where "child_method k vo mach buf c = Some d" "vm_reads (cx_vm c) \<le> vm_reads (cx_vm d)"
      using child_method_ends [OF assms] by blast
    then show ?thesis using turn Mapped c again by auto
  qed (use turn c again in auto)
qed

lemma child_turns_end:
  fixes mach :: "'m vm_machine"
  assumes "\<forall>i \<ge> N. \<not> vi_cont (vk_info mach) i" "always_returns vo mach"
    and "vo_method vo < length (vm_methods :: (string \<times> ('m vm_info \<Rightarrow> 'm vm \<Rightarrow> (nat \<times> 'm vm) option)) list)"
  shows "N < vm_reads (cx_vm cx) + n \<Longrightarrow> \<exists>rc cx'. child_turns (Suc n + Suc N) vo mach cx = Some (Ended rc cx')"
proof (induction n arbitrary: cx)
  case 0
  obtain r where r: "child_turn (Suc N) vo mach cx = Some r"
    "\<forall>cx'. r = Going cx' \<longrightarrow> vm_reads (cx_vm cx) < vm_reads (cx_vm cx') \<and> vm_reads (cx_vm cx') \<le> N"
    using child_turn_ends [OF assms(1) _ assms(2,3), of "Suc N" cx] by auto
  have "r \<noteq> Going c" for c using r(2) 0 by (metis add_0_right leD less_trans)
  then obtain rc c where "r = Ended rc c" by (cases r) blast+
  then show ?case using r(1) by simp
next
  case (Suc n)
  obtain r where r: "child_turn (Suc n + Suc N) vo mach cx = Some r"
    "\<forall>cx'. r = Going cx' \<longrightarrow> vm_reads (cx_vm cx) < vm_reads (cx_vm cx') \<and> vm_reads (cx_vm cx') \<le> N"
    using child_turn_ends [OF assms(1) _ assms(2,3), of "Suc n + Suc N" cx] by auto
  show ?case
  proof (cases r)
    case (Going c)
    then show ?thesis using r Suc.IH [of c] Suc.prems by auto
  qed (use r in auto)
qed

text \<open>The wrapper comes to an end when the events do not run out and a child that is killed was still running.\<close>

lemma oom_rounds_end:
  assumes "\<And>c. \<exists>r. func c = Some r"
  shows "rounds \<noteq> [] \<Longrightarrow> or_stop (last rounds) \<Longrightarrow>
    \<forall>r \<in> set rounds. \<forall>stop left sig ws c. or_fork r = Fork_Child stop (Dies left sig) ws \<longrightarrow> left c \<noteq> None \<Longrightarrow>
    \<exists>r. oom_rounds fl continues func k n rounds c = Some r"
proof (induction rounds arbitrary: k n c)
  case (Cons a rs)
  show ?case
  proof (cases "or_stop a \<or> \<not> continues c \<or> of_timeout fl \<and> or_late a")
    case False
    then have rs: "\<exists>r. oom_rounds fl continues func k n rs c = Some r" for k n c
      using Cons by (cases rs) auto
    show ?thesis
    proof (cases "or_fork a")
      case (Fork_Child stop fate ws)
      obtain status c1 where e: "child_end stop fate func c = Some (status, c1)"
      proof (cases fate)
        case Completes
        obtain ret fails c2 where "func c = Some (ret, fails, c2)" using assms [of c] by auto
        then show ?thesis using that Completes by (cases stop) (auto simp: child_end_def oom_child_def Let_def)
      next
        case (Dies left sig)
        then obtain c1 where "left c = Some c1" using Cons.prems(3) Fork_Child by fastforce
        then show ?thesis using that Dies by (simp add: child_end_def)
      qed
      obtain k1 g where w: "failed_waits k ws = (k1, g)" by fastforce
      obtain q n1 where "child_status fl k1 status n = (q, n1)" by fastforce
      then show ?thesis using False Fork_Child e w rs by (cases q) simp_all
    qed (use False rs in simp_all)
  qed auto
qed simp

definition events_end :: "vm_options \<Rightarrow> 'm vm_machine \<Rightarrow> 'm vm \<Rightarrow> vm_fate oom_round list \<Rightarrow> bool" where
  "events_end vo mach s rounds \<longleftrightarrow> rounds \<noteq> [] \<and> or_stop (last rounds)
     \<and> (\<forall>r \<in> set rounds. \<forall>stop k sig ws. or_fork r = Vm_Dies stop k sig ws \<longrightarrow> (\<forall>sh. killed_vm_child k vo mach s sh \<noteq> None))"

lemma stress_vm_ends:
  fixes mach :: "'m vm_machine"
  assumes "\<forall>i \<ge> N. \<not> vi_cont (vk_info mach) i" "always_returns vo mach"
    and "vo_method vo < length (vm_methods :: (string \<times> ('m vm_info \<Rightarrow> 'm vm \<Rightarrow> (nat \<times> 'm vm) option)) list)"
    and "of_no_child fl \<or> events_end vo mach s rounds"
  shows "\<exists>r. stress_vm (2 * N + 3) fl vo mach got_context tries flags rounds s sh = Some r"
proof -
  have k: "2 * N + 3 = Suc (Suc N) + Suc N" by simp
  have func: "\<exists>r. stress_vm_child (2 * N + 3) vo mach s c = Some r" for c
    using child_turns_end [OF assms(1-3), of "child_start vo mach s c" "Suc N"] unfolding k by (auto simp: stress_vm_child_def)
  have wrap: "\<exists>ret n c'. stress_oomable_child fl continues (stress_vm_child (2 * N + 3) vo mach s) (vm_rounds vo mach s rounds) c = Some (ret, n, c')"
    for continues c
  proof (cases "of_no_child fl")
    case True
    then show ?thesis using func [of c] by (auto simp: stress_oomable_child_def split: prod.splits)
  next
    case False
    then have "events_end vo mach s rounds" using assms(4) by simp
    have dies: "\<exists>k. f = Vm_Dies stop k sig ws \<and> left = killed_vm_child k vo mach s"
      if "vm_fork vo mach s f = Fork_Child stop (Dies left sig) ws" for f stop left sig ws
      using that by (cases f) auto
    have "vm_rounds vo mach s rounds \<noteq> []" "or_stop (last (vm_rounds vo mach s rounds))"
      "\<forall>r \<in> set (vm_rounds vo mach s rounds). \<forall>stop left sig ws c. or_fork r = Fork_Child stop (Dies left sig) ws \<longrightarrow> left c \<noteq> None"
      using \<open>events_end vo mach s rounds\<close> unfolding events_end_def vm_rounds_def by (auto simp: last_map dest!: dies)
    from oom_rounds_end [OF func this] show ?thesis using False by (auto simp: stress_oomable_child_def)
  qed
  obtain m flags' where pg: "counter_page 100 tries flags = (m, flags')" by fastforce
  obtain ret n c' where "stress_oomable_child fl (\<lambda>sh. sh_bogo sh < vo_max_ops vo) (stress_vm_child (2 * N + 3) vo mach s) (vm_rounds vo mach s rounds)
      (sh\<lparr>sh_mmaps := 0, sh_munmaps := 0, sh_errors := 0\<rparr>) = Some (ret, n, c')"
    using wrap by blast
  then show ?thesis by (simp add: stress_vm_def pg Let_def)
qed

section \<open>The verdict\<close>

lemma stress_vm_verdict:
  fixes mach :: "'m vm_machine"
  assumes "machine_works mach" "primes_fit vo mach" "vo_method vo < length (vm_methods :: (string \<times> ('m vm_info \<Rightarrow> 'm vm \<Rightarrow> (nat \<times> 'm vm) option)) list)"
    and "vm_static s = vm_statics_init" "vm_fails s < ABORT_FAILURES"
    and "stress_vm k fl vo mach got_context tries flags rounds s sh = Some r"
  shows "vr_rc r \<in> {EXIT_SUCCESS, EXIT_NO_RESOURCE, -1} \<and> vr_fails r = vm_fails s
    \<and> (\<forall>k' \<ge> k. stress_vm k' fl vo mach got_context tries flags rounds s sh = Some r)"
proof -
  have more: "\<forall>k' \<ge> k. stress_vm k' fl vo mach got_context tries flags rounds s sh = Some r"
    using stress_vm_more [OF assms(6)] by blast
  have st: "statics_ok (vm_static s)" by (simp add: assms(4) statics_ok_def vm_statics_init_def)
  let ?ok = "{EXIT_SUCCESS, EXIT_NO_RESOURCE}" and ?I = "\<lambda>sh. sh_errors sh = 0"
  let ?func = "stress_vm_child k vo mach s"
  have func: "fst r \<in> ?ok \<and> fst (snd r) < ABORT_FAILURES \<and> ?I (snd (snd r))" if c: "?I c" and f: "?func c = Some r" for c r
  proof -
    obtain rc cx where "child_turns k vo mach (child_start vo mach s c) = Some (Ended rc cx)" "r = (rc, vm_fails (cx_vm cx), child_leaves cx)"
      using f by (auto simp: stress_vm_child_def split: option.splits vm_progress.splits)
    then show ?thesis
      using child_turns_ok [OF assms(1-3) child_start_ok [OF assms(1) st c]] assms(5)
      by (fastforce simp: child_ok_def child_leaves_def)
  qed
  have dies: "?I c'" if c: "?I c" and f: "killed_vm_child j vo mach s c = Some c'" for j c c'
  proof -
    obtain cx where "child_turns j vo mach (child_start vo mach s c) = Some (Going cx)" "c' = child_leaves cx"
      using f by (auto simp: killed_vm_child_def split: option.splits vm_progress.splits)
    then show ?thesis
      using child_turns_ok [OF assms(1-3) child_start_ok [OF assms(1) st c]]
      by (fastforce simp: child_ok_def child_leaves_def)
  qed
  have rounds: "\<forall>r \<in> set (vm_rounds vo mach s rounds). harmless ?I (or_fork r)"
  proof
    fix r assume "r \<in> set (vm_rounds vo mach s rounds)"
    then obtain f where "or_fork r = vm_fork vo mach s f" by (auto simp: vm_rounds_def)
    then show "harmless ?I (or_fork r)" using dies by (cases f) (auto simp: harmless_def)
  qed
  have wrap: "rc \<in> insert (-1) ?ok \<and> ?I c'"
    if "stress_oomable_child fl continues ?func (vm_rounds vo mach s rounds) c = Some (rc, n', c')" "?I c" for continues c rc n' c'
  proof (cases "of_no_child fl")
    case True
    then show ?thesis using that func [OF that(2)] by (auto simp: stress_oomable_child_def split: option.splits)
  next
    case False
    then have "oom_rounds fl continues ?func 0 oom_count_zero (vm_rounds vo mach s rounds) c = Some (rc, n', c')"
      using that(1) by (simp add: stress_oomable_child_def)
    then show ?thesis
    proof (rule oom_rounds_pass [where I = ?I, rotated 3])
      show "fst r \<in> ?ok \<and> fst (snd r) < ABORT_FAILURES \<and> ?I (snd (snd r))" if "?I c" "?func c = Some r" for c r
        by (rule func [OF that])
    qed (use that(2) rounds in \<open>auto simp: EXIT_SUCCESS_def EXIT_NO_RESOURCE_def\<close>)
  qed
  obtain m flags' where pg: "counter_page 100 tries flags = (m, flags')" by fastforce
  show ?thesis
  proof (cases "got_context \<and> m")
    case True
    let ?sh = "sh\<lparr>sh_mmaps := 0, sh_munmaps := 0, sh_errors := 0\<rparr>"
    obtain rc n' c' where w: "stress_oomable_child fl (\<lambda>sh. sh_bogo sh < vo_max_ops vo) ?func (vm_rounds vo mach s rounds) ?sh = Some (rc, n', c')"
      using assms(6) True by (auto simp: stress_vm_def pg split: option.splits)
    have "rc \<in> insert (-1) ?ok \<and> ?I c'" by (rule wrap [OF w]) simp
    moreover have "vr_rc r = (if 0 < sh_errors c' then EXIT_FAILURE else rc)" "vr_fails r = vm_fails s + (if 0 < sh_errors c' then 1 else 0)"
      using assms(6) True by (auto simp: stress_vm_def pg w Let_def)
    ultimately show ?thesis using more by auto
  qed (use assms(6) more in \<open>auto simp: stress_vm_def Let_def pg split: if_splits\<close>)
qed


text \<open>
  Plain memory of any size from address 0x10000, which the first call of \<open>mmap\<close> fails to get, and a flag
  that goes off after \<open>k\<close> reads.
\<close>

definition plain_machine :: "nat \<Rightarrow> stress_bitgen \<Rightarrow> cells vm_machine" where
  "plain_machine k bg =
     \<lparr>vk_info = (plain_info 0 0 bg)\<lparr>vi_cont := (\<lambda>i. i < k), vi_isqrt := (\<lambda>_. 144), vi_prime_reads := 40\<rparr>,
      vk_mmap = (\<lambda>c _. if c = 0 then None else Some (0x10000, \<lambda>_. 0))\<rparr>"

lemma plain_machine_works: "machine_works (plain_machine k bg)"
  unfolding machine_works_def plain_machine_def plain_info_def
  by (auto intro: plain.sound_memory_axioms exI [of _ 12])

interpretation plain_child: vm_run "child_info vo (plain_machine k bg) buf (whole_pages 4096 b)"
  using plain_machine_works [of k bg] whole_pages_dvd [of 12 b]
  by unfold_locales (auto simp: child_info_def plain_machine_def plain_info_def plain_memory_def)

definition plain_options :: "nat \<Rightarrow> vm_options" where
  "plain_options m = \<lparr>vo_bytes = Some 16384, vo_maximize = False, vo_minimize = False, vo_instances = 1, vo_method = m,
     vo_hang = DEFAULT_VM_HANG, vo_keep = False, vo_nt = False, vo_nt_store = False, vo_max_ops = NOT 0\<rparr>"

definition vm_zero :: "'m \<Rightarrow> 'm vm" where
  "vm_zero m = \<lparr>vm_mem = m, vm_mwc = mwc_initial, vm_bogo = 0, vm_c = 0, vm_errs = 0, vm_reads = 0, vm_fails = 0,
     vm_static = vm_statics_init\<rparr>"

definition shared_zero :: vm_shared where
  "shared_zero = \<lparr>sh_bogo = 0, sh_errors = 0, sh_mmaps = 0, sh_munmaps = 0, sh_reads = 0, sh_calls = 0\<rparr>"

definition bitgen_nought :: stress_bitgen where
  "bitgen_nought = \<lparr>bg_w = 0, bg_z = 0, band_lo = 0, band_width = 0, band_step = 0, band_count = 0, bg_density = 0, edge_idx = 0, bg_mix = 0\<rparr>"

lemma prime_incdec_entry:
  "vm_methods ! 21 = (''prime-incdec'', returns (stress_vm_prime_incdec :: 'm vm_info \<Rightarrow> 'm vm \<Rightarrow> nat \<times> 'm vm))"
  by (simp add: vm_methods_def vm_tests_def)

lemma plain_size: "whole_pages 4096 (vm_bytes 4096 (plain_options m)) = 16384"
  by (simp add: whole_pages_def vm_bytes_def vm_total_def plain_options_def MIN_VM_BYTES_def Let_def)

lemma plain_prime: "stress_prime64_get (\<lambda>_. 144) 40 20480 = 20483"
  by code_simp

text \<open>No size is given up, since only one call fails; the prime fits the size that is mapped.\<close>

lemma plain_primes_fit: "primes_fit (plain_options 21) (plain_machine k bg)"
proof -
  have size: "asks_for (plain_options 21) (plain_machine k bg) z \<Longrightarrow> z = 16384" for z
  proof (induction rule: asks_for.induct)
    case (asks_less z c)
    then show ?case by (auto simp: plain_machine_def NO_MEM_RETRIES_MAX_def dest: spec [of _ 1])
  qed (simp add: plain_machine_def plain_info_def plain_size)
  have "prime_fits (child_info (plain_options 21) (plain_machine k bg) 0 16384)"
    by (simp add: prime_fits_def child_info_def plain_machine_def plain_info_def plain_prime)
  then show ?thesis unfolding primes_fit_def using size by blast
qed

text \<open>
  The first call of \<open>mmap\<close> fails, the second one gets the buffer, \<open>prime-incdec\<close> runs on it and the flag goes off
  after three reads; then the wrapper is told to stop.
\<close>

definition plain_flags :: oom_flags where
  "plain_flags = \<lparr>of_no_child = False, of_oomable = False, of_timeout = False\<rparr>"

definition plain_rounds :: "vm_fate oom_round list" where
  "plain_rounds = [\<lparr>or_stop = False, or_late = False, or_fork = Vm_Runs False []\<rparr>, \<lparr>or_stop = True, or_late = False, or_fork = Vm_Fails\<rparr>]"


end
