(* ===== verification/Vm_Detect.thy ===== *)
theory Vm_Detect
  imports Vm_Run
begin

text \<open>
  What the methods of the \<open>vm\<close> stressor (src/stress-vm.c) find when there is something to find: the
  errors that a program built with \<open>INJECT_BIT_ERRORS\<close> puts into the buffer to test itself, bits that
  are stuck, and what some methods cannot see.  A run with those errors is compared with the same run
  of a program built without them; the locale \<open>vm_unstopped\<close> is a run on memory that works and that is
  not told to stop.
\<close>

section \<open>Injected errors\<close>

text \<open>The same program without the errors, and the bytes in which two memories differ.\<close>

definition clean_info :: "'m vm_info \<Rightarrow> 'm vm_info" where
  "clean_info info = info\<lparr>vi_inject := False\<rparr>"

definition altered :: "'m vm_info \<Rightarrow> 'm vm \<Rightarrow> 'm vm \<Rightarrow> nat set" where
  "altered info s t = {i. i < vi_sz info \<and> hw_read (vi_hw info) (vm_mem s) i \<noteq> hw_read (vi_hw info) (vm_mem t) i}"

lemma clean_steps [simp]:
  "vi_sz (clean_info info) = vi_sz info" "vi_line (clean_info info) = vi_line info" "vi_hw (clean_info info) = vi_hw info"
  "vm_halt (clean_info info) = vm_halt info" "vm_done (clean_info info) = vm_done info"
  "puts (clean_info info) = (puts info :: (nat \<times> 'w::len word) list \<Rightarrow> _)"
  "checks (clean_info info) = (checks info :: ('w::len word \<Rightarrow> 'w word \<Rightarrow> nat) \<Rightarrow> _)"
  "vm_reseed (clean_info info) = vm_reseed info"
  by (simp_all add: fun_eq_iff clean_info_def vm_step_defs)

text \<open>The errors change the memory and the generator only.\<close>

lemma inject_frame [simp]:
  "vm_errs (inject_random_bit_errors info s) = vm_errs s" "vm_static (inject_random_bit_errors info s) = vm_static s"
  "vm_fails (inject_random_bit_errors info s) = vm_fails s" "vm_bogo (inject_random_bit_errors info s) = vm_bogo s"
proof -
  have one: "same_local t (inject_mask info b t)" for b t
    by (simp add: inject_mask_def inject_change_def change_def with_mwc_def same_local_def case_prod_beta Let_def)
  have "same_local s (fold (inject_mask info) bs s)" for bs
    by (induction bs arbitrary: s) (auto intro: same_local_trans one)
  then have "same_local s (inject_random_bit_errors info s)" by (simp add: inject_random_bit_errors_def)
  then show "vm_errs (inject_random_bit_errors info s) = vm_errs s" "vm_static (inject_random_bit_errors info s) = vm_static s"
    "vm_fails (inject_random_bit_errors info s) = vm_fails s" "vm_bogo (inject_random_bit_errors info s) = vm_bogo s"
    by (simp_all add: same_local_def)
qed

lemma ends_frame [simp]:
  "fst (vm_abort s) = vm_errs s" "vm_mem (snd (vm_abort s)) = vm_mem s"
  "vm_errs (stress_vm_check info s) = vm_errs s" "vm_mem (stress_vm_check info s) = vm_mem s" "vm_mem (snd (vm_finish info s)) = vm_mem s"
  by (simp_all add: vm_abort_def stress_vm_check_def vm_finish_def)

text \<open>
  The result of a method that has counted the bytes which are not as they should be at its end: then the
  errors are the bytes that are not as a run leaves them that counts none.
\<close>

definition counted :: "'m vm_info \<Rightarrow> (nat \<Rightarrow> u8) \<Rightarrow> nat \<times> 'm vm \<Rightarrow> bool" where
  "counted info pat r \<longleftrightarrow> fst r = card {i. i < vi_sz info \<and> hw_read (vi_hw info) (vm_mem (snd r)) i \<noteq> pat i}"

lemma counted_altered:
  assumes "counted info pat r" "counted (clean_info info) pat q" "fst q = 0"
  shows "fst r = card (altered info (snd r) (snd q))"
proof -
  have "hw_read (vi_hw info) (vm_mem (snd q)) i = pat i" if "i < vi_sz info" for i
    using assms(2,3) that by (auto simp: counted_def)
  then have "altered info (snd r) (snd q) = {i. i < vi_sz info \<and> hw_read (vi_hw info) (vm_mem (snd r)) i \<noteq> pat i}"
    by (auto simp: altered_def)
  then show ?thesis using assms(1) by (simp add: counted_def)
qed

text \<open>What a pass counts that checks every byte once.\<close>

lemma errors_count:
  fixes ps :: "(nat \<times> u8) list"
  assumes "distinct (map fst ps)" "\<forall>(i, v) \<in> set ps. v = pat i"
  shows "errors differ hw ps m = card {i \<in> fst ` set ps. hw_read hw m i \<noteq> pat i}"
  using assms
proof (induction ps)
  case (Cons p ps)
  let ?bad = "\<lambda>ps :: (nat \<times> u8) list. {i \<in> fst ` set ps. hw_read hw m i \<noteq> pat i}"
  have "?bad (p # ps) = (if hw_read hw m (fst p) \<noteq> pat (fst p) then insert (fst p) (?bad ps) else ?bad ps)" by auto
  moreover have "fst p \<notin> ?bad ps" using Cons.prems(1) by auto
  ultimately show ?case using Cons by (cases p) (auto simp: differ_def)
qed simp

text \<open>A pass whose turns treat all their bytes treats all bytes.\<close>

lemma covers:
  assumes "step dvd n" "0 < step" "\<And>i l. fst ` set (ps i l) = {i..<i + step}"
  shows "fst ` set (pass_words ps nxt step 0 l (n div step)) = {..<n}"
proof -
  obtain k where k: "n = step * k" using assms(1) by (auto simp: dvd_def)
  have "fst ` set (pass_words ps nxt step 0 l k) = {..<step * k}" for k
  proof (induction k)
    case (Suc k)
    have "{..<step * Suc k} = {..<step * k} \<union> {step * k..<step * k + step}" by auto
    then show ?case using Suc by (simp add: image_Un assms(3) mult.commute)
  qed simp
  then show ?thesis using assms(2) k by simp
qed

lemma scan_count:
  assumes "scans hw wt ps nxt loc body" "0 < step" "\<And>i s. \<not> fst (body i s)"
    and "\<And>l' t. vm_errs t = vm_errs s + errors wt hw (pass_words ps nxt step i (loc (l, s)) (turns step n i)) (vm_mem s) \<Longrightarrow>
      vm_mem t = vm_mem s \<Longrightarrow> vm_static t = vm_static s \<Longrightarrow> P (False, l', t)"
  shows "P (vm_for step n body i (l, s))"
proof -
  have "\<not> fst (vm_for step n body i (l, s))" by (rule vm_for_runs) (rule assms(3))
  then show ?thesis
    using scan_pass [OF assms(1,2), where n = n and i = i and l = l and s = s] assms(4) by (auto split: prod.splits)
qed

lemma fst_words: "fst ` set (gray_words i v) = {i..<i + 4}" "fst ` set (grayflip_words i v) = {i..<i + 4}"
  "fst ` set (eight i f) = {i..<i + 8}"
proof -
  have "fst ` set (eight i f) = (\<lambda>j. i + j) ` {0..<8}" by (simp add: eight_def image_image)
  then show "fst ` set (eight i f) = {i..<i + 8}" by (simp add: image_add_atLeastLessThan add.commute)
qed (auto simp: gray_words_def grayflip_words_def)

definition pattern :: "(nat \<times> u8) list \<Rightarrow> nat \<Rightarrow> u8" where
  "pattern ps i = the (map_of ps i)"

locale vm_unstopped = vm_buffer info for info :: "'m vm_info" +
  assumes runs [simp]: "vi_cont info k" "vi_max_ops info = 0"
begin

lemma on [simp]: "fst (vm_halt info s) = False" "fst (vm_done info s) = False" "vm_full info s = False"
  by (simp_all add: vm_halt_def vm_done_def vm_full_def)

lemma proper_within:
  fixes ps :: "nat \<Rightarrow> 'k \<Rightarrow> (nat \<times> u8) list"
  assumes "within step ps" "0 < step" "step dvd vi_sz info"
  shows "proper (vi_sz info) (pass_words ps nxt step 0 l (vi_sz info div step))"
proof (rule proper_turns)
    show "distinct (map fst (ps i l)) \<and> (\<forall>j \<in> fst ` set (ps i l). LENGTH(8) div 8 dvd j \<and> i \<le> j \<and> j + LENGTH(8) div 8 \<le> i + step)"
      if "step dvd i" for i l
      using assms(1) that unfolding within_def by blast
  qed (use assms(2,3) in simp_all)

lemma pass_count:
  fixes ps :: "nat \<Rightarrow> 'k \<Rightarrow> (nat \<times> u8) list"
  assumes "within step ps" "0 < step" "step dvd vi_sz info" "\<And>i l. fst ` set (ps i l) = {i..<i + step}"
    and "\<forall>(i, v) \<in> set (pass_words ps nxt step 0 l (vi_sz info div step)). v = pat i"
  shows "errors differ (vi_hw info) (pass_words ps nxt step 0 l (vi_sz info div step)) m
    = card {i. i < vi_sz info \<and> hw_read (vi_hw info) m i \<noteq> pat i}"
proof -
  let ?w = "pass_words ps nxt step 0 l (vi_sz info div step)"
  have "proper (vi_sz info) ?w" by (rule proper_within [OF assms(1-3)])
  then have "distinct (map fst ?w)" by (simp add: proper_def)
  then show ?thesis
    using errors_count [OF _ assms(5)] covers [OF assms(3,2,4), where nxt = nxt and l = l] by simp
qed

lemma pattern_count:
  fixes ps :: "nat \<Rightarrow> 'k \<Rightarrow> (nat \<times> u8) list"
  assumes "within step ps" "0 < step" "step dvd vi_sz info" "\<And>i l. fst ` set (ps i l) = {i..<i + step}"
  shows "errors differ (vi_hw info) (pass_words ps nxt step 0 l (vi_sz info div step)) m
    = card {i. i < vi_sz info \<and> hw_read (vi_hw info) m i \<noteq> pattern (pass_words ps nxt step 0 l (vi_sz info div step)) i}"
proof (rule pass_count [OF assms])
  let ?w = "pass_words ps nxt step 0 l (vi_sz info div step)"
  have "proper (vi_sz info) ?w" by (rule proper_within [OF assms(1-3)])
  then show "\<forall>(i, v) \<in> set ?w. v = pattern ?w i" by (auto simp: proper_def pattern_def)
qed

definition gray_expected :: "'m vm \<Rightarrow> nat \<Rightarrow> u8" where
  "gray_expected s = pattern (pass_words gray_words (\<lambda>v. v + 4) 4 0 (gray_val (vm_static s)) (vi_sz info div 4))"

definition grayflip_expected :: "'m vm \<Rightarrow> nat \<Rightarrow> u8" where
  "grayflip_expected s = pattern (pass_words grayflip_words (\<lambda>v. v + 1) 4 0 (grayflip_val (vm_static s)) (vi_sz info div 4))"

lemma gray_counted: "counted info (gray_expected s) (stress_vm_gray info s)"
  unfolding stress_vm_gray_def Let_def
  apply (rule runs_rule, simp add: case_prod_beta)
  apply (rule fill_rule [where ps = gray_words and nxt = "\<lambda>v. v + 4" and loc = fst, OF _ within_gray])
      apply (simp_all add: case_prod_beta)
  apply (rule impI)
  apply (rule scan_count [where hw = "vi_hw info" and wt = differ and ps = gray_words and nxt = "\<lambda>v. v + 4" and loc = fst])
     apply (simp_all add: scans_def case_prod_beta)
  apply (simp add: counted_def gray_expected_def pattern_count [OF within_gray _ _ fst_words(1)] same_localD)
  done

lemma grayflip_counted: "counted info (grayflip_expected s) (stress_vm_grayflip info s)"
  unfolding stress_vm_grayflip_def Let_def
  apply (rule runs_rule, simp add: case_prod_beta)
  apply (rule fill_rule [where ps = grayflip_words and nxt = "\<lambda>v. v + 1" and loc = fst, OF _ within_grayflip])
      apply (simp_all add: case_prod_beta)
  apply (rule impI)
  apply (rule scan_count [where hw = "vi_hw info" and wt = differ and ps = grayflip_words and nxt = "\<lambda>v. v + 1" and loc = fst])
     apply (simp_all add: scans_def case_prod_beta)
  apply (simp add: counted_def grayflip_expected_def pattern_count [OF within_grayflip _ _ fst_words(2)] same_localD)
  done

lemma each_count:
  assumes "\<And>i s. case body i s of (b, t) \<Rightarrow>
      vm_mem t = vm_mem s \<and> vm_static t = vm_static s \<and> vm_injects t = vm_injects s \<and> vm_fails t = vm_fails s \<and> vm_bogo t = vm_bogo s
      \<and> (vm_errs t = vm_errs s + errors wt (vi_hw info) (ps i (loc s)) (vm_mem s) \<or> b \<and> vm_errs t = vm_errs s)
      \<and> (\<not> b \<longrightarrow> loc t = nxt (loc s))"
    and "0 < step" "\<And>i s. \<not> fst (body i s)"
    and "\<And>t. vm_mem t = vm_mem s \<Longrightarrow> vm_errs t = vm_errs s + errors wt (vi_hw info) (pass_words ps nxt step i (loc s) (turns step n i)) (vm_mem s) \<Longrightarrow> P (False, t)"
  shows "P (vm_each step n body i s)"
  unfolding vm_each_def Let_def
  by (rule scan_count [OF vm_each_scan [unfolded Let_def, where ps = ps and loc = loc and nxt = nxt and hw = "vi_hw info" and wt = wt]])
    (use assms in \<open>simp_all add: case_prod_beta\<close>)

lemma bytes_count:
  "errors differ (vi_hw info) (pass_words (\<lambda>i l. eight i (f l)) nxt 8 0 l (vi_sz info div 8)) m
    = card {i. i < vi_sz info \<and> hw_read (vi_hw info) m i \<noteq> f ((nxt ^^ (i div 8)) l) (i mod 8)}"
  by (rule pass_count [OF within_eight]) (use fst_words(3) in \<open>auto simp: set_pass_eight\<close>)

lemma rand_check_count:
  assumes "\<And>t. vm_mem t = vm_mem s \<Longrightarrow> vm_errs t = vm_errs s
      + card {i. i < vi_sz info \<and> hw_read (vi_hw info) (vm_mem s) i \<noteq> f (i mod 8) (rand_byte (vm_mwc s) i)} \<Longrightarrow> P (False, t)"
  shows "P (rand_check info f s)"
  unfolding rand_check_def Let_def
proof (rule each_count [where wt = differ and ps = "\<lambda>i m. eight i (\<lambda>j. f j (fst (stress_mwc8 m)))" and nxt = "snd \<circ> stress_mwc8" and loc = vm_mwc])
  fix t :: "'m vm"
  assume "vm_mem t = vm_mem s" "vm_errs t = vm_errs s + errors differ (vi_hw info)
    (pass_words (\<lambda>i m. eight i (\<lambda>j. f j (fst (stress_mwc8 m)))) (snd \<circ> stress_mwc8) 8 0 (vm_mwc s) (turns 8 (vi_sz info) 0)) (vm_mem s)"
  then show "P (False, t)"
    using bytes_count [of "\<lambda>m j. f j (fst (stress_mwc8 m))" "snd \<circ> stress_mwc8" "vm_mwc s" "vm_mem s"]
    by (intro assms) (simp_all add: rand_byte_def)
qed (simp_all add: case_prod_beta)

lemma loops_run [simp]: "fst (rand_fill info s) = False" "fst (change_all info f s) = False"
  using vm_for_runs [of "\<lambda>i (u, s). case (let (v, s) = with_mwc stress_mwc8 s;
      s = (if vi_nt info then puts info [(i, repeat8 v)] s else puts info (eight i (\<lambda>_. v)) s)
      in vm_done info (vm_count 1 s)) of (b, s) \<Rightarrow> (b, u, s)" 8 "vi_sz info" 0 "((), s)"]
    vm_for_runs [of "\<lambda>i (u, s). case vm_done info (vm_count 1 (fold (\<lambda>j. change info f (i + j)) [0..<8] s)) of (b, s) \<Rightarrow> (b, u, s)"
      8 "vi_sz info" 0 "((), s)"]
  by (simp_all add: rand_fill_def change_all_def vm_each_def Let_def case_prod_beta)

lemma rand_fill_runs:
  assumes "\<And>t. same_local s t \<Longrightarrow> \<forall>j < vi_sz info. hw_read (vi_hw info) (vm_mem t) j = rand_byte (vm_mwc s) j \<Longrightarrow> P (False, t)"
  shows "P (rand_fill info s)"
proof -
  have "\<not> fst (rand_fill info s) \<longrightarrow> P (rand_fill info s)"
    by (rule rand_fill_rule) (use assms in auto)
  then show ?thesis by simp
qed

lemma change_all_runs:
  assumes "\<And>t. same_local s t \<Longrightarrow> \<forall>j < vi_sz info. hw_read (vi_hw info) (vm_mem t) j = f (hw_read (vi_hw info) (vm_mem s) j) \<Longrightarrow> P (False, t)"
  shows "P (change_all info f s)"
proof -
  have "\<not> fst (change_all info f s) \<longrightarrow> P (change_all info f s)"
    by (rule change_all_rule [where f = f]) (use assms in auto)
  then show ?thesis by simp
qed

text \<open>The generator as it is when the check starts.\<close>

definition seeds :: "'m vm \<Rightarrow> mwc" where
  "seeds s = (let (w, z, _) = vm_reseed info (vm_enter s) in seeded w z)"

lemma seeds_rule:
  "(\<And>w z t. seeds s = seeded w z \<Longrightarrow> same_local (vm_enter s) t \<Longrightarrow> P (w, z, t)) \<Longrightarrow> P (vm_reseed info (vm_enter s))"
  by (simp add: seeds_def vm_reseed_def with_mwc_def same_local_def case_prod_beta Let_def)

lemma rand_set_counted: "counted info (rand_byte (seeds s)) (stress_vm_rand_set info s)"
  unfolding stress_vm_rand_set_def Let_def
  apply (rule seeds_rule, simp only: prod.case)
  apply (rule rand_fill_runs, simp only: prod.case if_False)
  apply (rule rand_check_count)
  apply (simp add: counted_def same_localD seeded_simp)
  done

lemma ror_counted: "counted info (\<lambda>i. shim_ror8 (rand_byte (seeds s) i)) (stress_vm_ror info s)"
  unfolding stress_vm_ror_def Let_def
  apply (rule seeds_rule, simp only: prod.case)
  apply (rule rand_fill_runs, simp only: prod.case if_False)
  apply (rule change_all_runs, simp only: prod.case if_False)
  apply (rule rand_check_count)
  apply (simp add: counted_def same_localD seeded_simp)
  done

lemma flip_counted: "counted info (\<lambda>i. (shim_ror8 ^^ (i mod 8)) (rand_byte (seeds s) i)) (stress_vm_flip info s)"
  unfolding stress_vm_flip_def Let_def
  apply (rule seeds_rule, simp only: prod.case)
  apply (rule runs_each, simp add: case_prod_beta)
  apply (rule each_fill_within [where ps = "\<lambda>i m. eight i (\<lambda>j. (shim_ror8 ^^ j) (fst (stress_mwc8 m)))" and nxt = "snd \<circ> stress_mwc8"
    and loc = vm_mwc, OF _ within_eight])
      apply (simp add: case_prod_beta)
     apply simp_all [3]
  apply (simp only: prod.case, rule impI, simp only: if_False)
  apply (rule runs_rule, simp add: case_prod_beta)
  apply (rule flip_rule)
  apply (simp only: prod.case, rule impI, simp only: if_False)
  apply (rule rand_check_count)
  apply (simp add: counted_def same_localD seeded_simp)
  done

lemma inc_nybble_counted:
  "counted info (\<lambda>_. INC_HI_NYBBLE (INC_LO_NYBBLE (inc_nybble_val (vm_static s)))) (stress_vm_inc_nybble info s)"
  unfolding stress_vm_inc_nybble_def Let_def
  apply (rule change_all_runs, simp only: prod.case if_False)
  apply (rule change_all_runs, simp only: prod.case if_False)
  apply (rule each_count [where wt = differ and nxt = id and loc = "\<lambda>_. ()" and
     ps = "\<lambda>i _. eight i (\<lambda>_. INC_HI_NYBBLE (INC_LO_NYBBLE (inc_nybble_val (vm_static s))))"])
     apply (simp_all add: case_prod_beta eight_def [symmetric])
  apply (simp add: counted_def bytes_count same_localD)
  done

lemma sweep_count:
  assumes "\<And>t. vm_mem t = vm_mem s \<Longrightarrow> vm_errs t = vm_errs s + card {i. i < vi_sz info \<and> hw_read (vi_hw info) (vm_mem s) i \<noteq> v} \<Longrightarrow> P t"
  shows "P (vm_sweep info (\<lambda>i. checks info differ [(i, v)]) s)"
proof -
  let ?ps = "pass_words (\<lambda>i (_ :: unit). [(i, v)]) id (Suc 0) 0 () (vi_sz info)"
  have words: "?ps = map (\<lambda>i. (i, v)) [0..<vi_sz info]" by (simp add: pass_words_def)
  have n: "errors differ (vi_hw info) ?ps (vm_mem s) = card {i. i < vi_sz info \<and> hw_read (vi_hw info) (vm_mem s) i \<noteq> v}"
    unfolding words by (subst errors_count [where pat = "\<lambda>_. v"]) (auto simp: comp_def image_image intro!: arg_cong [of _ _ card])
  show ?thesis
    unfolding vm_sweep_def
    by (rule each_count [where wt = differ and ps = "\<lambda>i _. [(i, v)]" and nxt = id and loc = "\<lambda>_. ()"])
      (use assms n in simp_all)
qed

lemma incdec_counted: "counted info (\<lambda>_. 0) (stress_vm_incdec info s)"
  unfolding stress_vm_incdec_def Let_def
  apply (rule sweep_change_rule [where f = "\<lambda>x. x + (incdec_val (vm_static (vm_enter s)) + 1)"])
  apply (rule sweep_change_rule [where f = "\<lambda>x. x - (incdec_val (vm_static (vm_enter s)) + 1)"])
  apply (rule sweep_count)
  apply (simp add: counted_def same_localD)
  done

end

section \<open>Bytes that are not checked\<close>

text \<open>Words are equal when their bytes are.\<close>

lemma load_eq_iff:
  assumes "LENGTH('w::len) = 8 * k"
  shows "load hw m i = (load hw m' i :: 'w word) \<longleftrightarrow> (\<forall>j < k. hw_read hw m (i + j) = hw_read hw m' (i + j))"
proof
  assume eq: "load hw m i = (load hw m' i :: 'w word)"
  show "\<forall>j < k. hw_read hw m (i + j) = hw_read hw m' (i + j)"
  proof (intro allI impI bit_word_eqI)
    fix j b assume j: "j < k" "b < LENGTH(8)"
    have "bit (load hw n i :: 'w word) (8 * j + b) \<longleftrightarrow> bit (hw_read hw n (i + j)) b" for n
      using j assms by (simp add: load_def bit_bytes_word)
    then show "bit (hw_read hw m (i + j)) b = bit (hw_read hw m' (i + j)) b" using eq by metis
  qed
next
  assume "\<forall>j < k. hw_read hw m (i + j) = hw_read hw m' (i + j)"
  then show "load hw m i = (load hw m' i :: 'w word)"
    unfolding load_def using assms by (intro arg_cong [of _ _ bytes_word] map_cong) simp_all
qed

text \<open>
  The result of a method that counts the bits that differ in the words of \<open>ps\<close>, and when it finds
  nothing although a run with no errors does not either.
\<close>

definition weighed :: "'m vm_info \<Rightarrow> (nat \<times> 'w::len word) list \<Rightarrow> nat \<times> 'm vm \<Rightarrow> bool" where
  "weighed info ps r \<longleftrightarrow> fst r = errors bits_differ (vi_hw info) ps (vm_mem (snd r))"

lemma weighed_altered:
  fixes ps :: "(nat \<times> 'w::len word) list"
  assumes "weighed info ps r" "weighed (clean_info info) ps q" "fst q = 0" "LENGTH('w) = 8 * k"
    and "\<And>i. (\<exists>p \<in> fst ` set ps. \<exists>j < k. i = p + j) \<longleftrightarrow> i < vi_sz info \<and> C i"
  shows "fst r = 0 \<longleftrightarrow> (\<forall>i \<in> altered info (snd r) (snd q). \<not> C i)"
proof -
  have q: "load (vi_hw info) (vm_mem (snd q)) i = v" if "(i, v) \<in> set ps" for i v
    using assms(2,3) that by (auto simp: weighed_def errors_0)
  have "fst r = 0 \<longleftrightarrow> (\<forall>(i, v) \<in> set ps. load (vi_hw info) (vm_mem (snd r)) i = v)"
    using assms(1) by (simp add: weighed_def errors_0)
  also have "\<dots> \<longleftrightarrow> (\<forall>i \<in> fst ` set ps. load (vi_hw info) (vm_mem (snd r)) i = (load (vi_hw info) (vm_mem (snd q)) i :: 'w word))"
    using q by force
  also have "\<dots> \<longleftrightarrow> (\<forall>p \<in> fst ` set ps. \<forall>j < k. hw_read (vi_hw info) (vm_mem (snd r)) (p + j) = hw_read (vi_hw info) (vm_mem (snd q)) (p + j))"
    by (simp add: load_eq_iff [OF assms(4)])
  also have "\<dots> \<longleftrightarrow> (\<forall>i. i < vi_sz info \<and> C i \<longrightarrow> hw_read (vi_hw info) (vm_mem (snd r)) i = hw_read (vi_hw info) (vm_mem (snd q)) i)"
    unfolding assms(5) [symmetric] by blast
  finally show ?thesis by (auto simp: altered_def)
qed

text \<open>The bytes of the words of a pass that checks \<open>w\<close> words of \<open>k\<close> bytes at the start of each turn.\<close>

lemma turn_bytes:
  assumes "step dvd n" "w * k \<le> step" "0 < k" "0 < step" "\<And>q l. fst ` set (ps (q * step) l) = (\<lambda>r. q * step + k * r) ` {..<w}"
  shows "(\<exists>p \<in> fst ` set (pass_words ps nxt step 0 l (n div step)). \<exists>j < k. i = p + j) \<longleftrightarrow> i < n \<and> i mod step < w * k"
proof -
  have "fst ` set (pass_words ps nxt step 0 l (n div step)) = (\<Union>q < n div step. (\<lambda>r. q * step + k * r) ` {..<w})"
    by (simp add: pass_words_def image_UN assms(5) atLeast0LessThan)
  then have "(\<exists>p \<in> fst ` set (pass_words ps nxt step 0 l (n div step)). \<exists>j < k. i = p + j)
      \<longleftrightarrow> (\<exists>q < n div step. \<exists>r < w. \<exists>j < k. i = q * step + k * r + j)" by auto
  also have "\<dots> \<longleftrightarrow> i < n \<and> i mod step < w * k"
  proof
    assume "\<exists>q < n div step. \<exists>r < w. \<exists>j < k. i = q * step + k * r + j"
    then obtain q r j where i: "q < n div step" "r < w" "j < k" "i = q * step + (k * r + j)" by (auto simp: add.assoc)
    have "k * Suc r \<le> k * w" using i(2) by (intro mult_le_mono2) simp
    then have b: "k * r + j < w * k" using i(3) by (simp add: mult.commute)
    then have "i mod step = k * r + j" "i div step = q" using assms(2) i(4) by simp_all
    moreover have "i < n" using i(1) \<open>i div step = q\<close> assms(1,4) by (metis div_le_mono leD le_less_linear)
    ultimately show "i < n \<and> i mod step < w * k" using b by simp
  next
    assume i: "i < n \<and> i mod step < w * k"
    have "i div step < n div step" using i assms(1,4) by (auto simp: dvd_def div_less_iff_less_mult mult.commute)
    moreover have "i mod step div k < w" using i assms(3) by (simp add: div_less_iff_less_mult)
    moreover have "i mod step mod k < k" using assms(3) by simp
    moreover have "i = i div step * step + k * (i mod step div k) + i mod step mod k" by (simp add: add.assoc)
    ultimately show "\<exists>q < n div step. \<exists>r < w. \<exists>j < k. i = q * step + k * r + j" by blast
  qed
  finally show ?thesis .
qed

context vm_unstopped
begin

definition sum_expected :: "'m vm \<Rightarrow> (nat \<times> u64) list" where
  "sum_expected s = pass_words (\<lambda>i m. fst (sum_words i m)) (\<lambda>m. snd (draws stress_mwc64 8 m)) 512 0 (seeds s) (vi_sz info div 512)"

definition lfsr_expected :: "(nat \<times> u32) list" where
  "lfsr_expected = pass_words lfsr_words (lfsr_next ^^ 8) 128 0 0xf63acb01 (vi_sz info div 128)"

lemma rand_sum_weighed: "weighed info (sum_expected s) (stress_vm_rand_sum info s)"
  unfolding stress_vm_rand_sum_def Let_def
  apply (rule seeds_rule, simp only: prod.case)
  apply (rule runs_each, simp add: case_prod_beta)
  apply (rule each_fill_within [where ps = "\<lambda>i m. fst (sum_words i m)" and nxt = "\<lambda>m. snd (draws stress_mwc64 8 m)" and loc = vm_mwc, OF _ within_sum])
      apply (simp add: case_prod_beta)
     apply simp_all [3]
  apply (simp only: prod.case, rule impI, simp only: if_False)
  apply (rule each_count [where wt = bits_differ and ps = "\<lambda>i m. fst (sum_words i m)" and nxt = "\<lambda>m. snd (draws stress_mwc64 8 m)" and loc = vm_mwc])
     apply (simp_all add: case_prod_beta)
  apply (simp add: weighed_def sum_expected_def same_localD seeded_simp)
  done

lemma lfsr32_weighed: "weighed info lfsr_expected (stress_vm_lfsr32 info s)"
  unfolding stress_vm_lfsr32_def Let_def
  apply (rule runs_rule, simp add: case_prod_beta)
  apply (rule fill_rule [where ps = lfsr_words and nxt = "lfsr_next ^^ 8" and loc = fst, OF _ within_lfsr])
      apply (simp_all add: case_prod_beta)
  apply (rule impI)
  apply (rule scan_count [where hw = "vi_hw info" and wt = bits_differ and ps = lfsr_words and nxt = "lfsr_next ^^ 8" and loc = fst])
     apply (simp_all add: scans_def case_prod_beta)
  apply (simp add: weighed_def lfsr_expected_def same_localD)
  done

lemma sum_bytes: "(\<exists>p \<in> fst ` set (sum_expected s). \<exists>j < 8. i = p + j) \<longleftrightarrow> i < vi_sz info \<and> i mod 512 < 64"
proof -
  have "fst ` set (fst (sum_words i m)) = (\<lambda>r. i + 8 * r) ` {..<8}" for i m
  proof -
    have "map fst (fst (sum_words i m)) = map (\<lambda>r. i + 8 * r) [0..<8]"
      by (simp add: sum_words_def case_prod_beta length_draws)
    then show ?thesis by (metis image_set set_upt atLeast0LessThan)
  qed
  then show ?thesis
    unfolding sum_expected_def by (subst turn_bytes [where w = 8]) simp_all
qed

lemma lfsr_bytes: "(\<exists>p \<in> fst ` set lfsr_expected. \<exists>j < 4. i = p + j) \<longleftrightarrow> i < vi_sz info \<and> i mod 128 < 32"
proof -
  have "fst ` set (lfsr_words i l) = (\<lambda>r. i + 4 * r) ` {..<8}" for i l
    by (simp add: lfsr_words_def image_image atLeast0LessThan)
  then show ?thesis
    unfolding lfsr_expected_def by (subst turn_bytes [where w = 8]) simp_all
qed

end

text \<open>The methods that inject after the check do not see what is injected.\<close>

lemma late_injection:
  "fst (stress_vm_cache_stripe info s) = fst (stress_vm_cache_stripe (clean_info info) s)"
  "fst (stress_vm_cache_lines info s) = fst (stress_vm_cache_lines (clean_info info) s)"
  "fst (stress_vm_wrrd128nt info s) = fst (stress_vm_wrrd128nt (clean_info info) s)"
  by (simp_all add: stress_vm_cache_stripe_def stress_vm_cache_lines_def stress_vm_wrrd128nt_def Let_def case_prod_beta)

text \<open>The methods do not depend on \<open>calloc\<close>, so the clean run is a run with no alarms.\<close>

lemma calloc_steps [simp]:
  "vm_halt (info\<lparr>vi_calloc := b\<rparr>) = vm_halt info" "vm_done (info\<lparr>vi_calloc := b\<rparr>) = vm_done info"
  "vm_full (info\<lparr>vi_calloc := b\<rparr>) = vm_full info" "vm_finish (info\<lparr>vi_calloc := b\<rparr>) = vm_finish info"
  "stress_vm_check (info\<lparr>vi_calloc := b\<rparr>) = stress_vm_check info"
  "puts (info\<lparr>vi_calloc := b\<rparr>) = (puts info :: (nat \<times> 'w::len word) list \<Rightarrow> _)"
  "checks (info\<lparr>vi_calloc := b\<rparr>) = (checks info :: ('w::len word \<Rightarrow> 'w word \<Rightarrow> nat) \<Rightarrow> _)"
  "vm_reseed (info\<lparr>vi_calloc := b\<rparr>) = vm_reseed info" "change (info\<lparr>vi_calloc := b\<rparr>) = change info"
  "vm_memset (info\<lparr>vi_calloc := b\<rparr>) = vm_memset info"
  by (simp_all add: fun_eq_iff vm_step_defs change_def vm_memset_def)

lemma calloc_inject [simp]: "inject_random_bit_errors (info\<lparr>vi_calloc := b\<rparr>) = inject_random_bit_errors info"
proof -
  have masks: "inject_mask (info\<lparr>vi_calloc := b\<rparr>) = inject_mask info"
    by (simp add: fun_eq_iff inject_mask_def inject_change_def)
  show ?thesis by (rule ext) (simp add: inject_random_bit_errors_def masks)
qed

lemma calloc_loops [simp]:
  "rand_fill (info\<lparr>vi_calloc := b\<rparr>) = rand_fill info" "rand_check (info\<lparr>vi_calloc := b\<rparr>) f = rand_check info f"
  "change_all (info\<lparr>vi_calloc := b\<rparr>) g = change_all info g" "vm_sweep (info\<lparr>vi_calloc := b\<rparr>) h = vm_sweep info h"
  by (simp_all add: rand_fill_def rand_check_def change_all_def vm_sweep_def fun_eq_iff cong: if_cong)

lemmas checked_methods = stress_vm_gray_def stress_vm_grayflip_def stress_vm_incdec_def stress_vm_inc_nybble_def stress_vm_rand_set_def
  stress_vm_ror_def stress_vm_flip_def stress_vm_rand_sum_def stress_vm_lfsr32_def stress_vm_cache_lines_def stress_vm_cache_stripe_def
  stress_vm_wrrd128nt_def

lemma calloc_unused:
  assumes "f \<in> {stress_vm_gray, stress_vm_grayflip, stress_vm_incdec, stress_vm_inc_nybble, stress_vm_rand_set, stress_vm_ror, stress_vm_flip,
    stress_vm_rand_sum, stress_vm_lfsr32, stress_vm_cache_lines, stress_vm_cache_stripe, stress_vm_wrrd128nt}"
  shows "f (info\<lparr>vi_calloc := b\<rparr>) s = f info s"
  using assms by (elim insertE emptyE; hypsubst) (simp_all add: checked_methods Let_def case_prod_beta cong: if_cong)

context vm_unstopped
begin

lemma clean_unstopped: "vm_unstopped (clean_info info)"
  using vm_unstopped_axioms
  by (simp add: vm_unstopped_def vm_unstopped_axioms_def vm_buffer_def vm_buffer_axioms_def clean_info_def)

lemma clean_silent:
  assumes "f \<in> {stress_vm_gray, stress_vm_grayflip, stress_vm_incdec, stress_vm_inc_nybble, stress_vm_rand_set, stress_vm_ror, stress_vm_flip,
    stress_vm_rand_sum, stress_vm_lfsr32, stress_vm_cache_lines, stress_vm_cache_stripe, stress_vm_wrrd128nt}"
  shows "fst (f (clean_info info) s) = 0"
proof -
  have run: "vm_run ((clean_info info)\<lparr>vi_calloc := True\<rparr>)"
    using vm_buffer_axioms by (simp add: vm_run_def vm_run_axioms_def vm_buffer_def vm_buffer_axioms_def clean_info_def)
  have "silent s (f ((clean_info info)\<lparr>vi_calloc := True\<rparr>) s)"
    using assms by (elim insertE emptyE; hypsubst) (simp_all only: vm_run.method_silent [OF run])
  then show ?thesis unfolding calloc_unused [OF assms] silent_def by blast
qed

lemma same_expected:
  "vm_unstopped.gray_expected (clean_info info) = gray_expected" "vm_unstopped.grayflip_expected (clean_info info) = grayflip_expected"
  "vm_unstopped.seeds (clean_info info) = seeds" "vm_unstopped.sum_expected (clean_info info) = sum_expected"
  "vm_unstopped.lfsr_expected (clean_info info) = lfsr_expected"
  by (simp_all add: fun_eq_iff gray_expected_def grayflip_expected_def seeds_def sum_expected_def lfsr_expected_def
      vm_unstopped.gray_expected_def [OF clean_unstopped] vm_unstopped.grayflip_expected_def [OF clean_unstopped]
      vm_unstopped.seeds_def [OF clean_unstopped] vm_unstopped.sum_expected_def [OF clean_unstopped]
      vm_unstopped.lfsr_expected_def [OF clean_unstopped])

lemmas clean_counted = vm_unstopped.gray_counted [OF clean_unstopped, unfolded same_expected]
  vm_unstopped.grayflip_counted [OF clean_unstopped, unfolded same_expected] vm_unstopped.incdec_counted [OF clean_unstopped]
  vm_unstopped.inc_nybble_counted [OF clean_unstopped] vm_unstopped.rand_set_counted [OF clean_unstopped, unfolded same_expected]
  vm_unstopped.ror_counted [OF clean_unstopped, unfolded same_expected] vm_unstopped.flip_counted [OF clean_unstopped, unfolded same_expected]

lemma method_counts:
  assumes "f \<in> {stress_vm_gray, stress_vm_grayflip, stress_vm_incdec, stress_vm_inc_nybble, stress_vm_rand_set, stress_vm_ror, stress_vm_flip}"
  shows "fst (f info s) = card (altered info (snd (f info s)) (snd (f (clean_info info) s)))"
  using assms
    counted_altered [OF gray_counted clean_counted(1) clean_silent [where f = stress_vm_gray], of s]
    counted_altered [OF grayflip_counted clean_counted(2) clean_silent [where f = stress_vm_grayflip], of s]
    counted_altered [OF incdec_counted clean_counted(3) clean_silent [where f = stress_vm_incdec], of s]
    counted_altered [OF inc_nybble_counted clean_counted(4) clean_silent [where f = stress_vm_inc_nybble], of s]
    counted_altered [OF rand_set_counted clean_counted(5) clean_silent [where f = stress_vm_rand_set], of s]
    counted_altered [OF ror_counted clean_counted(6) clean_silent [where f = stress_vm_ror], of s]
    counted_altered [OF flip_counted clean_counted(7) clean_silent [where f = stress_vm_flip], of s]
  by (elim insertE emptyE; hypsubst) simp_all

lemma method_misses:
  "fst (stress_vm_rand_sum info s) = 0 \<longleftrightarrow> (\<forall>i \<in> altered info (snd (stress_vm_rand_sum info s)) (snd (stress_vm_rand_sum (clean_info info) s)). 64 \<le> i mod 512)"
  "fst (stress_vm_lfsr32 info s) = 0 \<longleftrightarrow> (\<forall>i \<in> altered info (snd (stress_vm_lfsr32 info s)) (snd (stress_vm_lfsr32 (clean_info info) s)). 32 \<le> i mod 128)"
  "fst (stress_vm_cache_stripe info s) = 0" "fst (stress_vm_cache_lines info s) = 0" "fst (stress_vm_wrrd128nt info s) = 0"
proof -
  show "fst (stress_vm_rand_sum info s) = 0 \<longleftrightarrow> (\<forall>i \<in> altered info (snd (stress_vm_rand_sum info s)) (snd (stress_vm_rand_sum (clean_info info) s)). 64 \<le> i mod 512)"
    by (subst weighed_altered [OF rand_sum_weighed vm_unstopped.rand_sum_weighed [OF clean_unstopped, unfolded same_expected] clean_silent [where f = stress_vm_rand_sum] _ sum_bytes])
      (simp_all add: not_less)
  show "fst (stress_vm_lfsr32 info s) = 0 \<longleftrightarrow> (\<forall>i \<in> altered info (snd (stress_vm_lfsr32 info s)) (snd (stress_vm_lfsr32 (clean_info info) s)). 32 \<le> i mod 128)"
    by (subst weighed_altered [OF lfsr32_weighed vm_unstopped.lfsr32_weighed [OF clean_unstopped, unfolded same_expected] clean_silent [where f = stress_vm_lfsr32] _ lfsr_bytes])
      (simp_all add: not_less)
  show "fst (stress_vm_cache_stripe info s) = 0" "fst (stress_vm_cache_lines info s) = 0" "fst (stress_vm_wrrd128nt info s) = 0"
    unfolding late_injection [of info] by (simp_all add: clean_silent)
qed

end

text \<open>A run on plain memory of a program that is built with the errors.\<close>

definition injecting_info :: "u64 \<Rightarrow> nat \<Rightarrow> stress_bitgen \<Rightarrow> cells vm_info" where
  "injecting_info buf n bg = (plain_info buf n bg)\<lparr>vi_inject := True\<rparr>"

interpretation injecting: vm_unstopped "injecting_info buf n bg"
  by unfold_locales (simp_all add: injecting_info_def plain_info_def plain_memory_def)

text \<open>C4: in a run that is not stopped, on memory that works, seven of the methods count exactly the
  errors that the program injects: one for each byte of the buffer that is not as the same run of a
  program without them leaves it.\<close>

theorem vm_injected_errors_counted:
  assumes "sound_memory (vi_hw info) (vi_sz info)" "4096 dvd vi_sz info" "\<forall>k. vi_cont info k" "vi_max_ops info = 0"
    and "f \<in> {stress_vm_gray, stress_vm_grayflip, stress_vm_incdec, stress_vm_inc_nybble, stress_vm_rand_set, stress_vm_ror, stress_vm_flip}"
  shows "fst (f info s) = card (altered info (snd (f info s)) (snd (f (clean_info info) s)))"
proof -
  have "vm_unstopped info"
    using assms(1-4) by (simp add: vm_unstopped_def vm_unstopped_axioms_def vm_buffer_def vm_buffer_axioms_def)
  then show ?thesis using assms(5) by (rule vm_unstopped.method_counts)
qed

theorem vm_injected_errors_counted_witness:
  "\<forall>bg s. fst (stress_vm_rand_set (injecting_info 0x10000 1 bg) s)
     = card {i. i < 4096 \<and> vm_mem (snd (stress_vm_rand_set (injecting_info 0x10000 1 bg) s)) i
         \<noteq> vm_mem (snd (stress_vm_rand_set (plain_info 0x10000 1 bg) s)) i}"
proof (intro allI)
  fix bg and s :: "cells vm"
  have "clean_info (injecting_info 0x10000 1 bg) = plain_info 0x10000 1 bg"
    by (simp add: clean_info_def injecting_info_def plain_info_def)
  then show "fst (stress_vm_rand_set (injecting_info 0x10000 1 bg) s)
      = card {i. i < 4096 \<and> vm_mem (snd (stress_vm_rand_set (injecting_info 0x10000 1 bg) s)) i
          \<noteq> vm_mem (snd (stress_vm_rand_set (plain_info 0x10000 1 bg) s)) i}"
    using vm_injected_errors_counted [OF injecting.sound_memory_axioms, of "0x10000" 1 bg stress_vm_rand_set s]
    by (simp add: altered_def injecting_info_def plain_info_def plain_memory_def)
qed

text \<open>C6: in a run that is not stopped, on memory that works, three of the methods never count an error
  that the program injects, since they inject after their check, and two count none exactly when
  the bytes that are altered are all outside the eight words that they check in each turn: 448 of 512
  bytes, 96 of 128.\<close>

theorem vm_blind_methods:
  assumes "sound_memory (vi_hw info) (vi_sz info)" "4096 dvd vi_sz info" "\<forall>k. vi_cont info k" "vi_max_ops info = 0"
  shows "fst (stress_vm_cache_lines info s) = 0 \<and> fst (stress_vm_cache_stripe info s) = 0 \<and> fst (stress_vm_wrrd128nt info s) = 0
    \<and> (fst (stress_vm_rand_sum info s) = 0 \<longleftrightarrow>
        (\<forall>i \<in> altered info (snd (stress_vm_rand_sum info s)) (snd (stress_vm_rand_sum (clean_info info) s)). 64 \<le> i mod 512))
    \<and> (fst (stress_vm_lfsr32 info s) = 0 \<longleftrightarrow>
        (\<forall>i \<in> altered info (snd (stress_vm_lfsr32 info s)) (snd (stress_vm_lfsr32 (clean_info info) s)). 32 \<le> i mod 128))"
proof -
  have "vm_unstopped info"
    using assms by (simp add: vm_unstopped_def vm_unstopped_axioms_def vm_buffer_def vm_buffer_axioms_def)
  from vm_unstopped.method_misses [OF this, of s] show ?thesis by blast
qed

theorem vm_blind_methods_witness:
  "\<forall>bg s. fst (stress_vm_cache_lines (injecting_info 0x10000 1 bg) s) = 0"
proof (intro allI)
  fix bg and s :: "cells vm"
  show "fst (stress_vm_cache_lines (injecting_info 0x10000 1 bg) s) = 0"
    using vm_blind_methods [OF injecting.sound_memory_axioms, of "0x10000" 1 bg s] by (simp add: injecting_info_def plain_info_def)
qed

section \<open>Bits that do not change\<close>

lemma vm_each_sum:
  assumes "\<And>i s. i < n \<Longrightarrow> \<not> fst (body i s) \<and> vm_errs (snd (body i s)) = vm_errs s + e i"
  shows "vm_errs (snd (vm_each 1 n body 0 s)) = vm_errs s + (\<Sum>i<n. e i)"
proof -
  let ?b = "\<lambda>i (u, s). let (b, s) = body i s in (b, u, s)"
  have "case vm_for 1 n ?b 0 ((), s) of (b, t) \<Rightarrow> if b then False else vm_errs (snd t) = vm_errs s + (\<Sum>i<turns 1 n 0. e i)"
  proof (rule vm_for_turns [where I = "\<lambda>q t. vm_errs (snd t) = vm_errs s + (\<Sum>i<q. e i)"])
    fix q and t :: "unit \<times> 'a vm" assume "vm_errs (snd t) = vm_errs s + (\<Sum>i<q. e i)" "0 + q * 1 < n"
    then show "case ?b (0 + q * 1) t of (b, t) \<Rightarrow> if b then False else vm_errs (snd t) = vm_errs s + (\<Sum>i<Suc q. e i)"
      using assms [of q "snd t"] by (cases t) (auto split: prod.splits)
  qed simp_all
  then show ?thesis by (auto simp: vm_each_def split: prod.splits if_splits)
qed

definition misread :: "u8 \<Rightarrow> u8 \<Rightarrow> u8 list \<Rightarrow> nat" where
  "misread hi lo vs = length (filter (\<lambda>v. (v OR hi) AND NOT lo \<noteq> v) vs)"

lemma SET_AND_TESTs_stuck:
  "vi_hw info = stuck_memory hi lo \<Longrightarrow> vm_errs (fold (SET_AND_TEST info i) vs s) = vm_errs s + misread (hi i) (lo i) vs"
  by (induction vs arbitrary: s) (simp_all add: misread_def SET_AND_TEST_def stuck_memory_def differ_def)

lemma walking_data_stuck:
  assumes "vi_hw info = stuck_memory hi lo" "\<forall>k. vi_cont info k" "vi_max_ops info = 0"
  shows "fst (walking_data vs info s) = (\<Sum>i<vi_sz info. misread (hi i) (lo i) vs)"
proof -
  let ?body = "\<lambda>i s. vm_done info (vm_count 1 (fold (SET_AND_TEST info i) vs s))"
  have "vm_errs (snd (vm_each 1 (vi_sz info) ?body 0 (vm_enter s))) = vm_errs (vm_enter s) + (\<Sum>i<vi_sz info. misread (hi i) (lo i) vs)"
    by (rule vm_each_sum) (simp add: SET_AND_TESTs_stuck [OF assms(1)] vm_done_def vm_full_def vm_halt_def assms(2,3))
  then show ?thesis by (simp add: walking_data_def Let_def case_prod_beta)
qed

text \<open>A one and a zero in each place find a bit that does not change.\<close>

lemma misread_none:
  fixes hi lo :: u8
  assumes "\<And>k. k < 8 \<Longrightarrow> \<exists>v \<in> set vs. bit v k" "\<And>k. k < 8 \<Longrightarrow> \<exists>v \<in> set vs. \<not> bit v k"
  shows "misread hi lo vs = 0 \<longleftrightarrow> hi = 0 \<and> lo = 0"
proof
  assume "misread hi lo vs = 0"
  then have ok: "(v OR hi) AND NOT lo = v" if "v \<in> set vs" for v
    using that by (auto simp: misread_def filter_empty_conv)
  have bits: "(bit v k \<or> bit hi k) \<and> \<not> bit lo k \<longleftrightarrow> bit v k" if "v \<in> set vs" "k < 8" for v k
    using arg_cong [OF ok [OF that(1)], of "\<lambda>w. bit w k"] that(2) by (simp add: bit_simps)
  have "\<not> bit lo k" if "k < 8" for k using assms(1) [OF that] bits that by blast
  moreover have "\<not> bit hi k" if "k < 8" for k using assms(2) [OF that] bits that calculation by blast
  ultimately show "hi = 0 \<and> lo = 0" by (auto intro!: bit_word_eqI)
qed (simp add: misread_def)

lemma walking_bits:
  "[0x01, 0x02, 0x04, 0x08, 0x10, 0x20, 0x40, 0x80] = map (\<lambda>k. push_bit k (1 :: u8)) [0..<8]"
  "[0xfe, 0xfd, 0xfb, 0xf7, 0xef, 0xdf, 0xbf, 0x7f] = map (\<lambda>k. NOT (push_bit k (1 :: u8))) [0..<8]"
  by (simp_all add: upt_rec)

lemma stuck_walks:
  "misread hi lo [0x01, 0x02, 0x04, 0x08, 0x10, 0x20, 0x40, 0x80] = 0 \<longleftrightarrow> hi = 0 \<and> lo = 0"
  "misread hi lo [0xfe, 0xfd, 0xfb, 0xf7, 0xef, 0xdf, 0xbf, 0x7f] = 0 \<longleftrightarrow> hi = 0 \<and> lo = 0"
proof -
  have "\<exists>j\<in>{0..<8}. k \<noteq> j" for k :: nat by (rule bexI [of _ "if k = 0 then 1 else 0"]) simp_all
  then show "misread hi lo [0x01, 0x02, 0x04, 0x08, 0x10, 0x20, 0x40, 0x80] = 0 \<longleftrightarrow> hi = 0 \<and> lo = 0"
  "misread hi lo [0xfe, 0xfd, 0xfb, 0xf7, 0xef, 0xdf, 0xbf, 0x7f] = 0 \<longleftrightarrow> hi = 0 \<and> lo = 0"
  unfolding walking_bits by (auto intro!: misread_none simp: bit_simps)
qed

text \<open>C5: on memory with bits that read as one or as zero whatever is written, the walking tests of
  the data lines, when they are not stopped, count no error exactly when no bit of the buffer is
  stuck.\<close>

theorem walking_finds_stuck_bits:
  assumes "vi_hw info = stuck_memory hi lo" "\<forall>k. vi_cont info k" "vi_max_ops info = 0"
    and "f \<in> {stress_vm_walking_one_data, stress_vm_walking_zero_data}"
  shows "fst (f info s) = 0 \<longleftrightarrow> (\<forall>i < vi_sz info. hi i = 0 \<and> lo i = 0)"
  using assms(4) by (auto simp: stress_vm_walking_one_data_def stress_vm_walking_zero_data_def walking_data_stuck [OF assms(1-3)] stuck_walks)

theorem walking_finds_stuck_bits_witness:
  "\<forall>bg s. fst (stress_vm_walking_one_data ((plain_info 0x10000 1 bg)\<lparr>vi_hw := stuck_memory ((\<lambda>_. 0)(77 := 4)) (\<lambda>_. 0)\<rparr>) s) \<noteq> 0"
proof (intro allI)
  fix bg and s :: "cells vm"
  let ?i = "(plain_info 0x10000 1 bg)\<lparr>vi_hw := stuck_memory ((\<lambda>_. 0)(77 := 4)) (\<lambda>_. 0)\<rparr>"
  have "fst (stress_vm_walking_one_data ?i s) = 0 \<longleftrightarrow> (\<forall>i < vi_sz ?i. ((\<lambda>_. 0)(77 := 4 :: u8)) i = 0 \<and> (0 :: u8) = 0)"
    by (rule walking_finds_stuck_bits) (simp_all add: plain_info_def)
  then show "fst (stress_vm_walking_one_data ?i s) \<noteq> 0" by (auto simp: plain_info_def)
qed

section \<open>Outside the buffer\<close>

text \<open>Memory that remembers where it was written.\<close>

definition log_memory :: "nat set hw" where
  "log_memory = \<lparr>hw_read = (\<lambda>m i. 0), hw_write = (\<lambda>i v m. insert i m)\<rparr>"

lemma mod_small_buffer: "q < 4096 \<Longrightarrow> stress_vm_mod (of_nat (17 * q + 8209)) 4096 = of_nat (17 * Suc q)"
proof -
  assume q: "q < 4096"
  have ge: "(of_nat k :: u64) \<le> of_nat l \<longleftrightarrow> k \<le> l" if "k < 2 ^ 64" "l < 2 ^ 64" for k l
    using that by (simp add: word_le_nat_alt unat_of_nat take_bit_nat_eq_self)
  have "(4096 :: u64) \<le> of_nat (17 * q + 8209)" using ge [of 4096 "17 * q + 8209"] q by simp
  moreover have "(of_nat (17 * q + 8209) :: u64) - 4096 = of_nat (17 * q + 4113)" by simp
  moreover have "(4096 :: u64) \<le> of_nat (17 * q + 4113)" using ge [of 4096 "17 * q + 4113"] q by simp
  moreover have "(of_nat (17 * q + 4113) :: u64) - 4096 = of_nat (17 * Suc q)" by simp
  ultimately show ?thesis by (simp only: stress_vm_mod_def Let_def if_True)
qed

text \<open>With the smallest buffer, 4096 bytes, and the prime 8209 that follows twice its size, the turns
  of prime-incdec write at the multiples of 17: up to 65 536 bytes past the end of the buffer.\<close>

theorem prime_incdec_out_of_bounds:
  assumes "vi_hw info = log_memory" "vi_sz info = 4096" "vi_max_ops info = 0" "\<not> vi_inject info"
    and "stress_prime64_get (vi_isqrt info) (vi_prime_reads info) 8192 = 8209" "q < 4096"
  shows "17 * Suc q \<in> vm_mem (snd (stress_vm_prime_incdec info s))"
proof -
  let ?v = "prime_incdec_val (vm_static s)"
  let ?body = "\<lambda>i (j, s). let j = stress_vm_mod j 4096; s = vm_count 1 (change info (\<lambda>x. x - ?v) (unat j) s)
    in (vm_full info s, j + 8209, s)"
  have loop: "\<forall>q < 4096. 17 * Suc q \<in> vm_mem (snd (snd (vm_for 1 4096 ?body 0 (8209, t))))" for t
  proof -
    have "case vm_for 1 4096 ?body 0 (8209, t) of (b, u) \<Rightarrow> if b then False
        else fst u = of_nat (17 * turns 1 4096 0 + 8209) \<and> (\<forall>r < turns 1 4096 0. 17 * Suc r \<in> vm_mem (snd u))"
    proof (rule vm_for_turns [where I = "\<lambda>q u. fst u = of_nat (17 * q + 8209) \<and> (\<forall>r < q. 17 * Suc r \<in> vm_mem (snd u))"])
      fix q and u :: "u64 \<times> nat set vm"
      assume I: "fst u = of_nat (17 * q + 8209) \<and> (\<forall>r < q. 17 * Suc r \<in> vm_mem (snd u))" and q: "0 + q * 1 < 4096"
      let ?t = "vm_count 1 (change info (\<lambda>x. x - ?v) (17 * Suc q) (snd u))"
      have "unat (of_nat (17 * Suc q) :: u64) = 17 * Suc q" using q by (intro unat_small64) simp
      moreover have "stress_vm_mod (fst u) 4096 = of_nat (17 * Suc q)" using I q mod_small_buffer [of q] by simp
      ultimately have "?body (0 + q * 1) u = (False, of_nat (17 * Suc q) + 8209, ?t)"
        by (simp only: Let_def case_prod_beta) (simp add: vm_full_def assms(3))
      moreover have "vm_mem ?t = insert (17 * Suc q) (vm_mem (snd u))"
        by (simp add: assms(1) log_memory_def change_def)
      moreover have "(of_nat (17 * Suc q) + 8209 :: u64) = of_nat (17 * Suc q + 8209)" by simp
      ultimately show "case ?body (0 + q * 1) u of (b, u) \<Rightarrow> if b then False
          else fst u = of_nat (17 * Suc q + 8209) \<and> (\<forall>r < Suc q. 17 * Suc r \<in> vm_mem (snd u))"
        using I by (simp only: prod.case if_False fst_conv snd_conv less_Suc_eq) blast
    qed simp_all
    then show ?thesis by (auto split: prod.splits if_splits)
  qed
  have keep: "vm_mem (vm_sweep info (\<lambda>i. checks info differ [(i, 0 :: u8)]) t) = vm_mem t" for t
    unfolding vm_sweep_def vm_each_def Let_def case_prod_beta
    by (rule keep_rule [where J = "\<lambda>u. vm_mem u = vm_mem t"]) auto
  have finish: "vm_mem (snd (vm_finish info t)) = vm_mem t" for t
    by (simp add: vm_finish_def vm_abort_def stress_vm_check_def)
  show ?thesis
    using loop assms(6) by (simp add: stress_vm_prime_incdec_def Let_def case_prod_beta assms(2,5) keep finish)
qed

lemma next_prime: "stress_prime64_get (\<lambda>_. 91) 40 8192 = 8209"
  by code_simp

theorem prime_incdec_out_of_bounds_witness:
  "\<forall>s. 69632 \<in> vm_mem (snd (stress_vm_prime_incdec \<lparr>vi_hw = log_memory, vi_base = 0x10000, vi_sz = 4096, vi_max_ops = 0, vi_nt = False,
     vi_verify = True, vi_cont = (\<lambda>_. True), vi_inject = False, vi_reseed = id, vi_line = 64, vi_page = 4096,
     vi_calloc = True, vi_isqrt = (\<lambda>_. 91), vi_prime_reads = 40, vi_knobs = bitgen_default_knobs, vi_bg = bitgen_nought\<rparr> s))"
proof
  fix s
  let ?i = "\<lparr>vi_hw = log_memory, vi_base = 0x10000, vi_sz = 4096, vi_max_ops = 0, vi_nt = False,
     vi_verify = True, vi_cont = (\<lambda>_. True), vi_inject = False, vi_reseed = id, vi_line = 64, vi_page = 4096,
     vi_calloc = True, vi_isqrt = (\<lambda>_. 91), vi_prime_reads = 40, vi_knobs = bitgen_default_knobs, vi_bg = bitgen_nought\<rparr>"
  have "17 * Suc 4095 \<in> vm_mem (snd (stress_vm_prime_incdec ?i s))"
    by (rule prime_incdec_out_of_bounds) (simp_all add: next_prime)
  then show "69632 \<in> vm_mem (snd (stress_vm_prime_incdec ?i s))" by simp
qed

end
