(* ===== verification/Sort_Data.thy ===== *)
theory Sort_Data
  imports Mwc "HOL-Library.Multiset"
begin

text \<open>
  The data of the sort and search stressors (src/core-sort.c, src/core-sort.h): the comparison
  functions, the increasing data that the arrays start with, the shuffle and the mangling.  An
  array of 32-bit integers is a list of words.  The locale \<open>comparison\<close> is the contract of a
  comparison function; \<open>ordered\<close> is the order that it gives.
\<close>

section \<open>Comparisons\<close>

definition stress_sort_cmp_fwd_int32 :: "i32 \<Rightarrow> i32 \<Rightarrow> int" where
  "stress_sort_cmp_fwd_int32 v1 v2 = (if sint v1 > sint v2 then 1 else if sint v1 < sint v2 then -1 else 0)"

definition stress_sort_cmp_rev_int32 :: "i32 \<Rightarrow> i32 \<Rightarrow> int" where
  "stress_sort_cmp_rev_int32 v1 v2 = (if sint v1 < sint v2 then 1 else if sint v1 > sint v2 then -1 else 0)"

definition ordered :: "('a \<Rightarrow> 'a \<Rightarrow> int) \<Rightarrow> 'a list \<Rightarrow> bool" where
  "ordered cmp xs \<longleftrightarrow> sorted_wrt (\<lambda>x y. cmp x y \<le> 0) xs"

text \<open>What a comparison function promises: it is antisymmetric and its order is transitive.\<close>

locale comparison =
  fixes cmp :: "'a \<Rightarrow> 'a \<Rightarrow> int"
  assumes swap_sign: "cmp x y < 0 \<longleftrightarrow> 0 < cmp y x"
    and trans: "cmp x y \<le> 0 \<Longrightarrow> cmp y z \<le> 0 \<Longrightarrow> cmp x z \<le> 0"
begin

lemma same [simp]: "cmp x x = 0"
  using swap_sign [of x x] by linarith

lemma not_le: "\<not> cmp x y \<le> 0 \<longleftrightarrow> cmp y x < 0"
  using swap_sign [of y x] by linarith

lemma total: "cmp x y \<le> 0 \<or> cmp y x \<le> 0"
  using not_le [of x y] by linarith

lemma less_le: "cmp x y < 0 \<Longrightarrow> cmp x y \<le> 0"
  by simp

lemma ordered_nth: "ordered cmp xs \<longleftrightarrow> (\<forall>i j. i \<le> j \<longrightarrow> j < length xs \<longrightarrow> cmp (xs ! i) (xs ! j) \<le> 0)"
  unfolding ordered_def sorted_wrt_iff_nth_less by (metis nless_le order_refl same)

lemma ordered_append:
  "ordered cmp (xs @ ys) \<longleftrightarrow> ordered cmp xs \<and> ordered cmp ys \<and> (\<forall>x \<in> set xs. \<forall>y \<in> set ys. cmp x y \<le> 0)"
  by (auto simp: ordered_def sorted_wrt_append)

lemma ordered_take:
  "n \<le> length xs \<Longrightarrow> ordered cmp (take n xs) \<longleftrightarrow> (\<forall>i j. i \<le> j \<longrightarrow> j < n \<longrightarrow> cmp (xs ! i) (xs ! j) \<le> 0)"
  by (auto simp: ordered_nth min_def)

text \<open>Neighbours in order are enough.\<close>

lemma ordered_adjacent: "ordered cmp xs \<longleftrightarrow> (\<forall>i. Suc i < length xs \<longrightarrow> cmp (xs ! i) (xs ! Suc i) \<le> 0)"
proof
  assume *: "\<forall>i. Suc i < length xs \<longrightarrow> cmp (xs ! i) (xs ! Suc i) \<le> 0"
  have "cmp (xs ! i) (xs ! j) \<le> 0" if "i \<le> j" "j < length xs" for i j
    using that
  proof (induction j rule: dec_induct)
    case (step k)
    then show ?case using trans [of "xs ! i" "xs ! k" "xs ! Suc k"] * by simp
  qed simp
  then show "ordered cmp xs" by (simp add: ordered_nth)
qed (simp add: ordered_nth)

end

interpretation cmp_fwd: comparison stress_sort_cmp_fwd_int32
  by unfold_locales (auto simp: stress_sort_cmp_fwd_int32_def split: if_splits)

interpretation cmp_rev: comparison stress_sort_cmp_rev_int32
  by unfold_locales (auto simp: stress_sort_cmp_rev_int32_def split: if_splits)

lemma cmp_signed:
  "stress_sort_cmp_fwd_int32 x y \<le> 0 \<longleftrightarrow> sint x \<le> sint y"
  "stress_sort_cmp_rev_int32 x y \<le> 0 \<longleftrightarrow> sint y \<le> sint x"
  by (simp_all add: stress_sort_cmp_fwd_int32_def stress_sort_cmp_rev_int32_def)

lemma ordered_signed:
  "ordered stress_sort_cmp_fwd_int32 xs \<longleftrightarrow> sorted (map sint xs)"
  "ordered stress_sort_cmp_rev_int32 xs \<longleftrightarrow> sorted (rev (map sint xs))"
  by (simp_all add: ordered_def cmp_signed sorted_wrt_map sorted_wrt_rev)

section \<open>Rearranging the first elements of an array\<close>

definition rearranged :: "nat \<Rightarrow> 'a list \<Rightarrow> 'a list \<Rightarrow> bool" where
  "rearranged n xs ys \<longleftrightarrow> length ys = length xs \<and> mset (take n ys) = mset (take n xs) \<and> drop n ys = drop n xs"

lemma rearranged_refl [simp]: "rearranged n xs xs"
  by (simp add: rearranged_def)

lemma rearranged_trans: "rearranged n xs ys \<Longrightarrow> rearranged n ys zs \<Longrightarrow> rearranged n xs zs"
  by (simp add: rearranged_def)

lemma rearranged_length: "rearranged n xs ys \<Longrightarrow> length ys = length xs"
  by (simp add: rearranged_def)

lemma rearranged_mset: "rearranged n xs ys \<Longrightarrow> mset ys = mset xs"
  unfolding rearranged_def by (metis append_take_drop_id mset_append)

lemma rearranged_above:
  assumes "rearranged n xs ys" "n \<le> i" "i < length xs"
  shows "ys ! i = xs ! i"
proof -
  have "drop n ys ! (i - n) = drop n xs ! (i - n)" "length ys = length xs"
    using assms(1) by (simp_all add: rearranged_def)
  then show ?thesis using assms(2,3) by simp
qed

lemma rearranged_mono:
  assumes "rearranged m xs ys" "m \<le> n"
  shows "rearranged n xs ys"
proof -
  have "take n zs = take m zs @ take (n - m) (drop m zs)" for zs :: "'a list"
    using assms(2) take_add [of m "n - m" zs] by simp
  moreover have "drop n zs = drop (n - m) (drop m zs)" for zs :: "'a list"
    using assms(2) by simp
  ultimately show ?thesis using assms(1) unfolding rearranged_def by (simp del: drop_drop)
qed

lemma rearranged_fold:
  assumes "n \<le> length xs" "\<And>i ys. i \<in> set is \<Longrightarrow> n \<le> length ys \<Longrightarrow> rearranged n ys (f i ys)"
  shows "rearranged n xs (fold f is xs)"
  using assms
proof (induction "is" arbitrary: xs)
  case (Cons i "is")
  have 1: "rearranged n xs (f i xs)" using Cons.prems by simp
  have "rearranged n (f i xs) (fold f is (f i xs))"
    using Cons.prems rearranged_length [OF 1] by (intro Cons.IH) simp_all
  then show ?case using 1 by (auto intro: rearranged_trans)
qed simp

definition swap_elems :: "nat \<Rightarrow> nat \<Rightarrow> 'a list \<Rightarrow> 'a list" where
  "swap_elems i j xs = xs[i := xs ! j, j := xs ! i]"

lemma length_swap [simp]: "length (swap_elems i j xs) = length xs"
  by (simp add: swap_elems_def)

lemma mset_swap_elems [simp]: "i < length xs \<Longrightarrow> j < length xs \<Longrightarrow> mset (swap_elems i j xs) = mset xs"
  using mset_swap [of j xs i] by (simp add: swap_elems_def)

lemma nth_swap: "i < length xs \<Longrightarrow> j < length xs \<Longrightarrow> swap_elems i j xs ! k = (if k = j then xs ! i else if k = i then xs ! j else xs ! k)"
  by (simp add: swap_elems_def nth_list_update)

text \<open>Moving an element into the hole at \<open>j\<close> moves the hole, and what fills it, to \<open>i\<close>.\<close>

lemma hole_swap:
  assumes "i \<noteq> j" "i < length xs" "j < length xs"
  shows "xs[j := xs ! i, i := t] = swap_elems i j (xs[j := t])"
  using assms by (intro nth_equalityI) (auto simp: nth_swap nth_list_update)

lemma rearranged_swap:
  assumes "i < n" "j < n" "n \<le> length xs"
  shows "rearranged n xs (swap_elems i j xs)"
proof -
  have "take n (swap_elems i j xs) = swap_elems i j (take n xs)"
    using assms by (simp add: swap_elems_def take_update_swap)
  moreover have "drop n (swap_elems i j xs) = drop n xs"
    using assms by (simp add: swap_elems_def)
  ultimately show ?thesis using assms by (simp add: rearranged_def)
qed

context comparison
begin

text \<open>
  The elements from \<open>m\<close> up to \<open>n\<close> are in their places: each is at least as high as all before it.
\<close>

definition settled :: "nat \<Rightarrow> nat \<Rightarrow> 'a list \<Rightarrow> bool" where
  "settled m n xs \<longleftrightarrow> (\<forall>b a. m \<le> b \<longrightarrow> b < n \<longrightarrow> a \<le> b \<longrightarrow> cmp (xs ! a) (xs ! b) \<le> 0)"

lemma settled_ordered:
  assumes "m \<le> 1" "n \<le> length xs" "settled m n xs"
  shows "ordered cmp (take n xs)"
proof -
  have "cmp (xs ! a) (xs ! b) \<le> 0" if "a \<le> b" "b < n" for a b
    using that assms by (cases "b = 0") (simp_all add: settled_def)
  then show ?thesis using assms by (simp add: ordered_take)
qed

text \<open>What is settled stays so when the elements below it are rearranged.\<close>

lemma settled_rearranged:
  assumes "settled m n xs" "rearranged m xs ys" "m \<le> length xs" "n \<le> length xs"
  shows "settled m n ys"
proof -
  have upper: "ys ! b = xs ! b" if "m \<le> b" "b < n" for b
    using that assms(4) by (intro rearranged_above [OF assms(2)]) simp_all
  have "cmp (ys ! a) (ys ! b) \<le> 0" if b: "m \<le> b" "b < n" and "a < m" for a b
  proof -
    have "ys ! a \<in> set (take m ys)"
      using assms that by (auto simp: rearranged_def in_set_conv_nth)
    then have "ys ! a \<in> set (take m xs)"
      using assms(2) unfolding rearranged_def by (metis set_mset_mset)
    then obtain c where "c < m" "ys ! a = xs ! c" by (auto simp: in_set_conv_nth)
    then show ?thesis using assms(1) b upper [OF b] by (simp add: settled_def)
  qed
  then show ?thesis
    unfolding settled_def
  proof (intro allI impI)
    fix a b assume "m \<le> b" "b < n" "a \<le> b"
    then show "cmp (ys ! a) (ys ! b) \<le> 0"
      using \<open>\<And>b a. m \<le> b \<Longrightarrow> b < n \<Longrightarrow> a < m \<Longrightarrow> cmp (ys ! a) (ys ! b) \<le> 0\<close> assms(1) upper
      by (cases "a < m") (simp_all add: settled_def)
  qed
qed

lemma settled_join: "settled k m xs \<Longrightarrow> settled m n xs \<Longrightarrow> settled k n xs"
  unfolding settled_def by (metis leI)

end

text \<open>
  What a sort of the first \<open>n\<close> elements promises.  With a comparison that tells different elements
  apart the result is determined, so any two such sorts agree.
\<close>

locale sorter = comparison cmp for cmp :: "'a \<Rightarrow> 'a \<Rightarrow> int" +
  fixes srt :: "nat \<Rightarrow> 'a list \<Rightarrow> 'a list"
  assumes srt_ordered: "0 < n \<Longrightarrow> n \<le> length xs \<Longrightarrow> ordered cmp (take n (srt n xs))"
    and srt_rearranged: "0 < n \<Longrightarrow> n \<le> length xs \<Longrightarrow> rearranged n xs (srt n xs)"
begin

lemma srt_length: "0 < n \<Longrightarrow> n \<le> length xs \<Longrightarrow> length (srt n xs) = length xs"
  using srt_rearranged by (rule rearranged_length)

lemma srt_key:
  assumes key: "\<And>x y. cmp x y \<le> 0 \<longleftrightarrow> (key x :: 'k :: linorder) \<le> key y" "inj key"
    and n: "0 < n" "n \<le> length xs"
  shows "take n (srt n xs) = sort_key key (take n xs)"
proof -
  have "sorted (map key (take n (srt n xs)))"
    using srt_ordered [OF n] by (simp add: ordered_def key(1) sorted_wrt_map)
  moreover have "mset (map key (take n (srt n xs))) = mset (map key (take n xs))"
    using srt_rearranged [OF n] by (simp add: rearranged_def)
  ultimately have "map key (take n (srt n xs)) = sort (map key (take n xs))"
    by (metis properties_for_sort)
  moreover have "map key (sort_key key (take n xs)) = sort (map key (take n xs))"
    by (metis mset_map mset_sort properties_for_sort sorted_sort_key)
  ultimately show ?thesis using key(2) by (metis inj_map_eq_map)
qed

end

section \<open>Data\<close>

text \<open>One \<open>SORT_SETDATA\<close>: the value stored, and what is left of the random word, shifted as a signed number.\<close>

fun SORT_SETDATA :: "nat \<Rightarrow> i32 \<Rightarrow> i32 \<Rightarrow> i32 list" where
  "SORT_SETDATA 0 v prev = []"
| "SORT_SETDATA (Suc k) v prev = (let prev = 1 + prev + (v AND 7) in prev # SORT_SETDATA k (signed_drop_bit 2 v) prev)"

text \<open>
  The values in the order they are stored from the start of the array on: eight for each random
  word, also when the last eight do not fit into \<open>n\<close>.
\<close>

fun sort_init :: "nat \<Rightarrow> i32 \<Rightarrow> mwc \<Rightarrow> i32 list \<times> mwc" where
  "sort_init 0 prev m = ([], m)"
| "sort_init (Suc k) prev m =
     (let (v, m) = stress_mwc32 m; ws = SORT_SETDATA 8 v prev; (rest, m) = sort_init k (last ws) m in (ws @ rest, m))"

definition stress_sort_data_int32_init :: "nat \<Rightarrow> mwc \<Rightarrow> i32 list \<times> mwc" where
  "stress_sort_data_int32_init n = sort_init ((n + 7) div 8) 0"

text \<open>The linear congruential generator of the shuffle has 32 bits; the mask is of type \<open>size_t\<close>.\<close>

definition shuffle_index :: "nat \<Rightarrow> u32 \<Rightarrow> nat" where
  "shuffle_index n seed =
     (let msk = of_nat n - 1 :: u64 in if of_nat n AND msk = 0 then unat (ucast seed AND msk) else unat seed mod n)"

primrec shuffle_step :: "nat \<Rightarrow> nat \<Rightarrow> u32 \<times> 'a list \<Rightarrow> u32 \<times> 'a list" where
  "shuffle_step n i (seed, xs) = (16843009 * seed + 826366247, swap_elems i (shuffle_index n seed) xs)"

definition stress_sort_data_int32_shuffle :: "nat \<Rightarrow> i32 list \<Rightarrow> mwc \<Rightarrow> i32 list \<times> mwc" where
  "stress_sort_data_int32_shuffle n xs m =
     (let (seed, m) = stress_mwc32 m in (snd (fold (shuffle_step n) [0..<n] (seed, xs)), m))"

definition stress_sort_data_int32_mangle :: "i32 list \<Rightarrow> i32 list" where
  "stress_sort_data_int32_mangle = map (\<lambda>v. v XOR 0x80008000)"

section \<open>The initial data\<close>

lemma length_SETDATA [simp]: "length (SORT_SETDATA k v prev) = k"
  by (induction k arbitrary: v prev) (simp_all add: Let_def)

lemma length_sort_init: "length (fst (sort_init k prev m)) = 8 * k"
  by (induction k arbitrary: prev m) (simp_all add: Let_def case_prod_beta)

text \<open>Each value is one to eight above the one before it.\<close>

primrec climbs :: "nat \<Rightarrow> i32 list \<Rightarrow> bool" where
  "climbs p [] = True"
| "climbs p (x # xs) = (\<exists>d \<in> {1..8}. x = of_nat (p + d) \<and> climbs (p + d) xs)"

lemma climbs_append:
  "climbs p xs \<Longrightarrow> (\<And>q. last (of_nat p # xs) = of_nat q \<Longrightarrow> climbs q ys) \<Longrightarrow> climbs p (xs @ ys)"
proof (induction xs arbitrary: p)
  case (Cons x xs)
  then show ?case by (fastforce simp del: of_nat_add)
qed simp

text \<open>As signed numbers the values are positive and strictly increasing, as long as they stay below the sign bit.\<close>

lemma sint_small: "n < 2 ^ 31 \<Longrightarrow> sint (of_nat n :: i32) = int n"
  by (simp add: signed_of_nat signed_take_bit_int_eq_self)

lemma climbs_increasing:
  "climbs p xs \<Longrightarrow> p + 8 * length xs < 2 ^ 31 \<Longrightarrow> sorted_wrt (<) (int p # map sint xs)"
proof (induction xs arbitrary: p)
  case (Cons x xs)
  then obtain d where d: "1 \<le> d" "d \<le> 8" "x = of_nat (p + d)" "climbs (p + d) xs" by auto
  then have "sorted_wrt (<) (int (p + d) # map sint xs)"
    using Cons.prems by (intro Cons.IH) simp_all
  moreover have "sint x = int (p + d)" using d Cons.prems sint_small [of "p + d"] by simp
  ultimately show ?case using d by (auto simp: sorted_wrt2)
qed simp

lemma and_7_less: "unat (v AND 7 :: i32) < 8"
proof -
  have "v AND 7 = take_bit 3 v"
    by (simp add: take_bit_eq_mask mask_eq_exp_minus_1)
  then have "unat (v AND 7) = take_bit 3 (unat v)"
    by (simp only: unsigned_take_bit_eq)
  then show ?thesis
    using take_bit_nat_less_exp [of 3 "unat v"] by simp
qed

lemma and_7: "\<exists>d. 1 + of_nat p + (v AND 7) = (of_nat (p + d) :: i32) \<and> 0 < d \<and> d \<le> 8"
  using and_7_less [of v] by (intro exI [of _ "Suc (unat (v AND 7))"]) simp

lemma SETDATA_climbs: "climbs p (SORT_SETDATA k v (of_nat p))"
proof (induction k arbitrary: p v)
  case (Suc k)
  obtain d where "1 + of_nat p + (v AND 7) = (of_nat (p + d) :: i32)" "0 < d" "d \<le> 8"
    using and_7 by blast
  with Suc.IH [of "p + d"] show ?case by (auto simp: Let_def simp del: of_nat_add)
qed simp

lemma sort_init_climbs: "climbs p (fst (sort_init k (of_nat p) m))"
proof (induction k arbitrary: p m)
  case (Suc k)
  obtain v m' where v: "stress_mwc32 m = (v, m')" by force
  let ?ws = "SORT_SETDATA 8 v (of_nat p)"
  have ws: "?ws \<noteq> []" using length_SETDATA [of 8 v "of_nat p"] by (metis list.size(3) zero_neq_numeral)
  have "climbs p (?ws @ fst (sort_init k (last ?ws) m'))"
    using ws Suc by (intro climbs_append SETDATA_climbs) auto
  then show ?case using v by (simp add: Let_def case_prod_beta)
qed simp

lemma init_increasing:
  assumes "n \<le> 2 ^ 28 - 8"
  shows "sorted_wrt (<) (map sint (fst (stress_sort_data_int32_init n m)))"
    "x \<in> set (fst (stress_sort_data_int32_init n m)) \<Longrightarrow> 0 < sint x"
proof -
  have "sorted_wrt (<) (int 0 # map sint (fst (stress_sort_data_int32_init n m)))"
    using sort_init_climbs [of 0 "(n + 7) div 8" m] assms
    by (intro climbs_increasing) (simp_all add: stress_sort_data_int32_init_def length_sort_init)
  then show "sorted_wrt (<) (map sint (fst (stress_sort_data_int32_init n m)))"
    "x \<in> set (fst (stress_sort_data_int32_init n m)) \<Longrightarrow> 0 < sint x" by auto
qed

lemma length_init: "length (fst (stress_sort_data_int32_init n m)) = 8 * ((n + 7) div 8)"
  by (simp add: stress_sort_data_int32_init_def length_sort_init)

section \<open>The shuffle and the mangling\<close>

lemma shuffle_index_less:
  assumes "0 < n" "n < 2 ^ 64"
  shows "shuffle_index n seed < n"
proof -
  have "unat (ucast seed AND of_nat n - 1 :: u64) \<le> n - 1"
    using word_and_le1 [of "ucast seed" "of_nat n - 1 :: u64"] assms
    by (simp add: word_le_nat_alt unat_sub_if' unat_of_nat)
  then show ?thesis using assms by (auto simp: shuffle_index_def Let_def)
qed

lemma shuffle_rearranged:
  assumes "n \<le> length xs" "n < 2 ^ 64"
  shows "rearranged n xs (fst (stress_sort_data_int32_shuffle n xs m))"
proof -
  have *: "rearranged n xs (snd (fold (shuffle_step n) is (seed, xs)))"
    if "set is \<subseteq> {..<n}" "n \<le> length xs" for "is" seed and xs :: "i32 list"
    using that
  proof (induction "is" arbitrary: seed xs)
    case (Cons i "is")
    have "rearranged n xs (swap_elems i (shuffle_index n seed) xs)"
      using Cons.prems shuffle_index_less [of n seed] assms(2) by (intro rearranged_swap) auto
    then show ?case using Cons by (auto intro: rearranged_trans)
  qed simp
  show ?thesis
    using assms by (auto simp: stress_sort_data_int32_shuffle_def case_prod_beta Let_def intro!: *)
qed

text \<open>Mangling twice restores the data, and once it gives each value another sign or another upper half.\<close>

lemma mangle_twice: "stress_sort_data_int32_mangle (stress_sort_data_int32_mangle xs) = xs"
  by (simp add: stress_sort_data_int32_mangle_def comp_def xor.assoc)

lemma length_mangle [simp]: "length (stress_sort_data_int32_mangle xs) = length xs"
  by (simp add: stress_sort_data_int32_mangle_def)

end
