(* ===== verification/Sort_Heap.thy ===== *)
theory Sort_Heap
  imports Sort_Data
begin

text \<open>
  The heap sort (src/stress-heapsort.c).  The elements are counted from one, as the pointer one element
  below the array does: the \<open>k\<close>-th is \<open>xs ! (k - 1)\<close>, and its parent is the one at \<open>k div 2\<close>.
\<close>

section \<open>The code\<close>

text \<open>The larger of the children \<open>j\<close> and \<open>j + 1\<close>, where both are there.\<close>

definition big_child :: "('a \<Rightarrow> 'a \<Rightarrow> int) \<Rightarrow> nat \<Rightarrow> nat \<Rightarrow> 'a list \<Rightarrow> nat" where
  "big_child compar nmemb j xs = (if j < nmemb \<and> compar (xs ! (j - 1)) (xs ! j) < 0 then j + 1 else j)"

lemma big_child_cases: "big_child compar nmemb j xs = j \<or> big_child compar nmemb j xs = j + 1"
  by (simp add: big_child_def)

text \<open>The inner loop of the first phase; \<open>0 < i\<close> is the condition of the loop around it.\<close>

function heap_sift :: "('a \<Rightarrow> 'a \<Rightarrow> int) \<Rightarrow> nat \<Rightarrow> nat \<Rightarrow> 'a list \<Rightarrow> 'a list" where
  "heap_sift compar nmemb i xs =
     (if 0 < i \<and> i * 2 \<le> nmemb
      then let j = big_child compar nmemb (i * 2) xs
           in if compar (xs ! (j - 1)) (xs ! (i - 1)) \<le> 0 then xs
              else heap_sift compar nmemb j (swap_elems (i - 1) (j - 1) xs)
      else xs)"
  by pat_completeness auto
termination
proof (relation "measure (\<lambda>(_, nmemb, i, _). nmemb - i)", goal_cases)
  case (2 compar nmemb i xs j)
  then show ?case using big_child_cases [of compar nmemb "i * 2" xs] by auto
qed simp

text \<open>The loops of the second phase: the hole at the top goes down to a leaf, and from there the saved element goes up.\<close>

function heap_hole :: "('a \<Rightarrow> 'a \<Rightarrow> int) \<Rightarrow> nat \<Rightarrow> nat \<Rightarrow> 'a list \<Rightarrow> nat \<times> 'a list" where
  "heap_hole compar nmemb i xs =
     (if 0 < i \<and> i * 2 \<le> nmemb
      then let j = big_child compar nmemb (i * 2) xs in heap_hole compar nmemb j (xs[i - 1 := xs ! (j - 1)])
      else (i, xs))"
  by pat_completeness auto
termination
proof (relation "measure (\<lambda>(_, nmemb, i, _). nmemb - i)", goal_cases)
  case (2 compar nmemb i xs j)
  then show ?case using big_child_cases [of compar nmemb "i * 2" xs] by auto
qed simp

function heap_raise :: "('a \<Rightarrow> 'a \<Rightarrow> int) \<Rightarrow> 'a \<Rightarrow> nat \<Rightarrow> 'a list \<Rightarrow> 'a list" where
  "heap_raise compar tmp j xs =
     (let i = j div 2
      in if j \<le> 1 \<or> compar tmp (xs ! (i - 1)) < 0 then xs[j - 1 := tmp]
         else heap_raise compar tmp i (xs[j - 1 := xs ! (i - 1)]))"
  by pat_completeness auto
termination by (relation "measure (\<lambda>(_, _, j, _). j)") auto

declare heap_sift.simps [simp del] heap_hole.simps [simp del] heap_raise.simps [simp del]

definition heap_pop :: "('a \<Rightarrow> 'a \<Rightarrow> int) \<Rightarrow> nat \<Rightarrow> 'a list \<Rightarrow> 'a list" where
  "heap_pop compar nmemb xs =
     (let tmp = xs ! (nmemb - 1);
          (i, ys) = heap_hole compar (nmemb - 1) 1 (xs[nmemb - 1 := xs ! 0])
      in heap_raise compar tmp i ys)"

text \<open>The first phase runs from \<open>nmemb / 2\<close> down to one, the second from \<open>nmemb\<close> down to two.\<close>

definition heapsort_nonlibc :: "nat \<Rightarrow> nat \<Rightarrow> ('a \<Rightarrow> 'a \<Rightarrow> int) \<Rightarrow> 'a list \<Rightarrow> int \<times> 'a list" where
  "heapsort_nonlibc nmemb sz compar xs =
     (if nmemb \<le> 1 then (0, xs) else if sz < 1 then (-1, xs)
      else (0, fold (heap_pop compar) (rev [2..<Suc nmemb])
                 (fold (heap_sift compar nmemb) (rev [1..<Suc (nmemb div 2)]) xs)))"

section \<open>The first phase\<close>

lemma big_child_bound: "j \<le> n \<Longrightarrow> j \<le> big_child compar n j xs \<and> big_child compar n j xs \<le> n"
  by (simp add: big_child_def)

lemma big_child_parent: "0 < i \<Longrightarrow> big_child compar n (i * 2) xs div 2 = i"
  by (simp add: big_child_def)

lemma heap_sift_rearranged: "n \<le> length xs \<Longrightarrow> rearranged n xs (heap_sift compar n i xs)"
proof (induction compar n i xs rule: heap_sift.induct)
  case (1 compar n i xs)
  let ?j = "big_child compar n (i * 2) xs"
  show ?case
  proof (cases "0 < i \<and> i * 2 \<le> n \<and> \<not> compar (xs ! (?j - 1)) (xs ! (i - 1)) \<le> 0")
    case True
    then have "rearranged n xs (swap_elems (i - 1) (?j - 1) xs)"
      using 1(2) big_child_bound [of "i * 2" n compar xs] by (intro rearranged_swap) auto
    moreover have "rearranged n (swap_elems (i - 1) (?j - 1) xs) (heap_sift compar n ?j (swap_elems (i - 1) (?j - 1) xs))"
      using True 1(2) by (intro 1(1)) auto
    ultimately show ?thesis
      using True by (subst heap_sift.simps) (auto simp: Let_def intro: rearranged_trans)
  next
    case False
    then have "heap_sift compar n i xs = xs" by (subst heap_sift.simps) (auto simp: Let_def)
    then show ?thesis by simp
  qed
qed

context comparison
begin

text \<open>Every element from \<open>l\<close> on is at least as high as its children.\<close>

definition heap_from :: "nat \<Rightarrow> nat \<Rightarrow> 'a list \<Rightarrow> bool" where
  "heap_from l n xs \<longleftrightarrow> (\<forall>k \<le> n. l \<le> k div 2 \<longrightarrow> cmp (xs ! (k - 1)) (xs ! (k div 2 - 1)) \<le> 0)"

text \<open>The same but for the children of \<open>i\<close>, which are below the parent of \<open>i\<close>.\<close>

definition heap_but :: "nat \<Rightarrow> nat \<Rightarrow> nat \<Rightarrow> 'a list \<Rightarrow> bool" where
  "heap_but l n i xs \<longleftrightarrow>
     (\<forall>k \<le> n. l \<le> k div 2 \<longrightarrow> k div 2 \<noteq> i \<longrightarrow> cmp (xs ! (k - 1)) (xs ! (k div 2 - 1)) \<le> 0) \<and>
     (\<forall>k \<le> n. k div 2 = i \<longrightarrow> l \<le> i div 2 \<longrightarrow> cmp (xs ! (k - 1)) (xs ! (i div 2 - 1)) \<le> 0)"

lemma big_child_max:
  assumes "0 < i" "k \<le> n" "k div 2 = i"
  shows "cmp (xs ! (k - 1)) (xs ! (big_child cmp n (i * 2) xs - 1)) \<le> 0"
proof -
  have "k = i * 2 \<or> k = i * 2 + 1" using assms by linarith
  then show ?thesis
    using assms(2) not_le [of "xs ! (i * 2)" "xs ! (i * 2 - 1)"] by (auto simp: big_child_def)
qed

lemma heap_but_swap:
  assumes "heap_but l n i xs" "0 < l" "l \<le> i" "i * 2 \<le> n" "n \<le> length xs"
    and j: "j = big_child cmp n (i * 2) xs" "\<not> cmp (xs ! (j - 1)) (xs ! (i - 1)) \<le> 0"
  shows "heap_but l n j (swap_elems (i - 1) (j - 1) xs)"
proof -
  let ?ys = "swap_elems (i - 1) (j - 1) xs"
  have i: "0 < i" using assms by simp
  have j': "j div 2 = i" "i < j" "j \<le> n"
    using big_child_parent [OF i, of cmp n xs] big_child_bound [of "i * 2" n cmp xs] assms by auto
  have at: "?ys ! (k - 1) = (if k = j then xs ! (i - 1) else if k = i then xs ! (j - 1) else xs ! (k - 1))" if "0 < k" for k
    using that i j' assms by (auto simp: nth_swap)
  show ?thesis
    unfolding heap_but_def
  proof (intro conjI allI impI)
    fix k assume k: "k \<le> n" "l \<le> k div 2" "k div 2 \<noteq> j"
    consider "k = j" | "k \<noteq> j" "k div 2 = i" | "k = i" | "k \<noteq> j" "k \<noteq> i" "k div 2 \<noteq> i" by blast
    then show "cmp (?ys ! (k - 1)) (?ys ! (k div 2 - 1)) \<le> 0"
    proof cases
      case 1
      then show ?thesis using j' i not_le [of "xs ! (j - 1)" "xs ! (i - 1)"] j(2) at [of j] at [of i] by simp
    next
      case 2
      then show ?thesis using j' i k(1) big_child_max [OF i k(1) 2(2), of xs] at [of k] at [of i] j(1) by auto
    next
      case 3
      then show ?thesis using assms(1,2) j' i k at [of i] at [of "i div 2"] by (auto simp: heap_but_def)
    next
      case 4
      then show ?thesis using assms(1,2) k at [of k] at [of "k div 2"] by (auto simp: heap_but_def)
    qed
  next
    fix k assume k: "k \<le> n" "k div 2 = j" "l \<le> j div 2"
    then have "k \<noteq> j" "k \<noteq> i" "0 < k" using j' by auto
    then show "cmp (?ys ! (k - 1)) (?ys ! (j div 2 - 1)) \<le> 0"
      using assms(1,3) j' i k at [of k] at [of i] by (auto simp: heap_but_def)
  qed
qed

lemma heap_sift_from:
  "heap_but l n i xs \<Longrightarrow> 0 < l \<Longrightarrow> l \<le> i \<Longrightarrow> n \<le> length xs \<Longrightarrow> heap_from l n (heap_sift cmp n i xs)"
proof (induction "n - i" arbitrary: i xs rule: less_induct)
  case less
  let ?j = "big_child cmp n (i * 2) xs"
  have i: "0 < i" using less.prems by simp
  show ?case
  proof (cases "i * 2 \<le> n \<and> \<not> cmp (xs ! (?j - 1)) (xs ! (i - 1)) \<le> 0")
    case True
    then have j: "i < ?j" "?j \<le> n" using big_child_bound [of "i * 2" n cmp xs] i by auto
    have "heap_but l n ?j (swap_elems (i - 1) (?j - 1) xs)"
      using True less.prems by (intro heap_but_swap) auto
    then have "heap_from l n (heap_sift cmp n ?j (swap_elems (i - 1) (?j - 1) xs))"
      using less.prems j by (intro less.hyps) auto
    then show ?thesis using True i by (subst heap_sift.simps) (simp add: Let_def)
  next
    case False
    then have "heap_sift cmp n i xs = xs" by (subst heap_sift.simps) (auto simp: Let_def)
    moreover have "cmp (xs ! (k - 1)) (xs ! (i - 1)) \<le> 0" if "k \<le> n" "k div 2 = i" for k
    proof -
      have "i * 2 \<le> n" using that by simp
      then show ?thesis using False trans [OF big_child_max [OF i that]] by blast
    qed
    ultimately show ?thesis using less.prems(1) unfolding heap_from_def heap_but_def by metis
  qed
qed

lemma heapify:
  assumes "n \<le> length xs"
  shows "heap_from 1 n (fold (heap_sift cmp n) (rev [1..<Suc (n div 2)]) xs)"
    "rearranged n xs (fold (heap_sift cmp n) (rev [1..<Suc (n div 2)]) xs)"
proof -
  have *: "heap_from 1 n (fold (heap_sift cmp n) (rev [1..<Suc l]) xs)"
    if "heap_from (Suc l) n xs" "n \<le> length xs" for l and xs :: "'a list"
    using that
  proof (induction l arbitrary: xs)
    case (Suc l)
    have "heap_but (Suc l) n (Suc l) xs"
      using Suc.prems(1) by (auto simp: heap_but_def heap_from_def)
    then have "heap_from (Suc l) n (heap_sift cmp n (Suc l) xs)"
      using Suc.prems(2) by (intro heap_sift_from) simp_all
    moreover have "length (heap_sift cmp n (Suc l) xs) = length xs"
      using Suc.prems(2) by (intro rearranged_length [of n] heap_sift_rearranged)
    ultimately show ?case using Suc.IH Suc.prems(2) by simp
  qed simp
  have "heap_from (Suc (n div 2)) n xs"
    unfolding heap_from_def by (metis Suc_n_not_le_n div_le_mono le_trans)
  then show "heap_from 1 n (fold (heap_sift cmp n) (rev [1..<Suc (n div 2)]) xs)" using assms by (rule *)
  show "rearranged n xs (fold (heap_sift cmp n) (rev [1..<Suc (n div 2)]) xs)"
    using assms by (intro rearranged_fold heap_sift_rearranged) simp_all
qed

end

section \<open>The second phase\<close>

text \<open>Whatever the hole is filled with, the elements are those of the array before.\<close>

lemma heap_hole_rearranged:
  "0 < i \<Longrightarrow> i \<le> n \<Longrightarrow> n \<le> length xs \<Longrightarrow> heap_hole compar n i xs = (j, ys) \<Longrightarrow>
   rearranged n (xs[i - 1 := t]) (ys[j - 1 := t]) \<and> 0 < j \<and> j \<le> n"
proof (induction compar n i xs rule: heap_hole.induct)
  case (1 compar n i xs)
  let ?j = "big_child compar n (i * 2) xs"
  show ?case
  proof (cases "i * 2 \<le> n")
    case True
    then have j: "i < ?j" "?j \<le> n" using 1(2) big_child_bound [of "i * 2" n compar xs] by auto
    have "heap_hole compar n ?j (xs[i - 1 := xs ! (?j - 1)]) = (j, ys)"
      using 1(2,5) True by (subst (asm) heap_hole.simps) (simp add: Let_def)
    then have "rearranged n (xs[i - 1 := xs ! (?j - 1), ?j - 1 := t]) (ys[j - 1 := t]) \<and> 0 < j \<and> j \<le> n"
      using True 1(2-4) j by (intro 1(1)) auto
    moreover have "xs[i - 1 := xs ! (?j - 1), ?j - 1 := t] = swap_elems (?j - 1) (i - 1) (xs[i - 1 := t])"
      using j 1(2-4) by (intro hole_swap) auto
    moreover have "rearranged n (xs[i - 1 := t]) (swap_elems (?j - 1) (i - 1) (xs[i - 1 := t]))"
      using j 1(2-4) by (intro rearranged_swap) auto
    ultimately show ?thesis by (auto intro: rearranged_trans)
  next
    case False
    then have "j = i" "ys = xs" using 1(5) by (subst (asm) heap_hole.simps, simp)+
    then show ?thesis using 1 by simp
  qed
qed

lemma heap_raise_rearranged:
  "0 < j \<Longrightarrow> j \<le> n \<Longrightarrow> n \<le> length xs \<Longrightarrow> rearranged n (xs[j - 1 := tmp]) (heap_raise compar tmp j xs)"
proof (induction compar tmp j xs rule: heap_raise.induct)
  case (1 compar tmp j xs)
  let ?i = "j div 2"
  show ?case
  proof (cases "j \<le> 1 \<or> compar tmp (xs ! (?i - 1)) < 0")
    case True
    then have "heap_raise compar tmp j xs = xs[j - 1 := tmp]" by (subst heap_raise.simps) (auto simp: Let_def)
    then show ?thesis by simp
  next
    case False
    let ?ys = "xs[j - 1 := xs ! (?i - 1)]"
    have "rearranged n (?ys[?i - 1 := tmp]) (heap_raise compar tmp ?i ?ys)"
      using False 1(2-4) by (intro 1(1)) auto
    moreover have "?ys[?i - 1 := tmp] = swap_elems (?i - 1) (j - 1) (xs[j - 1 := tmp])"
      using False 1(2-4) by (intro hole_swap) auto
    moreover have "rearranged n (xs[j - 1 := tmp]) (swap_elems (?i - 1) (j - 1) (xs[j - 1 := tmp]))"
      using False 1(2-4) by (intro rearranged_swap) auto
    ultimately show ?thesis
      using False by (subst heap_raise.simps) (auto simp: Let_def intro: rearranged_trans)
  qed
qed

context comparison
begin

text \<open>The elements without that at \<open>i\<close> are a heap, and its children are below its parent.\<close>

definition heap_gap :: "nat \<Rightarrow> nat \<Rightarrow> 'a list \<Rightarrow> bool" where
  "heap_gap n i xs \<longleftrightarrow>
     (\<forall>k \<le> n. 1 \<le> k div 2 \<longrightarrow> k \<noteq> i \<longrightarrow> k div 2 \<noteq> i \<longrightarrow> cmp (xs ! (k - 1)) (xs ! (k div 2 - 1)) \<le> 0) \<and>
     (\<forall>k \<le> n. k div 2 = i \<longrightarrow> 1 \<le> i div 2 \<longrightarrow> cmp (xs ! (k - 1)) (xs ! (i div 2 - 1)) \<le> 0)"

lemma heap_gap_down:
  assumes "heap_gap n i xs" "0 < i" "i * 2 \<le> n" "n \<le> length xs" and j: "j = big_child cmp n (i * 2) xs"
  shows "heap_gap n j (xs[i - 1 := xs ! (j - 1)])"
proof -
  let ?ys = "xs[i - 1 := xs ! (j - 1)]"
  have j': "j div 2 = i" "i < j" "j \<le> n"
    using big_child_parent [OF assms(2), of cmp n xs] big_child_bound [of "i * 2" n cmp xs] assms by auto
  have at: "?ys ! (k - 1) = (if k = i then xs ! (j - 1) else xs ! (k - 1))" if "0 < k" for k
    using that assms j' by (auto simp: nth_list_update)
  show ?thesis
    unfolding heap_gap_def
  proof (intro conjI allI impI)
    fix k assume k: "k \<le> n" "1 \<le> k div 2" "k \<noteq> j" "k div 2 \<noteq> j"
    then have "0 < k" by auto
    consider "k = i" | "k div 2 = i" | "k \<noteq> i" "k div 2 \<noteq> i" by blast
    then show "cmp (?ys ! (k - 1)) (?ys ! (k div 2 - 1)) \<le> 0"
    proof cases
      case 1
      then show ?thesis using assms(1,2) j' k at [of i] at [of "i div 2"] by (auto simp: heap_gap_def)
    next
      case 2
      then show ?thesis
        using assms(2) k at [of k] at [of i] big_child_max [OF assms(2) k(1) 2, of xs] j by auto
    next
      case 3
      then show ?thesis using assms(1) k \<open>0 < k\<close> at [of k] at [of "k div 2"] by (auto simp: heap_gap_def)
    qed
  next
    fix k assume k: "k \<le> n" "k div 2 = j" "1 \<le> j div 2"
    then have "k \<noteq> i" "0 < k" using j' by auto
    then show "cmp (?ys ! (k - 1)) (?ys ! (j div 2 - 1)) \<le> 0"
      using assms(1,2) j' k at [of k] at [of i] by (auto simp: heap_gap_def)
  qed
qed

lemma heap_hole_leaf:
  "heap_gap n i xs \<Longrightarrow> 0 < i \<Longrightarrow> n \<le> length xs \<Longrightarrow> heap_hole cmp n i xs = (j, ys) \<Longrightarrow> heap_gap n j ys \<and> n < j * 2"
proof (induction "n - i" arbitrary: i xs rule: less_induct)
  case less
  let ?j = "big_child cmp n (i * 2) xs"
  show ?case
  proof (cases "i * 2 \<le> n")
    case True
    then have j: "i < ?j" "?j \<le> n" using less.prems(2) big_child_bound [of "i * 2" n cmp xs] by auto
    have "heap_hole cmp n ?j (xs[i - 1 := xs ! (?j - 1)]) = (j, ys)"
      using less.prems(2,4) True by (subst (asm) heap_hole.simps) (simp add: Let_def)
    moreover have "heap_gap n ?j (xs[i - 1 := xs ! (?j - 1)])"
      using True less.prems by (intro heap_gap_down) auto
    ultimately show ?thesis using less.prems j by (intro less.hyps) auto
  next
    case False
    then have "j = i" "ys = xs" using less.prems(4) by (subst (asm) heap_hole.simps, simp)+
    then show ?thesis using less.prems False by simp
  qed
qed

lemma heap_raise_from:
  "heap_gap n j xs \<Longrightarrow> 0 < j \<Longrightarrow> j \<le> n \<Longrightarrow> n \<le> length xs \<Longrightarrow>
   \<forall>k \<le> n. k div 2 = j \<longrightarrow> cmp (xs ! (k - 1)) tmp \<le> 0 \<Longrightarrow> heap_from 1 n (heap_raise cmp tmp j xs)"
proof (induction j arbitrary: xs rule: less_induct)
  case (less j)
  have gap: "cmp (xs ! (k - 1)) (xs ! (k div 2 - 1)) \<le> 0" if "k \<le> n" "1 \<le> k div 2" "k \<noteq> j" "k div 2 \<noteq> j" for k
    using less.prems(1) that by (simp add: heap_gap_def)
  have gap': "cmp (xs ! (k - 1)) (xs ! (j div 2 - 1)) \<le> 0" if "k \<le> n" "k div 2 = j" "1 \<le> j div 2" for k
    using less.prems(1) that by (simp add: heap_gap_def)
  have below: "cmp (xs ! (k - 1)) tmp \<le> 0" if "k \<le> n" "k div 2 = j" for k
    using less.prems(5) that by blast
  have bounds: "0 < j" "j - 1 < length xs" using less.prems(2-4) by linarith+
  let ?i = "j div 2"
  show ?case
  proof (cases "j \<le> 1 \<or> cmp tmp (xs ! (?i - 1)) < 0")
    case True
    have at: "xs[j - 1 := tmp] ! (k - 1) = (if k = j then tmp else xs ! (k - 1))" if "0 < k" for k
      using that bounds by (auto simp: nth_list_update)
    have "heap_from 1 n (xs[j - 1 := tmp])"
      unfolding heap_from_def
    proof (intro allI impI)
      fix k assume k: "k \<le> n" "1 \<le> k div 2"
      then have "0 < k" by auto
      consider "k = j" | "k div 2 = j" "k \<noteq> j" | "k \<noteq> j" "k div 2 \<noteq> j" by blast
      then show "cmp (xs[j - 1 := tmp] ! (k - 1)) (xs[j - 1 := tmp] ! (k div 2 - 1)) \<le> 0"
      proof cases
        case 1
        then have "cmp tmp (xs ! (k div 2 - 1)) < 0" "k div 2 \<noteq> j" using True k by auto
        then show ?thesis using 1 at [OF \<open>0 < k\<close>] at [of "k div 2"] k by simp
      next
        case 2
        then show ?thesis using below [OF k(1) 2(1)] at [OF \<open>0 < k\<close>] at [OF bounds(1)] by simp
      next
        case 3
        then show ?thesis using gap [OF k] at [OF \<open>0 < k\<close>] at [of "k div 2"] k by simp
      qed
    qed
    moreover have "heap_raise cmp tmp j xs = xs[j - 1 := tmp]"
      using True by (subst heap_raise.simps) (auto simp: Let_def)
    ultimately show ?thesis by simp
  next
    case False
    let ?ys = "xs[j - 1 := xs ! (?i - 1)]"
    have i: "0 < ?i" "?i < j" using False by auto
    have parent: "cmp (xs ! (?i - 1)) tmp \<le> 0"
      using False not_le [of "xs ! (?i - 1)" tmp] by auto
    have at: "?ys ! (k - 1) = (if k = j then xs ! (?i - 1) else xs ! (k - 1))" if "0 < k" for k
      using that bounds by (auto simp: nth_list_update)
    have child: "cmp (?ys ! (k - 1)) (xs ! (?i - 1)) \<le> 0" if "k \<le> n" "k div 2 = ?i" for k
    proof (cases "k = j")
      case True
      then show ?thesis using at [OF bounds(1)] by simp
    next
      case False
      have "0 < k" "k div 2 \<noteq> j" "1 \<le> k div 2" using that(2) i by (auto intro: gr0I)
      then show ?thesis using gap [OF that(1)] at [OF \<open>0 < k\<close>] False that(2) by simp
    qed
    have "heap_gap n ?i ?ys"
      unfolding heap_gap_def
    proof (intro conjI allI impI)
      fix k assume k: "k \<le> n" "1 \<le> k div 2" "k \<noteq> ?i" "k div 2 \<noteq> ?i"
      then have kj: "k \<noteq> j" "0 < k" by auto
      show "cmp (?ys ! (k - 1)) (?ys ! (k div 2 - 1)) \<le> 0"
      proof (cases "k div 2 = j")
        case True
        then show ?thesis using gap' [OF k(1) True] i kj at [OF kj(2)] at [OF bounds(1)] by simp
      next
        case False
        then show ?thesis using gap [OF k(1,2) kj(1)] k(2) kj at [OF kj(2)] at [of "k div 2"] by simp
      qed
    next
      fix k assume k: "k \<le> n" "k div 2 = ?i" "1 \<le> ?i div 2"
      have "cmp (xs ! (?i - 1)) (xs ! (?i div 2 - 1)) \<le> 0"
        using gap [of ?i] k(3) i less.prems(3) by simp
      then show "cmp (?ys ! (k - 1)) (?ys ! (?i div 2 - 1)) \<le> 0"
        using trans [OF child [OF k(1,2)]] k(3) i at [of "?i div 2"] by simp
    qed
    moreover have "\<forall>k \<le> n. k div 2 = ?i \<longrightarrow> cmp (?ys ! (k - 1)) tmp \<le> 0"
      using child parent trans by blast
    ultimately have "heap_from 1 n (heap_raise cmp tmp ?i ?ys)"
      using less.prems(3,4) i by (intro less.IH) simp_all
    then show ?thesis using False by (subst heap_raise.simps) (simp add: Let_def)
  qed
qed

lemma heap_root:
  assumes "heap_from 1 n xs" "0 < k" "k \<le> n"
  shows "cmp (xs ! (k - 1)) (xs ! 0) \<le> 0"
  using assms(2,3)
proof (induction k rule: less_induct)
  case (less k)
  show ?case
  proof (cases "k = 1")
    case False
    then have "0 < k div 2" "k div 2 < k" using less.prems by auto
    then show ?thesis
      using less trans [of "xs ! (k - 1)" "xs ! (k div 2 - 1)" "xs ! 0"] assms(1) by (auto simp: heap_from_def)
  qed simp
qed

text \<open>One round of the second phase settles one more element.\<close>

lemma heap_pop_settles:
  assumes "2 \<le> m" "m \<le> n" "n \<le> length xs" "heap_from 1 m xs" "settled m n xs"
  shows "heap_from 1 (m - 1) (heap_pop cmp m xs)" "settled (m - 1) n (heap_pop cmp m xs)"
    "rearranged n xs (heap_pop cmp m xs)"
proof -
  let ?ys = "xs[m - 1 := xs ! 0]" and ?tmp = "xs ! (m - 1)"
  let ?ws = "swap_elems 0 (m - 1) xs"
  obtain j zs where j: "heap_hole cmp (m - 1) 1 ?ys = (j, zs)" by force
  have pop: "heap_pop cmp m xs = heap_raise cmp ?tmp j zs" using j by (simp add: heap_pop_def Let_def)
  have "0 < length xs" using assms by linarith
  then have ws: "?ys[0 := ?tmp] = ?ws" using hole_swap [of 0 "m - 1" xs ?tmp] assms by simp
  have hole: "rearranged (m - 1) ?ws (zs[j - 1 := ?tmp]) \<and> 0 < j \<and> j \<le> m - 1"
    using heap_hole_rearranged [OF _ _ _ j, of ?tmp] assms ws by simp
  then have zs: "length zs = length xs" by (auto dest: rearranged_length)
  have gap: "heap_gap (m - 1) 1 ?ys"
  proof -
    have "?ys ! (k - 1) = xs ! (k - 1)" if "0 < k" "k \<le> m - 1" for k
    proof -
      have "k - 1 \<noteq> m - 1" using that by linarith
      then show ?thesis by simp
    qed
    moreover have "0 < k \<and> k div 2 \<le> k" if "1 \<le> k div 2" for k :: nat using that by (cases k) simp_all
    ultimately have "cmp (?ys ! (k - 1)) (?ys ! (k div 2 - 1)) \<le> 0" if "k \<le> m - 1" "1 \<le> k div 2" for k
      using assms(4) that unfolding heap_from_def by (metis diff_le_self le_trans less_le_trans zero_less_one)
    then show ?thesis by (simp add: heap_gap_def)
  qed
  have leaf: "heap_gap (m - 1) j zs \<and> m - 1 < j * 2"
    by (rule heap_hole_leaf [OF gap _ _ j]) (use assms in auto)
  then show "heap_from 1 (m - 1) (heap_pop cmp m xs)"
    unfolding pop using hole zs assms(2,3) by (intro heap_raise_from) auto
  have r: "rearranged (m - 1) ?ws (heap_pop cmp m xs)"
  proof -
    have "rearranged (m - 1) (zs[j - 1 := ?tmp]) (heap_raise cmp ?tmp j zs)"
      using hole zs assms(2,3) by (intro heap_raise_rearranged) simp_all
    then show ?thesis using hole unfolding pop by (blast intro: rearranged_trans)
  qed
  have swap: "rearranged m xs ?ws" using assms(1-3) by (intro rearranged_swap) auto
  then show "rearranged n xs (heap_pop cmp m xs)"
    using rearranged_trans [OF rearranged_mono [OF swap assms(2)] rearranged_mono [OF r, of n]] assms(2) by simp
  have "settled m n ?ws" by (rule settled_rearranged [OF assms(5) swap]) (use assms(2,3) in auto)
  moreover have "settled (m - 1) m ?ws"
    unfolding settled_def
  proof (intro allI impI)
    fix b a assume "m - 1 \<le> b" "b < m" "a \<le> b"
    then have b: "b = m - 1" by simp
    have "?ws ! a \<in> set (take m ?ws)" using \<open>a \<le> b\<close> b assms(1-3) by (auto simp: in_set_conv_nth intro!: exI [of _ a])
    then have "?ws ! a \<in> set (take m xs)" using swap unfolding rearranged_def by (metis set_mset_mset)
    then obtain c where "c < m" "?ws ! a = xs ! c" by (auto simp: in_set_conv_nth)
    then show "cmp (?ws ! a) (?ws ! b) \<le> 0"
      using heap_root [OF assms(4), of "Suc c"] b assms(1-3) \<open>0 < length xs\<close> by (simp add: nth_swap)
  qed
  ultimately have "settled (m - 1) n ?ws" by (rule settled_join [rotated])
  then show "settled (m - 1) n (heap_pop cmp m xs)"
    using settled_rearranged [OF _ r] assms(2,3) by simp
qed

lemma heapsort_sorts:
  assumes "0 < n" "n \<le> length xs" "0 < sz"
  shows "ordered cmp (take n (snd (heapsort_nonlibc n sz cmp xs)))"
    "rearranged n xs (snd (heapsort_nonlibc n sz cmp xs))"
proof -
  let ?ys = "fold (heap_sift cmp n) (rev [1..<Suc (n div 2)]) xs"
  have pops: "settled 1 n (fold (heap_pop cmp) (rev [2..<Suc m]) ys) \<and> rearranged n ys (fold (heap_pop cmp) (rev [2..<Suc m]) ys)"
    if "0 < m" "m \<le> n" "n \<le> length ys" "heap_from 1 m ys" "settled m n ys" for m ys
    using that
  proof (induction m arbitrary: ys)
    case (Suc m)
    show ?case
    proof (cases "m = 0")
      case False
      then have "2 \<le> Suc m" by simp
      note pop = heap_pop_settles [OF this Suc.prems(2-5)]
      have "length (heap_pop cmp (Suc m) ys) = length ys" by (rule rearranged_length [OF pop(3)])
      then show ?thesis
        using Suc.IH [of "heap_pop cmp (Suc m) ys"] pop Suc.prems False by (auto intro: rearranged_trans)
    qed (use Suc.prems in simp)
  qed simp
  note ys = heapify [OF assms(2)]
  have "settled n n ?ys" by (simp add: settled_def)
  then have *: "settled 1 n (fold (heap_pop cmp) (rev [2..<Suc n]) ?ys)"
    "rearranged n ?ys (fold (heap_pop cmp) (rev [2..<Suc n]) ?ys)"
    using pops [of n ?ys] ys assms rearranged_length [OF ys(2)] by simp_all
  have len: "n \<le> length (fold (heap_pop cmp) (rev [2..<Suc n]) ?ys)"
    using rearranged_length [OF *(2)] rearranged_length [OF ys(2)] assms by simp
  show "ordered cmp (take n (snd (heapsort_nonlibc n sz cmp xs)))"
  proof (cases "n = 1")
    case True
    then show ?thesis using assms by (cases xs) (auto simp: ordered_def heapsort_nonlibc_def)
  next
    case False
    then show ?thesis
      using assms settled_ordered [OF _ len *(1)] by (simp add: heapsort_nonlibc_def)
  qed
  show "rearranged n xs (snd (heapsort_nonlibc n sz cmp xs))"
    using *(2) ys(2) assms by (auto simp: heapsort_nonlibc_def intro: rearranged_trans)
qed

end

end
