(* ===== verification/Sort_Shift.thy ===== *)
theory Sort_Shift
  imports Sort_Data
begin

text \<open>
  The insertion sorts (src/stress-insertionsort.c), the shell sort (src/stress-shellsort.c) and the
  bubble sorts (src/stress-bubblesort.c).  A sort works on the first \<open>nmemb\<close> elements of a list, the
  array.  The counter of the comparisons is a metric and is modelled where the sort itself returns it.
\<close>

section \<open>Insertion\<close>

text \<open>The inner loop: the elements \<open>over\<close> the saved one move up, and the place it goes to is returned.\<close>

function insertion_shift :: "('a \<Rightarrow> 'a \<Rightarrow> bool) \<Rightarrow> 'a \<Rightarrow> nat \<Rightarrow> 'a list \<Rightarrow> nat \<times> 'a list" where
  "insertion_shift over tmp j xs =
     (if 0 < j \<and> over (xs ! (j - 1)) tmp then insertion_shift over tmp (j - 1) (xs[j := xs ! (j - 1)]) else (j, xs))"
  by pat_completeness auto
termination by (relation "measure (\<lambda>(_, _, j, _). j)") auto

declare insertion_shift.simps [simp del]

text \<open>One round of the outer loop of each direction, and what it adds to the count of comparisons.\<close>

primrec insertion_fwd_step :: "nat \<Rightarrow> u64 \<times> i32 list \<Rightarrow> u64 \<times> i32 list" where
  "insertion_fwd_step i (compares, xs) =
     (let tmp = xs ! i; (j, xs) = insertion_shift (\<lambda>x t. sint x > sint t) tmp i xs
      in (compares + (of_nat i - of_nat j), xs[j := tmp]))"

primrec insertion_rev_step :: "nat \<Rightarrow> u64 \<times> i32 list \<Rightarrow> u64 \<times> i32 list" where
  "insertion_rev_step i (compares, xs) =
     (let tmp = xs ! i; (j, xs) = insertion_shift (\<lambda>x t. sint x < sint t) tmp i xs
      in (compares + (of_nat i - of_nat j - 1), xs[j := tmp]))"

definition insertionsort_fwd :: "nat \<Rightarrow> i32 list \<Rightarrow> u64 \<times> i32 list" where
  "insertionsort_fwd nmemb xs = fold insertion_fwd_step [1..<nmemb] (0, xs)"

definition insertionsort_rev :: "nat \<Rightarrow> i32 list \<Rightarrow> u64 \<times> i32 list" where
  "insertionsort_rev nmemb xs = fold insertion_rev_step [1..<nmemb] (0, xs)"

section \<open>The shell sort\<close>

text \<open>The guard \<open>0 < gap\<close> is the condition of the outermost loop.\<close>

function gap_shift :: "('a \<Rightarrow> 'a \<Rightarrow> int) \<Rightarrow> nat \<Rightarrow> 'a \<Rightarrow> nat \<Rightarrow> 'a list \<Rightarrow> nat \<times> 'a list" where
  "gap_shift compar gap temp j xs =
     (if 0 < gap \<and> gap \<le> j \<and> compar (xs ! (j - gap)) temp > 0
      then gap_shift compar gap temp (j - gap) (xs[j := xs ! (j - gap)]) else (j, xs))"
  by pat_completeness auto
termination by (relation "measure (\<lambda>(_, _, _, j, _). j)") auto

declare gap_shift.simps [simp del]

definition gap_insert :: "('a \<Rightarrow> 'a \<Rightarrow> int) \<Rightarrow> nat \<Rightarrow> nat \<Rightarrow> 'a list \<Rightarrow> 'a list" where
  "gap_insert compar gap i xs = (let temp = xs ! i; (j, xs) = gap_shift compar gap temp i xs in xs[j := temp])"

function shellsort_gaps :: "('a \<Rightarrow> 'a \<Rightarrow> int) \<Rightarrow> nat \<Rightarrow> nat \<Rightarrow> 'a list \<Rightarrow> 'a list" where
  "shellsort_gaps compar nmemb gap xs =
     (if gap > 0 then shellsort_gaps compar nmemb (gap div 2) (fold (gap_insert compar gap) [gap..<nmemb] xs) else xs)"
  by pat_completeness auto
termination by (relation "measure (\<lambda>(_, _, gap, _). gap)") auto

declare shellsort_gaps.simps [simp del]

definition shellsort32 :: "('a \<Rightarrow> 'a \<Rightarrow> int) \<Rightarrow> nat \<Rightarrow> 'a list \<Rightarrow> 'a list" where
  "shellsort32 compar nmemb xs = shellsort_gaps compar nmemb (nmemb div 2) xs"

section \<open>The bubble sorts\<close>

text \<open>One comparison of neighbours: the index of the last swap, or whether there was one.\<close>

primrec bubble_step :: "('a \<Rightarrow> 'a \<Rightarrow> int) \<Rightarrow> nat \<Rightarrow> nat \<times> 'a list \<Rightarrow> nat \<times> 'a list" where
  "bubble_step compar i (n, xs) =
     (if compar (xs ! (i - 1)) (xs ! i) > 0 then (i, swap_elems (i - 1) i xs) else (n, xs))"

primrec bubble_flag :: "('a \<Rightarrow> 'a \<Rightarrow> int) \<Rightarrow> nat \<Rightarrow> bool \<times> 'a list \<Rightarrow> bool \<times> 'a list" where
  "bubble_flag compar i (swapped, xs) =
     (if compar (xs ! (i - 1)) (xs ! i) > 0 then (True, swap_elems (i - 1) i xs) else (swapped, xs))"

lemma bubble_last: "fst (fold (bubble_step compar) [1..<nmemb] (0, xs)) \<le> nmemb - 1"
proof -
  have *: "fst (fold (bubble_step compar) is (n, xs)) \<le> m" if "n \<le> m" "\<forall>i \<in> set is. i \<le> m" for "is" n m xs
    using that by (induction "is" arbitrary: n xs) auto
  show ?thesis by (rule *) auto
qed

function bubble_fast_loop :: "('a \<Rightarrow> 'a \<Rightarrow> int) \<Rightarrow> nat \<Rightarrow> 'a list \<Rightarrow> 'a list" where
  "bubble_fast_loop compar nmemb xs =
     (let (n, xs) = fold (bubble_step compar) [1..<nmemb] (0, xs) in if n > 1 then bubble_fast_loop compar n xs else xs)"
  by pat_completeness auto
termination
proof (relation "measure (\<lambda>(_, nmemb, _). nmemb)", goal_cases)
  case (2 compar nmemb xs r n ys)
  then have "n \<le> nmemb - 1" "1 < n" using bubble_last [of compar nmemb xs] by (metis fst_conv)+
  then show ?case by simp
qed simp

declare bubble_fast_loop.simps [simp del]

definition bubblesort_fast :: "nat \<Rightarrow> nat \<Rightarrow> ('a \<Rightarrow> 'a \<Rightarrow> int) \<Rightarrow> 'a list \<Rightarrow> int \<times> 'a list" where
  "bubblesort_fast nmemb sz compar xs =
     (if nmemb \<le> 1 then (0, xs) else if sz < 1 then (-1, xs) else (0, bubble_fast_loop compar nmemb xs))"

lemma bubble_flag_pass: "nmemb \<le> 1 \<Longrightarrow> fold (bubble_flag compar) [1..<nmemb] (b, xs) = (b, xs)"
  by simp

function bubble_naive_loop :: "('a \<Rightarrow> 'a \<Rightarrow> int) \<Rightarrow> nat \<Rightarrow> 'a list \<Rightarrow> 'a list" where
  "bubble_naive_loop compar nmemb xs =
     (let (swapped, xs) = fold (bubble_flag compar) [1..<nmemb] (False, xs)
      in if swapped then bubble_naive_loop compar (nmemb - 1) xs else xs)"
  by pat_completeness auto
termination
proof (relation "measure (\<lambda>(_, nmemb, _). nmemb)", goal_cases)
  case (2 compar nmemb xs r n ys)
  then show ?case using bubble_flag_pass [of nmemb compar False xs] by (cases "nmemb \<le> 1") auto
qed simp

declare bubble_naive_loop.simps [simp del]

definition bubblesort_naive :: "nat \<Rightarrow> nat \<Rightarrow> ('a \<Rightarrow> 'a \<Rightarrow> int) \<Rightarrow> 'a list \<Rightarrow> int \<times> 'a list" where
  "bubblesort_naive nmemb sz compar xs =
     (if nmemb \<le> 1 then (0, xs) else if sz < 1 then (-1, xs) else (0, bubble_naive_loop compar nmemb xs))"

section \<open>Insertion with a gap\<close>

text \<open>The loops move the hole that the saved element goes to, so the elements stay the same.\<close>

lemma gap_shift_rearranged:
  "j < n \<Longrightarrow> n \<le> length xs \<Longrightarrow> gap_shift compar gap temp j xs = (k, ys) \<Longrightarrow>
   rearranged n (xs[j := temp]) (ys[k := temp]) \<and> k \<le> j"
proof (induction compar gap temp j xs rule: gap_shift.induct)
  case (1 compar gap temp j xs)
  show ?case
  proof (cases "0 < gap \<and> gap \<le> j \<and> compar (xs ! (j - gap)) temp > 0")
    case True
    let ?xs = "xs[j := xs ! (j - gap)]"
    have ys: "gap_shift compar gap temp (j - gap) ?xs = (k, ys)"
      using 1(4) True by (subst (asm) gap_shift.simps) simp
    have "?xs[j - gap := temp] = swap_elems (j - gap) j (xs[j := temp])"
      using True 1(2,3) by (intro hole_swap) auto
    moreover have "rearranged n (xs[j := temp]) (swap_elems (j - gap) j (xs[j := temp]))"
      using True 1(2,3) by (intro rearranged_swap) auto
    ultimately show ?thesis
      using 1(1) [OF True _ _ ys] 1(2,3) True rearranged_trans by fastforce
  next
    case False
    then show ?thesis using 1(4) by (subst (asm) gap_shift.simps) auto
  qed
qed

lemma gap_insert_rearranged: "i < n \<Longrightarrow> n \<le> length xs \<Longrightarrow> rearranged n xs (gap_insert compar gap i xs)"
  using gap_shift_rearranged [of i n xs compar gap "xs ! i"] by (auto simp: gap_insert_def case_prod_beta Let_def)

lemma gap_pass_rearranged: "n \<le> length xs \<Longrightarrow> rearranged n xs (fold (gap_insert compar gap) [k..<n] xs)"
  by (rule rearranged_fold) (auto intro: gap_insert_rearranged)

lemma shellsort_rearranged: "n \<le> length xs \<Longrightarrow> rearranged n xs (shellsort_gaps compar n gap xs)"
proof (induction gap arbitrary: xs rule: less_induct)
  case (less gap)
  let ?ys = "fold (gap_insert compar gap) [gap..<n] xs"
  have 1: "rearranged n xs ?ys" using less.prems by (rule gap_pass_rearranged)
  show ?case
  proof (cases "gap = 0")
    case False
    then have "rearranged n ?ys (shellsort_gaps compar n (gap div 2) ?ys)"
      using less rearranged_length [OF 1] by (intro less.IH) simp_all
    then show ?thesis using 1 False by (subst shellsort_gaps.simps) (auto intro: rearranged_trans)
  qed (simp add: shellsort_gaps.simps)
qed

context comparison
begin

text \<open>Insertion with gap one, when all but the hole and the elements above it are in order.\<close>

lemma shift_sorts:
  assumes "gap_shift cmp 1 temp j xs = (k, ys)" "j \<le> i" "i < length xs"
    and "\<And>a b. a \<le> b \<Longrightarrow> b \<le> i \<Longrightarrow> a \<noteq> j \<Longrightarrow> b \<noteq> j \<Longrightarrow> cmp (xs ! a) (xs ! b) \<le> 0"
    and "\<And>b. j < b \<Longrightarrow> b \<le> i \<Longrightarrow> cmp temp (xs ! b) \<le> 0"
  shows "a \<le> b \<Longrightarrow> b \<le> i \<Longrightarrow> cmp (ys[k := temp] ! a) (ys[k := temp] ! b) \<le> 0"
  using assms
proof (induction j arbitrary: xs)
  case 0
  then have "k = 0" "ys = xs" by (subst (asm) gap_shift.simps, simp)+
  moreover have "xs \<noteq> []" using 0 by (metis length_0_conv not_less_zero)
  ultimately show ?case using 0 by (cases "a = 0"; cases "b = 0") simp_all
next
  case (Suc j)
  show ?case
  proof (cases "cmp (xs ! j) temp > 0")
    case True
    let ?xs = "xs[Suc j := xs ! j]"
    have "gap_shift cmp 1 temp j ?xs = (k, ys)"
      using Suc.prems(3) True by (subst (asm) gap_shift.simps) simp
    moreover have "cmp (?xs ! a) (?xs ! b) \<le> 0" if "a \<le> b" "b \<le> i" "a \<noteq> j" "b \<noteq> j" for a b
      using that Suc.prems(4-) by (auto simp: nth_list_update)
    moreover have "cmp temp (?xs ! b) \<le> 0" if "j < b" "b \<le> i" for b
      using that Suc.prems(4-) True swap_sign [of temp "xs ! j"] by (auto simp: nth_list_update)
    ultimately show ?thesis
      using Suc.IH [of ?xs] Suc.prems(1,2,4,5) by simp
  next
    case False
    then have k: "k = Suc j" "ys = xs" using Suc.prems(3) by (subst (asm) gap_shift.simps, simp)+
    have "cmp (xs ! a) temp \<le> 0" if "a \<le> j" for a
      using trans [of "xs ! a" "xs ! j" temp] that False Suc.prems(4-) by force
    then show ?thesis using k Suc.prems by (auto simp: nth_list_update)
  qed
qed

lemma gap_insert_sorts:
  assumes "ordered cmp (take i xs)" "i < length xs"
  shows "ordered cmp (take (Suc i) (gap_insert cmp 1 i xs))"
proof -
  obtain k ys where k: "gap_shift cmp 1 (xs ! i) i xs = (k, ys)" by force
  have "length (ys[k := xs ! i]) = length xs"
    using gap_shift_rearranged [OF assms(2) _ k] by (auto dest: rearranged_length)
  moreover have "cmp (ys[k := xs ! i] ! a) (ys[k := xs ! i] ! b) \<le> 0" if "a \<le> b" "b \<le> i" for a b
    using assms that by (intro shift_sorts [OF k]) (auto simp: ordered_take)
  ultimately show ?thesis
    using assms k by (simp add: gap_insert_def ordered_take less_Suc_eq_le)
qed

lemma gap_pass_sorts:
  assumes "n \<le> length xs"
  shows "ordered cmp (take n (fold (gap_insert cmp 1) [1..<n] xs))"
  using assms
proof (induction n)
  case (Suc n)
  let ?ys = "fold (gap_insert cmp 1) [1..<n] xs"
  have "length ?ys = length xs" using Suc.prems by (intro rearranged_length [of n] gap_pass_rearranged) simp
  then show ?case using Suc gap_insert_sorts [of n ?ys] by (cases n; cases xs) (auto simp: ordered_def)
qed (simp add: ordered_def)

lemma shellsort_sorts: "0 < gap \<Longrightarrow> n \<le> length xs \<Longrightarrow> ordered cmp (take n (shellsort_gaps cmp n gap xs))"
proof (induction gap arbitrary: xs rule: less_induct)
  case (less gap)
  let ?ys = "fold (gap_insert cmp gap) [gap..<n] xs"
  have "length ?ys = length xs" using less.prems by (intro rearranged_length [of n] gap_pass_rearranged)
  moreover have "shellsort_gaps cmp n gap xs = shellsort_gaps cmp n (gap div 2) ?ys"
    using less.prems by (simp add: shellsort_gaps.simps)
  moreover have "shellsort_gaps cmp n 0 zs = zs" for zs by (simp add: shellsort_gaps.simps)
  ultimately show ?case
    using less gap_pass_sorts [of n xs] by (cases "gap = 1") simp_all
qed

end

section \<open>Insertion sort\<close>

text \<open>The inner loops of the insertion sorts are those of the shell sort with gap one.\<close>

lemma insertion_shift_gap:
  "insertion_shift (\<lambda>x t. sint x > sint t) tmp j xs = gap_shift stress_sort_cmp_fwd_int32 1 tmp j xs"
  "insertion_shift (\<lambda>x t. sint x < sint t) tmp j xs = gap_shift stress_sort_cmp_rev_int32 1 tmp j xs"
proof -
  have gt: "0 < stress_sort_cmp_fwd_int32 x y \<longleftrightarrow> sint x > sint y" "0 < stress_sort_cmp_rev_int32 x y \<longleftrightarrow> sint x < sint y" for x y
    by (simp_all add: stress_sort_cmp_fwd_int32_def stress_sort_cmp_rev_int32_def)
  show "insertion_shift (\<lambda>x t. sint x > sint t) tmp j xs = gap_shift stress_sort_cmp_fwd_int32 1 tmp j xs"
    by (induction j arbitrary: xs; subst insertion_shift.simps; subst gap_shift.simps) (simp_all add: gt)
  show "insertion_shift (\<lambda>x t. sint x < sint t) tmp j xs = gap_shift stress_sort_cmp_rev_int32 1 tmp j xs"
    by (induction j arbitrary: xs; subst insertion_shift.simps; subst gap_shift.simps) (simp_all add: gt)
qed

lemma insertionsort_gap:
  "snd (insertionsort_fwd n xs) = fold (gap_insert stress_sort_cmp_fwd_int32 1) [1..<n] xs"
  "snd (insertionsort_rev n xs) = fold (gap_insert stress_sort_cmp_rev_int32 1) [1..<n] xs"
proof -
  have "snd (fold insertion_fwd_step is (c, xs)) = fold (gap_insert stress_sort_cmp_fwd_int32 1) is xs" for "is" c
    by (induction "is" arbitrary: c xs) (simp_all add: gap_insert_def insertion_shift_gap Let_def case_prod_unfold)
  then show "snd (insertionsort_fwd n xs) = fold (gap_insert stress_sort_cmp_fwd_int32 1) [1..<n] xs"
    unfolding insertionsort_fwd_def .
  have "snd (fold insertion_rev_step is (c, xs)) = fold (gap_insert stress_sort_cmp_rev_int32 1) is xs" for "is" c
    by (induction "is" arbitrary: c xs) (simp_all add: gap_insert_def insertion_shift_gap Let_def case_prod_unfold)
  then show "snd (insertionsort_rev n xs) = fold (gap_insert stress_sort_cmp_rev_int32 1) [1..<n] xs"
    unfolding insertionsort_rev_def .
qed

text \<open>On data that is in descending order already each round of the reverse sort subtracts one.\<close>

lemma insertionsort_rev_idle:
  assumes "ordered stress_sort_cmp_rev_int32 xs" "n \<le> length xs"
  shows "insertionsort_rev n xs = (1 - of_nat (max 1 n), xs)"
proof -
  have "insertion_rev_step i (c, xs) = (c - 1, xs)" if "i \<in> {1..<n}" for i c
  proof -
    have "sint (xs ! i) \<le> sint (xs ! (i - 1))"
      using that assms cmp_rev.ordered_nth [of xs] by (simp add: cmp_signed)
    then show ?thesis by (subst insertion_rev_step.simps, subst insertion_shift.simps) (simp add: Let_def)
  qed
  then have "fold insertion_rev_step is (c, xs) = (c - of_nat (length is), xs)" if "set is \<subseteq> {1..<n}" for "is" c
    using that by (induction "is" arbitrary: c) simp_all
  from this [of "[1..<n]" 0] show ?thesis by (cases n) (simp_all add: insertionsort_rev_def del: upt_Suc)
qed

section \<open>The bubble sorts\<close>

text \<open>The flag of the naive sort is whether there was a last swap.\<close>

lemma bubble_flag_last:
  "\<forall>i \<in> set is. 0 < i \<Longrightarrow> fold (bubble_flag compar) is (0 < n, xs) =
   (let (n, ys) = fold (bubble_step compar) is (n, xs) in (0 < n, ys))"
proof (induction "is" arbitrary: n xs)
  case (Cons i "is")
  then show ?case using Cons.IH [of i "swap_elems (i - 1) i xs"] Cons.IH [of n xs] by simp
qed simp

lemma bubble_pass_rearranged:
  "n \<le> length xs \<Longrightarrow> rearranged n xs (snd (fold (bubble_step compar) [1..<n] (k, xs)))"
proof -
  have "rearranged n xs (snd (fold (bubble_step compar) is (k, xs)))"
    if "n \<le> length xs" "\<forall>i \<in> set is. i < n" for "is" k and xs :: "'a list"
    using that
  proof (induction "is" arbitrary: k xs)
    case (Cons i "is")
    have "rearranged n xs (swap_elems (i - 1) i xs)" using Cons.prems by (intro rearranged_swap) auto
    then show ?case using Cons by (auto intro: rearranged_trans)
  qed simp
  then show "n \<le> length xs \<Longrightarrow> ?thesis" by simp
qed

context comparison
begin

text \<open>A pass settles what is at or above its last swap.\<close>

lemma bubble_pass_settles:
  assumes "0 < m" "m \<le> length xs" "fold (bubble_step cmp) [1..<m] (0, xs) = (n, ys)"
  shows "settled n m ys \<and> (\<forall>a < m. cmp (ys ! a) (ys ! (m - 1)) \<le> 0) \<and> n \<le> m - 1"
  using assms
proof (induction m arbitrary: n ys rule: nat_induct_non_zero)
  case 1
  then show ?case by (simp add: settled_def)
next
  case (Suc m)
  obtain k zs where k: "fold (bubble_step cmp) [1..<m] (0, xs) = (k, zs)" by force
  then have IH: "settled k m zs" "\<forall>a < m. cmp (zs ! a) (zs ! (m - 1)) \<le> 0" "k \<le> m - 1"
    using Suc by auto
  have len: "length zs = length xs"
    using bubble_pass_rearranged [of m xs cmp 0] k Suc.prems by (auto dest: rearranged_length)
  have step: "bubble_step cmp m (k, zs) = (n, ys)" using Suc k by simp
  show ?case
  proof (cases "cmp (zs ! (m - 1)) (zs ! m) > 0")
    case True
    then have n: "n = m" "ys = swap_elems (m - 1) m zs" using step by auto
    have top: "cmp (ys ! a) (ys ! m) \<le> 0" if "a \<le> m" for a
    proof -
      have "cmp (zs ! m) (zs ! (m - 1)) \<le> 0" using True swap_sign [of "zs ! m" "zs ! (m - 1)"] by simp
      then show ?thesis using n IH(2) len Suc.prems Suc.hyps that by (simp add: nth_swap)
    qed
    have "settled m (Suc m) ys"
      unfolding settled_def
    proof (intro allI impI)
      fix a b assume "m \<le> b" "b < Suc m" "a \<le> b"
      then show "cmp (ys ! a) (ys ! b) \<le> 0" using top [of a] by (cases "b = m") simp_all
    qed
    then show ?thesis using top n(1) by simp
  next
    case False
    then have "n = k" "ys = zs" using step by auto
    moreover have "cmp (zs ! a) (zs ! m) \<le> 0" if "a < m" for a
      using trans [of "zs ! a" "zs ! (m - 1)" "zs ! m"] IH that False by simp
    ultimately have top: "n = k" "ys = zs" "\<forall>a \<le> m. cmp (zs ! a) (zs ! m) \<le> 0" by (auto simp: le_less)
    have "settled k (Suc m) zs"
      unfolding settled_def
    proof (intro allI impI)
      fix a b assume "k \<le> b" "b < Suc m" "a \<le> b"
      then show "cmp (zs ! a) (zs ! b) \<le> 0" using top(3) IH(1) by (cases "b = m") (auto simp: settled_def)
    qed
    then show ?thesis using top IH(3) by simp
  qed
qed

lemma bubble_pass:
  assumes "0 < m" "m \<le> n" "n \<le> length xs" "settled m n xs" "fold (bubble_step cmp) [1..<m] (0, xs) = (k, ys)"
  shows "settled k n ys" "rearranged n xs ys" "length ys = length xs" "k \<le> m - 1"
proof -
  have r: "rearranged m xs ys"
    using bubble_pass_rearranged [of m xs cmp 0] assms by simp
  then show "rearranged n xs ys" "length ys = length xs" using assms(2) by (auto intro: rearranged_mono rearranged_length)
  have "settled m n ys" using settled_rearranged [OF assms(4) r] assms by simp
  moreover have "settled k m ys \<and> k \<le> m - 1" using bubble_pass_settles [OF assms(1) _ assms(5)] assms by simp
  ultimately show "settled k n ys" "k \<le> m - 1" using settled_join by blast+
qed

lemma bubble_fast_sorts:
  assumes "0 < m" "m \<le> n" "n \<le> length xs" "settled m n xs"
  shows "ordered cmp (take n (bubble_fast_loop cmp m xs))" "rearranged n xs (bubble_fast_loop cmp m xs)"
proof -
  have "ordered cmp (take n (bubble_fast_loop cmp m xs)) \<and> rearranged n xs (bubble_fast_loop cmp m xs)"
    using assms
  proof (induction m arbitrary: xs rule: less_induct)
    case (less m)
    obtain k ys where k: "fold (bubble_step cmp) [1..<m] (0, xs) = (k, ys)" by force
    note pass = bubble_pass [OF less.prems k]
    have loop: "bubble_fast_loop cmp m xs = (if k > 1 then bubble_fast_loop cmp k ys else ys)"
      using k by (subst bubble_fast_loop.simps) simp
    show ?case
    proof (cases "k > 1")
      case True
      then show ?thesis
        using less.IH [of k ys] pass less.prems loop by (auto intro: rearranged_trans)
    next
      case False
      then show ?thesis using settled_ordered [of k n ys] pass less.prems loop by simp
    qed
  qed
  then show "ordered cmp (take n (bubble_fast_loop cmp m xs))" "rearranged n xs (bubble_fast_loop cmp m xs)" by simp_all
qed

lemma bubble_naive_sorts:
  assumes "0 < m" "m \<le> n" "n \<le> length xs" "settled m n xs"
  shows "ordered cmp (take n (bubble_naive_loop cmp m xs))" "rearranged n xs (bubble_naive_loop cmp m xs)"
proof -
  have "ordered cmp (take n (bubble_naive_loop cmp m xs)) \<and> rearranged n xs (bubble_naive_loop cmp m xs)"
    using assms
  proof (induction m arbitrary: xs rule: less_induct)
    case (less m)
    obtain k ys where k: "fold (bubble_step cmp) [1..<m] (0, xs) = (k, ys)" by force
    note pass = bubble_pass [OF less.prems k]
    have loop: "bubble_naive_loop cmp m xs = (if 0 < k then bubble_naive_loop cmp (m - 1) ys else ys)"
      using k bubble_flag_last [of "[1..<m]" cmp 0 xs] by (subst bubble_naive_loop.simps) simp
    show ?case
    proof (cases "0 < k")
      case True
      have "settled (m - 1) n ys" using pass unfolding settled_def by (meson order_trans)
      then show ?thesis
        using less.IH [of "m - 1" ys] True pass less.prems loop by (auto intro: rearranged_trans)
    next
      case False
      then show ?thesis using settled_ordered [of k n ys] pass less.prems loop by simp
    qed
  qed
  then show "ordered cmp (take n (bubble_naive_loop cmp m xs))" "rearranged n xs (bubble_naive_loop cmp m xs)" by simp_all
qed

end

section \<open>The count of the reverse insertion sort\<close>

text \<open>Values below \<open>2 ^ 15\<close> keep their order when they are mangled: the same constant is added to each.\<close>

lemma mangle_small:
  assumes "unat x < 2 ^ 15"
  shows "sint (x XOR 0x80008000 :: i32) = int (unat x) - 2147450880"
proof -
  have "unat (take_bit 15 x) = unat x"
    using assms by (simp add: unsigned_take_bit_eq take_bit_nat_eq_self)
  then have x: "take_bit 15 x = x" by (rule unsigned_word_eqI)
  have "take_bit 15 (x AND 0x80008000) = take_bit 15 x AND take_bit 15 0x80008000" by (rule take_bit_and)
  moreover have "take_bit 15 (x AND 0x80008000) = take_bit 15 x AND 0x80008000"
    by (simp add: take_bit_eq_mask and.assoc and.commute and.left_commute)
  ultimately have "x AND 0x80008000 = 0" using x by simp
  then have "x XOR 0x80008000 = x + 0x80008000"
    by (simp add: disjunctive_add_eq_xor)
  also have "\<dots> = of_nat (unat x + 0x80008000)" by simp
  finally have "sint (x XOR 0x80008000) = signed_take_bit 31 (int (unat x) + 0x80008000)"
    by (simp only: signed_of_nat) simp
  moreover have "signed_take_bit 31 (int k + 0x80008000) = int k - 2147450880" if "k < 2 ^ 15" for k
  proof -
    have "4295000064 + int k = (32768 + int k) + 4294967296" by simp
    then have "(4295000064 + int k) mod 4294967296 = (32768 + int k) mod 4294967296" by (simp only: mod_add_self2)
    then have "(4295000064 + int k) mod 4294967296 = 32768 + int k" using that by simp
    then show ?thesis by (simp add: signed_take_bit_eq_take_bit_shift take_bit_eq_mod)
  qed
  ultimately show ?thesis using assms by (simp only:)
qed

lemma sint_small_unat: "unat (x :: i32) < 2 ^ 15 \<Longrightarrow> sint x = int (unat x)"
  using sint_small [of "unat x"] by simp

text \<open>
  C27: The reverse insertion sort counts one comparison less than it makes in each round, in 64 bits: on
  data that is in descending order already, as that of the third sort of every round is when its values
  are below \<open>2 ^ 15\<close> (so for up to 4095 elements, the smallest size among them), the count wraps to
  \<open>2 ^ 64\<close> minus the number of elements, less one.
\<close>

theorem insertionsort_count_wraps:
  assumes "0 < n" "n \<le> length xs" "ordered stress_sort_cmp_rev_int32 (take n xs)" "\<forall>x \<in> set (take n xs). unat x < 2 ^ 15"
  shows "insertionsort_rev n (stress_sort_data_int32_mangle (take n xs)) = (1 - of_nat n, stress_sort_data_int32_mangle (take n xs))"
proof -
  have "sorted_wrt (\<lambda>x y. sint (y XOR 0x80008000 :: i32) \<le> sint (x XOR 0x80008000)) (take n xs)"
    using assms(3) unfolding ordered_def
    by (rule sorted_wrt_mono_rel [rotated]) (use assms(4) in \<open>simp add: cmp_signed mangle_small sint_small_unat\<close>)
  then have "ordered stress_sort_cmp_rev_int32 (stress_sort_data_int32_mangle (take n xs))"
    by (simp add: ordered_def cmp_signed stress_sort_data_int32_mangle_def sorted_wrt_map)
  from insertionsort_rev_idle [OF this, of n] show ?thesis using assms(1,2) by (simp add: max_def)
qed

lemma insertionsort_count_wraps_witness:
  "insertionsort_rev 3 (stress_sort_data_int32_mangle (take 3 [30, 20, 10])) =
    (1 - of_nat 3, stress_sort_data_int32_mangle (take 3 [30, 20, 10]))"
  by (rule insertionsort_count_wraps) (simp_all add: ordered_def cmp_signed)

end
