(* ===== verification/Sort_Merge.thy ===== *)
theory Sort_Merge
  imports Sort_Shift
begin

text \<open>
  The merge sort (src/stress-mergesort.c) and the quicksort of Bentley and McIlroy (src/core-sort.c).
\<close>

section \<open>The merge sort\<close>

text \<open>The merging loop and the copying of the run that is left; both runs are in the second buffer.\<close>

fun merge_runs :: "('a \<Rightarrow> 'a \<Rightarrow> int) \<Rightarrow> 'a list \<Rightarrow> 'a list \<Rightarrow> 'a list" where
  "merge_runs compar (l # lhs) (r # rhs) =
     (if compar l r < 0 then l # merge_runs compar lhs (r # rhs) else r # merge_runs compar (l # lhs) rhs)"
| "merge_runs compar [] rhs = rhs"
| "merge_runs compar lhs [] = lhs"

definition merge_halves :: "('a \<Rightarrow> 'a \<Rightarrow> int) \<Rightarrow> nat \<Rightarrow> nat \<Rightarrow> nat \<Rightarrow> 'a list \<Rightarrow> 'a list" where
  "merge_halves compar left mid right base =
     (let lhs = take (mid - left + 1) (drop left base); rhs = take (right - mid) (drop (mid + 1) base)
      in take left base @ merge_runs compar lhs rhs @ drop (right + 1) base)"

function mergesort_partition :: "('a \<Rightarrow> 'a \<Rightarrow> int) \<Rightarrow> nat \<Rightarrow> nat \<Rightarrow> 'a list \<Rightarrow> 'a list" where
  "mergesort_partition compar left right base =
     (let mid = left + (right - left) div 2;
          base = (if left < mid then mergesort_partition compar left mid base else base);
          base = (if mid + 1 < right then mergesort_partition compar (mid + 1) right base else base)
      in merge_halves compar left mid right base)"
  by pat_completeness auto
termination by (relation "measure (\<lambda>(_, left, right, _). right - left)") auto

declare mergesort_partition.simps [simp del]

text \<open>The second buffer is mapped first; \<open>mapped\<close> is whether that succeeds.\<close>

definition mergesort_nonlibc :: "bool \<Rightarrow> nat \<Rightarrow> ('a \<Rightarrow> 'a \<Rightarrow> int) \<Rightarrow> 'a list \<Rightarrow> int \<times> 'a list" where
  "mergesort_nonlibc mapped nmemb compar base =
     (if mapped then (0, mergesort_partition compar 0 (nmemb - 1) base) else (-1, base))"

section \<open>Quicksort\<close>

text \<open>Indices stand for pointers; \<open>pc\<close> and \<open>pd\<close> are held one element higher, as \<open>pc\<close> may be one below the array.\<close>

definition qsort_bm_med3 :: "('a \<Rightarrow> 'a \<Rightarrow> int) \<Rightarrow> 'a list \<Rightarrow> nat \<Rightarrow> nat \<Rightarrow> nat \<Rightarrow> nat" where
  "qsort_bm_med3 compar xs a b c =
     (if compar (xs ! a) (xs ! b) < 0
      then if compar (xs ! b) (xs ! c) < 0 then b else if compar (xs ! a) (xs ! c) < 0 then c else a
      else if compar (xs ! b) (xs ! c) > 0 then b else if compar (xs ! a) (xs ! c) > 0 then c else a)"

primrec bm_sink :: "('a \<Rightarrow> 'a \<Rightarrow> int) \<Rightarrow> nat \<Rightarrow> 'a list \<Rightarrow> 'a list" where
  "bm_sink compar 0 xs = xs"
| "bm_sink compar (Suc p) xs = (if compar (xs ! p) (xs ! Suc p) > 0 then bm_sink compar p (swap_elems p (Suc p) xs) else xs)"

definition bm_pivot :: "('a \<Rightarrow> 'a \<Rightarrow> int) \<Rightarrow> 'a list \<Rightarrow> nat" where
  "bm_pivot compar xs =
     (let n = length xs; pm = n div 2; s = n div 8
      in if n > 63
         then qsort_bm_med3 compar xs (qsort_bm_med3 compar xs 0 s (2 * s)) (qsort_bm_med3 compar xs (pm - s) pm (pm + s))
                (qsort_bm_med3 compar xs (n - 1 - 2 * s) (n - 1 - s) (n - 1))
         else pm)"

function bm_up :: "('a \<Rightarrow> 'a \<Rightarrow> int) \<Rightarrow> nat \<Rightarrow> nat \<Rightarrow> nat \<Rightarrow> 'a list \<Rightarrow> nat \<times> nat \<times> 'a list" where
  "bm_up compar pc pa pb xs =
     (if pb < pc \<and> compar (xs ! pb) (xs ! 0) \<le> 0
      then if compar (xs ! pb) (xs ! 0) = 0 then bm_up compar pc (pa + 1) (pb + 1) (swap_elems pa pb xs)
           else bm_up compar pc pa (pb + 1) xs
      else (pa, pb, xs))"
  by pat_completeness auto
termination by (relation "measure (\<lambda>(_, pc, _, pb, _). pc - pb)") auto

function bm_down :: "('a \<Rightarrow> 'a \<Rightarrow> int) \<Rightarrow> nat \<Rightarrow> nat \<Rightarrow> nat \<Rightarrow> 'a list \<Rightarrow> nat \<times> nat \<times> 'a list" where
  "bm_down compar pb pc pd xs =
     (if pb < pc \<and> compar (xs ! (pc - 1)) (xs ! 0) \<ge> 0
      then if compar (xs ! (pc - 1)) (xs ! 0) = 0 then bm_down compar pb (pc - 1) (pd - 1) (swap_elems (pc - 1) (pd - 1) xs)
           else bm_down compar pb (pc - 1) pd xs
      else (pc, pd, xs))"
  by pat_completeness auto
termination by (relation "measure (\<lambda>(_, pb, pc, _, _). pc - pb)") auto

declare bm_up.simps [simp del] bm_down.simps [simp del]

lemma bm_up_climbs: "bm_up compar pc pa pb xs = (pa', pb', ys) \<Longrightarrow> pb \<le> pb'"
proof (induction compar pc pa pb xs rule: bm_up.induct)
  case (1 compar pc pa pb xs)
  then show ?case
    by (subst (asm) (3) bm_up.simps) (auto split: if_splits)
qed

lemma bm_down_sinks: "bm_down compar pb pc pd xs = (pc', pd', ys) \<Longrightarrow> pc' \<le> pc"
proof (induction compar pb pc pd xs rule: bm_down.induct)
  case (1 compar pb pc pd xs)
  then show ?case
    by (subst (asm) (3) bm_down.simps) (auto split: if_splits)
qed

function bm_split :: "('a \<Rightarrow> 'a \<Rightarrow> int) \<Rightarrow> nat \<Rightarrow> nat \<Rightarrow> nat \<Rightarrow> nat \<Rightarrow> 'a list \<Rightarrow> nat \<times> nat \<times> nat \<times> nat \<times> 'a list" where
  "bm_split compar pa pb pc pd xs =
     (let (pa, pb, xs) = bm_up compar pc pa pb xs; (pc, pd, xs) = bm_down compar pb pc pd xs
      in if pb < pc then bm_split compar pa (pb + 1) (pc - 1) pd (swap_elems pb (pc - 1) xs) else (pa, pb, pc, pd, xs))"
  by pat_completeness auto
termination
proof (relation "measure (\<lambda>(_, _, pb, pc, _, _). pc - pb)", goal_cases)
  case (2 compar pa pb pc pd xs u pa' r pb' ys v pc' r' pd' zs)
  then have "bm_up compar pc pa pb xs = (pa', pb', ys)" "bm_down compar pb' pc pd ys = (pc', pd', zs)" by simp_all
  then have "pb \<le> pb'" "pc' \<le> pc" by (auto dest: bm_up_climbs bm_down_sinks)
  then show ?case using 2 by simp
qed simp

declare bm_split.simps [simp del]

definition swap_blocks :: "nat \<Rightarrow> nat \<Rightarrow> nat \<Rightarrow> 'a list \<Rightarrow> 'a list" where
  "swap_blocks i j s xs = fold (\<lambda>k. swap_elems (i + k) (j + k)) [0..<s] xs"

text \<open>
  One call up to its recursive calls: the ends \<open>s\<close> of the low elements and \<open>t\<close> of those equal to the
  pivot, and the array.
\<close>

definition bm_partition :: "('a \<Rightarrow> 'a \<Rightarrow> int) \<Rightarrow> 'a list \<Rightarrow> nat \<times> nat \<times> 'a list" where
  "bm_partition compar xs =
     (let n = length xs;
          (pa, pb, pc, pd, xs) = bm_split compar 0 0 n n (swap_elems 0 (bm_pivot compar xs) xs);
          s = min pa (pb - pa); xs = swap_blocks 0 (pb - s) s xs;
          s = min (pd - pc) (n - pd); xs = swap_blocks pb (n - s) s xs
      in (pb - pa, n - (pd - pc), xs))"

text \<open>
  The whole: a call on a part of the array gives that part.  With a function that is no comparison the
  recursion may not end, which is the result \<open>None\<close>.
\<close>

partial_function (option) qsort_bm :: "('a \<Rightarrow> 'a \<Rightarrow> int) \<Rightarrow> 'a list \<Rightarrow> 'a list option" where
  "qsort_bm compar xs =
     (if length xs < 63 then Some (fold (bm_sink compar) [1..<length xs] xs)
      else case bm_partition compar xs of (s, t, xs) \<Rightarrow>
        Option.bind (if s > 1 then qsort_bm compar (take s xs) else Some (take s xs)) (\<lambda>low.
        Option.bind (if length xs - t > 1 then qsort_bm compar (drop t xs) else Some (drop t xs)) (\<lambda>high.
        Some (low @ drop s (take t xs) @ high))))"

section \<open>The merge sort sorts\<close>

lemma mset_merge_runs [simp]: "mset (merge_runs compar xs ys) = mset xs + mset ys"
  by (induction compar xs ys rule: merge_runs.induct) auto

lemma set_merge_runs [simp]: "set (merge_runs compar xs ys) = set xs \<union> set ys"
  by (metis mset_merge_runs set_mset_mset set_mset_union)

context comparison
begin

lemma ordered_Cons: "ordered cmp (x # xs) \<longleftrightarrow> (\<forall>y \<in> set xs. cmp x y \<le> 0) \<and> ordered cmp xs"
  by (simp add: ordered_def)

lemma merge_runs_ordered: "ordered cmp xs \<Longrightarrow> ordered cmp ys \<Longrightarrow> ordered cmp (merge_runs cmp xs ys)"
proof (induction "\<lambda>a b. cmp a b" xs ys rule: merge_runs.induct)
  case (1 l lhs r rhs)
  show ?case
  proof (cases "cmp l r < 0")
    case True
    then have "cmp l y \<le> 0" if "y \<in> set rhs" for y
      using 1(4) that trans [of l r y] by (simp add: ordered_Cons)
    then show ?thesis using True 1 by (auto simp: ordered_Cons)
  next
    case False
    then have "cmp r l \<le> 0" using swap_sign [of l r] by simp
    moreover from this have "cmp r y \<le> 0" if "y \<in> set lhs" for y
      using 1(3) that trans [of r l y] by (simp add: ordered_Cons)
    ultimately show ?thesis using False 1 by (auto simp: ordered_Cons)
  qed
qed simp_all

lemma mergesort_partition_sorts:
  "\<exists>ys. mergesort_partition cmp (length as) (length as + length xs - 1) (as @ xs @ bs) = as @ ys @ bs \<and>
        mset ys = mset xs \<and> ordered cmp ys" if "xs \<noteq> []"
  using that
proof (induction "length xs" arbitrary: as xs bs rule: less_induct)
  case less
  let ?left = "length as" and ?right = "length as + length xs - 1"
  define m where "m = Suc ((length xs - 1) div 2)"
  define ls where "ls = take m xs"
  define rs where "rs = drop m xs"
  have m: "0 < m" "m \<le> length xs" using less.prems by (auto simp: m_def neq_Nil_conv)
  have len: "length ls = m" "length rs = length xs - m" and xs: "xs = ls @ rs" "ls \<noteq> []"
    using m by (auto simp: ls_def rs_def)
  have "\<exists>ks. (if ?left < ?left + m - 1 then mergesort_partition cmp ?left (?left + m - 1) (as @ xs @ bs) else as @ xs @ bs) = as @ ks @ rs @ bs \<and>
    mset ks = mset ls \<and> ordered cmp ks"
  proof (cases "m = 1")
    case True
    then show ?thesis using len xs by (intro exI [of _ ls]) (cases ls, auto simp: ordered_def)
  next
    case False
    have "m < length xs" using False m unfolding m_def by linarith
    then obtain ks where "mergesort_partition cmp ?left (?left + m - 1) (as @ ls @ rs @ bs) = as @ ks @ rs @ bs"
      "mset ks = mset ls" "ordered cmp ks"
      using less.hyps [of ls as "rs @ bs"] len xs(2) by auto
    moreover have "as @ xs @ bs = as @ ls @ rs @ bs" using xs(1) by simp
    moreover have "?left < ?left + m - 1" using False m(1) by linarith
    ultimately show ?thesis by (intro exI [of _ ks]) (simp only: if_True)
  qed
  then obtain ks where ks: "(if ?left < ?left + m - 1 then mergesort_partition cmp ?left (?left + m - 1) (as @ xs @ bs) else as @ xs @ bs) = as @ ks @ rs @ bs"
    "mset ks = mset ls" "ordered cmp ks" by blast
  then have lks: "length ks = m" using len by (metis size_mset)
  have "\<exists>ts. (if ?left + m < ?right then mergesort_partition cmp (?left + m) ?right (as @ ks @ rs @ bs) else as @ ks @ rs @ bs) = as @ ks @ ts @ bs \<and>
    mset ts = mset rs \<and> ordered cmp ts"
  proof (cases "?left + m < ?right")
    case True
    then have "rs \<noteq> []" "length rs < length xs" using m len by auto
    then obtain ts where "mergesort_partition cmp (length (as @ ks)) (length (as @ ks) + length rs - 1) ((as @ ks) @ rs @ bs) = (as @ ks) @ ts @ bs"
      "mset ts = mset rs" "ordered cmp ts"
      using less.hyps [of rs "as @ ks" bs] by blast
    moreover have "length (as @ ks) = ?left + m" "length (as @ ks) + length rs - 1 = ?right"
      using lks len m True by simp_all
    ultimately show ?thesis using True by (intro exI [of _ ts]) (simp only: append_assoc if_True)
  next
    case False
    then have "length rs \<le> 1" using len by linarith
    then show ?thesis using False by (intro exI [of _ rs]) (cases rs, auto simp: ordered_def)
  qed
  then obtain ts where ts: "(if ?left + m < ?right then mergesort_partition cmp (?left + m) ?right (as @ ks @ rs @ bs) else as @ ks @ rs @ bs) = as @ ks @ ts @ bs"
    "mset ts = mset rs" "ordered cmp ts" by blast
  then have lts: "length ts = length xs - m" using len by (metis size_mset)
  have "?right - ?left = length xs - 1" using m by linarith
  then have mid: "?left + (?right - ?left) div 2 = ?left + m - 1" by (simp add: m_def)
  have right: "?left + m - 1 + 1 = ?left + m" "?right - (?left + m - 1) = length ts" "?left + m - 1 - ?left + 1 = m"
    "?right + 1 = length as + m + length ts"
    using m lts by linarith+
  have "mergesort_partition cmp ?left ?right (as @ xs @ bs) = as @ merge_runs cmp ks ts @ bs"
    using lks unfolding mergesort_partition.simps [of cmp ?left ?right] Let_def mid right ks(1) ts(1)
      merge_halves_def right by simp
  then show ?case
    using merge_runs_ordered ks ts xs by (intro exI [of _ "merge_runs cmp ks ts"]) simp
qed

lemma mergesort_sorts:
  assumes "0 < n" "n \<le> length xs"
  shows "ordered cmp (take n (mergesort_partition cmp 0 (n - 1) xs))"
    "rearranged n xs (mergesort_partition cmp 0 (n - 1) xs)"
proof -
  obtain ys where "mergesort_partition cmp 0 (n - 1) xs = ys @ drop n xs" "mset ys = mset (take n xs)" "ordered cmp ys"
    using mergesort_partition_sorts [of "take n xs" "[]" "drop n xs"] assms by (cases xs) auto
  moreover from this have "length ys = n" using assms by (metis length_take min.absorb2 size_mset)
  ultimately show "ordered cmp (take n (mergesort_partition cmp 0 (n - 1) xs))"
    "rearranged n xs (mergesort_partition cmp 0 (n - 1) xs)" using assms by (simp_all add: rearranged_def)
qed

end

section \<open>Quicksort\<close>

lemma bm_sink_rearranged: "j < n \<Longrightarrow> n \<le> length xs \<Longrightarrow> rearranged n xs (bm_sink compar j xs)"
proof (induction j arbitrary: xs)
  case (Suc j)
  have "rearranged n xs (swap_elems j (Suc j) xs)" using Suc.prems by (intro rearranged_swap) auto
  then show ?case using Suc by (auto intro: rearranged_trans)
qed simp

context comparison
begin

lemma bm_sink_sorts:
  assumes "j \<le> i" "i < length xs"
    and "\<And>a b. a \<le> b \<Longrightarrow> b \<le> i \<Longrightarrow> a \<noteq> j \<Longrightarrow> b \<noteq> j \<Longrightarrow> cmp (xs ! a) (xs ! b) \<le> 0"
    and "\<And>b. j < b \<Longrightarrow> b \<le> i \<Longrightarrow> cmp (xs ! j) (xs ! b) \<le> 0"
  shows "a \<le> b \<Longrightarrow> b \<le> i \<Longrightarrow> cmp (bm_sink cmp j xs ! a) (bm_sink cmp j xs ! b) \<le> 0"
  using assms
proof (induction j arbitrary: xs)
  case 0
  then show ?case by (cases "a = 0"; cases "b = 0") simp_all
next
  case (Suc j)
  show ?case
  proof (cases "cmp (xs ! j) (xs ! Suc j) > 0")
    case True
    let ?xs = "swap_elems j (Suc j) xs"
    have at: "?xs ! k = (if k = Suc j then xs ! j else if k = j then xs ! Suc j else xs ! k)" for k
      using Suc.prems(3,4) by (simp add: nth_swap)
    have "cmp (?xs ! a) (?xs ! b) \<le> 0" if "a \<le> b" "b \<le> i" "a \<noteq> j" "b \<noteq> j" for a b
      using that Suc.prems(5) [of a b] Suc.prems(5) [of j b] Suc.prems(5) [of a j] by (simp add: at)
    moreover have "cmp (?xs ! j) (?xs ! b) \<le> 0" if "j < b" "b \<le> i" for b
      using that Suc.prems(6) [of b] swap_sign [of "xs ! Suc j" "xs ! j"] True by (simp add: at)
    ultimately show ?thesis
      using Suc.IH [of ?xs] Suc.prems(1-4) True by simp
  next
    case False
    have "cmp (xs ! a) (xs ! b) \<le> 0"
    proof (cases "a = Suc j \<or> b = Suc j")
      case True
      then show ?thesis
        using trans [of "xs ! a" "xs ! j" "xs ! Suc j"] False Suc.prems(1,2) Suc.prems(5) [of a j] Suc.prems(6) [of b]
        by (cases "a = b") auto
    qed (use Suc.prems(1,2,5) in simp)
    then show ?thesis using False by simp
  qed
qed

lemma bm_insertion:
  assumes "n \<le> length xs"
  shows "ordered cmp (take n (fold (bm_sink cmp) [1..<n] xs))" "rearranged n xs (fold (bm_sink cmp) [1..<n] xs)"
proof -
  have r: "rearranged m xs (fold (bm_sink cmp) [1..<m] xs)" if "m \<le> length xs" for m
    using that by (intro rearranged_fold bm_sink_rearranged) auto
  then show "rearranged n xs (fold (bm_sink cmp) [1..<n] xs)" using assms by simp
  show "ordered cmp (take n (fold (bm_sink cmp) [1..<n] xs))"
    using assms
  proof (induction n)
    case (Suc m)
    let ?ys = "fold (bm_sink cmp) [1..<m] xs"
    have ys: "ordered cmp (take m ?ys)" "length ?ys = length xs"
      using Suc r [of m] by (auto dest: rearranged_length)
    have zs: "length (bm_sink cmp m ?ys) = length xs"
      using bm_sink_rearranged [of m "Suc m" ?ys cmp] ys Suc.prems by (auto dest: rearranged_length)
    have "cmp (bm_sink cmp m ?ys ! a) (bm_sink cmp m ?ys ! b) \<le> 0" if "a \<le> b" "b \<le> m" for a b
      using ys Suc.prems that by (intro bm_sink_sorts [of m m]) (auto simp: ordered_take)
    then have "ordered cmp (take (Suc m) (bm_sink cmp m ?ys))"
      using zs Suc.prems by (simp add: ordered_take less_Suc_eq_le)
    then show ?case by (cases m) (use ys Suc.prems in \<open>auto simp: ordered_def\<close>)
  qed (simp add: ordered_def)
qed

text \<open>What the loops keep: the four parts of the array, and that the pivot stays the first element.\<close>

definition parted :: "'a \<Rightarrow> nat \<Rightarrow> nat \<Rightarrow> nat \<Rightarrow> nat \<Rightarrow> 'a list \<Rightarrow> bool" where
  "parted v pa pb pc pd xs \<longleftrightarrow> pa \<le> pb \<and> (0 < pb \<longrightarrow> 0 < pa) \<and> pb \<le> pc \<and> pc \<le> pd \<and> pd \<le> length xs \<and> xs ! 0 = v \<and>
     (\<forall>k < pa. cmp (xs ! k) v = 0) \<and> (\<forall>k. pa \<le> k \<longrightarrow> k < pb \<longrightarrow> cmp (xs ! k) v < 0) \<and>
     (\<forall>k. pc \<le> k \<longrightarrow> k < pd \<longrightarrow> 0 < cmp (xs ! k) v) \<and> (\<forall>k. pd \<le> k \<longrightarrow> k < length xs \<longrightarrow> cmp (xs ! k) v = 0)"

lemma parted_up:
  assumes "parted v pa pb pc pd xs" "pb < pc" "cmp (xs ! pb) v = 0"
  shows "parted v (pa + 1) (pb + 1) pc pd (swap_elems pa pb xs)"
proof -
  have b: "pa \<le> pb" "pb < length xs" "pc \<le> pd" "pd \<le> length xs" using assms by (simp_all add: parted_def)
  have at: "swap_elems pa pb xs ! k = (if k = pb then xs ! pa else if k = pa then xs ! pb else xs ! k)" for k
    using b by (simp add: nth_swap)
  have "0 < pb \<longrightarrow> 0 < pa" "xs ! 0 = v" using assms(1) by (simp_all add: parted_def)
  then have "swap_elems pa pb xs ! 0 = v" using b at [of 0] by (cases "pb = 0") auto
  then show ?thesis using assms b unfolding parted_def by (auto simp: at less_Suc_eq)
qed

lemma parted_down:
  assumes "parted v pa pb pc pd xs" "pb < pc" "cmp (xs ! (pc - 1)) v = 0" "0 < pb"
  shows "parted v pa pb (pc - 1) (pd - 1) (swap_elems (pc - 1) (pd - 1) xs)"
proof -
  have b: "pa \<le> pb" "pc - 1 < length xs" "pd - 1 < length xs" "pc \<le> pd" "pd \<le> length xs" "0 < pa" "0 < pc - 1"
    using assms by (auto simp: parted_def)
  have at: "swap_elems (pc - 1) (pd - 1) xs ! k = (if k = pd - 1 then xs ! (pc - 1) else if k = pc - 1 then xs ! (pd - 1) else xs ! k)" for k
    using b by (simp add: nth_swap)
  show ?thesis
    unfolding parted_def
  proof (intro conjI allI impI)
    show "cmp (swap_elems (pc - 1) (pd - 1) xs ! k) v = 0" if "pd - 1 \<le> k" "k < length (swap_elems (pc - 1) (pd - 1) xs)" for k
      using assms(1,3) that b unfolding parted_def at by (cases "k = pd - 1") auto
    show "0 < cmp (swap_elems (pc - 1) (pd - 1) xs ! k) v" if "pc - 1 \<le> k" "k < pd - 1" for k
      using assms(1) that b unfolding parted_def at by (cases "k = pc - 1") auto
    show "swap_elems (pc - 1) (pd - 1) xs ! 0 = v" using assms(1) b unfolding parted_def at by auto
    show "cmp (swap_elems (pc - 1) (pd - 1) xs ! k) v = 0" if "k < pa" for k
      using assms(1,2) that b unfolding parted_def at by auto
    show "cmp (swap_elems (pc - 1) (pd - 1) xs ! k) v < 0" if "pa \<le> k" "k < pb" for k
      using assms(1,2) that b unfolding parted_def at by auto
  qed (use assms b in \<open>auto simp: parted_def\<close>)
qed

text \<open>The two scans; each swaps elements of the first \<open>length xs\<close> only.\<close>

lemma bm_up_parted:
  "parted v pa pb pc pd xs \<Longrightarrow> bm_up cmp pc pa pb xs = (pa', pb', ys) \<Longrightarrow>
   parted v pa' pb' pc pd ys \<and> (pb' < pc \<longrightarrow> 0 < cmp (ys ! pb') v) \<and> mset ys = mset xs \<and> (0 < pc \<longrightarrow> 0 < pb')"
proof (induction "pc - pb" arbitrary: pa pb xs rule: less_induct)
  case less
  have v: "xs ! 0 = v" "pb \<le> pc" "pa \<le> pb" "pc \<le> length xs" using less.prems(1) by (simp_all add: parted_def)
  consider "pb < pc" "cmp (xs ! pb) v = 0" | "pb < pc" "cmp (xs ! pb) v < 0" | "pb = pc \<or> 0 < cmp (xs ! pb) v"
    using v(2) by linarith
  then show ?case
  proof cases
    case 1
    then have "bm_up cmp pc (pa + 1) (pb + 1) (swap_elems pa pb xs) = (pa', pb', ys)"
      using less.prems(2) v(1) by (subst (asm) bm_up.simps) simp
    then show ?thesis
      using less.hyps [OF _ parted_up [OF less.prems(1) 1]] 1 v by simp
  next
    case 2
    then have "bm_up cmp pc pa (pb + 1) xs = (pa', pb', ys)"
      using less.prems(2) v(1) by (subst (asm) bm_up.simps) simp
    moreover have "pb \<noteq> 0" using 2 v(1) by (cases "pb = 0") auto
    then have "parted v pa (pb + 1) pc pd xs"
      using less.prems(1) 2 by (auto simp: parted_def less_Suc_eq)
    ultimately show ?thesis using less.hyps [of "pb + 1" pa xs] 2 by simp
  next
    case 3
    then have "(pa', pb', ys) = (pa, pb, xs)"
      using less.prems(2) v(1) by (subst (asm) bm_up.simps) auto
    moreover have "0 < pb" if "0 < pc" using 3 v(1) that by (cases "pb = 0") auto
    ultimately show ?thesis using 3 less.prems(1) by auto
  qed
qed

lemma bm_down_parted:
  "parted v pa pb pc pd xs \<Longrightarrow> bm_down cmp pb pc pd xs = (pc', pd', ys) \<Longrightarrow> pb < pc \<longrightarrow> 0 < pb \<Longrightarrow>
   parted v pa pb pc' pd' ys \<and> (pb < pc' \<longrightarrow> cmp (ys ! (pc' - 1)) v < 0) \<and> mset ys = mset xs \<and>
   (\<forall>k. 0 < k \<longrightarrow> k \<le> pb \<longrightarrow> k < pc' \<longrightarrow> ys ! k = xs ! k)"
proof (induction "pc - pb" arbitrary: pc pd xs rule: less_induct)
  case less
  have v: "xs ! 0 = v" "pb \<le> pc" "pc \<le> pd" "pd \<le> length xs" using less.prems(1) by (simp_all add: parted_def)
  consider "pb < pc" "cmp (xs ! (pc - 1)) v = 0" | "pb < pc" "0 < cmp (xs ! (pc - 1)) v" | "pb = pc \<or> cmp (xs ! (pc - 1)) v < 0"
    using v(2) by linarith
  then show ?case
  proof cases
    case 1
    then have "bm_down cmp pb (pc - 1) (pd - 1) (swap_elems (pc - 1) (pd - 1) xs) = (pc', pd', ys)"
      using less.prems(2) v(1) by (subst (asm) bm_down.simps) simp
    moreover have "parted v pa pb (pc - 1) (pd - 1) (swap_elems (pc - 1) (pd - 1) xs)"
      using less.prems 1 by (intro parted_down) auto
    moreover have "mset (swap_elems (pc - 1) (pd - 1) xs) = mset xs" using 1 v by simp
    moreover have "swap_elems (pc - 1) (pd - 1) xs ! k = xs ! k" if "k < pc - 1" for k
      using that 1 v by (auto simp: nth_swap)
    ultimately show ?thesis
      using less.hyps [of "pc - 1" "pd - 1" "swap_elems (pc - 1) (pd - 1) xs"] 1 less.prems(3)
        bm_down_sinks [of cmp pb "pc - 1" "pd - 1" "swap_elems (pc - 1) (pd - 1) xs" pc' pd' ys] by simp
  next
    case 2
    then have "bm_down cmp pb (pc - 1) pd xs = (pc', pd', ys)"
      using less.prems(2) v(1) by (subst (asm) bm_down.simps) simp
    moreover have "parted v pa pb (pc - 1) pd xs"
      unfolding parted_def
    proof (intro conjI allI impI)
      show "0 < cmp (xs ! k) v" if "pc - 1 \<le> k" "k < pd" for k
        using 2 that less.prems(1) by (cases "k = pc - 1") (auto simp: parted_def)
    qed (use less.prems(1) 2 in \<open>auto simp: parted_def\<close>)
    ultimately show ?thesis using less.hyps [of "pc - 1" pd xs] 2 less.prems(3) by simp
  next
    case 3
    then have "(pc', pd', ys) = (pc, pd, xs)"
      using less.prems(2) v(1) by (subst (asm) bm_down.simps) auto
    then show ?thesis using 3 less.prems(1) by auto
  qed
qed

lemma bm_split_parted:
  "parted v pa pb pc pd xs \<Longrightarrow> bm_split cmp pa pb pc pd xs = (pa', pb', pc', pd', ys) \<Longrightarrow> 0 < pb \<or> 0 < pc \<Longrightarrow>
   parted v pa' pb' pc' pd' ys \<and> pb' = pc' \<and> 0 < pb' \<and> mset ys = mset xs"
proof (induction "pc - pb" arbitrary: pa pb pc pd xs rule: less_induct)
  case less
  obtain pa1 pb1 ys1 where up: "bm_up cmp pc pa pb xs = (pa1, pb1, ys1)" by (metis prod.exhaust)
  obtain pc1 pd1 ys2 where down: "bm_down cmp pb1 pc pd ys1 = (pc1, pd1, ys2)" by (metis prod.exhaust)
  note ups = bm_up_parted [OF less.prems(1) up]
  have "0 < pb1" using ups less.prems(3) less.prems(1) by (auto simp: parted_def)
  note downs = bm_down_parted [OF conjunct1 [OF ups] down] 
  have pb1: "pb \<le> pb1" "pc1 \<le> pc" using bm_up_climbs [OF up] bm_down_sinks [OF down] .
  have 1: "parted v pa1 pb1 pc1 pd1 ys2" "mset ys2 = mset xs" "pb1 < pc1 \<Longrightarrow> cmp (ys2 ! (pc1 - 1)) v < 0"
    "pb1 < pc1 \<Longrightarrow> 0 < cmp (ys2 ! pb1) v"
    using ups downs \<open>0 < pb1\<close> pb1 by auto
  show ?case
  proof (cases "pb1 < pc1")
    case True
    have "pb1 \<noteq> pc1 - 1" using 1(3,4) True by force
    then have le: "pb1 + 1 \<le> pc1 - 1" "pc1 \<le> pd1" "pd1 \<le> length ys2" "pa1 \<le> pb1" "0 < pa1"
      using True 1(1) \<open>0 < pb1\<close> by (auto simp: parted_def)
    let ?ys = "swap_elems pb1 (pc1 - 1) ys2"
    have at: "?ys ! k = (if k = pc1 - 1 then ys2 ! pb1 else if k = pb1 then ys2 ! (pc1 - 1) else ys2 ! k)" for k
      using le by (simp add: nth_swap)
    have "parted v pa1 (pb1 + 1) (pc1 - 1) pd1 ?ys"
      unfolding parted_def
    proof (intro conjI allI impI)
      show "cmp (?ys ! k) v < 0" if "pa1 \<le> k" "k < pb1 + 1" for k
        using that 1(1) 1(3) True le unfolding parted_def at by (cases "k = pb1") auto
      show "0 < cmp (?ys ! k) v" if "pc1 - 1 \<le> k" "k < pd1" for k
        using that 1(1) 1(4) True le unfolding parted_def at by (cases "k = pc1 - 1") auto
      show "cmp (?ys ! k) v = 0" if "k < pa1" for k
        using that 1(1) le unfolding parted_def at by auto
      show "cmp (?ys ! k) v = 0" if "pd1 \<le> k" "k < length ?ys" for k
        using that 1(1) le unfolding parted_def at by auto
      show "?ys ! 0 = v" using 1(1) le \<open>0 < pb1\<close> unfolding parted_def at by auto
    qed (use 1(1) le in auto)
    moreover have "bm_split cmp pa1 (pb1 + 1) (pc1 - 1) pd1 ?ys = (pa', pb', pc', pd', ys)"
      using less.prems(2) True up down by (subst (asm) bm_split.simps) simp
    moreover have "mset ?ys = mset xs" using le 1(2) by simp
    moreover have "(pc1 - 1) - (pb1 + 1) < pc - pb" using pb1 True by linarith
    ultimately show ?thesis
      using less.hyps [of "pc1 - 1" "pb1 + 1" pa1 pd1 ?ys] by auto
  next
    case False
    then have "(pa', pb', pc', pd', ys) = (pa1, pb1, pc1, pd1, ys2)"
      using less.prems(2) up down by (subst (asm) bm_split.simps) simp
    then show ?thesis using False 1(1,2) \<open>0 < pb1\<close> by (auto simp: parted_def)
  qed
qed

end

text \<open>Two blocks change places.\<close>

lemma swap_blocks_nth:
  assumes "i + s \<le> j" "j + s \<le> length xs"
  shows "length (swap_blocks i j s xs) = length xs" "mset (swap_blocks i j s xs) = mset xs"
    "swap_blocks i j s xs ! k =
      (if i \<le> k \<and> k < i + s then xs ! (j + (k - i)) else if j \<le> k \<and> k < j + s then xs ! (i + (k - j)) else xs ! k)"
proof -
  have "length (swap_blocks i j s xs) = length xs \<and> mset (swap_blocks i j s xs) = mset xs \<and>
    swap_blocks i j s xs ! k =
      (if i \<le> k \<and> k < i + s then xs ! (j + (k - i)) else if j \<le> k \<and> k < j + s then xs ! (i + (k - j)) else xs ! k)" for k
    using assms
  proof (induction s arbitrary: k)
    case (Suc s)
    let ?ys = "swap_blocks i j s xs"
    have IH: "length ?ys = length xs" "mset ?ys = mset xs"
      "?ys ! k = (if i \<le> k \<and> k < i + s then xs ! (j + (k - i)) else if j \<le> k \<and> k < j + s then xs ! (i + (k - j)) else xs ! k)" for k
      using Suc by simp_all
    have eq: "swap_blocks i j (Suc s) xs = swap_elems (i + s) (j + s) ?ys" by (simp add: swap_blocks_def)
    have b: "i + s < length ?ys" "j + s < length ?ys" using Suc.prems IH(1) by simp_all
    have "?ys ! (i + s) = xs ! (i + s)" "?ys ! (j + s) = xs ! (j + s)" using Suc.prems by (simp_all add: IH(3))
    then show ?case
      unfolding eq nth_swap [OF b] using b IH(1,2) Suc.prems by (simp add: IH(3) less_Suc_eq)
  qed (auto simp: swap_blocks_def)
  then show "length (swap_blocks i j s xs) = length xs" "mset (swap_blocks i j s xs) = mset xs"
    "swap_blocks i j s xs ! k =
      (if i \<le> k \<and> k < i + s then xs ! (j + (k - i)) else if j \<le> k \<and> k < j + s then xs ! (i + (k - j)) else xs ! k)" by blast+
qed

text \<open>
  The blocks \<open>[a, b)\<close> and \<open>[b, c)\<close> of an array change places when the smaller is swapped with the
  far end of the other.
\<close>

lemma swap_blocks_join:
  assumes "a \<le> b" "b \<le> c" "c \<le> length xs"
    and "\<And>k. a \<le> k \<Longrightarrow> k < b \<Longrightarrow> P (xs ! k)" "\<And>k. b \<le> k \<Longrightarrow> k < c \<Longrightarrow> Q (xs ! k)"
  defines "s \<equiv> min (b - a) (c - b)"
  shows "a \<le> k \<Longrightarrow> k < a + (c - b) \<Longrightarrow> Q (swap_blocks a (c - s) s xs ! k)"
    "a + (c - b) \<le> k \<Longrightarrow> k < c \<Longrightarrow> P (swap_blocks a (c - s) s xs ! k)"
    "k < a \<or> c \<le> k \<Longrightarrow> swap_blocks a (c - s) s xs ! k = xs ! k"
    "length (swap_blocks a (c - s) s xs) = length xs" "mset (swap_blocks a (c - s) s xs) = mset xs"
proof -
  have s: "a + s \<le> c - s" "c - s + s \<le> length xs" "s \<le> c" and small: "s \<le> b - a" "s \<le> c - b"
    using assms(1-3) unfolding s_def by linarith+
  note at = swap_blocks_nth [OF s(1,2)]
  show "length (swap_blocks a (c - s) s xs) = length xs" "mset (swap_blocks a (c - s) s xs) = mset xs" by (rule at)+
  show "swap_blocks a (c - s) s xs ! k = xs ! k" if "k < a \<or> c \<le> k"
    using that s by (auto simp: at(3))
  show "Q (swap_blocks a (c - s) s xs ! k)" if "a \<le> k" "k < a + (c - b)"
  proof (cases "k < a + s")
    case True
    then have "swap_blocks a (c - s) s xs ! k = xs ! (c - s + (k - a))" using that by (simp add: at(3))
    moreover have "Q (xs ! (c - s + (k - a)))"
      using True that small s assms(1,2) by (intro assms(5)) linarith+
    ultimately show ?thesis by simp
  next
    case False
    have "s = b - a" "k < c - s" using False that assms(1,2) unfolding s_def by linarith+
    moreover have "swap_blocks a (c - s) s xs ! k = xs ! k"
      using False \<open>k < c - s\<close> by (simp only: at(3)) (simp add: not_le)
    moreover have "b \<le> k" "k < c" using False assms(1) \<open>s = b - a\<close> \<open>k < c - s\<close> by linarith+
    ultimately show ?thesis using assms(5) by simp
  qed
  show "P (swap_blocks a (c - s) s xs ! k)" if "a + (c - b) \<le> k" "k < c"
  proof (cases "c - s \<le> k")
    case True
    then have "\<not> k < a + s" using s by linarith
    then have "swap_blocks a (c - s) s xs ! k = xs ! (a + (k - (c - s)))" using True that s by (simp add: at(3))
    moreover have "P (xs ! (a + (k - (c - s))))"
      using True that small s assms(1,2) by (intro assms(4)) linarith+
    ultimately show ?thesis by simp
  next
    case False
    have "s = c - b" "\<not> k < a + s" using False that assms(1,2) unfolding s_def by linarith+
    moreover have "swap_blocks a (c - s) s xs ! k = xs ! k"
      using False \<open>\<not> k < a + s\<close> by (simp only: at(3)) (simp add: not_le)
    moreover have "a \<le> k" "k < b" using False that assms(1,2) \<open>s = c - b\<close> by linarith+
    ultimately show ?thesis using assms(4) by simp
  qed
qed

lemma qsort_bm_med3_less: "a < n \<Longrightarrow> b < n \<Longrightarrow> c < n \<Longrightarrow> qsort_bm_med3 compar xs a b c < n"
  by (simp add: qsort_bm_med3_def)

lemma bm_pivot_less: "63 \<le> length xs \<Longrightarrow> bm_pivot compar xs < length xs"
  unfolding bm_pivot_def Let_def by (auto intro!: qsort_bm_med3_less)

context comparison
begin

lemma bm_partition_parts:
  assumes "63 \<le> length xs" "bm_partition cmp xs = (s, t, ys)"
  obtains v where "s < length xs" "0 < t" "s \<le> t" "t \<le> length xs" "mset ys = mset xs"
    "\<And>k. k < s \<Longrightarrow> cmp (ys ! k) v < 0" "\<And>k. s \<le> k \<Longrightarrow> k < t \<Longrightarrow> cmp (ys ! k) v = 0"
    "\<And>k. t \<le> k \<Longrightarrow> k < length xs \<Longrightarrow> 0 < cmp (ys ! k) v"
proof -
  let ?n = "length xs" and ?xs = "swap_elems 0 (bm_pivot cmp xs) xs"
  define v where "v = ?xs ! 0"
  obtain pa pb pc pd zs where split: "bm_split cmp 0 0 ?n ?n ?xs = (pa, pb, pc, pd, zs)" by (metis prod.exhaust)
  have "0 < ?n" using assms(1) by linarith
  moreover have "parted v 0 0 ?n ?n ?xs" by (simp add: parted_def v_def)
  ultimately have p: "parted v pa pb pc pd zs" "pb = pc" "0 < pb" "mset zs = mset ?xs"
    using bm_split_parted [OF _ split, of v] by auto
  have mset: "mset zs = mset xs"
    using p(4) bm_pivot_less [OF assms(1), of cmp] \<open>0 < ?n\<close> by simp
  then have len: "length zs = ?n" by (metis size_mset)
  have le: "0 < pa" "pa \<le> pb" "pb \<le> pd" "pd \<le> ?n" using p len by (auto simp: parted_def)
  let ?s = "min pa (pb - pa)" and ?t = "min (pd - pb) (?n - pd)"
  let ?ys = "swap_blocks 0 (pb - ?s) ?s zs"
  have parts: "\<And>k. k < pa \<Longrightarrow> cmp (zs ! k) v = 0" "\<And>k. pa \<le> k \<Longrightarrow> k < pb \<Longrightarrow> cmp (zs ! k) v < 0"
    "\<And>k. pb \<le> k \<Longrightarrow> k < pd \<Longrightarrow> 0 < cmp (zs ! k) v" "\<And>k. pd \<le> k \<Longrightarrow> k < ?n \<Longrightarrow> cmp (zs ! k) v = 0"
    using p(1,2) len by (simp_all add: parted_def)
  note low = swap_blocks_join [of 0 pa pb zs "\<lambda>x. cmp x v = 0" "\<lambda>x. cmp x v < 0", simplified diff_zero add_0]
  have "pb \<le> length zs" using le len by simp
  note low = low [OF _ le(2) this parts(1,2), simplified]
  have lenys: "length ?ys = ?n" using low(4) len by simp
  have parts2: "\<And>k. pb \<le> k \<Longrightarrow> k < pd \<Longrightarrow> 0 < cmp (?ys ! k) v" "\<And>k. pd \<le> k \<Longrightarrow> k < ?n \<Longrightarrow> cmp (?ys ! k) v = 0"
    using parts(3,4) low(3) le by simp_all
  note high = swap_blocks_join [of pb pd ?n ?ys "\<lambda>x. 0 < cmp x v" "\<lambda>x. cmp x v = 0"]
  note high = high [OF le(3,4) _ parts2, unfolded lenys, simplified]
  have res: "s = pb - pa" "t = ?n - (pd - pb)" "ys = swap_blocks pb (?n - ?t) ?t ?ys"
    using assms(2) split p(2) by (auto simp: bm_partition_def Let_def)
  have same: "ys ! k = ?ys ! k" if "k < pb" for k
    unfolding res(3) using that by (intro high(3)) simp
  show thesis
  proof (rule that [of v])
    show "s < ?n" "0 < t" "s \<le> t" "t \<le> ?n" using res(1,2) le p(3) by linarith+
    show "mset ys = mset xs" using high(5) low(5) mset res(3) by simp
    show "cmp (ys ! k) v < 0" if "k < s" for k
    proof -
      have "k < pb - pa" "k < pb" using that res(1) by linarith+
      then show ?thesis using low(1) same by simp
    qed
    show "cmp (ys ! k) v = 0" if "s \<le> k" "k < t" for k
    proof (cases "k < pb")
      case True
      then show ?thesis using that(1) low(2) same res(1) by simp
    next
      case False
      then have "pb \<le> k" "k < pb + (?n - pd)" using that(2) res(2) le by linarith+
      then show ?thesis unfolding res(3) by (rule high(1))
    qed
    show "0 < cmp (ys ! k) v" if "t \<le> k" "k < ?n" for k
    proof -
      have "pb + (?n - pd) \<le> k" using that(1) res(2) le by linarith
      then show ?thesis unfolding res(3) using that(2) by (rule high(2))
    qed
  qed
qed

lemma nth_take_drop_set:
  "x \<in> set (take s ys) \<Longrightarrow> \<exists>k < s. k < length ys \<and> x = ys ! k"
  "x \<in> set (drop t ys) \<Longrightarrow> \<exists>k \<ge> t. k < length ys \<and> x = ys ! k"
proof -
  show "x \<in> set (take s ys) \<Longrightarrow> \<exists>k < s. k < length ys \<and> x = ys ! k"
    by (auto simp: in_set_conv_nth)
  assume "x \<in> set (drop t ys)"
  then obtain k where "k < length ys - t" "x = ys ! (t + k)" by (auto simp: in_set_conv_nth)
  then show "\<exists>k \<ge> t. k < length ys \<and> x = ys ! k" by (intro exI [of _ "t + k"]) auto
qed

text \<open>Parts on the two sides of a pivot, put in order, and what equals it in between.\<close>

lemma ordered_around:
  assumes "ordered cmp low" "ordered cmp high"
    and "\<And>x. x \<in> set low \<Longrightarrow> cmp x v < 0" "\<And>x. x \<in> set mid \<Longrightarrow> cmp x v = 0" "\<And>x. x \<in> set high \<Longrightarrow> 0 < cmp x v"
  shows "ordered cmp (low @ mid @ high)"
proof -
  have v: "cmp v x \<le> 0" if "x \<in> set mid \<union> set high" for x
    using that assms(4,5) [of x] not_le [of v x] by auto
  have "cmp x v \<le> 0" if "x \<in> set low \<union> set mid" for x
    using that assms(3,4) [of x] by auto
  then have "cmp x y \<le> 0" if "x \<in> set low \<union> set mid" "y \<in> set mid \<union> set high" for x y
    using that v trans [of x v y] by blast
  moreover from this have "ordered cmp mid" by (simp add: ordered_nth)
  ultimately show ?thesis using assms(1,2) by (auto simp: ordered_append)
qed

lemma qsort_bm_sorts: "\<exists>ys. qsort_bm cmp xs = Some ys \<and> mset ys = mset xs \<and> ordered cmp ys"
proof (induction "length xs" arbitrary: xs rule: less_induct)
  case less
  show ?case
  proof (cases "length xs < 63")
    case True
    let ?ys = "fold (bm_sink cmp) [1..<length xs] xs"
    have "rearranged (length xs) xs ?ys" "ordered cmp (take (length xs) ?ys)"
      by (rule bm_insertion; simp)+
    then have "mset ?ys = mset xs" "ordered cmp ?ys"
      using rearranged_length [of "length xs" xs ?ys] by (simp_all add: rearranged_mset)
    then show ?thesis using True by (subst qsort_bm.simps) simp
  next
    case False
    obtain s t ys where part: "bm_partition cmp xs = (s, t, ys)" by (metis prod.exhaust)
    obtain v where le: "s < length xs" "0 < t" "s \<le> t" "t \<le> length xs" and ys: "mset ys = mset xs"
      and parts: "\<And>k. k < s \<Longrightarrow> cmp (ys ! k) v < 0" "\<And>k. s \<le> k \<Longrightarrow> k < t \<Longrightarrow> cmp (ys ! k) v = 0"
        "\<And>k. t \<le> k \<Longrightarrow> k < length xs \<Longrightarrow> 0 < cmp (ys ! k) v"
      using bm_partition_parts [OF leI [OF False] part] by blast
    have len: "length ys = length xs" using ys by (metis size_mset)
    have sub: "\<exists>us. (if 1 < length zs then qsort_bm cmp zs else Some zs) = Some us \<and> mset us = mset zs \<and> ordered cmp us"
      if "length zs < length xs" for zs
    proof (cases "1 < length zs")
      case True
      then show ?thesis using less.hyps [OF that] by simp
    next
      case False
      then show ?thesis by (cases zs) (auto simp: ordered_def)
    qed
    obtain low where low: "(if 1 < s then qsort_bm cmp (take s ys) else Some (take s ys)) = Some low"
      "mset low = mset (take s ys)" "ordered cmp low"
      using sub [of "take s ys"] le len by auto
    obtain high where high: "(if 1 < length xs - t then qsort_bm cmp (drop t ys) else Some (drop t ys)) = Some high"
      "mset high = mset (drop t ys)" "ordered cmp high"
    proof -
      have "length (drop t ys) < length xs" using le len by simp
      then show thesis using sub [of "drop t ys"] le len that by auto
    qed
    let ?mid = "drop s (take t ys)"
    have "ordered cmp (low @ ?mid @ high)"
    proof (rule ordered_around [OF low(3) high(3), of v])
      show "cmp x v < 0" if "x \<in> set low" for x
        using that low(2) nth_take_drop_set(1) [of x s ys] parts(1) by (metis set_mset_mset)
      show "0 < cmp x v" if "x \<in> set high" for x
        using that high(2) nth_take_drop_set(2) [of x t ys] parts(3) len by (metis set_mset_mset)
      show "cmp x v = 0" if "x \<in> set ?mid" for x
        using that nth_take_drop_set(2) [of x s "take t ys"] parts(2) by auto
    qed
    moreover have "ys = take s ys @ ?mid @ drop t ys"
      using le by (metis append_assoc append_take_drop_id min.absorb1 take_take)
    then have "mset (low @ ?mid @ high) = mset xs"
      using low(2) high(2) ys by (metis mset_append)
    ultimately show ?thesis
      using False part low(1) high(1) len by (subst qsort_bm.simps) simp
  qed
qed

end

end
