(* ===== verification/Sort_Run.thy ===== *)
theory Sort_Run
  imports Sort_Heap Sort_Merge
begin

text \<open>
  The rounds of the sort stressors (src/stress-insertionsort.c, src/stress-shellsort.c,
  src/stress-bubblesort.c, src/stress-heapsort.c, src/stress-mergesort.c, src/stress-qsort.c).  The body
  of the main loop of each is a list of actions, as they follow each other in the code; what differs
  otherwise are the sorts and when a failure ends the loop.
\<close>

section \<open>The sorts keep their contract\<close>

interpretation insertion_fwd: sorter stress_sort_cmp_fwd_int32 "\<lambda>n xs. snd (insertionsort_fwd n xs)"
  by unfold_locales (simp_all add: insertionsort_gap cmp_fwd.gap_pass_sorts gap_pass_rearranged del: One_nat_def)

interpretation insertion_rev: sorter stress_sort_cmp_rev_int32 "\<lambda>n xs. snd (insertionsort_rev n xs)"
  by unfold_locales (simp_all add: insertionsort_gap cmp_rev.gap_pass_sorts gap_pass_rearranged del: One_nat_def)

context comparison
begin

lemma ordered_one: "n \<le> 1 \<Longrightarrow> ordered cmp (take n xs)"
  by (cases xs; cases n) (auto simp: ordered_def)

lemma sorter_shellsort: "sorter cmp (shellsort32 cmp)"
proof
  fix n :: nat and xs :: "'a list"
  assume n: "0 < n" "n \<le> length xs"
  show "ordered cmp (take n (shellsort32 cmp n xs))"
  proof (cases "n = 1")
    case False
    then show ?thesis using n unfolding shellsort32_def by (intro shellsort_sorts) linarith+
  qed (simp add: ordered_one)
  show "rearranged n xs (shellsort32 cmp n xs)" using n unfolding shellsort32_def by (intro shellsort_rearranged)
qed

lemma sorter_bubblesort:
  "sorter cmp (\<lambda>n xs. snd (bubblesort_fast n 4 cmp xs))" "sorter cmp (\<lambda>n xs. snd (bubblesort_naive n 4 cmp xs))"
proof -
  have all: "settled n n xs" for n and xs :: "'a list" by (simp add: settled_def)
  show "sorter cmp (\<lambda>n xs. snd (bubblesort_fast n 4 cmp xs))"
  proof
    fix n :: nat and xs :: "'a list"
    assume n: "0 < n" "n \<le> length xs"
    show "ordered cmp (take n (snd (bubblesort_fast n 4 cmp xs)))"
      using bubble_fast_sorts(1) [OF n(1) order_refl n(2) all] ordered_one [of n xs] by (simp add: bubblesort_fast_def)
    show "rearranged n xs (snd (bubblesort_fast n 4 cmp xs))"
      using bubble_fast_sorts(2) [OF n(1) order_refl n(2) all] by (simp add: bubblesort_fast_def)
  qed
  show "sorter cmp (\<lambda>n xs. snd (bubblesort_naive n 4 cmp xs))"
  proof
    fix n :: nat and xs :: "'a list"
    assume n: "0 < n" "n \<le> length xs"
    show "ordered cmp (take n (snd (bubblesort_naive n 4 cmp xs)))"
      using bubble_naive_sorts(1) [OF n(1) order_refl n(2) all] ordered_one [of n xs] by (simp add: bubblesort_naive_def)
    show "rearranged n xs (snd (bubblesort_naive n 4 cmp xs))"
      using bubble_naive_sorts(2) [OF n(1) order_refl n(2) all] by (simp add: bubblesort_naive_def)
  qed
qed

lemma sorter_heapsort: "sorter cmp (\<lambda>n xs. snd (heapsort_nonlibc n 4 cmp xs))"
  by unfold_locales (simp_all add: heapsort_sorts)

lemma sorter_mergesort: "sorter cmp (\<lambda>n xs. snd (mergesort_nonlibc True n cmp xs))"
  by unfold_locales (simp_all add: mergesort_nonlibc_def mergesort_sorts del: One_nat_def)

end

text \<open>The quicksort on the first \<open>n\<close> elements; it always returns, by \<open>qsort_bm_sorts\<close>.\<close>

definition qsort_prefix :: "(i32 \<Rightarrow> i32 \<Rightarrow> int) \<Rightarrow> nat \<Rightarrow> i32 list \<Rightarrow> i32 list" where
  "qsort_prefix compar n xs = the (qsort_bm compar (take n xs)) @ drop n xs"

lemma qsort_prefix_sorted:
  assumes "qsort_bm compar (take n xs) = Some ys" "mset ys = mset (take n xs)" "n \<le> length xs"
  shows "take n (qsort_prefix compar n xs) = ys" "rearranged n xs (qsort_prefix compar n xs)"
proof -
  have "length ys = n" using assms(2,3) by (metis length_take min.absorb2 size_mset)
  then show "take n (qsort_prefix compar n xs) = ys" "rearranged n xs (qsort_prefix compar n xs)"
    using assms by (simp_all add: qsort_prefix_def rearranged_def)
qed

interpretation shell_fwd: sorter stress_sort_cmp_fwd_int32 "shellsort32 stress_sort_cmp_fwd_int32"
  by (rule cmp_fwd.sorter_shellsort)

interpretation shell_rev: sorter stress_sort_cmp_rev_int32 "shellsort32 stress_sort_cmp_rev_int32"
  by (rule cmp_rev.sorter_shellsort)

interpretation qsort_fwd: sorter stress_sort_cmp_fwd_int32 "qsort_prefix stress_sort_cmp_fwd_int32"
proof
  fix n :: nat and xs :: "i32 list"
  assume "n \<le> length xs"
  moreover obtain ys where "qsort_bm stress_sort_cmp_fwd_int32 (take n xs) = Some ys" "mset ys = mset (take n xs)" "ordered stress_sort_cmp_fwd_int32 ys"
    using cmp_fwd.qsort_bm_sorts by blast
  ultimately show "ordered stress_sort_cmp_fwd_int32 (take n (qsort_prefix stress_sort_cmp_fwd_int32 n xs))"
    "rearranged n xs (qsort_prefix stress_sort_cmp_fwd_int32 n xs)" using qsort_prefix_sorted by metis+
qed

interpretation qsort_rev: sorter stress_sort_cmp_rev_int32 "qsort_prefix stress_sort_cmp_rev_int32"
proof
  fix n :: nat and xs :: "i32 list"
  assume "n \<le> length xs"
  moreover obtain ys where "qsort_bm stress_sort_cmp_rev_int32 (take n xs) = Some ys" "mset ys = mset (take n xs)" "ordered stress_sort_cmp_rev_int32 ys"
    using cmp_rev.qsort_bm_sorts by blast
  ultimately show "ordered stress_sort_cmp_rev_int32 (take n (qsort_prefix stress_sort_cmp_rev_int32 n xs))"
    "rearranged n xs (qsort_prefix stress_sort_cmp_rev_int32 n xs)" using qsort_prefix_sorted by metis+
qed

interpretation merge_fwd: sorter stress_sort_cmp_fwd_int32 "\<lambda>n xs. snd (mergesort_nonlibc True n stress_sort_cmp_fwd_int32 xs)"
  by (rule cmp_fwd.sorter_mergesort)

interpretation merge_rev: sorter stress_sort_cmp_rev_int32 "\<lambda>n xs. snd (mergesort_nonlibc True n stress_sort_cmp_rev_int32 xs)"
  by (rule cmp_rev.sorter_mergesort)

interpretation heap_fwd: sorter stress_sort_cmp_fwd_int32 "\<lambda>n xs. snd (heapsort_nonlibc n 4 stress_sort_cmp_fwd_int32 xs)"
  by (rule cmp_fwd.sorter_heapsort)

interpretation heap_rev: sorter stress_sort_cmp_rev_int32 "\<lambda>n xs. snd (heapsort_nonlibc n 4 stress_sort_cmp_rev_int32 xs)"
  by (rule cmp_rev.sorter_heapsort)

interpretation bubble_fwd: sorter stress_sort_cmp_fwd_int32 "\<lambda>n xs. snd (bubblesort_fast n 4 stress_sort_cmp_fwd_int32 xs)"
  by (rule cmp_fwd.sorter_bubblesort)

interpretation bubble_rev: sorter stress_sort_cmp_rev_int32 "\<lambda>n xs. snd (bubblesort_fast n 4 stress_sort_cmp_rev_int32 xs)"
  by (rule cmp_rev.sorter_bubblesort)

interpretation naive_fwd: sorter stress_sort_cmp_fwd_int32 "\<lambda>n xs. snd (bubblesort_naive n 4 stress_sort_cmp_fwd_int32 xs)"
  by (rule cmp_fwd.sorter_bubblesort)

interpretation naive_rev: sorter stress_sort_cmp_rev_int32 "\<lambda>n xs. snd (bubblesort_naive n 4 stress_sort_cmp_rev_int32 xs)"
  by (rule cmp_rev.sorter_bubblesort)

section \<open>The rounds\<close>

text \<open>
  The actions: the shuffle, the mangling, a sort upwards or downwards, with the check of the order that
  is done under \<open>--verify\<close> or without, and the question whether to go on.
\<close>

datatype sort_action = Shuffle | Mangle | Sort_Fwd bool | Sort_Rev bool | Continue_Flag

record sort_plan =
  plan_round :: "sort_action list"
  plan_fwd :: "nat \<Rightarrow> i32 list \<Rightarrow> int \<times> i32 list"
  plan_rev :: "nat \<Rightarrow> i32 list \<Rightarrow> int \<times> i32 list"
  plan_error_ends :: bool
  plan_disorder_ends :: bool
  plan_checks_rc :: bool

record sort_state =
  so_data :: "i32 list"
  so_mwc :: mwc
  so_rc :: int
  so_bogo :: nat
  so_sorts :: nat

text \<open>The verification: no element is \<open>over\<close> the next.\<close>

definition in_order :: "(int \<Rightarrow> int \<Rightarrow> bool) \<Rightarrow> nat \<Rightarrow> i32 list \<Rightarrow> bool" where
  "in_order over n xs \<longleftrightarrow> list_all (\<lambda>i. \<not> over (sint (xs ! i)) (sint (xs ! Suc i))) [0..<n - 1]"

text \<open>
  One sort.  \<open>mem k\<close> is what the memory holds of the result of the \<open>k\<close>-th sort.  The result says
  whether the loop goes on.
\<close>

definition sort_phase :: "sort_plan \<Rightarrow> (nat \<Rightarrow> i32 list \<Rightarrow> i32 list) \<Rightarrow> nat \<Rightarrow> (nat \<Rightarrow> i32 list \<Rightarrow> int \<times> i32 list) \<Rightarrow>
    (int \<Rightarrow> int \<Rightarrow> bool) \<Rightarrow> bool \<Rightarrow> sort_state \<Rightarrow> bool \<times> sort_state" where
  "sort_phase p mem n srt over verify s =
     (let (ret, xs) = srt n (so_data s); xs = mem (so_sorts s) xs; s = s\<lparr>so_data := xs, so_sorts := so_sorts s + 1\<rparr>
      in if ret < 0 then (\<not> plan_error_ends p, s\<lparr>so_rc := EXIT_FAILURE\<rparr>)
         else if verify \<and> \<not> in_order over n xs then (\<not> plan_disorder_ends p, s\<lparr>so_rc := EXIT_FAILURE\<rparr>)
         else (True, s))"

text \<open>\<open>flags\<close> are the answers to the questions whether to go on; when they run out the answer is no.\<close>

definition next_flag :: "bool list \<Rightarrow> bool \<times> bool list" where
  "next_flag flags = (case flags of [] \<Rightarrow> (False, []) | b # rest \<Rightarrow> (b, rest))"

fun run_round :: "sort_plan \<Rightarrow> (nat \<Rightarrow> i32 list \<Rightarrow> i32 list) \<Rightarrow> bool \<Rightarrow> nat \<Rightarrow> sort_action list \<Rightarrow> bool list \<Rightarrow> sort_state \<Rightarrow>
    bool \<times> bool list \<times> sort_state" where
  "run_round p mem verify n [] flags s = (True, flags, s)"
| "run_round p mem verify n (Shuffle # acts) flags s =
     (let (xs, m) = stress_sort_data_int32_shuffle n (so_data s) (so_mwc s)
      in run_round p mem verify n acts flags (s\<lparr>so_data := xs, so_mwc := m\<rparr>))"
| "run_round p mem verify n (Mangle # acts) flags s =
     run_round p mem verify n acts flags
       (s\<lparr>so_data := stress_sort_data_int32_mangle (take n (so_data s)) @ drop n (so_data s)\<rparr>)"
| "run_round p mem verify n (Sort_Fwd checked # acts) flags s =
     (let (going, s) = sort_phase p mem n (plan_fwd p) (>) (verify \<and> checked) s
      in if going then run_round p mem verify n acts flags s else (False, flags, s))"
| "run_round p mem verify n (Sort_Rev checked # acts) flags s =
     (let (going, s) = sort_phase p mem n (plan_rev p) (<) (verify \<and> checked) s
      in if going then run_round p mem verify n acts flags s else (False, flags, s))"
| "run_round p mem verify n (Continue_Flag # acts) flags s =
     (let (going, flags) = next_flag flags in if going then run_round p mem verify n acts flags s else (False, flags, s))"

lemma next_flag_length: "next_flag flags = (b, rest) \<Longrightarrow> length rest \<le> length flags \<and> (b \<longrightarrow> length rest < length flags)"
  by (auto simp: next_flag_def split: list.splits)

lemma run_round_flags: "run_round p mem verify n acts flags s = (b, flags', s') \<Longrightarrow> length flags' \<le> length flags"
proof (induction p mem verify n acts flags s rule: run_round.induct)
  case (6 p mem verify n acts flags s)
  then show ?case using next_flag_length [of flags] by (fastforce split: prod.splits if_splits)
qed (auto simp: Let_def split: prod.splits if_splits)

function sort_loop :: "sort_plan \<Rightarrow> (nat \<Rightarrow> i32 list \<Rightarrow> i32 list) \<Rightarrow> bool \<Rightarrow> nat \<Rightarrow> bool list \<Rightarrow> sort_state \<Rightarrow> sort_state" where
  "sort_loop p mem verify n flags s =
     (let (going, flags, s) = run_round p mem verify n (plan_round p) flags s
      in if \<not> going then s
         else let s = s\<lparr>so_bogo := so_bogo s + 1\<rparr>
              in if plan_checks_rc p \<and> so_rc s \<noteq> EXIT_SUCCESS then s
                 else let (again, flags) = next_flag flags in if again then sort_loop p mem verify n flags s else s)"
  by pat_completeness auto
termination
proof (relation "measure (\<lambda>(_, _, _, _, flags, _). length flags)", goal_cases)
  case (2 p mem verify n flags s u going v flags1 s1 s2 w again flags2)
  then have "next_flag flags1 = (True, flags2)" "run_round p mem verify n (plan_round p) flags s = (True, flags1, s1)" by auto
  then have "length flags2 < length flags1" "length flags1 \<le> length flags"
    by (auto dest: next_flag_length run_round_flags)
  then show ?case by simp
qed simp

declare sort_loop.simps [simp del]

text \<open>The whole stressor, from the data on that the array starts with.\<close>

definition stress_sort :: "sort_plan \<Rightarrow> (nat \<Rightarrow> i32 list \<Rightarrow> i32 list) \<Rightarrow> bool \<Rightarrow> nat \<Rightarrow> bool list \<Rightarrow> mwc \<Rightarrow> sort_state" where
  "stress_sort p mem verify n flags m =
     (let (xs, m) = stress_sort_data_int32_init n m
      in sort_loop p mem verify n flags \<lparr>so_data = xs, so_mwc = m, so_rc = EXIT_SUCCESS, so_bogo = 0, so_sorts = 0\<rparr>)"

section \<open>The stressors\<close>

definition stress_insertionsort :: sort_plan where
  "stress_insertionsort =
     \<lparr>plan_round = [Shuffle, Sort_Fwd True, Continue_Flag, Sort_Rev True, Continue_Flag, Mangle, Sort_Rev True, Continue_Flag],
      plan_fwd = (\<lambda>n xs. (0, snd (insertionsort_fwd n xs))), plan_rev = (\<lambda>n xs. (0, snd (insertionsort_rev n xs))),
      plan_error_ends = False, plan_disorder_ends = False, plan_checks_rc = False\<rparr>"

definition stress_shellsort :: sort_plan where
  "stress_shellsort =
     \<lparr>plan_round = [Shuffle, Sort_Fwd True, Continue_Flag, Sort_Rev True, Continue_Flag, Mangle, Sort_Rev True],
      plan_fwd = (\<lambda>n xs. (0, shellsort32 stress_sort_cmp_fwd_int32 n xs)),
      plan_rev = (\<lambda>n xs. (0, shellsort32 stress_sort_cmp_rev_int32 n xs)),
      plan_error_ends = False, plan_disorder_ends = False, plan_checks_rc = True\<rparr>"

text \<open>The method of the bubble sort is one of two; an element has four bytes.\<close>

datatype bubblesort_method = Bubblesort_Fast | Bubblesort_Naive

primrec bubblesort_func :: "bubblesort_method \<Rightarrow> nat \<Rightarrow> nat \<Rightarrow> (i32 \<Rightarrow> i32 \<Rightarrow> int) \<Rightarrow> i32 list \<Rightarrow> int \<times> i32 list" where
  "bubblesort_func Bubblesort_Fast = bubblesort_fast"
| "bubblesort_func Bubblesort_Naive = bubblesort_naive"

definition stress_bubblesort :: "bubblesort_method \<Rightarrow> sort_plan" where
  "stress_bubblesort method =
     \<lparr>plan_round = [Shuffle, Sort_Fwd True, Continue_Flag, Sort_Rev True, Continue_Flag, Mangle, Sort_Rev True, Continue_Flag],
      plan_fwd = (\<lambda>n. bubblesort_func method n 4 stress_sort_cmp_fwd_int32),
      plan_rev = (\<lambda>n. bubblesort_func method n 4 stress_sort_cmp_rev_int32),
      plan_error_ends = False, plan_disorder_ends = False, plan_checks_rc = False\<rparr>"

definition stress_heapsort :: sort_plan where
  "stress_heapsort =
     \<lparr>plan_round = [Shuffle, Sort_Fwd True, Continue_Flag, Sort_Rev True, Continue_Flag, Mangle, Sort_Rev True, Continue_Flag],
      plan_fwd = (\<lambda>n. heapsort_nonlibc n 4 stress_sort_cmp_fwd_int32),
      plan_rev = (\<lambda>n. heapsort_nonlibc n 4 stress_sort_cmp_rev_int32),
      plan_error_ends = False, plan_disorder_ends = False, plan_checks_rc = False\<rparr>"

text \<open>\<open>mapped\<close> is whether the second buffer of the merge sort can be mapped.\<close>

definition stress_mergesort :: "bool \<Rightarrow> sort_plan" where
  "stress_mergesort mapped =
     \<lparr>plan_round = [Shuffle, Sort_Fwd True, Continue_Flag, Sort_Rev True, Continue_Flag, Mangle, Sort_Rev True],
      plan_fwd = (\<lambda>n. mergesort_nonlibc mapped n stress_sort_cmp_fwd_int32),
      plan_rev = (\<lambda>n. mergesort_nonlibc mapped n stress_sort_cmp_rev_int32),
      plan_error_ends = True, plan_disorder_ends = False, plan_checks_rc = False\<rparr>"

text \<open>The quicksort of the method \<open>qsort-bm\<close>; the sort after the mangling is not verified.\<close>

definition stress_qsort :: sort_plan where
  "stress_qsort =
     \<lparr>plan_round = [Shuffle, Sort_Fwd True, Continue_Flag, Sort_Rev True, Continue_Flag, Mangle, Sort_Fwd False, Sort_Rev True],
      plan_fwd = (\<lambda>n xs. (0, qsort_prefix stress_sort_cmp_fwd_int32 n xs)),
      plan_rev = (\<lambda>n xs. (0, qsort_prefix stress_sort_cmp_rev_int32 n xs)),
      plan_error_ends = False, plan_disorder_ends = True, plan_checks_rc = False\<rparr>"

definition sort_stressors :: "sort_plan list" where
  "sort_stressors = [stress_insertionsort, stress_shellsort, stress_bubblesort Bubblesort_Fast, stress_bubblesort Bubblesort_Naive,
     stress_heapsort, stress_mergesort True, stress_qsort]"

section \<open>What a stressor relies on\<close>

text \<open>Both sorts succeed and keep the contract of a sort.\<close>

locale sort_stressor =
  fixes p :: sort_plan
  assumes fwd_ok: "0 < n \<Longrightarrow> n \<le> length xs \<Longrightarrow> fst (plan_fwd p n xs) = 0"
    and rev_ok: "0 < n \<Longrightarrow> n \<le> length xs \<Longrightarrow> fst (plan_rev p n xs) = 0"
    and fwd_sorts: "sorter stress_sort_cmp_fwd_int32 (\<lambda>n xs. snd (plan_fwd p n xs))"
    and rev_sorts: "sorter stress_sort_cmp_rev_int32 (\<lambda>n xs. snd (plan_rev p n xs))"
begin

lemma fwd_keeps: "0 < n \<Longrightarrow> n \<le> length xs \<Longrightarrow> rearranged n xs (snd (plan_fwd p n xs))"
  using fwd_sorts by (rule sorter.srt_rearranged)

lemma rev_keeps: "0 < n \<Longrightarrow> n \<le> length xs \<Longrightarrow> rearranged n xs (snd (plan_rev p n xs))"
  using rev_sorts by (rule sorter.srt_rearranged)

lemma fwd_in_order: "0 < n \<Longrightarrow> n \<le> length xs \<Longrightarrow> in_order (>) n (snd (plan_fwd p n xs))"
  using sorter.srt_ordered [OF fwd_sorts, of n xs] sorter.srt_length [OF fwd_sorts, of n xs]
  by (simp add: in_order_def list_all_iff cmp_fwd.ordered_take cmp_signed not_less)

lemma rev_in_order: "0 < n \<Longrightarrow> n \<le> length xs \<Longrightarrow> in_order (<) n (snd (plan_rev p n xs))"
  using sorter.srt_ordered [OF rev_sorts, of n xs] sorter.srt_length [OF rev_sorts, of n xs]
  by (simp add: in_order_def list_all_iff cmp_rev.ordered_take cmp_signed not_less)

text \<open>
  With memory that keeps what is stored there is no failure, and the array holds the numbers it was
  given, or all of them mangled.
\<close>

definition same_numbers :: "nat \<Rightarrow> i32 list \<Rightarrow> i32 list \<Rightarrow> bool" where
  "same_numbers n xs ys \<longleftrightarrow> length ys = length xs \<and>
     (mset (take n ys) = mset (take n xs) \<or> mset (take n ys) = mset (stress_sort_data_int32_mangle (take n xs)))"

lemma same_rearranged: "same_numbers n xs ys \<Longrightarrow> rearranged n ys zs \<Longrightarrow> same_numbers n xs zs"
  by (auto simp: same_numbers_def rearranged_def)

lemma same_mangled:
  assumes "same_numbers n xs ys" "n \<le> length xs"
  shows "same_numbers n xs (stress_sort_data_int32_mangle (take n ys) @ drop n ys)"
proof -
  have *: "mset (stress_sort_data_int32_mangle us) = mset (stress_sort_data_int32_mangle vs)" if "mset us = mset vs" for us vs
    using that by (simp add: stress_sort_data_int32_mangle_def)
  show ?thesis
    using assms * [of "take n ys" "take n xs"] * [of "take n ys" "stress_sort_data_int32_mangle (take n xs)"]
    by (auto simp: same_numbers_def mangle_twice)
qed

text \<open>
  Whatever the memory does, a property of the array that every action keeps holds at the end, and if it
  makes every sort look right, there is no failure.
\<close>

lemma round_keeps:
  assumes len: "\<And>xs. I xs \<Longrightarrow> n \<le> length xs"
    and shuffle: "\<And>xs ys. I xs \<Longrightarrow> rearranged n xs ys \<Longrightarrow> I ys"
    and mangle: "\<And>xs. I xs \<Longrightarrow> I (stress_sort_data_int32_mangle (take n xs) @ drop n xs)"
    and fwd: "\<And>k xs. I xs \<Longrightarrow> I (mem k (snd (plan_fwd p n xs))) \<and> in_order (>) n (mem k (snd (plan_fwd p n xs)))"
    and rev: "\<And>k xs. I xs \<Longrightarrow> I (mem k (snd (plan_rev p n xs))) \<and> in_order (<) n (mem k (snd (plan_rev p n xs)))"
    and n: "0 < n" "n < 2 ^ 64"
  shows "I (so_data s) \<Longrightarrow> so_rc s = EXIT_SUCCESS \<Longrightarrow> run_round p mem verify n acts flags s = (going, flags', s') \<Longrightarrow>
    I (so_data s') \<and> so_rc s' = EXIT_SUCCESS"
proof (induction acts arbitrary: flags s)
  case (Cons a acts)
  note n' = len [OF Cons.prems(1)]
  show ?case
  proof (cases a)
    case Shuffle
    let ?r = "stress_sort_data_int32_shuffle n (so_data s) (so_mwc s)"
    have "I (fst ?r)" by (rule shuffle [OF Cons.prems(1) shuffle_rearranged [OF n' n(2)]])
    moreover have "run_round p mem verify n acts flags (s\<lparr>so_data := fst ?r, so_mwc := snd ?r\<rparr>) = (going, flags', s')"
      using Cons.prems(3) Shuffle by (simp add: case_prod_beta Let_def)
    ultimately show ?thesis using Cons.prems(2) by (intro Cons.IH) simp_all
  next
    case Mangle
    let ?ys = "stress_sort_data_int32_mangle (take n (so_data s)) @ drop n (so_data s)"
    have "run_round p mem verify n acts flags (s\<lparr>so_data := ?ys\<rparr>) = (going, flags', s')"
      using Cons.prems(3) Mangle by simp
    then show ?thesis using Cons.prems(2) mangle [OF Cons.prems(1)] by (intro Cons.IH) simp_all
  next
    case (Sort_Fwd checked)
    let ?s = "s\<lparr>so_data := mem (so_sorts s) (snd (plan_fwd p n (so_data s))), so_sorts := so_sorts s + 1\<rparr>"
    note ok = fwd [OF Cons.prems(1)]
    have "sort_phase p mem n (plan_fwd p) (>) (verify \<and> checked) s = (True, ?s)"
      using fwd_ok [OF n(1) n'] ok by (simp add: sort_phase_def case_prod_beta Let_def)
    then have "run_round p mem verify n acts flags ?s = (going, flags', s')"
      using Cons.prems(3) Sort_Fwd by simp
    then show ?thesis using Cons.prems(2) ok by (intro Cons.IH) simp_all
  next
    case (Sort_Rev checked)
    let ?s = "s\<lparr>so_data := mem (so_sorts s) (snd (plan_rev p n (so_data s))), so_sorts := so_sorts s + 1\<rparr>"
    note ok = rev [OF Cons.prems(1)]
    have "sort_phase p mem n (plan_rev p) (<) (verify \<and> checked) s = (True, ?s)"
      using rev_ok [OF n(1) n'] ok by (simp add: sort_phase_def case_prod_beta Let_def)
    then have "run_round p mem verify n acts flags ?s = (going, flags', s')"
      using Cons.prems(3) Sort_Rev by simp
    then show ?thesis using Cons.prems(2) ok by (intro Cons.IH) simp_all
  next
    case Continue_Flag
    then show ?thesis using Cons by (auto simp: case_prod_beta Let_def split: if_splits)
  qed
qed auto

lemma loop_keeps:
  assumes len: "\<And>xs. I xs \<Longrightarrow> n \<le> length xs"
    and shuffle: "\<And>xs ys. I xs \<Longrightarrow> rearranged n xs ys \<Longrightarrow> I ys"
    and mangle: "\<And>xs. I xs \<Longrightarrow> I (stress_sort_data_int32_mangle (take n xs) @ drop n xs)"
    and fwd: "\<And>k xs. I xs \<Longrightarrow> I (mem k (snd (plan_fwd p n xs))) \<and> in_order (>) n (mem k (snd (plan_fwd p n xs)))"
    and rev: "\<And>k xs. I xs \<Longrightarrow> I (mem k (snd (plan_rev p n xs))) \<and> in_order (<) n (mem k (snd (plan_rev p n xs)))"
    and n: "0 < n" "n < 2 ^ 64"
  shows "I (so_data s) \<Longrightarrow> so_rc s = EXIT_SUCCESS \<Longrightarrow>
    I (so_data (sort_loop p mem verify n flags s)) \<and> so_rc (sort_loop p mem verify n flags s) = EXIT_SUCCESS"
proof (induction "length flags" arbitrary: flags s rule: less_induct)
  case less
  obtain going flags1 s1 where r: "run_round p mem verify n (plan_round p) flags s = (going, flags1, s1)"
    by (metis prod.exhaust)
  have 1: "I (so_data s1) \<and> so_rc s1 = EXIT_SUCCESS"
    by (rule round_keeps [where I = I, OF len shuffle mangle fwd rev n less.prems r])
  obtain again flags2 where f: "next_flag flags1 = (again, flags2)" by force
  let ?s = "s1\<lparr>so_bogo := so_bogo s1 + 1\<rparr>"
  have loop: "sort_loop p mem verify n flags s = (if going then if again then sort_loop p mem verify n flags2 ?s else ?s else s1)"
    using r f 1 by (subst sort_loop.simps) (simp add: Let_def)
  show ?case
  proof (cases "going \<and> again")
    case True
    then have "length flags2 < length flags" using next_flag_length [OF f] run_round_flags [OF r] by simp
    then show ?thesis using loop True less.hyps [of flags2 ?s] 1 by simp
  next
    case False
    then show ?thesis using loop 1 by (auto split: if_splits)
  qed
qed

lemma no_false_alarm:
  assumes n: "0 < n" "n < 2 ^ 64" "n \<le> length xs" and s: "so_data s = xs" "so_rc s = EXIT_SUCCESS"
  shows "same_numbers n xs (so_data (sort_loop p (\<lambda>_ xs. xs) verify n flags s)) \<and>
    so_rc (sort_loop p (\<lambda>_ xs. xs) verify n flags s) = EXIT_SUCCESS"
proof (rule loop_keeps [OF _ _ _ _ _ n(1,2)])
  have len: "n \<le> length ys" if "same_numbers n xs ys" for ys using that n(3) by (simp add: same_numbers_def)
  then show "n \<le> length ys" if "same_numbers n xs ys" for ys using that by blast
  show "same_numbers n xs zs" if "same_numbers n xs ys" "rearranged n ys zs" for ys zs
    using that by (rule same_rearranged)
  show "same_numbers n xs (stress_sort_data_int32_mangle (take n ys) @ drop n ys)" if "same_numbers n xs ys" for ys
    using that n(3) by (rule same_mangled)
  show "same_numbers n xs (snd (plan_fwd p n ys)) \<and> in_order (>) n (snd (plan_fwd p n ys))" if "same_numbers n xs ys" for ys
    using fwd_in_order [OF n(1) len [OF that]] same_rearranged [OF that fwd_keeps [OF n(1) len [OF that]]] by blast
  show "same_numbers n xs (snd (plan_rev p n ys)) \<and> in_order (<) n (snd (plan_rev p n ys))" if "same_numbers n xs ys" for ys
    using rev_in_order [OF n(1) len [OF that]] same_rearranged [OF that rev_keeps [OF n(1) len [OF that]]] by blast
qed (use s in \<open>simp_all add: same_numbers_def\<close>)

text \<open>Memory that loses all the data but one number, in every element, is never noticed.\<close>

lemma constant_memory:
  assumes n: "0 < n" "n < 2 ^ 64" "n \<le> length (so_data s)" and s: "so_rc s = EXIT_SUCCESS"
  shows "so_rc (sort_loop p (\<lambda>k xs. map (\<lambda>_. c k) xs) verify n flags s) = EXIT_SUCCESS"
proof -
  have order: "in_order over n (map (\<lambda>_. x) ys)" if "n \<le> length ys" "\<And>i. \<not> over i i" for over x and ys :: "i32 list"
    using that by (simp add: in_order_def list_all_iff)
  have "n \<le> length (so_data (sort_loop p (\<lambda>k xs. map (\<lambda>_. c k) xs) verify n flags s)) \<and>
    so_rc (sort_loop p (\<lambda>k xs. map (\<lambda>_. c k) xs) verify n flags s) = EXIT_SUCCESS"
  proof (rule loop_keeps [where I = "\<lambda>ys. n \<le> length ys", OF _ _ _ _ _ n(1,2)])
    show "n \<le> length zs" if "n \<le> length ys" "rearranged n ys zs" for ys zs :: "i32 list"
      using that by (simp add: rearranged_length)
    show "n \<le> length (map (\<lambda>_. c k) (snd (plan_fwd p n ys))) \<and> in_order (>) n (map (\<lambda>_. c k) (snd (plan_fwd p n ys)))"
      if "n \<le> length ys" for k ys
      using rearranged_length [OF fwd_keeps [OF n(1) that]] that by (intro conjI order) simp_all
    show "n \<le> length (map (\<lambda>_. c k) (snd (plan_rev p n ys))) \<and> in_order (<) n (map (\<lambda>_. c k) (snd (plan_rev p n ys)))"
      if "n \<le> length ys" for k ys
      using rearranged_length [OF rev_keeps [OF n(1) that]] that by (intro conjI order) simp_all
  qed (use n s in simp_all)
  then show ?thesis by blast
qed

lemma keys:
  assumes "0 < n" "n \<le> length xs"
  shows "take n (snd (plan_fwd p n xs)) = sort_key sint (take n xs)"
    "take n (snd (plan_rev p n xs)) = sort_key (\<lambda>x. - sint x) (take n xs)"
  using assms by (auto simp: cmp_signed inj_def intro: signed_word_eqI intro!: sorter.srt_key [OF fwd_sorts] sorter.srt_key [OF rev_sorts])

end

text \<open>Each of the stressors does.\<close>

interpretation run_insertion: sort_stressor stress_insertionsort
  by (simp add: sort_stressor_def stress_insertionsort_def insertion_fwd.sorter_axioms insertion_rev.sorter_axioms)

interpretation run_shell: sort_stressor stress_shellsort
  by (simp add: sort_stressor_def stress_shellsort_def shell_fwd.sorter_axioms shell_rev.sorter_axioms)

interpretation run_bubble: sort_stressor "stress_bubblesort Bubblesort_Fast"
  by (simp add: sort_stressor_def stress_bubblesort_def bubble_fwd.sorter_axioms bubble_rev.sorter_axioms) (simp add: bubblesort_fast_def)

interpretation run_naive: sort_stressor "stress_bubblesort Bubblesort_Naive"
  by (simp add: sort_stressor_def stress_bubblesort_def naive_fwd.sorter_axioms naive_rev.sorter_axioms) (simp add: bubblesort_naive_def)

interpretation run_heap: sort_stressor stress_heapsort
  by (simp add: sort_stressor_def stress_heapsort_def heap_fwd.sorter_axioms heap_rev.sorter_axioms) (simp add: heapsort_nonlibc_def)

interpretation run_merge: sort_stressor "stress_mergesort True"
  by (simp add: sort_stressor_def stress_mergesort_def merge_fwd.sorter_axioms merge_rev.sorter_axioms) (simp add: mergesort_nonlibc_def)

interpretation run_qsort: sort_stressor stress_qsort
  by (simp add: sort_stressor_def stress_qsort_def qsort_fwd.sorter_axioms qsort_rev.sorter_axioms)

lemma sort_stressors_ok: "p \<in> set sort_stressors \<Longrightarrow> sort_stressor p"
  unfolding sort_stressors_def
  using run_insertion.sort_stressor_axioms run_shell.sort_stressor_axioms run_bubble.sort_stressor_axioms
    run_naive.sort_stressor_axioms run_heap.sort_stressor_axioms run_merge.sort_stressor_axioms run_qsort.sort_stressor_axioms
  by auto

lemma init_length: "n \<le> length (fst (stress_sort_data_int32_init n m))"
  by (simp add: length_init)

text \<open>
  C7: With memory that keeps what is stored no sort stressor (insertion, shell, bubble in both methods,
  heap, merge, quicksort) ever reports a failure, however long it runs, whenever it is told to stop and
  whatever the random numbers are; and its array then holds exactly the numbers it started with, or all
  of them mangled.
\<close>

theorem sort_stressors_no_false_alarm:
  assumes "p \<in> set sort_stressors" "0 < n" "n < 2 ^ 64"
  shows "let s = stress_sort p (\<lambda>_ xs. xs) verify n flags m; xs = fst (stress_sort_data_int32_init n m)
         in so_rc s = EXIT_SUCCESS \<and>
            (mset (take n (so_data s)) = mset (take n xs) \<or>
             mset (take n (so_data s)) = mset (stress_sort_data_int32_mangle (take n xs)))"
proof -
  note ok = sort_stressors_ok [OF assms(1)]
  let ?s = "stress_sort p (\<lambda>_ xs. xs) verify n flags m"
  have "sort_stressor.same_numbers n (fst (stress_sort_data_int32_init n m)) (so_data ?s) \<and> so_rc ?s = EXIT_SUCCESS"
    unfolding stress_sort_def case_prod_beta Let_def
    using assms(2,3) init_length by (intro sort_stressor.no_false_alarm [OF ok]) simp_all
  then show ?thesis by (simp add: sort_stressor.same_numbers_def [OF ok] Let_def)
qed

lemma sort_stressors_no_false_alarm_witness:
  "let s = stress_sort stress_qsort (\<lambda>_ xs. xs) True 1024 [True, True, True, True] mwc_initial;
       xs = fst (stress_sort_data_int32_init 1024 mwc_initial)
   in so_rc s = EXIT_SUCCESS \<and>
      (mset (take 1024 (so_data s)) = mset (take 1024 xs) \<or>
       mset (take 1024 (so_data s)) = mset (stress_sort_data_int32_mangle (take 1024 xs)))"
  by (rule sort_stressors_no_false_alarm) (simp_all add: sort_stressors_def)

text \<open>
  C12: The sorts of all the stressors compute the same: the first \<open>n\<close> elements in ascending and in
  descending order of their signed values, as the sort of the library does.
\<close>

theorem sorts_agree:
  assumes "p \<in> set sort_stressors" "0 < n" "n \<le> length xs"
  shows "take n (snd (plan_fwd p n xs)) = sort_key sint (take n xs)
    \<and> take n (snd (plan_rev p n xs)) = sort_key (\<lambda>x. - sint x) (take n xs)
    \<and> drop n (snd (plan_fwd p n xs)) = drop n xs \<and> drop n (snd (plan_rev p n xs)) = drop n xs"
  using sort_stressor.keys [OF sort_stressors_ok [OF assms(1)] assms(2,3)]
    sort_stressor.fwd_keeps [OF sort_stressors_ok [OF assms(1)] assms(2,3)]
    sort_stressor.rev_keeps [OF sort_stressors_ok [OF assms(1)] assms(2,3)]
  by (simp_all add: rearranged_def)

lemma sorts_agree_witness:
  "take 2 (snd (plan_fwd stress_heapsort 2 [7, 5, 3])) = sort_key sint (take 2 [7, 5, 3])"
  using sorts_agree [of stress_heapsort 2 "[7, 5, 3]"] by (simp add: sort_stressors_def)

text \<open>
  C26: The verification looks at the order only: memory that loses all the data and holds one and the
  same number in every element after each sort is never reported, by any of the stressors, whether the
  sorts are verified or not.
\<close>

theorem lost_data_not_noticed:
  assumes "p \<in> set sort_stressors" "0 < n" "n < 2 ^ 64"
  shows "so_rc (stress_sort p (\<lambda>k xs. map (\<lambda>_. c k) xs) verify n flags m) = EXIT_SUCCESS"
  unfolding stress_sort_def case_prod_beta Let_def
  using assms(2,3) init_length by (intro sort_stressor.constant_memory [OF sort_stressors_ok [OF assms(1)]]) simp_all

lemma lost_data_not_noticed_witness:
  "so_rc (stress_sort (stress_mergesort True) (\<lambda>k xs. map (\<lambda>_. 0) xs) True 1024 [True, True, True] mwc_initial) = EXIT_SUCCESS"
  by (rule lost_data_not_noticed) (simp_all add: sort_stressors_def)

section \<open>Disorder is reported\<close>

text \<open>A failure is never taken back.\<close>

lemma phase_failure: "so_rc s = EXIT_FAILURE \<Longrightarrow> sort_phase p mem n srt over verify s = (going, s') \<Longrightarrow> so_rc s' = EXIT_FAILURE"
  by (auto simp: sort_phase_def Let_def case_prod_beta split: if_splits)

lemma round_failure:
  "so_rc s = EXIT_FAILURE \<Longrightarrow> run_round p mem verify n acts flags s = (going, flags', s') \<Longrightarrow> so_rc s' = EXIT_FAILURE"
proof (induction p mem verify n acts flags s rule: run_round.induct)
  case (4 p mem verify n checked acts flags s)
  then show ?case by (auto split: prod.splits if_splits dest: phase_failure)
next
  case (5 p mem verify n checked acts flags s)
  then show ?case by (auto split: prod.splits if_splits dest: phase_failure)
qed (auto simp: Let_def split: prod.splits if_splits)

lemma loop_failure: "so_rc s = EXIT_FAILURE \<Longrightarrow> so_rc (sort_loop p mem verify n flags s) = EXIT_FAILURE"
proof (induction "length flags" arbitrary: flags s rule: less_induct)
  case less
  obtain going flags1 s1 where r: "run_round p mem verify n (plan_round p) flags s = (going, flags1, s1)"
    by (metis prod.exhaust)
  then have 1: "so_rc s1 = EXIT_FAILURE" using round_failure [OF less.prems] by blast
  obtain again flags2 where f: "next_flag flags1 = (again, flags2)" by force
  show ?case
  proof (cases "going \<and> again \<and> \<not> plan_checks_rc p")
    case True
    then have "length flags2 < length flags" using next_flag_length [OF f] run_round_flags [OF r] by simp
    then show ?thesis
      using less.hyps [of flags2 "s1\<lparr>so_bogo := so_bogo s1 + 1\<rparr>"] True r f 1 by (subst sort_loop.simps) (simp add: Let_def)
  next
    case False
    then show ?thesis using r f 1 by (subst sort_loop.simps) (auto simp: Let_def)
  qed
qed

text \<open>A round that fails makes the stressor fail.\<close>

lemma loop_fails:
  assumes "run_round p mem verify n (plan_round p) flags s = (going, flags', s')" "so_rc s' = EXIT_FAILURE"
  shows "so_rc (sort_loop p mem verify n flags s) = EXIT_FAILURE"
  using assms loop_failure [of "s'\<lparr>so_bogo := so_bogo s' + 1\<rparr>"]
  by (subst sort_loop.simps) (auto simp: Let_def case_prod_beta)

text \<open>
  C25: What the verification does look at it sees: when memory spoils the first sort so that two
  neighbours are out of order, each of the stressors ends with a failure under \<open>--verify\<close>, whatever happens
  afterwards.
\<close>

theorem disorder_is_reported:
  assumes "p \<in> set sort_stressors" "0 < n" "n < 2 ^ 64" "Suc i < n"
    and "let (xs, m) = stress_sort_data_int32_init n m; ys = fst (stress_sort_data_int32_shuffle n xs m);
             zs = mem 0 (snd (plan_fwd p n ys))
         in sint (zs ! i) > sint (zs ! Suc i)"
  shows "so_rc (stress_sort p mem True n flags m) = EXIT_FAILURE"
proof -
  let ?i = "stress_sort_data_int32_init n m"
  let ?sh = "stress_sort_data_int32_shuffle n (fst ?i) (snd ?i)"
  let ?zs = "mem 0 (snd (plan_fwd p n (fst ?sh)))"
  let ?s = "\<lparr>so_data = fst ?i, so_mwc = snd ?i, so_rc = EXIT_SUCCESS, so_bogo = 0, so_sorts = 0\<rparr>"
  have "\<not> in_order (>) n ?zs"
    using assms(4,5) by (auto simp: in_order_def list_all_iff case_prod_beta Let_def)
  moreover have "fst (plan_fwd p n (fst ?sh)) = 0"
    using assms(2,3) init_length [of n m] rearranged_length [OF shuffle_rearranged, of n "fst ?i"]
    by (intro sort_stressor.fwd_ok [OF sort_stressors_ok [OF assms(1)]]) simp_all
  ultimately have phase: "\<exists>going. sort_phase p mem n (plan_fwd p) (>) True (?s\<lparr>so_data := fst ?sh, so_mwc := snd ?sh\<rparr>) =
      (going, \<lparr>so_data = ?zs, so_mwc = snd ?sh, so_rc = EXIT_FAILURE, so_bogo = 0, so_sorts = 1\<rparr>)"
    by (simp add: sort_phase_def case_prod_beta Let_def)
  obtain acts where "plan_round p = Shuffle # Sort_Fwd True # acts"
    using assms(1) by (auto simp: sort_stressors_def stress_insertionsort_def stress_shellsort_def stress_bubblesort_def
      stress_heapsort_def stress_mergesort_def stress_qsort_def)
  then have "\<exists>going flags' s'. run_round p mem True n (plan_round p) flags ?s = (going, flags', s') \<and> so_rc s' = EXIT_FAILURE"
    using phase round_failure [of "\<lparr>so_data = ?zs, so_mwc = snd ?sh, so_rc = EXIT_FAILURE, so_bogo = 0, so_sorts = 1\<rparr>" p mem True n acts flags]
    by (cases "run_round p mem True n acts flags \<lparr>so_data = ?zs, so_mwc = snd ?sh, so_rc = EXIT_FAILURE, so_bogo = 0, so_sorts = 1\<rparr>")
      (auto simp: case_prod_beta Let_def)
  then show ?thesis
    unfolding stress_sort_def case_prod_beta Let_def using loop_fails by blast
qed

lemma disorder_is_reported_witness:
  "so_rc (stress_sort stress_shellsort (\<lambda>k xs. [1, 0]) True 2 [True] mwc_initial) = EXIT_FAILURE"
  by (rule disorder_is_reported [of _ _ 0]) (simp_all add: sort_stressors_def case_prod_beta Let_def)

end
