(* ===== verification/Sort_Search.thy ===== *)
theory Sort_Search
  imports Sort_Data
begin

text \<open>
  The binary searches (src/stress-bsearch.c) and the linear searches (src/stress-lsearch.c).  A pointer
  into the array is an index, and \<open>NULL\<close> is \<open>None\<close>.
\<close>

section \<open>Binary search\<close>

function bsearch_loop :: "('a \<Rightarrow> 'a \<Rightarrow> int) \<Rightarrow> 'a \<Rightarrow> 'a list \<Rightarrow> nat \<Rightarrow> nat \<Rightarrow> nat option" where
  "bsearch_loop compare key base lower upper =
     (if lower < upper
      then let idx = (lower + upper) div 2; cmp = compare key (base ! idx)
           in if cmp < 0 then bsearch_loop compare key base lower idx
              else if cmp > 0 then bsearch_loop compare key base (idx + 1) upper
              else Some idx
      else None)"
  by pat_completeness auto
termination by (relation "measure (\<lambda>(_, _, _, lower, upper). upper - lower)") auto

definition bsearch_nonlibc :: "('a \<Rightarrow> 'a \<Rightarrow> int) \<Rightarrow> 'a \<Rightarrow> 'a list \<Rightarrow> nat \<Rightarrow> nat option" where
  "bsearch_nonlibc compare key base nmemb = bsearch_loop compare key base 0 nmemb"

text \<open>
  The ternary search may read outside the array; that is the end of what is known, as is \<open>upper\<close>
  wrapping around below zero, after which the next index is a third of all there are.
\<close>

datatype searched = Found nat | Missing | Out_Of_Bounds nat

lemma thirds:
  fixes lower upper :: nat
  shows "lower \<le> upper \<Longrightarrow> lower + (upper - lower) div 3 \<le> upper" "lower \<le> upper \<Longrightarrow> lower \<le> upper - (upper - lower) div 3"
  using div_le_dividend [of "upper - lower" 3] by linarith+

function bsearch_ternary_loop :: "('a \<Rightarrow> 'a \<Rightarrow> int) \<Rightarrow> 'a \<Rightarrow> 'a list \<Rightarrow> nat \<Rightarrow> nat \<Rightarrow> searched" where
  "bsearch_ternary_loop compare key base lower upper =
     (if lower \<le> upper
      then let diff = upper - lower; mid1 = lower + diff div 3; mid2 = upper - diff div 3;
               cmp1 = compare key (base ! mid1); cmp2 = compare key (base ! mid2)
           in if length base \<le> mid1 then Out_Of_Bounds mid1
              else if cmp1 = 0 then Found mid1
              else if length base \<le> mid2 then Out_Of_Bounds mid2
              else if cmp2 = 0 then Found mid2
              else if cmp1 < 0 then (if mid1 = 0 then Out_Of_Bounds ((2 ^ 64 - 1) div 3) else bsearch_ternary_loop compare key base lower (mid1 - 1))
              else if cmp2 > 0 then bsearch_ternary_loop compare key base (mid2 + 1) upper
              else bsearch_ternary_loop compare key base (mid1 + 1) (mid2 - 1)
      else Missing)"
  by pat_completeness auto
termination
proof (relation "measure (\<lambda>(_, _, _, lower, upper). Suc upper - lower)", goal_cases)
  case (2 compare key base lower upper diff mid1 mid2 cmp1 cmp2)
  have "0 < mid1" using 2(12) by simp
  moreover have "lower \<le> mid1" "mid1 \<le> upper" using 2(1) thirds(1) [of lower upper] unfolding 2(2,3) by simp_all
  ultimately have "Suc (mid1 - 1) - lower < Suc upper - lower" by linarith
  then show ?case by simp
next
  case (3 compare key base lower upper diff mid1 mid2 cmp1 cmp2)
  have "lower \<le> mid2" using 3(1) thirds(2) [of lower upper] unfolding 3(2,4) by simp
  then have "Suc upper - (mid2 + 1) < Suc upper - lower" using 3(1) by linarith
  then show ?case by simp
next
  case (4 compare key base lower upper diff mid1 mid2 cmp1 cmp2)
  have "lower \<le> mid1" "mid2 \<le> upper" unfolding 4(2-4) by simp_all
  then have "Suc (mid2 - 1) - (mid1 + 1) < Suc upper - lower" using 4(1) by linarith
  then show ?case by simp
qed simp

declare bsearch_loop.simps [simp del] bsearch_ternary_loop.simps [simp del]

definition bsearch_ternary :: "('a \<Rightarrow> 'a \<Rightarrow> int) \<Rightarrow> 'a \<Rightarrow> 'a list \<Rightarrow> nat \<Rightarrow> searched" where
  "bsearch_ternary compare key base nmemb = bsearch_ternary_loop compare key base 0 nmemb"

text \<open>
  The loop over the keys of one round under \<open>--verify\<close>: the numbers of the elements reported, and the
  result.  A key that is not found is reported, but only a wrong one makes the result a failure.
\<close>

fun bsearch_round :: "(i32 \<Rightarrow> nat option) \<Rightarrow> i32 list \<Rightarrow> nat list \<Rightarrow> nat list \<times> int" where
  "bsearch_round search data [] = ([], EXIT_SUCCESS)"
| "bsearch_round search data (i # is) =
     (case search (data ! i) of
        None \<Rightarrow> let (fails, rc) = bsearch_round search data is in (i # fails, rc)
      | Some j \<Rightarrow> if data ! j \<noteq> data ! i then ([i], EXIT_FAILURE) else bsearch_round search data is)"

section \<open>Linear search\<close>

function lfind_scan :: "('a \<Rightarrow> 'a \<Rightarrow> int) \<Rightarrow> 'a \<Rightarrow> 'a list \<Rightarrow> nat \<Rightarrow> nat \<Rightarrow> nat" where
  "lfind_scan compare key base nmemb i =
     (if i < nmemb \<and> compare key (base ! i) \<noteq> 0 then lfind_scan compare key base nmemb (i + 1) else i)"
  by pat_completeness auto
termination by (relation "measure (\<lambda>(_, _, _, nmemb, i). nmemb - i)") auto

definition lfind_nonlibc :: "('a \<Rightarrow> 'a \<Rightarrow> int) \<Rightarrow> 'a \<Rightarrow> 'a list \<Rightarrow> nat \<Rightarrow> nat option" where
  "lfind_nonlibc compare key base nmemb =
     (let i = lfind_scan compare key base nmemb 0 in if i < nmemb then Some i else None)"

text \<open>The loop with the sentinel has no bound of its own; it is given that of the array.\<close>

function sentinel_scan :: "('a \<Rightarrow> 'a \<Rightarrow> int) \<Rightarrow> 'a \<Rightarrow> 'a list \<Rightarrow> nat \<Rightarrow> nat" where
  "sentinel_scan compare key base ptr =
     (if ptr < length base \<and> compare (base ! ptr) key \<noteq> 0 then sentinel_scan compare key base (ptr + 1) else ptr)"
  by pat_completeness auto
termination by (relation "measure (\<lambda>(_, _, base, ptr). length base - ptr)") auto

declare lfind_scan.simps [simp del] sentinel_scan.simps [simp del]

definition lfind_sentinel :: "('a \<Rightarrow> 'a \<Rightarrow> int) \<Rightarrow> 'a \<Rightarrow> 'a list \<Rightarrow> nat \<Rightarrow> nat option \<times> 'a list" where
  "lfind_sentinel compare key base nmemb =
     (if nmemb < 1 then (None, base)
      else let ptr_end = nmemb - 1; tmp = base ! ptr_end; base = base[ptr_end := key];
               ptr = sentinel_scan compare key base 0; base = base[ptr_end := tmp]
           in (if ptr < ptr_end \<or> compare (base ! ptr_end) key = 0 then Some ptr else None, base))"

datatype lsearch_method = Lsearch_Nonlibc | Lsearch_Sentinel

primrec lfind_func :: "lsearch_method \<Rightarrow> ('a \<Rightarrow> 'a \<Rightarrow> int) \<Rightarrow> 'a \<Rightarrow> 'a list \<Rightarrow> nat \<Rightarrow> nat option \<times> 'a list" where
  "lfind_func Lsearch_Nonlibc compare key base nmemb = (lfind_nonlibc compare key base nmemb, base)"
| "lfind_func Lsearch_Sentinel compare key base nmemb = lfind_sentinel compare key base nmemb"

text \<open>A key that is not there is appended; \<open>None\<close> is a write beyond the array.\<close>

definition lsearch_func :: "lsearch_method \<Rightarrow> ('a \<Rightarrow> 'a \<Rightarrow> int) \<Rightarrow> 'a \<Rightarrow> 'a list \<Rightarrow> nat \<Rightarrow> (nat \<times> nat \<times> 'a list) option" where
  "lsearch_func meth compare key base nmemb =
     (case lfind_func meth compare key base nmemb of
        (Some i, base) \<Rightarrow> Some (i, nmemb, base)
      | (None, base) \<Rightarrow> if nmemb < length base then Some (nmemb, nmemb + 1, base[nmemb := key]) else None)"

definition stress_lsearch_cmp_int32 :: "i32 \<Rightarrow> i32 \<Rightarrow> int" where
  "stress_lsearch_cmp_int32 v1 v2 = of_bool (v1 \<noteq> v2)"

text \<open>
  The two loops of a round over the numbers \<open>is\<close>: \<open>*nmemb\<close> and \<open>root\<close> are the state.  The second one has as
  result the numbers of the elements that it reports, and \<open>root\<close>, which the sentinel search writes to.
\<close>

primrec lsearch_populate :: "lsearch_method \<Rightarrow> i32 list \<Rightarrow> nat list \<Rightarrow> nat \<times> i32 list \<Rightarrow> (nat \<times> i32 list) option" where
  "lsearch_populate meth data [] s = Some s"
| "lsearch_populate meth data (i # is) s =
     (case lsearch_func meth stress_lsearch_cmp_int32 (data ! i) (snd s) (fst s) of
        None \<Rightarrow> None | Some (_, n, root) \<Rightarrow> lsearch_populate meth data is (n, root))"

primrec lsearch_verify :: "lsearch_method \<Rightarrow> bool \<Rightarrow> i32 list \<Rightarrow> nat list \<Rightarrow> nat \<times> i32 list \<Rightarrow> nat list \<times> i32 list" where
  "lsearch_verify meth verify data [] s = ([], snd s)"
| "lsearch_verify meth verify data (i # is) s =
     (let (result, root) = lfind_func meth stress_lsearch_cmp_int32 (data ! i) (snd s) (fst s);
          wrong = (case result of None \<Rightarrow> True | Some j \<Rightarrow> root ! j \<noteq> data ! i);
          (fails, root) = lsearch_verify meth verify data is (fst s, root)
      in (if verify \<and> wrong then i # fails else fails, root))"

record lsearch_state =
  ls_data :: "i32 list"
  ls_root :: "i32 list"
  ls_mwc :: mwc
  ls_fails :: "nat list"    \<comment> \<open>the elements reported\<close>
  ls_rc :: int
  ls_bogo :: nat

text \<open>
  A round, in which the flag ends the two loops after \<open>fst kl\<close> and \<open>snd kl\<close> elements, if there are that
  many; then the rounds that stress_continue grants.
\<close>

definition lsearch_round :: "lsearch_method \<Rightarrow> bool \<Rightarrow> nat \<Rightarrow> nat \<times> nat \<Rightarrow> lsearch_state \<Rightarrow> lsearch_state option" where
  "lsearch_round meth verify max_n kl st =
     (let (data, m) = stress_sort_data_int32_shuffle max_n (ls_data st) (ls_mwc st)
      in case lsearch_populate meth data [0..<min (fst kl) max_n] (0, ls_root st) of
           None \<Rightarrow> None
         | Some (n, root) \<Rightarrow>
             let (fails, root) = lsearch_verify meth verify data [0..<min (snd kl) (min n max_n)] (n, root)
             in Some (st\<lparr>ls_data := data, ls_root := root, ls_mwc := m, ls_fails := ls_fails st @ fails,
                  ls_rc := (if fails = [] then ls_rc st else EXIT_FAILURE), ls_bogo := ls_bogo st + 1\<rparr>))"

primrec lsearch_rounds :: "lsearch_method \<Rightarrow> bool \<Rightarrow> nat \<Rightarrow> (nat \<times> nat) list \<Rightarrow> lsearch_state \<Rightarrow> lsearch_state option" where
  "lsearch_rounds meth verify max_n [] st = Some st"
| "lsearch_rounds meth verify max_n (kl # kls) st =
     (case lsearch_round meth verify max_n kl st of None \<Rightarrow> None | Some st \<Rightarrow> lsearch_rounds meth verify max_n kls st)"

definition MIN_LSEARCH_SIZE :: u64 where "MIN_LSEARCH_SIZE = 1024"
definition MAX_LSEARCH_SIZE :: u64 where "MAX_LSEARCH_SIZE = 67108864"
definition DEFAULT_LSEARCH_SIZE :: u64 where "DEFAULT_LSEARCH_SIZE = 8192"

definition lsearch_size :: "u64 option \<Rightarrow> bool \<Rightarrow> bool \<Rightarrow> u64" where
  "lsearch_size opt maximize minimize =
     (case opt of
        Some n \<Rightarrow> n
      | None \<Rightarrow> if minimize then MIN_LSEARCH_SIZE else if maximize then MAX_LSEARCH_SIZE else DEFAULT_LSEARCH_SIZE)"

text \<open>
  The whole stressor but its metrics; \<open>opt\<close> is the value of the option lsearch-size if it is set, \<open>data_ok\<close> and \<open>root_ok\<close> are
  whether the two calls of calloc succeed.  The arrays have \<open>max_n\<close> elements, all zero, and the numbers
  that the initialisation writes must fit: \<open>None\<close> is a write beyond one of the arrays.  The loop makes the
  round \<open>kl\<close> before it asks whether to go on.
\<close>

definition stress_lsearch ::
    "lsearch_method \<Rightarrow> u64 option \<Rightarrow> bool \<Rightarrow> bool \<Rightarrow> bool \<Rightarrow> bool \<Rightarrow> bool \<Rightarrow> nat \<times> nat \<Rightarrow> (nat \<times> nat) list \<Rightarrow> mwc \<Rightarrow> lsearch_state option" where
  "stress_lsearch meth opt maximize minimize verify data_ok root_ok kl kls m =
     (let max_n = unat (lsearch_size opt maximize minimize);
          st = \<lparr>ls_data = [], ls_root = [], ls_mwc = m, ls_fails = [], ls_rc = EXIT_SUCCESS, ls_bogo = 0\<rparr>
      in if \<not> data_ok then Some (st\<lparr>ls_rc := EXIT_NO_RESOURCE\<rparr>)
         else if \<not> root_ok then Some (st\<lparr>ls_rc := EXIT_NO_RESOURCE\<rparr>)
         else let (ws, m) = stress_sort_data_int32_init max_n m
              in if max_n < length ws then None
                 else lsearch_rounds meth verify max_n (kl # kls)
                   (st\<lparr>ls_data := ws @ drop (length ws) (replicate max_n 0), ls_root := replicate max_n 0, ls_mwc := m\<rparr>))"

section \<open>The binary searches find\<close>

context comparison
begin

lemma bsearch_loop_found:
  "bsearch_loop cmp key base lower upper = Some i \<Longrightarrow> lower \<le> i \<and> i < upper \<and> cmp key (base ! i) = 0"
proof (induction "upper - lower" arbitrary: lower upper rule: less_induct)
  case less
  let ?m = "(lower + upper) div 2"
  have m: "lower < upper" using less.prems by (subst (asm) bsearch_loop.simps) (simp split: if_splits)
  consider "cmp key (base ! ?m) < 0" | "cmp key (base ! ?m) > 0" | "cmp key (base ! ?m) = 0" by linarith
  then show ?case
  proof cases
    case 1
    then have "bsearch_loop cmp key base lower ?m = Some i"
      using less.prems m by (subst (asm) bsearch_loop.simps) (simp add: Let_def)
    moreover have "?m - lower < upper - lower" "?m < upper" using m by linarith+
    ultimately show ?thesis using less.hyps by fastforce
  next
    case 2
    then have "bsearch_loop cmp key base (?m + 1) upper = Some i"
      using less.prems m by (subst (asm) bsearch_loop.simps) (simp add: Let_def)
    moreover have "upper - (?m + 1) < upper - lower" "lower < ?m + 1" using m by linarith+
    ultimately show ?thesis using less.hyps by fastforce
  next
    case 3
    then have "i = ?m" using less.prems m by (subst (asm) bsearch_loop.simps) (simp add: Let_def)
    moreover have "lower \<le> ?m" "?m < upper" using m by linarith+
    ultimately show ?thesis using 3 by simp
  qed
qed

lemma bsearch_loop_none:
  assumes "ordered cmp (take n base)" "n \<le> length base"
  shows "upper \<le> n \<Longrightarrow> bsearch_loop cmp key base lower upper = None \<Longrightarrow> lower \<le> i \<Longrightarrow> i < upper \<Longrightarrow> cmp key (base ! i) \<noteq> 0"
proof (induction "upper - lower" arbitrary: lower upper rule: less_induct)
  case less
  let ?m = "(lower + upper) div 2"
  have m: "lower < upper" "lower \<le> ?m" "?m < upper" using less.prems(3,4) by linarith+
  have le: "cmp (base ! a) (base ! b) \<le> 0" if "a \<le> b" "b < upper" for a b
    using assms that less.prems(1) by (meson less_le_trans ordered_take)
  consider "cmp key (base ! ?m) < 0" "bsearch_loop cmp key base lower ?m = None"
    | "cmp key (base ! ?m) > 0" "bsearch_loop cmp key base (?m + 1) upper = None"
    using less.prems(2) m by (subst (asm) bsearch_loop.simps) (auto simp: Let_def split: if_splits)
  then show ?case
  proof cases
    case 1
    show ?thesis
    proof (cases "i < ?m")
      case True
      then show ?thesis using less.hyps [OF _ _ 1(2) less.prems(3)] m less.prems(1) by simp
    next
      case False
      then have "cmp (base ! ?m) (base ! i) \<le> 0" using less.prems(4) by (intro le) simp_all
      show ?thesis
      proof
        assume "cmp key (base ! i) = 0"
        then have "cmp (base ! i) key \<le> 0" using not_le [of "base ! i" key] by auto
        then have "cmp (base ! ?m) key \<le> 0" using trans \<open>cmp (base ! ?m) (base ! i) \<le> 0\<close> by blast
        then show False using 1(1) swap_sign [of key "base ! ?m"] by simp
      qed
    qed
  next
    case 2
    show ?thesis
    proof (cases "?m < i")
      case True
      then show ?thesis using less.hyps [OF _ less.prems(1) 2(2) _ less.prems(4)] m by simp
    next
      case False
      then have "cmp (base ! i) (base ! ?m) \<le> 0" using m by (intro le) simp_all
      then show ?thesis using 2(1) trans [of key "base ! i" "base ! ?m"] by auto
    qed
  qed
qed

end

lemma bsearch_finds:
  assumes "ordered stress_sort_cmp_fwd_int32 (take n base)" "n \<le> length base"
  shows "case bsearch_nonlibc stress_sort_cmp_fwd_int32 key base n of
      Some i \<Rightarrow> i < n \<and> base ! i = key
    | None \<Rightarrow> key \<notin> set (take n base)"
proof (cases "bsearch_nonlibc stress_sort_cmp_fwd_int32 key base n")
  case None
  then have "stress_sort_cmp_fwd_int32 key (base ! i) \<noteq> 0" if "i < n" for i
    using cmp_fwd.bsearch_loop_none [OF assms order_refl _ _ that] by (simp add: bsearch_nonlibc_def)
  then have "key \<noteq> base ! i" if "i < n" for i
    using that cmp_fwd.same by metis
  then have "key \<notin> set (take n base)" by (auto simp: in_set_conv_nth)
  then show ?thesis using None by simp
next
  case (Some i)
  then have "i < n" "stress_sort_cmp_fwd_int32 key (base ! i) = 0"
    using cmp_fwd.bsearch_loop_found [of key base 0 n i] by (simp_all add: bsearch_nonlibc_def)
  then show ?thesis using Some by (auto simp: stress_sort_cmp_fwd_int32_def split: if_splits intro: signed_word_eqI)
qed

lemma bsearch_round_clean:
  assumes "\<And>i. i \<in> set is \<Longrightarrow> \<exists>j. search (data ! i) = Some j \<and> data ! j = data ! i"
  shows "bsearch_round search data is = ([], EXIT_SUCCESS)"
  using assms
proof (induction "is")
  case (Cons i "is")
  then obtain j where "search (data ! i) = Some j" "data ! j = data ! i" by (meson list.set_intros(1))
  then show ?case using Cons by simp
qed simp

text \<open>
  On the data that the stressor searches, up to the largest size it allows, the binary search finds
  every element: no round reports anything.
\<close>

theorem bsearch_no_false_alarm:
  assumes "n \<le> 2 ^ 28 - 8"
  shows "let xs = fst (stress_sort_data_int32_init n m)
         in bsearch_round (\<lambda>key. bsearch_nonlibc stress_sort_cmp_fwd_int32 key xs n) xs [0..<n] = ([], EXIT_SUCCESS)"
proof -
  let ?xs = "fst (stress_sort_data_int32_init n m)"
  have len: "n \<le> length ?xs" by (simp add: length_init)
  have "sorted_wrt (\<lambda>x y. sint x < sint y) ?xs"
    using init_increasing(1) [OF assms, of m] by (simp add: sorted_wrt_map)
  then have "ordered stress_sort_cmp_fwd_int32 (take n ?xs)"
    unfolding ordered_def cmp_signed by (intro sorted_wrt_take) (auto intro: sorted_wrt_mono_rel [rotated])
  note finds = bsearch_finds [OF this len]
  have "bsearch_round (\<lambda>key. bsearch_nonlibc stress_sort_cmp_fwd_int32 key ?xs n) ?xs [0..<n] = ([], EXIT_SUCCESS)"
  proof (rule bsearch_round_clean)
    fix i assume "i \<in> set [0..<n]"
    then have "?xs ! i \<in> set (take n ?xs)" using len by (auto simp: in_set_conv_nth intro!: exI [of _ i])
    then show "\<exists>j. bsearch_nonlibc stress_sort_cmp_fwd_int32 (?xs ! i) ?xs n = Some j \<and> ?xs ! j = ?xs ! i"
      using finds [of "?xs ! i"] by (auto split: option.splits)
  qed
  then show ?thesis by (simp add: Let_def)
qed

lemma bsearch_no_false_alarm_witness:
  "let xs = fst (stress_sort_data_int32_init 1024 mwc_initial)
   in bsearch_round (\<lambda>key. bsearch_nonlibc stress_sort_cmp_fwd_int32 key xs 1024) xs [0..<1024] = ([], EXIT_SUCCESS)"
  by (rule bsearch_no_false_alarm) simp

text \<open>A key above both of the elements looked at moves the lower end up.\<close>

lemma ternary_up:
  assumes "lower \<le> upper" "upper - (upper - lower) div 3 < k" "k < length base" "\<And>i. i < k \<Longrightarrow> 0 < compare (base ! k) (base ! i)"
  shows "bsearch_ternary_loop compare (base ! k) base lower upper =
    bsearch_ternary_loop compare (base ! k) base (Suc (upper - (upper - lower) div 3)) upper"
proof -
  have "lower + (upper - lower) div 3 \<le> upper - (upper - lower) div 3"
    using assms(1) div_times_less_eq_dividend [of "upper - lower" 3] by linarith
  then have "lower + (upper - lower) div 3 < k" using assms(2) by linarith
  then show ?thesis
    using assms(1-3) assms(4) [of "lower + (upper - lower) div 3"] assms(4) [of "upper - (upper - lower) div 3"]
    by (subst bsearch_ternary_loop.simps) (simp add: Let_def)
qed

text \<open>
  C24: The ternary search treats the number of elements as the index of the last one: on the data of the
  smallest size allowed, 1024 elements that fill their page, the search for the last element reads the
  one after it.
\<close>

theorem bsearch_ternary_out_of_bounds:
  "let xs = fst (stress_sort_data_int32_init 1024 m)
   in length xs = 1024 \<and> bsearch_ternary stress_sort_cmp_fwd_int32 (xs ! 1023) xs 1024 = Out_Of_Bounds 1024"
proof -
  let ?xs = "fst (stress_sort_data_int32_init 1024 m)"
  have len: "length ?xs = 1024" by (simp add: length_init)
  have "sorted_wrt (\<lambda>x y. sint x < sint y) ?xs"
    using init_increasing(1) [of 1024 m] by (simp add: sorted_wrt_map)
  then have high: "0 < stress_sort_cmp_fwd_int32 (?xs ! 1023) (?xs ! i)" if "i < 1023" for i
    using that len by (simp add: sorted_wrt_iff_nth_less stress_sort_cmp_fwd_int32_def)
  have up: "bsearch_ternary_loop stress_sort_cmp_fwd_int32 (?xs ! 1023) ?xs lower 1024 =
      bsearch_ternary_loop stress_sort_cmp_fwd_int32 (?xs ! 1023) ?xs next 1024"
    if "lower \<le> 1024" "next = Suc (1024 - (1024 - lower) div 3)" "next \<le> 1023" for lower "next"
    using ternary_up [of lower 1024 1023 ?xs stress_sort_cmp_fwd_int32] high that len by simp
  have "bsearch_ternary stress_sort_cmp_fwd_int32 (?xs ! 1023) ?xs 1024 =
      bsearch_ternary_loop stress_sort_cmp_fwd_int32 (?xs ! 1023) ?xs 1022 1024"
    unfolding bsearch_ternary_def
    using up [of 0 684] up [of 684 912] up [of 912 988] up [of 988 1013] up [of 1013 1022] by simp
  also have "\<dots> = Out_Of_Bounds 1024"
    using high [of 1022] len by (subst bsearch_ternary_loop.simps) (simp add: Let_def)
  finally show ?thesis using len by (simp add: Let_def)
qed

section \<open>The linear searches find\<close>

text \<open>The first index, from \<open>i\<close> on, of an element equal to the key.\<close>

lemma lfind_scan_first:
  "i \<le> n \<Longrightarrow> i \<le> lfind_scan compare key base n i \<and> lfind_scan compare key base n i \<le> n \<and>
    (\<forall>j. i \<le> j \<longrightarrow> j < lfind_scan compare key base n i \<longrightarrow> compare key (base ! j) \<noteq> 0) \<and>
    (lfind_scan compare key base n i < n \<longrightarrow> compare key (base ! lfind_scan compare key base n i) = 0)"
proof (induction "n - i" arbitrary: i rule: less_induct)
  case less
  show ?case
  proof (cases "i < n \<and> compare key (base ! i) \<noteq> 0")
    case True
    then have "lfind_scan compare key base n i = lfind_scan compare key base n (i + 1)" by (subst lfind_scan.simps) simp
    moreover have h: "i + 1 \<le> lfind_scan compare key base n (i + 1) \<and> lfind_scan compare key base n (i + 1) \<le> n \<and>
      (\<forall>j. i + 1 \<le> j \<longrightarrow> j < lfind_scan compare key base n (i + 1) \<longrightarrow> compare key (base ! j) \<noteq> 0) \<and>
      (lfind_scan compare key base n (i + 1) < n \<longrightarrow> compare key (base ! lfind_scan compare key base n (i + 1)) = 0)"
      using True by (intro less.hyps) auto
    moreover have "compare key (base ! j) \<noteq> 0" if "i \<le> j" "j < lfind_scan compare key base n (i + 1)" for j
      using that True h by (cases "j = i") simp_all
    moreover have "i \<le> lfind_scan compare key base n (i + 1)" using h by linarith
    ultimately show ?thesis by metis
  next
    case False
    then have "lfind_scan compare key base n i = i" by (subst lfind_scan.simps) auto
    then show ?thesis using False less.prems by auto
  qed
qed

text \<open>With the sentinel in the last place the search without a bound does what the other does before it.\<close>

lemma sentinel_scan_lfind:
  assumes "\<And>x y. compare x y = 0 \<longleftrightarrow> compare y x = 0" "compare key key = 0" "e < length base"
  shows "i \<le> e \<Longrightarrow> sentinel_scan compare key (base[e := key]) i = lfind_scan compare key base e i"
proof (induction "e - i" arbitrary: i rule: less_induct)
  case less
  show ?case
  proof (cases "i < e \<and> compare key (base ! i) \<noteq> 0")
    case True
    then have "sentinel_scan compare key (base[e := key]) (i + 1) = lfind_scan compare key base e (i + 1)"
      using True by (intro less.hyps) auto
    then show ?thesis
      using True assms(1) [of key "base ! i"] assms(3) by (subst lfind_scan.simps, subst sentinel_scan.simps) simp
  next
    case False
    then show ?thesis
      using less.prems assms(1) [of key "base ! i"] assms(2,3)
      by (cases "i = e") (subst lfind_scan.simps, subst sentinel_scan.simps, simp)+
  qed
qed

lemma lfind_sentinel_nonlibc:
  assumes "\<And>x y. compare x y = 0 \<longleftrightarrow> compare y x = 0" "compare key key = 0" "n \<le> length base"
  shows "lfind_sentinel compare key base n = (lfind_nonlibc compare key base n, base)"
proof (cases "n = 0")
  case True
  then show ?thesis by (simp add: lfind_sentinel_def lfind_nonlibc_def Let_def)
next
  case False
  then obtain e where e: "n = Suc e" by (cases n) simp_all
  let ?i = "lfind_scan compare key base e 0"
  have scan: "sentinel_scan compare key (base[e := key]) 0 = ?i"
    using assms e by (intro sentinel_scan_lfind) simp_all
  have i: "?i \<le> e" "\<forall>j < ?i. compare key (base ! j) \<noteq> 0" "?i < e \<longrightarrow> compare key (base ! ?i) = 0"
    using lfind_scan_first [of 0 e compare key base] by simp_all
  have j: "lfind_scan compare key base n 0 \<le> n" "\<forall>j < lfind_scan compare key base n 0. compare key (base ! j) \<noteq> 0"
    "lfind_scan compare key base n 0 < n \<longrightarrow> compare key (base ! lfind_scan compare key base n 0) = 0"
    using lfind_scan_first [of 0 n compare key base] by simp_all
  have "(if ?i < e \<or> compare (base ! e) key = 0 then Some ?i else None) = lfind_nonlibc compare key base n"
  proof (cases "?i < e \<or> compare key (base ! e) = 0")
    case True
    then have "compare key (base ! ?i) = 0" using i by (cases "?i = e") simp_all
    moreover have "?i < n" using i(1) e by simp
    ultimately have "\<not> ?i < lfind_scan compare key base n 0" "\<not> lfind_scan compare key base n 0 < ?i"
      using i(2) j(2,3) by auto
    then have "lfind_scan compare key base n 0 = ?i" by simp
    then show ?thesis using True i(1) e assms(1) [of key "base ! e"] by (simp add: lfind_nonlibc_def Let_def)
  next
    case False
    then have "compare key (base ! k) \<noteq> 0" if "k < n" for k
      using that i e by (cases "k = e") (auto simp: less_Suc_eq)
    then have "lfind_scan compare key base n 0 = n" using j by (metis le_neq_implies_less)
    then show ?thesis using False e assms(1) [of key "base ! e"] by (simp add: lfind_nonlibc_def Let_def)
  qed
  moreover have "lfind_sentinel compare key base n = (if ?i < e \<or> compare (base ! e) key = 0 then Some ?i else None, base)"
    using e assms(3) scan by (simp add: lfind_sentinel_def Let_def)
  ultimately show ?thesis by simp
qed

lemma lsearch_cmp: "stress_lsearch_cmp_int32 x y = 0 \<longleftrightarrow> x = y"
  by (simp add: stress_lsearch_cmp_int32_def)

lemma lfind_func_nonlibc:
  "n \<le> length base \<Longrightarrow> lfind_func meth stress_lsearch_cmp_int32 key base n = (lfind_nonlibc stress_lsearch_cmp_int32 key base n, base)"
  by (cases meth) (auto simp: lsearch_cmp intro!: lfind_sentinel_nonlibc)

lemma lfind_nonlibc_int32:
  assumes "n \<le> length base"
  shows "case lfind_nonlibc stress_lsearch_cmp_int32 key base n of
    Some i \<Rightarrow> i < n \<and> base ! i = key | None \<Rightarrow> key \<notin> set (take n base)"
  using lfind_scan_first [of 0 n stress_lsearch_cmp_int32 key base] assms
  by (auto simp: lfind_nonlibc_def Let_def lsearch_cmp in_set_conv_nth)

lemma lsearch_populate_ok:
  "length data = length root \<Longrightarrow> distinct is \<Longrightarrow> set is \<subseteq> {..<length data} \<Longrightarrow> n + length is \<le> length root \<Longrightarrow>
   set (take n root) = S \<Longrightarrow>
   \<exists>n' root'. lsearch_populate meth data is (n, root) = Some (n', root') \<and> length root' = length root \<and>
     n' \<le> n + length is \<and> set (take n' root') = S \<union> (!) data ` set is"
proof (induction "is" arbitrary: n root S)
  case (Cons i "is")
  have n: "n < length root" using Cons.prems(4) by simp
  show ?case
  proof (cases "lfind_nonlibc stress_lsearch_cmp_int32 (data ! i) root n")
    case None
    then have "lsearch_func meth stress_lsearch_cmp_int32 (data ! i) root n = Some (n, n + 1, root[n := data ! i])"
      using n by (simp add: lsearch_func_def lfind_func_nonlibc)
    moreover have "set (take (n + 1) (root[n := data ! i])) = insert (data ! i) S"
      using n Cons.prems(5) by (simp add: take_Suc_conv_app_nth)
    ultimately show ?thesis
      using Cons.IH [of "root[n := data ! i]" "n + 1" "insert (data ! i) S"] Cons.prems by auto
  next
    case (Some j)
    then have "lsearch_func meth stress_lsearch_cmp_int32 (data ! i) root n = Some (j, n, root)"
      using n by (simp add: lsearch_func_def lfind_func_nonlibc)
    moreover have "data ! i \<in> S"
      using lfind_nonlibc_int32 [of n root "data ! i"] Some n Cons.prems(5) by (auto simp: in_set_conv_nth)
    ultimately show ?thesis using Cons.IH [of root n S] Cons.prems by auto
  qed
qed simp

lemma lsearch_verify_clean:
  assumes "n \<le> length root" "\<And>i. i \<in> set is \<Longrightarrow> data ! i \<in> set (take n root)"
  shows "lsearch_verify meth verify data is (n, root) = ([], root)"
  using assms
proof (induction "is")
  case (Cons i "is")
  then show ?case
    using lfind_nonlibc_int32 [of n root "data ! i"] by (auto simp: lfind_func_nonlibc Let_def split: option.splits)
qed simp

text \<open>A round with arrays of the size keeps them so, stays inside them and reports nothing.\<close>

lemma lsearch_round_clean:
  assumes "length (ls_data st) = max_n" "length (ls_root st) = max_n" "max_n < 2 ^ 64"
  shows "\<exists>st'. lsearch_round meth verify max_n kl st = Some st' \<and> length (ls_data st') = max_n \<and> length (ls_root st') = max_n \<and>
    mset (ls_data st') = mset (ls_data st) \<and> ls_fails st' = ls_fails st \<and> ls_rc st' = ls_rc st \<and> ls_bogo st' = ls_bogo st + 1"
proof -
  obtain data m where d: "stress_sort_data_int32_shuffle max_n (ls_data st) (ls_mwc st) = (data, m)" by force
  then have "rearranged max_n (ls_data st) data"
    using shuffle_rearranged [of max_n "ls_data st" "ls_mwc st"] assms by simp
  then have data: "length data = max_n" "mset data = mset (ls_data st)"
    using assms(1) by (auto dest: rearranged_length rearranged_mset)
  have "set [0..<min (fst kl) max_n] \<subseteq> {..<length data}" using data by auto
  then obtain n root where p: "lsearch_populate meth data [0..<min (fst kl) max_n] (0, ls_root st) = Some (n, root)"
    "length root = max_n" "n \<le> min (fst kl) max_n" "set (take n root) = (!) data ` {0..<min (fst kl) max_n}"
    using lsearch_populate_ok [of data "ls_root st" "[0..<min (fst kl) max_n]" 0 "{}" meth] assms data by auto
  have "lsearch_verify meth verify data [0..<min (snd kl) (min n max_n)] (n, root) = ([], root)"
    using p by (intro lsearch_verify_clean) auto
  then show ?thesis using d p data by (simp add: lsearch_round_def)
qed

lemma lsearch_rounds_clean:
  assumes "length (ls_data st) = max_n" "length (ls_root st) = max_n" "max_n < 2 ^ 64"
  shows "\<exists>st'. lsearch_rounds meth verify max_n kls st = Some st' \<and> mset (ls_data st') = mset (ls_data st) \<and>
    ls_fails st' = ls_fails st \<and> ls_rc st' = ls_rc st \<and> ls_bogo st' = ls_bogo st + length kls"
  using assms
proof (induction kls arbitrary: st)
  case (Cons kl kls)
  obtain st1 where st1: "lsearch_round meth verify max_n kl st = Some st1" "length (ls_data st1) = max_n" "length (ls_root st1) = max_n"
    "mset (ls_data st1) = mset (ls_data st)" "ls_fails st1 = ls_fails st" "ls_rc st1 = ls_rc st" "ls_bogo st1 = ls_bogo st + 1"
    using lsearch_round_clean [OF Cons.prems] by blast
  with Cons.IH [of st1] Cons.prems(3) show ?case by auto
qed simp

text \<open>
  C23: When both arrays are allocated, the linear search stressor writes beyond one of them exactly when
  its size is not a multiple of eight, namely in the initialisation.  Otherwise, with either search,
  with or without \<open>--verify\<close>, however many rounds it makes and wherever the flag ends their loops,
  every write is inside the arrays, nothing is reported, the exit status is EXIT_SUCCESS, each round is
  counted, and the numbers at the end are those of the start.
\<close>

theorem lsearch_no_false_alarm:
  "case stress_lsearch meth opt maximize minimize verify True True kl kls m of
     None \<Rightarrow> \<not> 8 dvd unat (lsearch_size opt maximize minimize)
   | Some st \<Rightarrow> 8 dvd unat (lsearch_size opt maximize minimize)
       \<and> mset (ls_data st) = mset (fst (stress_sort_data_int32_init (unat (lsearch_size opt maximize minimize)) m))
       \<and> ls_fails st = [] \<and> ls_rc st = EXIT_SUCCESS \<and> ls_bogo st = Suc (length kls)"
proof -
  let ?max_n = "unat (lsearch_size opt maximize minimize)"
  obtain ws m' where ws: "stress_sort_data_int32_init ?max_n m = (ws, m')" by force
  then have len: "length ws = 8 * ((?max_n + 7) div 8)" using length_init [of ?max_n m] by simp
  have whole: "?max_n < length ws \<longleftrightarrow> \<not> 8 dvd ?max_n" "8 dvd ?max_n \<Longrightarrow> length ws = ?max_n" unfolding len by presburger+
  let ?st = "\<lparr>ls_data = ws @ drop (length ws) (replicate ?max_n 0), ls_root = replicate ?max_n 0, ls_mwc = m', ls_fails = [],
    ls_rc = EXIT_SUCCESS, ls_bogo = 0\<rparr>"
  have run: "stress_lsearch meth opt maximize minimize verify True True kl kls m =
      (if 8 dvd ?max_n then lsearch_rounds meth verify ?max_n (kl # kls) ?st else None)"
    using whole(1) by (simp add: stress_lsearch_def ws Let_def)
  show ?thesis
  proof (cases "8 dvd ?max_n")
    case True
    have "?max_n < 2 ^ 64" using unsigned_less [of "lsearch_size opt maximize minimize"] by simp
    then obtain st' where "lsearch_rounds meth verify ?max_n (kl # kls) ?st = Some st'"
      "mset (ls_data st') = mset ws" "ls_fails st' = []" "ls_rc st' = EXIT_SUCCESS" "ls_bogo st' = Suc (length kls)"
      using lsearch_rounds_clean [of ?st ?max_n meth verify "kl # kls"] True whole(2) by auto
    then show ?thesis using True unfolding run by (simp add: ws)
  next
    case False
    then show ?thesis unfolding run by simp
  qed
qed

text \<open>A size within the bounds of the option that is no multiple of eight, and the default size.\<close>

lemma lsearch_no_false_alarm_witness:
  "stress_lsearch Lsearch_Sentinel (Some 1027) False False True True True (5, 5) [] mwc_initial = None \<and>
   (\<exists>st. stress_lsearch Lsearch_Sentinel None False False True True True (8192, 8192) [(7, 7)] mwc_initial = Some st \<and> ls_rc st = EXIT_SUCCESS)"
  using lsearch_no_false_alarm [of "Some 1027" False False mwc_initial "[]" Lsearch_Sentinel True "(5, 5)"]
    lsearch_no_false_alarm [of None False False mwc_initial "[(7, 7)]" Lsearch_Sentinel True "(8192, 8192)"]
  by (auto simp: lsearch_size_def DEFAULT_LSEARCH_SIZE_def split: option.splits)

text \<open>
  C22: The search with a sentinel is the plain one: it returns the same index and leaves the array as
  it was, the last element included.
\<close>

theorem lsearch_methods_agree:
  assumes "n \<le> length base"
  shows "lfind_sentinel stress_lsearch_cmp_int32 key base n = (lfind_nonlibc stress_lsearch_cmp_int32 key base n, base)"
  using assms by (intro lfind_sentinel_nonlibc) (auto simp: lsearch_cmp)

lemma lsearch_methods_agree_witness:
  "lfind_sentinel stress_lsearch_cmp_int32 7 [5, 7, 9] 3 = (lfind_nonlibc stress_lsearch_cmp_int32 7 [5, 7, 9] 3, [5, 7, 9])"
  by (rule lsearch_methods_agree) simp

end
