(* ===== verification/Hsearch.thy ===== *)
theory Hsearch
  imports Prime Hash
begin

text \<open>
  The hash table of the hash search stressor (src/stress-hsearch.c): open addressing over the slots from
  one on, with the number of its slot in each used one.
\<close>

section \<open>The code\<close>

text \<open>
  The size of the table is the first odd number from the one asked for on that passes the test for
  primes; the loop has no other end.
\<close>

partial_function (option) hcreate_size :: "(u64 \<Rightarrow> u64) \<Rightarrow> u64 \<Rightarrow> u64 option" where
  "hcreate_size isqrt1 nel = (if stress_prime64_check isqrt1 nel then Some nel else hcreate_size isqrt1 (nel + 2))"

record slot =
  sl_hash :: nat
  sl_key :: "u8 list"
  sl_data :: nat

text \<open>The table is cleared when it is allocated; \<open>None\<close> is when the loop does not end.\<close>

definition hcreate_nonlibc :: "(u64 \<Rightarrow> u64) \<Rightarrow> u64 \<Rightarrow> slot list option" where
  "hcreate_nonlibc isqrt1 nel =
     map_option (\<lambda>sz. replicate (unat sz) \<lparr>sl_hash = 0, sl_key = [], sl_data = 0\<rparr>)
       (hcreate_size isqrt1 ((if nel < 3 then 3 else nel) OR 1))"

text \<open>The hash of a key, whose characters are signed, and the slot where its search starts.\<close>

definition hkey_hash :: "u8 list \<Rightarrow> u32" where
  "hkey_hash key = fold (\<lambda>c idx. shim_ror32n (idx + scast c) 5) key 0"

definition hkey_start :: "nat \<Rightarrow> u8 list \<Rightarrow> nat" where
  "hkey_start sz key = (let idx = unat (hkey_hash key) mod (sz mod 2 ^ 32) in if idx = 0 then 1 else idx)"

definition hnext :: "nat \<Rightarrow> nat \<Rightarrow> nat" where
  "hnext sz idx = (if idx + 1 \<ge> sz then 1 else idx + 1)"

text \<open>
  The loop of both actions, which goes from slot to slot until \<open>stop\<close> holds, and ends with \<open>None\<close> when
  it is back at the start.  The conditions on the indices hold whenever the table has three slots.
\<close>

function hprobe :: "(nat \<Rightarrow> bool) \<Rightarrow> nat \<Rightarrow> nat \<Rightarrow> nat \<Rightarrow> nat option" where
  "hprobe stop sz start idx =
     (if 0 < start \<and> start < sz \<and> 0 < idx \<and> idx < sz
      then if stop idx then Some idx
           else if hnext sz idx = start then None else hprobe stop sz start (hnext sz idx)
      else None)"
  by pat_completeness auto
termination
  by (relation "measure (\<lambda>(_, sz, start, idx). if start \<le> idx then sz - idx + start else start - idx)")
    (auto simp: hnext_def split: if_splits)

declare hprobe.simps [simp del]

definition hfound :: "slot list \<Rightarrow> u8 list \<Rightarrow> nat \<Rightarrow> bool" where
  "hfound t key idx \<longleftrightarrow> sl_hash (t ! idx) = idx \<and> sl_key (t ! idx) = key"

definition hsearch_find :: "slot list \<Rightarrow> u8 list \<Rightarrow> nat option" where
  "hsearch_find t key =
     (let start = hkey_start (length t) key in hprobe (hfound t key) (length t) start start)"

definition hsearch_enter :: "slot list \<Rightarrow> u8 list \<Rightarrow> nat \<Rightarrow> (nat \<times> slot list) option" where
  "hsearch_enter t key d =
     (let start = hkey_start (length t) key
      in map_option (\<lambda>idx. (idx, t[idx := \<lparr>sl_hash = idx, sl_key = key, sl_data = d\<rparr>]))
           (hprobe (\<lambda>idx. sl_hash (t ! idx) = 0 \<or> hfound t key idx) (length t) start start))"

section \<open>The order of the slots\<close>

text \<open>The slots in the order in which the loop comes to them.\<close>

definition hslots :: "nat \<Rightarrow> nat \<Rightarrow> nat list" where
  "hslots sz start = [start..<sz] @ [1..<start]"

lemma hprobe_find:
  assumes "0 < start" "start < sz"
  shows "hprobe stop sz start start = find stop (hslots sz start)"
proof -
  have low: "hprobe stop sz start i = find stop [i..<start]" if "0 < i" "i < start" for i
    using that
  proof (induction "start - i" arbitrary: i rule: less_induct)
    case less
    have step: "[i..<start] = i # [Suc i..<start]" using less.prems by (simp add: upt_conv_Cons)
    have "hnext sz i = Suc i" using less.prems assms by (simp add: hnext_def)
    then show ?case
      using less assms by (cases "Suc i = start") (subst hprobe.simps, simp add: step)+
  qed
  have "hprobe stop sz start i = find stop ([i..<sz] @ [1..<start])" if "start \<le> i" "i < sz" for i
    using that
  proof (induction "sz - i" arbitrary: i rule: less_induct)
    case less
    have step: "[i..<sz] = i # [Suc i..<sz]" using less.prems by (simp add: upt_conv_Cons)
    show ?case
    proof (cases "Suc i < sz")
      case True
      then have "hnext sz i = Suc i" by (simp add: hnext_def)
      then show ?thesis
        using less assms True by (subst hprobe.simps) (simp add: step)
    next
      case False
      then have "hnext sz i = 1" "[Suc i..<sz] = []" by (simp_all add: hnext_def)
      then show ?thesis
        using less.prems assms low [of 1] by (subst hprobe.simps) (auto simp: step)
    qed
  qed
  from this [of start] show ?thesis using assms by (simp add: hslots_def)
qed

lemma set_hslots: "0 < start \<Longrightarrow> start < sz \<Longrightarrow> set (hslots sz start) = {1..<sz}"
  by (auto simp: hslots_def)

lemma distinct_hslots: "distinct (hslots sz start)"
  by (auto simp: hslots_def)

lemma hkey_start_range: "3 \<le> sz \<Longrightarrow> sz < 2 ^ 32 \<Longrightarrow> 0 < hkey_start sz key \<and> hkey_start sz key < sz"
  by (auto simp: hkey_start_def Let_def)

section \<open>The table is a map\<close>

text \<open>
  A table is sound when each used slot holds its own number and has only used slots, with other keys,
  before it in the order of its key.
\<close>

definition hsound :: "slot list \<Rightarrow> bool" where
  "hsound t \<longleftrightarrow> 3 \<le> length t \<and> length t < 2 ^ 32 \<and> (\<forall>i < length t. sl_hash (t ! i) = 0 \<or> sl_hash (t ! i) = i) \<and>
     (\<forall>i < length t. sl_hash (t ! i) \<noteq> 0 \<longrightarrow>
       (\<exists>before after. hslots (length t) (hkey_start (length t) (sl_key (t ! i))) = before @ i # after \<and>
         (\<forall>j \<in> set before. sl_hash (t ! j) \<noteq> 0 \<and> sl_key (t ! j) \<noteq> sl_key (t ! i))))"

definition hlookup :: "u8 list \<Rightarrow> slot list \<Rightarrow> nat option" where
  "hlookup key t = map_option (\<lambda>i. sl_data (t ! i)) (hsearch_find t key)"

definition henter :: "u8 list \<Rightarrow> nat \<Rightarrow> slot list \<Rightarrow> slot list option" where
  "henter key d t = map_option snd (hsearch_enter t key d)"

definition hroom :: "slot list \<Rightarrow> nat" where
  "hroom t = card {i \<in> {1..<length t}. sl_hash (t ! i) = 0}"

lemma find_split:
  "find P xs = Some x \<Longrightarrow> \<exists>before after. xs = before @ x # after \<and> P x \<and> (\<forall>y \<in> set before. \<not> P y)"
proof (induction xs)
  case (Cons y ys)
  show ?case
  proof (cases "P y")
    case True
    then show ?thesis using Cons.prems by (intro exI [of _ "[]"] exI [of _ ys]) simp
  next
    case False
    then obtain before after where "ys = before @ x # after" "P x" "\<forall>y \<in> set before. \<not> P y"
      using Cons by auto
    then show ?thesis using False by (intro exI [of _ "y # before"] exI [of _ after]) simp
  qed
qed simp

lemma find_append: "find P (xs @ ys) = (case find P xs of None \<Rightarrow> find P ys | Some x \<Rightarrow> Some x)"
  by (induction xs) auto

text \<open>In a sound table a key is in one slot at most, and that is where the search ends.\<close>

lemma hfind_slot:
  assumes "hsound t" "i < length t" "sl_hash (t ! i) \<noteq> 0"
  shows "hsearch_find t (sl_key (t ! i)) = Some i"
proof -
  let ?s = "hkey_start (length t) (sl_key (t ! i))"
  obtain before after where s: "hslots (length t) ?s = before @ i # after"
    "\<forall>j \<in> set before. sl_hash (t ! j) \<noteq> 0 \<and> sl_key (t ! j) \<noteq> sl_key (t ! i)"
    using assms unfolding hsound_def by blast
  have "find (hfound t (sl_key (t ! i))) before = None"
    using s(2) by (auto simp: find_None_iff hfound_def)
  moreover have "hfound t (sl_key (t ! i)) i" using assms by (auto simp: hfound_def hsound_def)
  moreover have "0 < ?s" "?s < length t" using hkey_start_range assms(1) by (auto simp: hsound_def)
  ultimately show ?thesis
    by (simp add: hsearch_find_def Let_def hprobe_find s(1) find_append)
qed

lemma hfind_none:
  assumes "hsound t" "hsearch_find t key = None" "i < length t" "sl_hash (t ! i) \<noteq> 0"
  shows "sl_key (t ! i) \<noteq> key"
  using hfind_slot [OF assms(1,3,4)] assms(2) by auto

lemma hfind_some:
  assumes "hsound t" "hsearch_find t key = Some i"
  shows "i < length t" "0 < i" "sl_hash (t ! i) = i" "sl_key (t ! i) = key"
proof -
  let ?s = "hkey_start (length t) key"
  have s: "0 < ?s" "?s < length t" using hkey_start_range assms(1) by (auto simp: hsound_def)
  then have "find (hfound t key) (hslots (length t) ?s) = Some i"
    using assms(2) by (simp add: hsearch_find_def Let_def hprobe_find)
  then have "i \<in> set (hslots (length t) ?s)" "hfound t key i" by (auto simp: find_Some_iff)
  then show "i < length t" "0 < i" "sl_hash (t ! i) = i" "sl_key (t ! i) = key"
    using set_hslots [OF s] by (auto simp: hfound_def)
qed

text \<open>What a successful entry does: the slot is that of the key, or the first free one on its way.\<close>

lemma henter_slot:
  assumes "hsound t" "hsearch_enter t key d = Some (i, t')"
  obtains before after where "0 < i" "i < length t" "t' = t[i := \<lparr>sl_hash = i, sl_key = key, sl_data = d\<rparr>]"
    "hslots (length t) (hkey_start (length t) key) = before @ i # after"
    "\<forall>j \<in> set before. sl_hash (t ! j) \<noteq> 0 \<and> sl_key (t ! j) \<noteq> key" "sl_hash (t ! i) = 0 \<or> sl_key (t ! i) = key"
proof -
  let ?s = "hkey_start (length t) key"
  let ?P = "\<lambda>idx. sl_hash (t ! idx) = 0 \<or> hfound t key idx"
  have s: "0 < ?s" "?s < length t" using hkey_start_range assms(1) by (auto simp: hsound_def)
  then have f: "find ?P (hslots (length t) ?s) = Some i" and t': "t' = t[i := \<lparr>sl_hash = i, sl_key = key, sl_data = d\<rparr>]"
    using assms(2) by (auto simp: hsearch_enter_def Let_def hprobe_find)
  obtain before after where b: "hslots (length t) ?s = before @ i # after" "?P i" "\<forall>y \<in> set before. \<not> ?P y"
    using find_split [OF f] by blast
  have set: "insert i (set before) \<subseteq> {1..<length t}" using set_hslots [OF s] b(1) by auto
  have "sl_hash (t ! j) = j" if "j \<in> set before" for j
  proof -
    have "j < length t" "sl_hash (t ! j) \<noteq> 0" using set b(3) that by auto
    then show ?thesis using assms(1) by (auto simp: hsound_def)
  qed
  then have "\<forall>j \<in> set before. sl_hash (t ! j) \<noteq> 0 \<and> sl_key (t ! j) \<noteq> key"
    using b(3) by (auto simp: hfound_def)
  then show thesis using that [of before after] t' b(1,2) set by (auto simp: hfound_def)
qed

lemma henter_sound:
  assumes "hsound t" "hsearch_enter t key d = Some (i, t')"
  shows "hsound t'" "hlookup k t' = (if k = key then Some d else hlookup k t)"
    "hroom t \<le> Suc (hroom t')"
proof -
  obtain before after where i: "0 < i" "i < length t" and t': "t' = t[i := \<lparr>sl_hash = i, sl_key = key, sl_data = d\<rparr>]"
    and slots: "hslots (length t) (hkey_start (length t) key) = before @ i # after"
    and b: "\<forall>j \<in> set before. sl_hash (t ! j) \<noteq> 0 \<and> sl_key (t ! j) \<noteq> key" "sl_hash (t ! i) = 0 \<or> sl_key (t ! i) = key"
    by (rule henter_slot [OF assms])
  have len: "length t' = length t" using t' by simp
  have at: "t' ! j = (if j = i then \<lparr>sl_hash = i, sl_key = key, sl_data = d\<rparr> else t ! j)" for j
    using t' i by simp
  have dist: "distinct (before @ i # after)" using distinct_hslots [of "length t"] slots by metis
  have other: "sl_key (t ! j) \<noteq> key" if j: "j < length t" "j \<noteq> i" "sl_hash (t ! j) \<noteq> 0" for j
  proof
    assume k: "sl_key (t ! j) = key"
    obtain before' after' where j': "before @ i # after = before' @ j # after'"
      "\<forall>m \<in> set before'. sl_hash (t ! m) \<noteq> 0 \<and> sl_key (t ! m) \<noteq> key"
      using assms(1) j slots k unfolding hsound_def by metis
    have "j \<notin> set before" using b(1) k by blast
    moreover obtain us where "before = before' @ us \<and> us @ i # after = j # after' \<or> before @ us = before' \<and> i # after = us @ j # after'"
      using j'(1) by (auto simp: append_eq_append_conv2)
    ultimately have "i \<in> set before'" using j(2) by (cases us) auto
    then show False using j'(2) b(2) by blast
  qed
  show sound: "hsound t'"
    unfolding hsound_def len
  proof (intro conjI allI impI)
    fix j assume j: "j < length t" "sl_hash (t' ! j) \<noteq> 0"
    show "\<exists>before after. hslots (length t) (hkey_start (length t) (sl_key (t' ! j))) = before @ j # after \<and>
      (\<forall>m \<in> set before. sl_hash (t' ! m) \<noteq> 0 \<and> sl_key (t' ! m) \<noteq> sl_key (t' ! j))"
    proof (cases "j = i")
      case True
      then show ?thesis using slots b(1) dist i by (intro exI [of _ before] exI [of _ after]) (auto simp: at)
    next
      case False
      then have "sl_key (t ! j) \<noteq> key" "sl_hash (t ! j) \<noteq> 0" using other j by (simp_all add: at)
      moreover from this obtain before' after' where "hslots (length t) (hkey_start (length t) (sl_key (t ! j))) = before' @ j # after'"
        "\<forall>m \<in> set before'. sl_hash (t ! m) \<noteq> 0 \<and> sl_key (t ! m) \<noteq> sl_key (t ! j)"
        using assms(1) j(1) unfolding hsound_def by metis
      ultimately show ?thesis using False i by (intro exI [of _ before'] exI [of _ after']) (auto simp: at)
    qed
  qed (use assms(1) in \<open>auto simp: hsound_def at\<close>)
  show "hlookup k t' = (if k = key then Some d else hlookup k t)"
  proof (cases "k = key")
    case True
    have "hsearch_find t' key = Some i" using hfind_slot [OF sound, of i] i len by (simp add: at)
    then show ?thesis using True by (simp add: hlookup_def at)
  next
    case False
    show ?thesis
    proof (cases "hsearch_find t k")
      case None
      have "hsearch_find t' k = None"
      proof (rule ccontr)
        assume "hsearch_find t' k \<noteq> None"
        then obtain j where j: "hsearch_find t' k = Some j" by blast
        note j' = hfind_some [OF sound j]
        then have "j \<noteq> i" using False by (auto simp: at)
        then show False using hfind_none [OF assms(1) None, of j] j' len by (simp add: at)
      qed
      then show ?thesis using None False by (simp add: hlookup_def)
    next
      case (Some j)
      note j = hfind_some [OF assms(1) Some]
      have "j \<noteq> i" using j b(2) False by auto
      then have "hsearch_find t' k = Some j" using hfind_slot [OF sound, of j] j len by (simp add: at)
      then show ?thesis using Some False \<open>j \<noteq> i\<close> by (simp add: hlookup_def at)
    qed
  qed
  have "{i \<in> {1..<length t}. sl_hash (t ! i) = 0} \<subseteq> insert i {i \<in> {1..<length t'}. sl_hash (t' ! i) = 0}"
    using len by (auto simp: at)
  then have "hroom t \<le> card (insert i {i \<in> {1..<length t'}. sl_hash (t' ! i) = 0})"
    unfolding hroom_def by (intro card_mono) auto
  also have "\<dots> \<le> Suc (hroom t')" unfolding hroom_def by (simp add: card_insert_if)
  finally show "hroom t \<le> Suc (hroom t')" .
qed

lemma henter_some:
  assumes "hsound t" "0 < hroom t"
  shows "\<exists>i t'. hsearch_enter t key d = Some (i, t')"
proof -
  let ?s = "hkey_start (length t) key"
  have s: "0 < ?s" "?s < length t" using hkey_start_range assms(1) by (auto simp: hsound_def)
  have "{i \<in> {1..<length t}. sl_hash (t ! i) = 0} \<noteq> {}" using assms(2) unfolding hroom_def by (metis card.empty less_irrefl)
  then obtain i where "i \<in> set (hslots (length t) ?s)" "sl_hash (t ! i) = 0" using set_hslots [OF s] by auto
  then have "find (\<lambda>idx. sl_hash (t ! idx) = 0 \<or> hfound t key idx) (hslots (length t) ?s) \<noteq> None"
    by (auto simp: find_None_iff)
  then show ?thesis using s by (auto simp: hsearch_enter_def Let_def hprobe_find)
qed

lemma hsound_new:
  assumes "3 \<le> n" "n < 2 ^ 32"
  shows "hsound (replicate n \<lparr>sl_hash = 0, sl_key = [], sl_data = 0\<rparr>)"
    "hroom (replicate n \<lparr>sl_hash = 0, sl_key = [], sl_data = 0\<rparr>) = n - 1"
proof -
  show "hsound (replicate n \<lparr>sl_hash = 0, sl_key = [], sl_data = 0\<rparr>)" using assms by (simp add: hsound_def)
  have "{i \<in> {1..<n}. sl_hash (replicate n \<lparr>sl_hash = 0, sl_key = [], sl_data = 0\<rparr> ! i) = 0} = {1..<n}" by auto
  then show "hroom (replicate n \<lparr>sl_hash = 0, sl_key = [], sl_data = 0\<rparr>) = n - 1" by (simp add: hroom_def)
qed

section \<open>What the stressor relies on\<close>

text \<open>A table of entries that keeps what it is given as long as there is room.\<close>

locale entry_table =
  fixes sound :: "'t \<Rightarrow> bool" and room :: "'t \<Rightarrow> nat"
    and enter :: "'k \<Rightarrow> 'd \<Rightarrow> 't \<Rightarrow> 't option" and lookup :: "'k \<Rightarrow> 't \<Rightarrow> 'd option"
  assumes enter_some: "sound t \<Longrightarrow> 0 < room t \<Longrightarrow> \<exists>t'. enter k d t = Some t'"
    and enter_sound: "sound t \<Longrightarrow> enter k d t = Some t' \<Longrightarrow> sound t'"
    and enter_room: "sound t \<Longrightarrow> enter k d t = Some t' \<Longrightarrow> room t \<le> Suc (room t')"
    and enter_lookup: "sound t \<Longrightarrow> enter k d t = Some t' \<Longrightarrow> lookup j t' = (if j = k then Some d else lookup j t)"
begin

primrec enter_all :: "('k \<times> 'd) list \<Rightarrow> 't \<Rightarrow> 't option" where
  "enter_all [] t = Some t"
| "enter_all (e # es) t = (case enter (fst e) (snd e) t of None \<Rightarrow> None | Some t' \<Rightarrow> enter_all es t')"

lemma enter_all_lookup:
  "sound t \<Longrightarrow> length es \<le> room t \<Longrightarrow> \<exists>t'. enter_all es t = Some t' \<and> sound t' \<and>
     (\<forall>k. lookup k t' = (case map_of (rev es) k of Some d \<Rightarrow> Some d | None \<Rightarrow> lookup k t))"
proof (induction es arbitrary: t)
  case (Cons e es)
  obtain t1 where t1: "enter (fst e) (snd e) t = Some t1"
    using enter_some [OF Cons.prems(1)] Cons.prems(2) by fastforce
  note law = enter_sound [OF Cons.prems(1) t1] enter_room [OF Cons.prems(1) t1] enter_lookup [OF Cons.prems(1) t1]
  obtain t' where "enter_all es t1 = Some t'" "sound t'"
    "\<forall>k. lookup k t' = (case map_of (rev es) k of Some d \<Rightarrow> Some d | None \<Rightarrow> lookup k t1)"
    using Cons.IH [OF law(1)] law(2) Cons.prems(2) by auto
  then show ?case using t1 law(3) by (auto simp: map_add_def split: option.splits)
qed simp

end

interpretation hsearch: entry_table hsound hroom henter hlookup
proof
  fix t :: "slot list" and k j :: "u8 list" and d :: nat and t' :: "slot list"
  show "\<exists>t'. henter k d t = Some t'" if "hsound t" "0 < hroom t"
    using henter_some [OF that, of k d] by (auto simp: henter_def)
  show "hsound t'" "hroom t \<le> Suc (hroom t')" "hlookup j t' = (if j = k then Some d else hlookup j t)"
    if "hsound t" "henter k d t = Some t'"
    using that henter_sound [OF that(1)] by (auto simp: henter_def)
qed

section \<open>The stressor\<close>

text \<open>The key of the number \<open>i\<close> is its decimal representation.\<close>

fun decimal :: "nat \<Rightarrow> u8 list" where
  "decimal n = (if n < 10 then [of_nat (48 + n)] else decimal (n div 10) @ [of_nat (48 + n mod 10)])"

declare decimal.simps [simp del]

primrec hsearch_populate :: "nat list \<Rightarrow> slot list \<Rightarrow> slot list option" where
  "hsearch_populate [] t = Some t"
| "hsearch_populate (i # is) t = (case henter (decimal i) i t of None \<Rightarrow> None | Some t \<Rightarrow> hsearch_populate is t)"

text \<open>The numbers that a round reports which gets to the \<open>k\<close>-th key.\<close>

definition hsearch_round :: "nat \<Rightarrow> slot list \<Rightarrow> nat \<Rightarrow> nat list" where
  "hsearch_round mx t k = filter (\<lambda>i. hlookup (decimal i) t \<noteq> Some i) [0..<min k mx]"

text \<open>
  The stressor with memory for its table and keys; \<open>ks\<close> is how far each of its rounds gets.  \<open>None\<close> is
  when the search for a prime does not end.
\<close>

definition stress_hsearch :: "(u64 \<Rightarrow> u64) \<Rightarrow> bool \<Rightarrow> nat \<Rightarrow> nat list \<Rightarrow> (int \<times> nat list) option" where
  "stress_hsearch isqrt1 verify mx ks =
     (case hcreate_nonlibc isqrt1 (of_nat (mx + mx div 4)) of
        None \<Rightarrow> None
      | Some t \<Rightarrow>
          (case hsearch_populate [0..<mx] t of
             None \<Rightarrow> Some (EXIT_FAILURE, [])
           | Some t \<Rightarrow>
               let fails = (if verify then concat (map (hsearch_round mx t) ks) else [])
               in Some (if fails = [] then EXIT_SUCCESS else EXIT_FAILURE, fails)))"

lemma decimal_value: "foldl (\<lambda>v c. v * 10 + (unat c - 48)) 0 (decimal n) = n"
proof (induction n rule: decimal.induct)
  case (1 n)
  have digit: "unat (of_nat (48 + d) :: u8) - 48 = d" if "d < 10" for d
    using that by (simp add: unsigned_of_nat take_bit_nat_eq_self del: of_nat_add)
  show ?case
  proof (cases "n < 10")
    case True
    then show ?thesis by (subst decimal.simps) (simp add: digit del: of_nat_add)
  next
    case False
    then show ?thesis
      using 1 digit [of "n mod 10"] by (subst decimal.simps) (simp del: of_nat_add)
  qed
qed

lemma decimal_inj: "decimal i = decimal j \<longleftrightarrow> i = j"
  by (metis decimal_value)

lemma hsearch_populate_all: "hsearch_populate is t = hsearch.enter_all (map (\<lambda>i. (decimal i, i)) is) t"
  by (induction "is" arbitrary: t) (auto split: option.splits)

lemma map_of_decimal: "distinct is \<Longrightarrow> i \<in> set is \<Longrightarrow> map_of (rev (map (\<lambda>i. (decimal i, i)) is)) (decimal i) = Some i"
  by (rule map_of_is_SomeI) (auto simp: comp_def distinct_map inj_on_def decimal_inj rev_map simp flip: rev_map)

text \<open>The search for the size ends at the first number that passes, if there is one.\<close>

lemma hcreate_size_ends:
  "odd (unat nel) \<Longrightarrow> odd (unat q) \<Longrightarrow> unat nel \<le> unat q \<Longrightarrow> stress_prime64_check isqrt1 q \<Longrightarrow>
   \<exists>r. hcreate_size isqrt1 nel = Some r \<and> unat nel \<le> unat r \<and> unat r \<le> unat q"
proof (induction "unat q - unat nel" arbitrary: nel rule: less_induct)
  case less
  show ?case
  proof (cases "stress_prime64_check isqrt1 nel")
    case True
    then show ?thesis using less.prems(3) by (subst hcreate_size.simps) simp
  next
    case False
    then have "unat nel \<noteq> unat q" using less.prems(4) by (metis unsigned_word_eqI)
    then have le: "unat nel + 2 \<le> unat q" using less.prems(1-3) by presburger
    moreover have "unat q < 2 ^ 64" using unsigned_less [of q] by simp
    ultimately have "unat nel + 2 < 2 ^ 64" by (rule le_less_trans)
    then have n2: "unat (nel + 2) = unat nel + 2" by (simp add: unat_word_ariths)
    have "\<exists>r. hcreate_size isqrt1 (nel + 2) = Some r \<and> unat (nel + 2) \<le> unat r \<and> unat r \<le> unat q"
      using less.prems le n2 by (intro less.hyps) simp_all
    then show ?thesis using n2 False by (subst hcreate_size.simps) auto
  qed
qed

text \<open>
  C11: The hash search stressor never reports a failure: when there is a prime between the number of
  slots asked for and \<open>2 ^ 32\<close>, so that the search for the size ends, all keys find room in the table and
  each is found with its number, in every round and wherever the rounds are ended.
\<close>

theorem hsearch_no_false_alarm:
  assumes "4 \<le> mx" "mx + mx div 4 \<le> unat q" "unat q < 2 ^ 32" "odd (unat q)" "stress_prime64_check isqrt1 q"
  shows "stress_hsearch isqrt1 verify mx ks = Some (EXIT_SUCCESS, [])"
proof -
  let ?n = "mx + mx div 4"
  let ?nel = "(if (of_nat ?n :: u64) < 3 then 3 else of_nat ?n) OR 1 :: u64"
  have n: "unat (of_nat ?n :: u64) = ?n" using assms(2,3) by (simp add: unsigned_of_nat take_bit_nat_eq_self del: of_nat_add)
  have "\<not> (of_nat ?n :: u64) < 3" using n assms(1) by (simp add: word_less_nat_alt del: of_nat_add)
  then have nel: "?nel = of_nat ?n OR 1" by (simp del: of_nat_add)
  have "unat (of_nat ?n OR 1 :: u64) = ?n OR 1" by (simp add: unsigned_or_eq n del: of_nat_add)
  moreover have *: "m OR 1 = m + of_bool (even m)" for m :: nat by (simp add: or_Suc_0_eq)
  have "?n OR 1 = ?n + of_bool (even ?n)" by (rule *)
  ultimately have unel: "unat ?nel = ?n + of_bool (even ?n)" unfolding nel by (rule trans)
  have "odd (?n + of_bool (even ?n))" by simp
  moreover have "?n + of_bool (even ?n) \<le> unat q"
  proof (cases "even ?n")
    case True
    then have "?n \<noteq> unat q" using assms(4) by metis
    then show ?thesis using True assms(2) by simp
  qed (use assms(2) in simp)
  ultimately have "odd (unat ?nel)" "unat ?nel \<le> unat q" unfolding unel by blast+
  then obtain r where r: "hcreate_size isqrt1 ?nel = Some r" "unat ?nel \<le> unat r" "unat r \<le> unat q"
    using hcreate_size_ends [OF _ assms(4) _ assms(5)] by blast
  let ?t = "replicate (unat r) \<lparr>sl_hash = 0, sl_key = [], sl_data = 0\<rparr>"
  have size: "mx < unat r" "unat r < 2 ^ 32" using r(2,3) unel assms(1,3) by linarith+
  have t: "hcreate_nonlibc isqrt1 (of_nat ?n) = Some ?t" unfolding hcreate_nonlibc_def r(1) by simp
  have sound: "hsound ?t" "hroom ?t = unat r - 1" using hsound_new size assms(1) by simp_all
  let ?es = "map (\<lambda>i. (decimal i, i)) [0..<mx]"
  obtain t' where t': "hsearch.enter_all ?es ?t = Some t'"
    "\<forall>k. hlookup k t' = (case map_of (rev ?es) k of Some d \<Rightarrow> Some d | None \<Rightarrow> hlookup k ?t)"
  proof -
    have "length ?es \<le> hroom ?t" using sound(2) size(1) by simp
    then show thesis using hsearch.enter_all_lookup [OF sound(1), of ?es] that by blast
  qed
  have "hlookup (decimal i) t' = Some i" if "i < mx" for i
    using t'(2) map_of_decimal [of "[0..<mx]" i] that by simp
  then have "hsearch_round mx t' k = []" for k
    by (simp add: hsearch_round_def filter_empty_conv)
  then have "concat (map (hsearch_round mx t') ks) = []" by simp
  then show ?thesis
    using t t'(1) by (simp add: stress_hsearch_def hsearch_populate_all Let_def del: of_nat_add)
qed

lemma hsearch_no_false_alarm_witness:
  "stress_hsearch (\<lambda>_. 36) True 1024 [1024, 7] = Some (EXIT_SUCCESS, [])"
proof (rule hsearch_no_false_alarm [of 1024 1283])
  show "stress_prime64_check (\<lambda>_. 36) 1283" by code_simp
qed simp_all

text \<open>
  C13: The table implements a map: entering a key, new or old, gives a sound table in which that key has
  its data and every other key what it had, and takes at most one free slot; entering fails only
  when all slots are used.
\<close>

theorem hsearch_is_a_map:
  assumes "hsound t"
  shows "case henter k d t of
           Some t' \<Rightarrow> hsound t' \<and> (\<lambda>j. hlookup j t') = (\<lambda>j. hlookup j t)(k := Some d) \<and> hroom t \<le> Suc (hroom t')
         | None \<Rightarrow> hroom t = 0"
proof (cases "henter k d t")
  case None
  then show ?thesis using hsearch.enter_some [OF assms, of k d] by fastforce
next
  case (Some t')
  then show ?thesis
    using hsearch.enter_sound [OF assms] hsearch.enter_room [OF assms] hsearch.enter_lookup [OF assms]
    by (simp add: fun_eq_iff)
qed

lemma hsearch_is_a_map_witness:
  "\<exists>t'. hsound t' \<and> (\<lambda>j. hlookup j t') = (\<lambda>j. hlookup j (replicate 3 \<lparr>sl_hash = 0, sl_key = [], sl_data = 0\<rparr>))([65] := Some 7)"
proof -
  obtain t' where "henter [65] 7 (replicate 3 \<lparr>sl_hash = 0, sl_key = [], sl_data = 0\<rparr>) = Some t'"
    using hsearch.enter_some [OF hsound_new(1) [of 3], of "[65]" 7] hsound_new(2) [of 3] by auto
  then show ?thesis using hsearch_is_a_map [OF hsound_new(1) [of 3], of "[65]" 7] by (intro exI [of _ t']) simp
qed

end
