(* ===== verification/Spec2Isabelle.thy ===== *)
theory Spec2Isabelle
  imports Addrspace Operand_Var Hash SparseMatrix Peterson Dekker ParseOpts Stressor_Run Vm_Detect Sort_Run Sort_Search Hsearch
begin

text \<open>
  Verification development for stress-ng, the stress tester, in the variant of this repository that
  looks for silent data corruption.

  \<^bold>\<open>The program.\<close>  The supervisor (src/stress-ng.c) parses the command line (src/core-parse-opts.c), keeps
  the options of the stressors in a list of typed settings (src/core-setting.c), forks one child for
  each instance of each stressor, reaps the children and turns their exit statuses, a check of the
  counters they share with it and the verdict of its monitors into an exit status.  A stressor
  (src/stress-*.c) runs until its time or its number of bogo operations is up; many verify data they
  have written and report what differs.  The data comes from a multiply-with-carry generator
  (src/core-mwc.c) and, for the stressors of this variant, from a generator of bit patterns
  (src/core-bitgen.c).

  \<^bold>\<open>Theories and sources.\<close>
  \<^item> Prelude: C integer types, bit counts, byte order, generators in state-passing style, exit codes.
  \<^item> Bitops (src/core-bitops.h): reversals, population counts, parity, next power of two.
  \<^item> Mwc (src/core-mwc.c): the generator's registers and buffers as a record, every drawing function.
    The locales \<open>word_source\<close> and \<open>word_buffer\<close> hold what is proved once for a generator of words
    and for the buffered smaller draws; they are interpreted for this generator and for the
    private one of the bit-pattern generator.
  \<^item> Bitgen (src/core-bitgen.c): the handle, its operations and its invariant.
  \<^item> Prime (src/core-prime.c): the primality test and the searches for a prime.
  \<^item> Hash (src/core-hash.c): the hash functions and the hash table of strings (locale \<open>string_set\<close>).
  \<^item> Addrspace (src/stress-addrspace.c): fill and verify of a region (locale \<open>region_pattern\<close>), the seven
    recipes over an environment of mapping calls, and the main loop.
  \<^item> Setting (src/core-setting.c): typed settings and their scoping; Operand_Var
    (src/stress-operand-var.c): the operand mutation stressor, which reads them.
  \<^item> SparseMatrix (src/stress-sparsematrix.c): four stores behind one interface (locale \<open>sparse_store\<close>) and the
    test that runs on any of them.
  \<^item> Tso: a machine with two processors and store buffers, its step relation and reachable states
    (locale \<open>tso_invariant\<close>); Peterson (src/stress-peterson.c) and Dekker (src/stress-dekker.c): the
    two algorithms statement by statement.
  \<^item> ParseOpts (src/core-parse-opts.c, with the options of src/core-net.c): number, size, time and
    percentage parsers and the type switch of \<open>stress_parse_opt\<close>.
  \<^item> Supervisor and Stressor_Run (src/stress-ng.c, with parts of src/core-log.c and src/core-klog.c): the
    table from process ids to statistics on a heap of linked entries, signalling and reaping, the
    child, the fork loop, sequential, parallel and permuted runs, the check of the metrics and the
    exit status.
  \<^item> Vm_Memory, Vm_Loops, Vm_Methods (src/stress-vm.c): memory as hardware with any reads and writes (locale
    \<open>sound_memory\<close> for memory that works), the loops of the memory tests and the tests themselves.
    Vm_Rules, Vm_Sound_Bytes, Vm_Sound_Words, Vm_Sound_Blocks, Vm_Sound: rules for those loops and, in the
    locale \<open>vm_run\<close>, that every test is silent on memory that works.
  \<^item> Oomable (src/core-out-of-memory.c): the wrapper that forks the child of a stressor again when it dies;
    Vm_Run (src/stress-vm.c): the driver of the memory tests inside it, from the options to the exit status.
    Vm_Reads: that no test reads the continue flag less often than before, so that the driver comes to an end.
    Vm_Detect: which of the errors that the program injects and which stuck bits the tests count and which
    they miss, by comparison with the run without them (locale \<open>vm_unstopped\<close>).
  \<^item> Sort_Data (src/core-sort.h, src/core-sort.c): the numbers that are sorted, shuffled and mangled, the
    comparisons (locale \<open>comparison\<close>) and the contract of a sort (locale \<open>sorter\<close>); Sort_Shift
    (src/stress-insertionsort.c, src/stress-shellsort.c, src/stress-bubblesort.c), Sort_Heap
    (src/stress-heapsort.c), Sort_Merge (src/stress-mergesort.c, src/stress-qsort.c): the sorts; Sort_Run: the
    main loop of the sorting stressors as a list of actions (locale \<open>sort_stressor\<close>).
  \<^item> Sort_Search (src/stress-bsearch.c, src/stress-lsearch.c): binary, ternary and linear search and the whole
    linear search stressor; Hsearch (src/stress-hsearch.c): the hash table with open addressing (locale \<open>entry_table\<close>) and its stressor.

  \<^bold>\<open>How code is modelled.\<close>  A struct is a record, a tagged union a datatype, an integer a word of its
  width; a function takes and returns the state it changes.  Errors and early returns are values: a
  parser returns a sum, an exit code is an integer.  The library, the kernel and the hardware are
  arguments: what mmap and fork return, which events waitpid reports, what is in memory between a
  fill and its verification, what a processor computes.  A theorem that needs something of them
  says so in its assumptions, and its witness gives a concrete instance.

  \<^bold>\<open>Bounds, fuel and endless loops.\<close>  Loops with a measure are total functions.  Loops that may not end are
  \<open>partial_function (option)\<close> or run on a finite list of events: \<open>None\<close> then means that the code does not
  return (a cycle in the process table, children that are never reported).  Fuel is used in four
  places: the turns of the child of the memory tests, which last as long as it is not told to stop (a
  result stays the same with more fuel, and \<open>2 * N + 3\<close> is enough when the flag is off from its read
  \<open>N\<close> on, since each turn reads it); the retry loop of \<open>stress_bitgen_hamming64\<close>, where the theorem \<open>hamming_weight\<close> states when it
  returns and \<open>zero_half_seed\<close> when it does not; the search for a prime, where the fuel is the
  loop's own bound of 2000; and the runs of the two mutual exclusion algorithms, where it is the
  number of steps observed.

  \<^bold>\<open>What is shown.\<close>  The properties carry their number in the text before them.  Composition: a
  parallel run returns, passes its own check of the metrics and exits as its stressors determine
  (Stressor_Run).  Safety of verdicts: on sound hardware the verifying stressors report nothing
  (SparseMatrix, Addrspace, Peterson, Dekker, Vm_Run, Sort_Run, Sort_Search, Hsearch), and a fault is reported exactly when a checked
  place differs.  Functional descriptions: parsers accept exactly the documented strings, the tables
  are maps and sets, the generators draw the documented streams, the checksum is the Castagnoli
  polynomial.  Errors found on the way are theorems too: options that are lost, a lookup that loops,
  corruption that is reported as a missing resource, a seed that hangs the generator.

  \<^bold>\<open>Not modelled.\<close>  Everything that only calls the kernel or a library: the file system, network, signal,
  scheduler, device and mapping stressors, the monitors that print counters, NUMA and affinity, and
  floating-point and vector stressors, whose checks compare with constants of the compiler's own
  arithmetic.  Of the modelled files, output formatting, the Judy and BSD tree stores, clock-based
  seeding, rate metrics, option tables and help texts are left out, as are the waiting loop of
  \<open>--aggressive\<close>, the jump out of a sort at a SIGALRM and, as anything but an event, the alarm of
  \<open>--abort\<close>.  Of the sorting and searching
  stressors the C library's own routines, the bitonic and radix sorts and the tree search are left out,
  and failing allocations but for the merge sort and the linear search.
\<close>

end
